(* ===== verification/Inferno_Base.thy ===== *)
theory Inferno_Base
  imports "HOL-Library.Word"
begin

unbundle bit_operations_syntax

text \<open>
  Shared material of the development.  The model is that of the Linux/amd64 build
  (\<^verbatim>\<open>src/Linux/amd64/include/lib9.h\<close>): \<open>int\<close> and \<open>uint\<close> are 32 bits, \<open>long\<close>, \<open>ulong\<close>,
  \<open>WORD\<close> and pointers 64 bits, \<open>Rune\<close> and \<open>mpdigit\<close> 32 bits.

  The theory holds the names of the machine types, the byte-memory primitives of the C library that
  several components use (\<open>memmove\<close>, reading a NUL-terminated string), the byte order macros of
  \<^verbatim>\<open>src/include/fcall.h\<close>, two interfaces for binary formats (\<open>fixed_codec\<close>,
  \<open>stream_codec\<close>), the interface of invariant-preserving step systems, and the lemmas on
  words and lists used throughout.
\<close>

section \<open>Machine types\<close>

type_synonym byte = "8 word"
type_synonym u16 = "16 word"
type_synonym u32 = "32 word"
type_synonym u64 = "64 word"

text \<open>
  Collections: \<open>wire\<close> holds the length and read-back facts of byte formats, \<open>vmdefs\<close> the
  definitions unfolded when a machine step is computed.
\<close>

named_theorems wire
named_theorems vmdefs

section \<open>Memory primitives of the C library\<close>

text \<open>A C string is what stands before the first NUL byte.\<close>

definition cstring :: "byte list \<Rightarrow> byte list" where
  "cstring p = takeWhile (\<lambda>c. c \<noteq> 0) p"

definition nonul :: "byte list \<Rightarrow> bool" where
  "nonul s \<longleftrightarrow> 0 \<notin> set s"

text \<open>\<open>memmove buf dst src n\<close> inside one buffer; source and destination may overlap.\<close>

definition memmove :: "'a list \<Rightarrow> nat \<Rightarrow> nat \<Rightarrow> nat \<Rightarrow> 'a list" where
  "memmove buf dst src n = take dst buf @ take n (drop src buf) @ drop (dst + n) buf"

lemma cstring_nul [simp]: "nonul s \<Longrightarrow> cstring (s @ 0 # r) = s"
  unfolding cstring_def nonul_def by (induction s) auto

lemma cstring_nonul [simp]: "nonul s \<Longrightarrow> cstring s = s"
  unfolding cstring_def nonul_def by (induction s) auto

lemma nonul_cstring [simp]: "nonul (cstring s)"
  unfolding cstring_def nonul_def by (auto dest: set_takeWhileD)

lemma length_memmove:
  "dst + n \<le> length buf \<Longrightarrow> src + n \<le> length buf \<Longrightarrow> length (memmove buf dst src n) = length buf"
  by (simp add: memmove_def)

section \<open>Byte order\<close>

text \<open>
  The macros of \<open>fcall.h\<close>.  A C pointer into a byte buffer is the suffix of the buffer that
  starts there; \<open>PBITn\<close> gives the bytes it stores.  The argument of \<open>PBITn\<close> may have any
  integer type, and only its low \<open>n\<close> bits matter.  In \<open>GBIT64\<close> the high half is an \<open>int\<close>
  that is converted to \<open>s64\<close> (sign extension) before the shift.
\<close>

definition GBIT8 :: "byte list \<Rightarrow> byte" where
  "GBIT8 p = p ! 0"

definition GBIT16 :: "byte list \<Rightarrow> u32" where
  "GBIT16 p = ucast (p ! 0) OR push_bit 8 (ucast (p ! 1))"

definition GBIT32 :: "byte list \<Rightarrow> u32" where
  "GBIT32 p = ucast (p ! 0) OR push_bit 8 (ucast (p ! 1)) OR push_bit 16 (ucast (p ! 2))
     OR push_bit 24 (ucast (p ! 3))"

definition GBIT64 :: "byte list \<Rightarrow> u64" where
  "GBIT64 p =
     ucast (ucast (p ! 0) OR push_bit 8 (ucast (p ! 1)) OR push_bit 16 (ucast (p ! 2))
       OR push_bit 24 (ucast (p ! 3)) :: u32)
     OR push_bit 32 (scast (ucast (p ! 4) OR push_bit 8 (ucast (p ! 5)) OR push_bit 16 (ucast (p ! 6))
       OR push_bit 24 (ucast (p ! 7)) :: u32))"

definition PBIT8 :: "'a::len word \<Rightarrow> byte list" where
  "PBIT8 v = [ucast v]"

definition PBIT16 :: "'a::len word \<Rightarrow> byte list" where
  "PBIT16 v = [ucast v, ucast (drop_bit 8 v)]"

definition PBIT32 :: "'a::len word \<Rightarrow> byte list" where
  "PBIT32 v = [ucast v, ucast (drop_bit 8 v), ucast (drop_bit 16 v), ucast (drop_bit 24 v)]"

definition PBIT64 :: "'a::len word \<Rightarrow> byte list" where
  "PBIT64 v = [ucast v, ucast (drop_bit 8 v), ucast (drop_bit 16 v), ucast (drop_bit 24 v),
     ucast (drop_bit 32 v), ucast (drop_bit 40 v), ucast (drop_bit 48 v), ucast (drop_bit 56 v)]"

abbreviation (input) BIT8SZ :: nat where "BIT8SZ \<equiv> 1"
abbreviation (input) BIT16SZ :: nat where "BIT16SZ \<equiv> 2"
abbreviation (input) BIT32SZ :: nat where "BIT32SZ \<equiv> 4"
abbreviation (input) BIT64SZ :: nat where "BIT64SZ \<equiv> 8"

lemma length_PBIT [simp, wire]:
  "length (PBIT8 v) = 1" "length (PBIT16 v) = 2" "length (PBIT32 v) = 4" "length (PBIT64 v) = 8"
  by (simp_all add: PBIT8_def PBIT16_def PBIT32_def PBIT64_def)

lemma GBIT8_PBIT8 [simp, wire]: "GBIT8 (PBIT8 v @ r) = ucast v"
  by (simp add: GBIT8_def PBIT8_def)

text \<open>Reassembling a word from its bytes.\<close>

lemma u32_of_bytes:
  "ucast (ucast w :: byte) OR push_bit 8 (ucast (ucast (drop_bit 8 w) :: byte))
     OR push_bit 16 (ucast (ucast (drop_bit 16 w) :: byte))
     OR push_bit 24 (ucast (ucast (drop_bit 24 w) :: byte)) = (w :: u32)"
proof (rule bit_word_eqI)
  fix n assume "n < LENGTH(32)"
  then consider "n < 8" | "8 \<le> n" "n < 16" | "16 \<le> n" "n < 24" | "24 \<le> n" "n < 32"
    by fastforce
  then show "bit (ucast (ucast w :: byte) OR push_bit 8 (ucast (ucast (drop_bit 8 w) :: byte))
     OR push_bit 16 (ucast (ucast (drop_bit 16 w) :: byte))
     OR push_bit 24 (ucast (ucast (drop_bit 24 w) :: byte)) :: u32) n = bit w n"
    by cases (auto simp: bit_simps)
qed

lemma byte_lo: "k + 8 \<le> 32 \<Longrightarrow>
    (ucast (drop_bit k (v :: 'a::len word)) :: byte) = ucast (drop_bit k (ucast v :: u32))"
  by (intro bit_word_eqI) (auto simp: bit_simps dest: bit_imp_le_length)

lemma byte_hi: "k + 8 \<le> 32 \<Longrightarrow> (ucast (drop_bit (32 + k) (v :: 'a::len word)) :: byte)
    = ucast (drop_bit k (ucast (drop_bit 32 v) :: u32))"
  by (intro bit_word_eqI) (auto simp: bit_simps add.assoc dest: bit_imp_le_length)

lemma u64_of_u32: "ucast (ucast v :: u32) OR push_bit 32 (scast (ucast (drop_bit 32 v) :: u32))
    = (ucast v :: u64)"
  by (rule bit_word_eqI) (auto simp: bit_simps)

lemma GBIT16_PBIT16 [simp, wire]: "GBIT16 (PBIT16 v @ r) = ucast (ucast v :: u16)"
  unfolding GBIT16_def PBIT16_def
  by (rule bit_word_eqI) (auto simp: bit_simps)

lemma PBIT32_u32: "PBIT32 v = PBIT32 (ucast v :: u32)"
  using byte_lo [of 0 v] byte_lo [of 8 v] byte_lo [of 16 v] byte_lo [of 24 v]
  by (simp add: PBIT32_def)

lemma GBIT32_PBIT32 [simp, wire]: "GBIT32 (PBIT32 v @ r) = ucast v"
proof -
  have "GBIT32 (PBIT32 w @ r) = w" for w :: u32
    using u32_of_bytes [of w] by (simp add: GBIT32_def PBIT32_def)
  then show ?thesis by (subst PBIT32_u32)
qed

lemma PBIT64_split: "PBIT64 v = PBIT32 (ucast v :: u32) @ PBIT32 (ucast (drop_bit 32 v) :: u32)"
  using byte_lo [of 0 v] byte_lo [of 8 v] byte_lo [of 16 v] byte_lo [of 24 v]
    byte_hi [of 0 v] byte_hi [of 8 v] byte_hi [of 16 v] byte_hi [of 24 v]
  by (simp add: PBIT32_def PBIT64_def)

lemma GBIT64_GBIT32: "GBIT64 p = ucast (GBIT32 p) OR push_bit 32 (scast (GBIT32 (drop 4 p)))"
  if "8 \<le> length p"
  using that by (simp add: GBIT64_def GBIT32_def)

lemma GBIT64_PBIT64 [simp, wire]: "GBIT64 (PBIT64 v @ r) = ucast v"
  by (simp add: GBIT64_GBIT32 PBIT64_split u64_of_u32)

lemma ucast_u16_u32: "v < 65536 \<Longrightarrow> ucast (ucast v :: u16) = (v :: u32)"
  by (simp add: word_unat_eq_iff unsigned_ucast_eq take_bit_eq_mod word_less_nat_alt unat_mod)

lemma uint_less_unat: "uint (w :: 'l::len word) < int n \<longleftrightarrow> unat w < n"
  "uint w \<le> int n \<longleftrightarrow> unat w \<le> n"
  by (simp_all only: uint_nat of_nat_less_iff of_nat_le_iff)

section \<open>Reasoning bit by bit\<close>

text \<open>
  Equality of words as a finite conjunction over their bits: the simplifier decides it with
  \<open>bit_simps\<close>.
\<close>

lemma all_less_8: "(\<forall>n<8::nat. P n) \<longleftrightarrow> P 0 \<and> P 1 \<and> P 2 \<and> P 3 \<and> P 4 \<and> P 5 \<and> P 6 \<and> P 7"
proof -
  have "n < (8::nat) \<Longrightarrow> n = 0 \<or> n = 1 \<or> n = 2 \<or> n = 3 \<or> n = 4 \<or> n = 5 \<or> n = 6 \<or> n = 7" for n
    by presburger
  then show ?thesis by auto
qed

lemma all_less_32: "(\<forall>n<32::nat. P n)
    \<longleftrightarrow> (\<forall>m<8. P m) \<and> (\<forall>m<8. P (m + 8)) \<and> (\<forall>m<8. P (m + 16)) \<and> (\<forall>m<8. P (m + 24))"
    (is "?l \<longleftrightarrow> ?r")
proof
  assume ?r
  have "n < 8 \<or> (\<exists>m<8. n = m + 8) \<or> (\<exists>m<8. n = m + 16) \<or> (\<exists>m<8. n = m + 24)" if "n < 32" for n :: nat
    using that by presburger
  with \<open>?r\<close> show ?l by metis
qed auto

lemma u32_eq_bits: "(a :: u32) = b \<longleftrightarrow> (\<forall>n<32. bit a n = bit b n)"
  by (auto simp: bit_eq_iff)

lemma byte_eq_bits: "(a :: byte) = b \<longleftrightarrow> (\<forall>n<8. bit a n = bit b n)"
  by (auto simp: bit_eq_iff)

lemma byte_bit_high: "8 \<le> n \<Longrightarrow> \<not> bit (b :: byte) n"
  using bit_imp_le_length [of b n] by auto

lemmas u32_bits = u32_eq_bits all_less_32 all_less_8 bit_simps byte_bit_high
lemmas byte_bits = byte_eq_bits all_less_8 bit_simps byte_bit_high

section \<open>Interfaces for binary formats\<close>

text \<open>
  A stream format: \<open>get\<close> takes one value off the front of the input and gives the rest back, and
  reads back what \<open>put\<close> wrote, for every value that satisfies \<open>ok\<close>.  Lists of values and unique
  decodability follow once for all formats.
\<close>

fun get_many :: "(byte list \<Rightarrow> ('a \<times> byte list) option) \<Rightarrow> nat \<Rightarrow> byte list
    \<Rightarrow> ('a list \<times> byte list) option" where
  "get_many get 0 xs = Some ([], xs)"
| "get_many get (Suc n) xs =
     (case get xs of None \<Rightarrow> None
      | Some (v, r) \<Rightarrow> map_option (\<lambda>(vs, r'). (v # vs, r')) (get_many get n r))"

locale stream_codec =
  fixes put :: "'a \<Rightarrow> byte list"
    and get :: "byte list \<Rightarrow> ('a \<times> byte list) option"
    and ok :: "'a \<Rightarrow> bool"
  assumes get_put: "ok v \<Longrightarrow> get (put v @ r) = Some (v, r)"
begin

lemma get_put_last: "ok v \<Longrightarrow> get (put v) = Some (v, [])"
  using get_put [of v "[]"] by simp

lemma put_prefix_free:
  assumes "ok v" "ok w" "put v @ r = put w @ s"
  shows "v = w \<and> r = s"
proof -
  have "Some (v, r) = get (put w @ s)" using get_put [OF assms(1)] assms(3) by metis
  then show ?thesis using get_put [OF assms(2)] by simp
qed

lemma get_many_put:
  "list_all ok vs \<Longrightarrow> get_many get (length vs) (concat (map put vs) @ r) = Some (vs, r)"
  by (induction vs) (auto simp: get_put)

lemma put_list_inject:
  assumes "list_all ok vs" "list_all ok ws" "length vs = length ws"
    and "concat (map put vs) = concat (map put ws)"
  shows "vs = ws"
proof -
  have "Some (vs, []) = get_many get (length ws) (concat (map put ws) @ [])"
    using get_many_put [OF assms(1), of "[]"] assms(3,4) by metis
  then show ?thesis using get_many_put [OF assms(2), of "[]"] by simp
qed

end

text \<open>
  A fixed-width field: \<open>get\<close> reads the value at a pointer and never fails, the caller having
  checked that \<open>n\<close> bytes are left.  Every such field is a stream format.
\<close>

locale fixed_codec =
  fixes put :: "'a \<Rightarrow> byte list"
    and get :: "byte list \<Rightarrow> 'a"
    and width :: nat
    and ok :: "'a \<Rightarrow> bool"
  assumes length_put: "length (put v) = width"
    and read_put: "ok v \<Longrightarrow> get (put v @ r) = v"
begin

lemma read_at: "ok v \<Longrightarrow> get (drop (length pre) (pre @ put v @ r)) = v"
  by (simp add: read_put)

lemma rest_at: "drop (length pre + width) (pre @ put v @ r) = r"
  by (simp add: length_put)

end

sublocale fixed_codec \<subseteq> stream: stream_codec put
  "\<lambda>xs. if length xs < width then None else Some (get xs, drop width xs)" ok
  by unfold_locales (simp add: length_put read_put)

interpretation bit8: fixed_codec "PBIT8 :: byte \<Rightarrow> byte list" GBIT8 1 "\<lambda>_. True"
  by unfold_locales simp_all

interpretation bit16: fixed_codec "PBIT16 :: u32 \<Rightarrow> byte list" GBIT16 2 "\<lambda>v. v < 65536"
  by unfold_locales (simp_all add: ucast_u16_u32)

interpretation bit32: fixed_codec "PBIT32 :: u32 \<Rightarrow> byte list" GBIT32 4 "\<lambda>_. True"
  by unfold_locales simp_all

interpretation bit64: fixed_codec "PBIT64 :: u64 \<Rightarrow> byte list" GBIT64 8 "\<lambda>_. True"
  by unfold_locales simp_all

section \<open>Step systems\<close>

text \<open>
  A component with steps: an invariant that the initial states have and every step keeps holds in
  every reachable state.
\<close>

locale step_system =
  fixes init :: "'s \<Rightarrow> bool"
    and step :: "'s \<Rightarrow> 's \<Rightarrow> bool"
    and inv :: "'s \<Rightarrow> bool"
  assumes init_inv: "init s \<Longrightarrow> inv s"
    and step_inv: "inv s \<Longrightarrow> step s t \<Longrightarrow> inv t"
begin

lemma steps_inv: "step\<^sup>*\<^sup>* s t \<Longrightarrow> inv s \<Longrightarrow> inv t"
  by (induction rule: rtranclp_induct) (auto intro: step_inv)

lemma reachable_inv: "init s \<Longrightarrow> step\<^sup>*\<^sup>* s t \<Longrightarrow> inv t"
  by (blast intro: steps_inv init_inv)

end

end
