(* ===== verification/Styx_Fcall.thy ===== *)
theory Styx_Fcall
  imports Inferno_Base
begin

text \<open>
  The 9P/Styx message codec: \<^verbatim>\<open>src/include/fcall.h\<close>, \<^verbatim>\<open>src/lib9/convS2M.c\<close> (struct to message) and
  \<^verbatim>\<open>src/lib9/convM2S.c\<close> (message to struct).

  An \<open>Fcall\<close> record has the fields of the C struct.  A \<open>char*\<close> is \<open>None\<close> for \<open>nil\<close>, otherwise
  the C string it points to.  A pointer into the message buffer is an offset \<open>p\<close>; the memory it
  points to is \<open>drop p buf\<close>.  \<open>gstring\<close> moves a string down over its count in the buffer itself, so
  the buffer is part of the state of the parser.  A call that returns 0 gives \<open>Inl Zero\<close>; a read past
  the end of the fixed array \<open>wname\<close> is \<open>Inl Overrun\<close>.
\<close>

section \<open>Data\<close>

record Qid =
  q_path :: u64
  q_vers :: u32
  q_type :: byte

type_synonym cptr = "byte list option"

record Fcall =
  f_type :: byte
  f_fid :: u64
  f_tag :: u16
  f_msize :: u64
  f_version :: cptr
  f_oldtag :: u16
  f_ename :: cptr
  f_qid :: Qid
  f_iounit :: u64
  f_aqid :: Qid
  f_afid :: u64
  f_uname :: cptr
  f_aname :: cptr
  f_perm :: u64
  f_name :: cptr
  f_mode :: byte
  f_newfid :: u64
  f_nwname :: u16
  f_wname :: "cptr list"
  f_nwqid :: u16
  f_wqid :: "Qid list"
  f_offset :: u64
  f_count :: u64
  f_data :: "byte list"
  f_nstat :: u16
  f_stat :: "byte list"

abbreviation (input) MAXWELEM :: nat where "MAXWELEM \<equiv> 16"
abbreviation (input) QIDSZ :: nat where "QIDSZ \<equiv> 13"

text \<open>The message types of \<open>fcall.h\<close>.\<close>

abbreviation (input) Tversion :: byte where "Tversion \<equiv> 100"
abbreviation (input) Rversion :: byte where "Rversion \<equiv> 101"
abbreviation (input) Tauth :: byte where "Tauth \<equiv> 102"
abbreviation (input) Rauth :: byte where "Rauth \<equiv> 103"
abbreviation (input) Tattach :: byte where "Tattach \<equiv> 104"
abbreviation (input) Rattach :: byte where "Rattach \<equiv> 105"
abbreviation (input) Rerror :: byte where "Rerror \<equiv> 107"
abbreviation (input) Tflush :: byte where "Tflush \<equiv> 108"
abbreviation (input) Rflush :: byte where "Rflush \<equiv> 109"
abbreviation (input) Twalk :: byte where "Twalk \<equiv> 110"
abbreviation (input) Rwalk :: byte where "Rwalk \<equiv> 111"
abbreviation (input) Topen :: byte where "Topen \<equiv> 112"
abbreviation (input) Ropen :: byte where "Ropen \<equiv> 113"
abbreviation (input) Tcreate :: byte where "Tcreate \<equiv> 114"
abbreviation (input) Rcreate :: byte where "Rcreate \<equiv> 115"
abbreviation (input) Tread :: byte where "Tread \<equiv> 116"
abbreviation (input) Rread :: byte where "Rread \<equiv> 117"
abbreviation (input) Twrite :: byte where "Twrite \<equiv> 118"
abbreviation (input) Rwrite :: byte where "Rwrite \<equiv> 119"
abbreviation (input) Tclunk :: byte where "Tclunk \<equiv> 120"
abbreviation (input) Rclunk :: byte where "Rclunk \<equiv> 121"
abbreviation (input) Tremove :: byte where "Tremove \<equiv> 122"
abbreviation (input) Rremove :: byte where "Rremove \<equiv> 123"
abbreviation (input) Tstat :: byte where "Tstat \<equiv> 124"
abbreviation (input) Rstat :: byte where "Rstat \<equiv> 125"
abbreviation (input) Twstat :: byte where "Twstat \<equiv> 126"
abbreviation (input) Rwstat :: byte where "Rwstat \<equiv> 127"

datatype conv_error = Zero | Overrun

section \<open>Struct to message: convS2M.c\<close>

definition strval :: "cptr \<Rightarrow> byte list" where
  "strval s = (case s of None \<Rightarrow> [] | Some c \<Rightarrow> c)"

definition pstring :: "cptr \<Rightarrow> byte list" where
  "pstring s = (case s of None \<Rightarrow> PBIT16 (0 :: u32)
     | Some c \<Rightarrow> PBIT16 (of_nat (length c) :: u32) @ c)"

definition pqid :: "Qid \<Rightarrow> byte list" where
  "pqid q = PBIT8 (q_type q) @ PBIT32 (q_vers q) @ PBIT64 (q_path q)"

definition stringsz :: "cptr \<Rightarrow> u32" where
  "stringsz s = (case s of None \<Rightarrow> 2 | Some c \<Rightarrow> 2 + of_nat (length c))"

text \<open>
  \<open>sizeS2M\<close> computes in \<open>uint\<close>: the sums wrap at 32 bits, and the 64-bit \<open>count\<close> is truncated
  when it is added.  The loop over \<open>wname\<close> has no bounds check.
\<close>

definition sizeS2M :: "Fcall \<Rightarrow> conv_error + u32" where
  "sizeS2M f = (let t = f_type f; n = 4 + 1 + 2 in
     if t = Tversion then Inr (n + 4 + stringsz (f_version f))
     else if t = Tflush then Inr (n + 2)
     else if t = Tauth then Inr (n + 4 + stringsz (f_uname f) + stringsz (f_aname f))
     else if t = Tattach then Inr (n + 4 + 4 + stringsz (f_uname f) + stringsz (f_aname f))
     else if t = Twalk then
       (if length (f_wname f) < unat (f_nwname f) then Inl Overrun
        else Inr (n + 4 + 4 + 2 + sum_list (map stringsz (take (unat (f_nwname f)) (f_wname f)))))
     else if t = Topen then Inr (n + 4 + 1)
     else if t = Tcreate then Inr (n + 4 + stringsz (f_name f) + 4 + 1)
     else if t = Tread then Inr (n + 4 + 8 + 4)
     else if t = Twrite then Inr (n + 4 + 8 + 4 + ucast (f_count f))
     else if t = Tclunk \<or> t = Tremove then Inr (n + 4)
     else if t = Tstat then Inr (n + 4)
     else if t = Twstat then Inr (n + 4 + 2 + ucast (f_nstat f))
     else if t = Rversion then Inr (n + 4 + stringsz (f_version f))
     else if t = Rerror then Inr (n + stringsz (f_ename f))
     else if t = Rflush then Inr n
     else if t = Rauth then Inr (n + 13)
     else if t = Rattach then Inr (n + 13)
     else if t = Rwalk then Inr (n + 2 + ucast (f_nwqid f) * 13)
     else if t = Ropen \<or> t = Rcreate then Inr (n + 13 + 4)
     else if t = Rread then Inr (n + 4 + ucast (f_count f))
     else if t = Rwrite then Inr (n + 4)
     else if t = Rclunk then Inr n
     else if t = Rremove then Inr n
     else if t = Rstat then Inr (n + 2 + ucast (f_nstat f))
     else if t = Rwstat then Inr n
     else Inr 0)"

text \<open>The bytes the switch of \<open>convS2M\<close> writes, for the T-messages and for the R-messages.\<close>

definition s2m_T :: "Fcall \<Rightarrow> conv_error + byte list" where
  "s2m_T f = (let t = f_type f in
     if t = Tversion then Inr (PBIT32 (f_msize f) @ pstring (f_version f))
     else if t = Tflush then Inr (PBIT16 (f_oldtag f))
     else if t = Tauth then Inr (PBIT32 (f_afid f) @ pstring (f_uname f) @ pstring (f_aname f))
     else if t = Tattach then
       Inr (PBIT32 (f_fid f) @ PBIT32 (f_afid f) @ pstring (f_uname f) @ pstring (f_aname f))
     else if t = Twalk then
       (if unat (f_nwname f) > MAXWELEM then Inl Zero
        else Inr (PBIT32 (f_fid f) @ PBIT32 (f_newfid f) @ PBIT16 (f_nwname f)
          @ concat (map pstring (take (unat (f_nwname f)) (f_wname f)))))
     else if t = Topen then Inr (PBIT32 (f_fid f) @ PBIT8 (f_mode f))
     else if t = Tcreate then
       Inr (PBIT32 (f_fid f) @ pstring (f_name f) @ PBIT32 (f_perm f) @ PBIT8 (f_mode f))
     else if t = Tread then Inr (PBIT32 (f_fid f) @ PBIT64 (f_offset f) @ PBIT32 (f_count f))
     else if t = Twrite then
       Inr (PBIT32 (f_fid f) @ PBIT64 (f_offset f) @ PBIT32 (f_count f)
         @ take (unat (f_count f)) (f_data f))
     else if t = Tclunk \<or> t = Tremove then Inr (PBIT32 (f_fid f))
     else if t = Tstat then Inr (PBIT32 (f_fid f))
     else if t = Twstat then
       Inr (PBIT32 (f_fid f) @ PBIT16 (f_nstat f) @ take (unat (f_nstat f)) (f_stat f))
     else Inl Zero)"

definition s2m_R :: "Fcall \<Rightarrow> conv_error + byte list" where
  "s2m_R f = (let t = f_type f in
     if t = Rversion then Inr (PBIT32 (f_msize f) @ pstring (f_version f))
     else if t = Rerror then Inr (pstring (f_ename f))
     else if t = Rflush then Inr []
     else if t = Rauth then Inr (pqid (f_aqid f))
     else if t = Rattach then Inr (pqid (f_qid f))
     else if t = Rwalk then
       (if unat (f_nwqid f) > MAXWELEM then Inl Zero
        else Inr (PBIT16 (f_nwqid f) @ concat (map pqid (take (unat (f_nwqid f)) (f_wqid f)))))
     else if t = Ropen \<or> t = Rcreate then Inr (pqid (f_qid f) @ PBIT32 (f_iounit f))
     else if t = Rread then
       Inr (PBIT32 (f_count f) @ take (unat (f_count f)) (f_data f))
     else if t = Rwrite then Inr (PBIT32 (f_count f))
     else if t = Rclunk then Inr []
     else if t = Rremove then Inr []
     else if t = Rstat then Inr (PBIT16 (f_nstat f) @ take (unat (f_nstat f)) (f_stat f))
     else if t = Rwstat then Inr []
     else Inl Zero)"

text \<open>\<open>even\<close> type numbers are requests (\<open>T\<close>), odd ones replies (\<open>R\<close>).\<close>

definition s2m_switch :: "Fcall \<Rightarrow> conv_error + byte list" where
  "s2m_switch f = (if even (uint (f_type f)) then s2m_T f else s2m_R f)"

definition convS2M :: "Fcall \<Rightarrow> u32 \<Rightarrow> conv_error + byte list" where
  "convS2M f nap = (case sizeS2M f of
     Inl e \<Rightarrow> Inl e
   | Inr sz \<Rightarrow>
      if sz = 0 then Inl Zero
      else if sz > nap then Inl Zero
      else (case s2m_switch f of
         Inl e \<Rightarrow> Inl e
       | Inr body \<Rightarrow>
          (let msg = PBIT32 sz @ PBIT8 (f_type f) @ PBIT16 (f_tag f) @ body in
           if unat sz \<noteq> length msg then Inl Zero else Inr msg)))"

section \<open>Message to struct: convM2S.c\<close>

text \<open>
  \<open>gstring\<close> gives the new buffer, the pointer past the string and the string.  \<open>p += BIT16SZ - 1\<close>
  leaves the pointer on the second byte of the count, the string is moved down by one byte, and its
  NUL takes the place of its last byte.
\<close>

definition gstring :: "byte list \<Rightarrow> nat \<Rightarrow> nat \<Rightarrow> (byte list \<times> nat \<times> byte list) option" where
  "gstring buf p ep =
     (if p + BIT16SZ > ep then None
      else let n = unat (GBIT16 (drop p buf)); p1 = p + (BIT16SZ - 1) in
        if p1 + n + 1 > ep then None
        else let buf' = (memmove buf p1 (p1 + 1) n)[p1 + n := 0] in
          Some (buf', p1 + n + 1, cstring (drop p1 buf')))"

definition gqid :: "byte list \<Rightarrow> nat \<Rightarrow> nat \<Rightarrow> (nat \<times> Qid) option" where
  "gqid buf p ep =
     (if p + QIDSZ > ep then None
      else Some (p + QIDSZ,
        \<lparr>q_path = GBIT64 (drop (p + 5) buf), q_vers = GBIT32 (drop (p + 1) buf),
         q_type = GBIT8 (drop p buf)\<rparr>))"

text \<open>The loops of \<open>Twalk\<close> and \<open>Rwalk\<close>: \<open>i\<close> is the index, the second argument what is left.\<close>

fun gwnames :: "nat \<Rightarrow> nat \<Rightarrow> byte list \<Rightarrow> nat \<Rightarrow> nat \<Rightarrow> Fcall
    \<Rightarrow> (Fcall \<times> byte list \<times> nat) option" where
  "gwnames i 0 buf p ep f = Some (f, buf, p)"
| "gwnames i (Suc k) buf p ep f =
     (case gstring buf p ep of
        None \<Rightarrow> None
      | Some (buf', p', s) \<Rightarrow>
          gwnames (Suc i) k buf' p' ep (f\<lparr>f_wname := (f_wname f)[i := Some s]\<rparr>))"

fun gwqids :: "nat \<Rightarrow> nat \<Rightarrow> byte list \<Rightarrow> nat \<Rightarrow> nat \<Rightarrow> Fcall
    \<Rightarrow> (Fcall \<times> byte list \<times> nat) option" where
  "gwqids i 0 buf p ep f = Some (f, buf, p)"
| "gwqids i (Suc k) buf p ep f =
     (case gqid buf p ep of
        None \<Rightarrow> None
      | Some (p', q) \<Rightarrow> gwqids (Suc i) k buf p' ep (f\<lparr>f_wqid := (f_wqid f)[i := q]\<rparr>))"

definition m2s_T :: "byte list \<Rightarrow> nat \<Rightarrow> nat \<Rightarrow> Fcall \<Rightarrow> (Fcall \<times> byte list \<times> nat) option" where
  "m2s_T buf p ep f = (let t = f_type f; g32 = (\<lambda>p. ucast (GBIT32 (drop p buf)) :: u64) in
     if t = Tversion then
       (if p + 4 > ep then None
        else (case gstring buf (p + 4) ep of
            None \<Rightarrow> None
          | Some (b, p', s) \<Rightarrow> Some (f\<lparr>f_msize := g32 p, f_version := Some s\<rparr>, b, p')))
     else if t = Tflush then
       (if p + 2 > ep then None
        else Some (f\<lparr>f_oldtag := ucast (GBIT16 (drop p buf))\<rparr>, buf, p + 2))
     else if t = Tauth then
       (if p + 4 > ep then None
        else (case gstring buf (p + 4) ep of
            None \<Rightarrow> None
          | Some (b, p', s) \<Rightarrow> (case gstring b p' ep of
              None \<Rightarrow> None
            | Some (b', p'', a) \<Rightarrow>
                Some (f\<lparr>f_afid := g32 p, f_uname := Some s, f_aname := Some a\<rparr>, b', p''))))
     else if t = Tattach then
       (if p + 4 > ep then None
        else if p + 4 + 4 > ep then None
        else (case gstring buf (p + 8) ep of
            None \<Rightarrow> None
          | Some (b, p', s) \<Rightarrow> (case gstring b p' ep of
              None \<Rightarrow> None
            | Some (b', p'', a) \<Rightarrow>
                Some (f\<lparr>f_fid := g32 p, f_afid := g32 (p + 4), f_uname := Some s,
                  f_aname := Some a\<rparr>, b', p''))))
     else if t = Twalk then
       (if p + 4 + 4 + 2 > ep then None
        else let n = ucast (GBIT16 (drop (p + 8) buf)) :: u16 in
          if unat n > MAXWELEM then None
          else gwnames 0 (unat n) buf (p + 10) ep
            (f\<lparr>f_fid := g32 p, f_newfid := g32 (p + 4), f_nwname := n\<rparr>))
     else if t = Topen then
       (if p + 4 + 1 > ep then None
        else Some (f\<lparr>f_fid := g32 p, f_mode := GBIT8 (drop (p + 4) buf)\<rparr>, buf, p + 5))
     else if t = Tcreate then
       (if p + 4 > ep then None
        else (case gstring buf (p + 4) ep of
            None \<Rightarrow> None
          | Some (b, p', s) \<Rightarrow>
              if p' + 4 + 1 > ep then None
              else Some (f\<lparr>f_fid := g32 p, f_name := Some s,
                f_perm := ucast (GBIT32 (drop p' b)), f_mode := GBIT8 (drop (p' + 4) b)\<rparr>,
                b, p' + 5)))
     else if t = Tread then
       (if p + 4 + 8 + 4 > ep then None
        else Some (f\<lparr>f_fid := g32 p, f_offset := GBIT64 (drop (p + 4) buf),
          f_count := g32 (p + 12)\<rparr>, buf, p + 16))
     else if t = Twrite then
       (if p + 4 + 8 + 4 > ep then None
        else let c = g32 (p + 12) in
          if p + 16 + unat c > ep then None
          else Some (f\<lparr>f_fid := g32 p, f_offset := GBIT64 (drop (p + 4) buf), f_count := c,
            f_data := take (unat c) (drop (p + 16) buf)\<rparr>, buf, p + 16 + unat c))
     else if t = Tclunk \<or> t = Tremove then
       (if p + 4 > ep then None else Some (f\<lparr>f_fid := g32 p\<rparr>, buf, p + 4))
     else if t = Tstat then
       (if p + 4 > ep then None else Some (f\<lparr>f_fid := g32 p\<rparr>, buf, p + 4))
     else if t = Twstat then
       (if p + 4 + 2 > ep then None
        else let n = ucast (GBIT16 (drop (p + 4) buf)) :: u16 in
          if p + 6 + unat n > ep then None
          else Some (f\<lparr>f_fid := g32 p, f_nstat := n,
            f_stat := take (unat n) (drop (p + 6) buf)\<rparr>, buf, p + 6 + unat n))
     else None)"

definition m2s_R :: "byte list \<Rightarrow> nat \<Rightarrow> nat \<Rightarrow> Fcall \<Rightarrow> (Fcall \<times> byte list \<times> nat) option" where
  "m2s_R buf p ep f = (let t = f_type f; g32 = (\<lambda>p. ucast (GBIT32 (drop p buf)) :: u64) in
     if t = Rversion then
       (if p + 4 > ep then None
        else (case gstring buf (p + 4) ep of
            None \<Rightarrow> None
          | Some (b, p', s) \<Rightarrow> Some (f\<lparr>f_msize := g32 p, f_version := Some s\<rparr>, b, p')))
     else if t = Rerror then
       (case gstring buf p ep of
            None \<Rightarrow> None
          | Some (b, p', s) \<Rightarrow> Some (f\<lparr>f_ename := Some s\<rparr>, b, p'))
     else if t = Rflush then Some (f, buf, p)
     else if t = Rauth then
       (case gqid buf p ep of None \<Rightarrow> None | Some (p', q) \<Rightarrow> Some (f\<lparr>f_aqid := q\<rparr>, buf, p'))
     else if t = Rattach then
       (case gqid buf p ep of None \<Rightarrow> None | Some (p', q) \<Rightarrow> Some (f\<lparr>f_qid := q\<rparr>, buf, p'))
     else if t = Rwalk then
       (if p + 2 > ep then None
        else let n = ucast (GBIT16 (drop p buf)) :: u16 in
          if unat n > MAXWELEM then None
          else gwqids 0 (unat n) buf (p + 2) ep (f\<lparr>f_nwqid := n\<rparr>))
     else if t = Ropen \<or> t = Rcreate then
       (case gqid buf p ep of
            None \<Rightarrow> None
          | Some (p', q) \<Rightarrow>
              if p' + 4 > ep then None
              else Some (f\<lparr>f_qid := q, f_iounit := g32 p'\<rparr>, buf, p' + 4))
     else if t = Rread then
       (if p + 4 > ep then None
        else let c = g32 p in
          if p + 4 + unat c > ep then None
          else Some (f\<lparr>f_count := c, f_data := take (unat c) (drop (p + 4) buf)\<rparr>,
            buf, p + 4 + unat c))
     else if t = Rwrite then
       (if p + 4 > ep then None else Some (f\<lparr>f_count := g32 p\<rparr>, buf, p + 4))
     else if t = Rclunk \<or> t = Rremove then Some (f, buf, p)
     else if t = Rstat then
       (if p + 2 > ep then None
        else let n = ucast (GBIT16 (drop p buf)) :: u16 in
          if p + 2 + unat n > ep then None
          else Some (f\<lparr>f_nstat := n, f_stat := take (unat n) (drop (p + 2) buf)\<rparr>,
            buf, p + 2 + unat n))
     else if t = Rwstat then Some (f, buf, p)
     else None)"

definition m2s_switch :: "byte list \<Rightarrow> nat \<Rightarrow> nat \<Rightarrow> Fcall \<Rightarrow> (Fcall \<times> byte list \<times> nat) option" where
  "m2s_switch buf p ep f = (if even (uint (f_type f)) then m2s_T buf p ep f else m2s_R buf p ep f)"

text \<open>
  \<open>convM2S\<close> on a buffer of \<open>nap\<close> bytes: the size, the struct and the buffer as it is left, or
  \<open>None\<close> where the code returns 0 (the struct is then of no use to the caller).
\<close>

definition convM2S :: "byte list \<Rightarrow> nat \<Rightarrow> Fcall \<Rightarrow> (u32 \<times> Fcall \<times> byte list) option" where
  "convM2S ap nap f =
     (if 4 + 1 + 2 > nap then None
      else let sz = GBIT32 ap in
        if sz < 4 + 1 + 2 then None
        else
          (case m2s_switch ap 7 nap
              (f\<lparr>f_type := GBIT8 (drop 4 ap), f_tag := ucast (GBIT16 (drop 5 ap))\<rparr>) of
             None \<Rightarrow> None
           | Some (f', buf, p) \<Rightarrow>
               if p > nap then None
               else if unat sz = p then Some (sz, f', buf)
               else None))"

end
