(* ===== verification/Styx_Wire.thy ===== *)
theory Styx_Wire
  imports Styx_Fcall
begin

text \<open>
  What the Styx codec promises.  The specification is the type \<open>msg\<close> of 9P messages and its wire
  form \<open>frame\<close>; \<open>msg_of\<close> abstracts an \<open>Fcall\<close> to the message it stands for.  The encoder
  \<open>convS2M\<close> produces exactly \<open>frame\<close>, the decoder \<open>convM2S\<close> reads every \<open>frame\<close> back, and so
  the two are inverse to each other on messages.
\<close>

section \<open>Specification: messages and their wire form\<close>

datatype msg =
    MTversion u32 "byte list" | MTflush u16 | MTauth u32 "byte list" "byte list"
  | MTattach u32 u32 "byte list" "byte list" | MTwalk u32 u32 "byte list list"
  | MTopen u32 byte | MTcreate u32 "byte list" u32 byte | MTread u32 u64 u32
  | MTwrite u32 u64 "byte list" | MTclunk u32 | MTremove u32 | MTstat u32
  | MTwstat u32 "byte list"
  | MRversion u32 "byte list" | MRerror "byte list" | MRflush | MRauth Qid | MRattach Qid
  | MRwalk "Qid list" | MRopen Qid u32 | MRcreate Qid u32 | MRread "byte list" | MRwrite u32
  | MRclunk | MRremove | MRstat "byte list" | MRwstat

fun mtype :: "msg \<Rightarrow> byte" where
  "mtype (MTversion _ _) = Tversion" | "mtype (MTflush _) = Tflush"
| "mtype (MTauth _ _ _) = Tauth" | "mtype (MTattach _ _ _ _) = Tattach"
| "mtype (MTwalk _ _ _) = Twalk" | "mtype (MTopen _ _) = Topen"
| "mtype (MTcreate _ _ _ _) = Tcreate" | "mtype (MTread _ _ _) = Tread"
| "mtype (MTwrite _ _ _) = Twrite" | "mtype (MTclunk _) = Tclunk"
| "mtype (MTremove _) = Tremove" | "mtype (MTstat _) = Tstat"
| "mtype (MTwstat _ _) = Twstat" | "mtype (MRversion _ _) = Rversion"
| "mtype (MRerror _) = Rerror" | "mtype MRflush = Rflush" | "mtype (MRauth _) = Rauth"
| "mtype (MRattach _) = Rattach" | "mtype (MRwalk _) = Rwalk" | "mtype (MRopen _ _) = Ropen"
| "mtype (MRcreate _ _) = Rcreate" | "mtype (MRread _) = Rread" | "mtype (MRwrite _) = Rwrite"
| "mtype MRclunk = Rclunk" | "mtype MRremove = Rremove" | "mtype (MRstat _) = Rstat"
| "mtype MRwstat = Rwstat"

definition wstr :: "byte list \<Rightarrow> byte list" where
  "wstr s = PBIT16 (of_nat (length s) :: u32) @ s"

fun body :: "msg \<Rightarrow> byte list" where
  "body (MTversion m v) = PBIT32 m @ wstr v"
| "body (MTflush t) = PBIT16 t"
| "body (MTauth a u n) = PBIT32 a @ wstr u @ wstr n"
| "body (MTattach f a u n) = PBIT32 f @ PBIT32 a @ wstr u @ wstr n"
| "body (MTwalk f n ws) =
     PBIT32 f @ PBIT32 n @ PBIT16 (of_nat (length ws) :: u16) @ concat (map wstr ws)"
| "body (MTopen f m) = PBIT32 f @ PBIT8 m"
| "body (MTcreate f n p m) = PBIT32 f @ wstr n @ PBIT32 p @ PBIT8 m"
| "body (MTread f o' c) = PBIT32 f @ PBIT64 o' @ PBIT32 c"
| "body (MTwrite f o' d) = PBIT32 f @ PBIT64 o' @ PBIT32 (of_nat (length d) :: u32) @ d"
| "body (MTclunk f) = PBIT32 f"
| "body (MTremove f) = PBIT32 f"
| "body (MTstat f) = PBIT32 f"
| "body (MTwstat f s) = PBIT32 f @ PBIT16 (of_nat (length s) :: u16) @ s"
| "body (MRversion m v) = PBIT32 m @ wstr v"
| "body (MRerror e) = wstr e"
| "body MRflush = []"
| "body (MRauth q) = pqid q"
| "body (MRattach q) = pqid q"
| "body (MRwalk qs) = PBIT16 (of_nat (length qs) :: u16) @ concat (map pqid qs)"
| "body (MRopen q i) = pqid q @ PBIT32 i"
| "body (MRcreate q i) = pqid q @ PBIT32 i"
| "body (MRread d) = PBIT32 (of_nat (length d) :: u32) @ d"
| "body (MRwrite c) = PBIT32 c"
| "body MRclunk = []"
| "body MRremove = []"
| "body (MRstat s) = PBIT16 (of_nat (length s) :: u16) @ s"
| "body MRwstat = []"

definition frame :: "u16 \<Rightarrow> msg \<Rightarrow> byte list" where
  "frame tag m =
     PBIT32 (of_nat (7 + length (body m)) :: u32) @ PBIT8 (mtype m) @ PBIT16 tag @ body m"

text \<open>What the wire can carry: strings without NUL of at most 65535 bytes, at most 16 names.\<close>

definition str_ok :: "byte list \<Rightarrow> bool" where
  "str_ok s \<longleftrightarrow> nonul s \<and> length s < 65536"

fun fields_ok :: "msg \<Rightarrow> bool" where
  "fields_ok (MTversion _ v) = str_ok v"
| "fields_ok (MTauth _ u n) = (str_ok u \<and> str_ok n)"
| "fields_ok (MTattach _ _ u n) = (str_ok u \<and> str_ok n)"
| "fields_ok (MTwalk _ _ ws) = (length ws \<le> MAXWELEM \<and> list_all str_ok ws)"
| "fields_ok (MTcreate _ n _ _) = str_ok n"
| "fields_ok (MTwstat _ s) = (length s < 65536)"
| "fields_ok (MRversion _ v) = str_ok v"
| "fields_ok (MRerror e) = str_ok e"
| "fields_ok (MRwalk qs) = (length qs \<le> MAXWELEM)"
| "fields_ok (MRstat s) = (length s < 65536)"
| "fields_ok _ = True"

definition msg_ok :: "msg \<Rightarrow> bool" where
  "msg_ok m \<longleftrightarrow> fields_ok m \<and> 7 + length (body m) < 2 ^ 32"

text \<open>
  The message a struct stands for: the fields its type uses, at the width of the wire, a \<open>nil\<close>
  string read as the empty one.
\<close>

definition msg_of :: "Fcall \<Rightarrow> msg option" where
  "msg_of f = (let t = f_type f; fid = ucast (f_fid f) :: u32 in
     if t = Tversion then Some (MTversion (ucast (f_msize f)) (strval (f_version f)))
     else if t = Tflush then Some (MTflush (f_oldtag f))
     else if t = Tauth then
       Some (MTauth (ucast (f_afid f)) (strval (f_uname f)) (strval (f_aname f)))
     else if t = Tattach then
       Some (MTattach fid (ucast (f_afid f)) (strval (f_uname f)) (strval (f_aname f)))
     else if t = Twalk then
       Some (MTwalk fid (ucast (f_newfid f)) (map strval (take (unat (f_nwname f)) (f_wname f))))
     else if t = Topen then Some (MTopen fid (f_mode f))
     else if t = Tcreate then
       Some (MTcreate fid (strval (f_name f)) (ucast (f_perm f)) (f_mode f))
     else if t = Tread then Some (MTread fid (f_offset f) (ucast (f_count f)))
     else if t = Twrite then Some (MTwrite fid (f_offset f) (take (unat (f_count f)) (f_data f)))
     else if t = Tclunk then Some (MTclunk fid)
     else if t = Tremove then Some (MTremove fid)
     else if t = Tstat then Some (MTstat fid)
     else if t = Twstat then Some (MTwstat fid (take (unat (f_nstat f)) (f_stat f)))
     else if t = Rversion then Some (MRversion (ucast (f_msize f)) (strval (f_version f)))
     else if t = Rerror then Some (MRerror (strval (f_ename f)))
     else if t = Rflush then Some MRflush
     else if t = Rauth then Some (MRauth (f_aqid f))
     else if t = Rattach then Some (MRattach (f_qid f))
     else if t = Rwalk then Some (MRwalk (take (unat (f_nwqid f)) (f_wqid f)))
     else if t = Ropen then Some (MRopen (f_qid f) (ucast (f_iounit f)))
     else if t = Rcreate then Some (MRcreate (f_qid f) (ucast (f_iounit f)))
     else if t = Rread then Some (MRread (take (unat (f_count f)) (f_data f)))
     else if t = Rwrite then Some (MRwrite (ucast (f_count f)))
     else if t = Rclunk then Some MRclunk
     else if t = Rremove then Some MRremove
     else if t = Rstat then Some (MRstat (take (unat (f_nstat f)) (f_stat f)))
     else if t = Rwstat then Some MRwstat
     else None)"

text \<open>The struct's counts agree with what they count; \<open>wname\<close> and \<open>wqid\<close> are arrays of 16.\<close>

definition counts_ok :: "Fcall \<Rightarrow> bool" where
  "counts_ok f \<longleftrightarrow> length (f_wname f) = MAXWELEM \<and> length (f_wqid f) = MAXWELEM
     \<and> (f_type f = Twalk \<longrightarrow> unat (f_nwname f) \<le> MAXWELEM)
     \<and> (f_type f = Rwalk \<longrightarrow> unat (f_nwqid f) \<le> MAXWELEM)
     \<and> (f_type f = Twrite \<or> f_type f = Rread \<longrightarrow> unat (f_count f) \<le> length (f_data f))
     \<and> (f_type f = Twstat \<or> f_type f = Rstat \<longrightarrow> unat (f_nstat f) \<le> length (f_stat f))"

section \<open>The encoder implements the wire form\<close>

lemma pstring_wstr [simp]: "pstring s = wstr (strval s)"
  by (cases s) (simp_all add: pstring_def wstr_def strval_def)

lemma stringsz_wstr: "stringsz s = of_nat (length (wstr (strval s)))"
  by (cases s) (simp_all add: stringsz_def wstr_def strval_def)

lemma length_wstr [simp]: "length (wstr s) = 2 + length s"
  by (simp add: wstr_def)

lemma length_pqid [simp]: "length (pqid q) = 13"
  by (simp add: pqid_def)

lemma sum_stringsz: "sum_list (map stringsz ss) = of_nat (length (concat (map wstr (map strval ss))))"
  by (induction ss) (simp_all add: stringsz_wstr)

lemma length_concat_pqid [simp]: "length (concat (map pqid qs)) = 13 * length qs"
  by (induction qs) simp_all

lemma of_nat_unat_ucast: "of_nat (unat (w :: 'a::len word)) = (ucast w :: 'b::len word)"
  by (simp add: word_unat_eq_iff unsigned_of_nat unsigned_ucast_eq)

lemma PBIT32_ucast [simp]: "PBIT32 (ucast (v :: u64) :: u32) = PBIT32 v"
  by (rule PBIT32_u32 [symmetric])

lemma map_pstring: "map pstring ss = map (wstr \<circ> strval) ss"
  by simp

lemmas fcall_defs = Let_def sizeS2M_def s2m_switch_def s2m_T_def s2m_R_def msg_of_def

lemma encoder_body:
  assumes "msg_of f = Some m" "counts_ok f"
  shows "sizeS2M f = Inr (of_nat (7 + length (body m))) \<and> s2m_switch f = Inr (body m)
     \<and> f_type f = mtype m"
  using assms
  by (auto simp: fcall_defs counts_ok_def stringsz_wstr sum_stringsz of_nat_unat_ucast map_pstring
      split: if_splits)

section \<open>The decoder reads the wire form back\<close>

lemma drop_plus: "drop (p + k) xs = drop k (drop p xs)"
  by (simp add: add.commute)

lemma unat_count: "n < 65536 \<Longrightarrow> unat (of_nat n :: u16) = n"
  "n < 2 ^ 32 \<Longrightarrow> unat (of_nat n :: u32) = n"
  by (simp_all add: unsigned_of_nat take_bit_eq_mod)

lemma unat_count16: "n < 65536 \<Longrightarrow> unat (ucast (ucast (of_nat n :: u32) :: u16) :: u32) = n"
  by (simp add: ucast_u16_u32 word_less_nat_alt unat_count)

lemma gstring_wstr:
  assumes d: "drop p buf = wstr s @ r" and s: "str_ok s"
    and ep: "p + 2 + length s \<le> ep" "ep \<le> length buf"
  obtains buf' where "gstring buf p ep = Some (buf', p + 2 + length s, s)"
    "length buf' = length buf" "drop (p + 2 + length s) buf' = r"
proof -
  define n where "n = length s"
  obtain b0 b1 where b: "PBIT16 (of_nat n :: u32) = [b0, b1]" by (simp add: PBIT16_def)
  define pre where "pre = take p buf"
  have len: "length pre = p" using ep by (simp add: pre_def)
  have buf: "buf = pre @ b0 # b1 # s @ r"
    using d b by (metis append_Cons append_Nil append_assoc append_take_drop_id n_def pre_def wstr_def)
  have n: "unat (GBIT16 (drop p buf)) = n"
    using s by (simp add: d wstr_def n_def str_ok_def unat_count16)
  obtain x where x: "drop n (b1 # s @ r) = x # r"
    by (cases s rule: rev_cases) (simp_all add: n_def)
  have "memmove buf (p + 1) (p + 2) n = (pre @ b0 # s) @ x # r"
    using x by (simp add: memmove_def buf len n_def)
  then have "(memmove buf (p + 1) (p + 2) n)[p + 1 + n := 0] = pre @ b0 # s @ 0 # r"
    by (simp add: list_update_append len n_def)
  then have "gstring buf p ep = Some (pre @ b0 # s @ 0 # r, p + 2 + length s, s)"
    using ep s n by (simp add: gstring_def Let_def len n_def str_ok_def)
  moreover have "length (pre @ b0 # s @ 0 # r) = length buf" by (simp add: buf)
  moreover have "drop (p + 2 + length s) (pre @ b0 # s @ 0 # r) = r" by (simp add: len)
  ultimately show ?thesis by (rule that)
qed

text \<open>The fields a loop over the names or qids does not touch.\<close>

lemma gqid_pqid:
  assumes "drop p buf = pqid q @ r" "p + 13 \<le> ep"
  shows "gqid buf p ep = Some (p + 13, q)"
proof -
  have D: "drop (p + k) buf = drop k (pqid q @ r)" for k
    using assms(1) by (simp add: drop_plus)
  show ?thesis
    using assms(2) D [of 0] D [of 1] D [of 5] by (simp add: gqid_def pqid_def)
qed

lemma gwnames_wstr:
  assumes "drop p buf = concat (map wstr ws) @ r" "list_all str_ok ws"
    and "p + length (concat (map wstr ws)) \<le> ep" "ep \<le> length buf"
    and "i + length ws \<le> length (f_wname f)"
  shows "\<exists>f' buf'. gwnames i (length ws) buf p ep f
      = Some (f', buf', p + length (concat (map wstr ws)))
    \<and> f' = f\<lparr>f_wname := take i (f_wname f) @ map Some ws @ drop (i + length ws) (f_wname f)\<rparr>"
  using assms
proof (induction ws arbitrary: i p buf f)
  case Nil
  then show ?case by simp
next
  case (Cons w ws)
  obtain buf' where g: "gstring buf p ep = Some (buf', p + 2 + length w, w)"
    "length buf' = length buf" "drop (p + 2 + length w) buf' = concat (map wstr ws) @ r"
    by (rule gstring_wstr [of p buf w "concat (map wstr ws) @ r" ep]) (use Cons.prems in auto)
  let ?f = "f\<lparr>f_wname := (f_wname f)[i := Some w]\<rparr>"
  have "\<exists>f' buf''. gwnames (Suc i) (length ws) buf' (p + 2 + length w) ep ?f
      = Some (f', buf'', p + 2 + length w + length (concat (map wstr ws)))
    \<and> f' = ?f\<lparr>f_wname := take (Suc i) (f_wname ?f) @ map Some ws
        @ drop (Suc i + length ws) (f_wname ?f)\<rparr>"
    by (rule Cons.IH) (use Cons.prems g in auto)
  moreover have "take (Suc i) ((f_wname f)[i := Some w]) = take i (f_wname f) @ [Some w]"
    using Cons.prems(5) by (simp add: take_Suc_conv_app_nth take_update_cancel)
  ultimately show ?case using g(1) Cons.prems(5) by (auto simp: add.assoc)
qed

lemma gwqids_pqid:
  assumes "drop p buf = concat (map pqid qs) @ r" "p + 13 * length qs \<le> ep"
    and "i + length qs \<le> length (f_wqid f)"
  shows "gwqids i (length qs) buf p ep f
      = Some (f\<lparr>f_wqid := take i (f_wqid f) @ qs @ drop (i + length qs) (f_wqid f)\<rparr>, buf,
          p + 13 * length qs)"
  using assms
proof (induction qs arbitrary: i p f)
  case Nil
  then show ?case by simp
next
  case (Cons q qs)
  have g: "gqid buf p ep = Some (p + 13, q)"
    by (rule gqid_pqid) (use Cons.prems in auto)
  have "drop (p + 13) buf = concat (map pqid qs) @ r"
    using Cons.prems(1) by (simp add: drop_plus)
  then have IH: "gwqids (Suc i) (length qs) buf (p + 13) ep (f\<lparr>f_wqid := (f_wqid f)[i := q]\<rparr>) =
      Some (f\<lparr>f_wqid := take (Suc i) ((f_wqid f)[i := q]) @ qs
        @ drop (Suc i + length qs) ((f_wqid f)[i := q])\<rparr>, buf, p + 13 + 13 * length qs)"
    using Cons.IH [of "p + 13" "Suc i" "f\<lparr>f_wqid := (f_wqid f)[i := q]\<rparr>"] Cons.prems by simp
  moreover have "take (Suc i) ((f_wqid f)[i := q]) = take i (f_wqid f) @ [q]"
    using Cons.prems(3) by (simp add: take_Suc_conv_app_nth take_update_cancel)
  ultimately show ?case using g Cons.prems(3) by simp
qed

lemma ucast_u32_u64 [simp]: "ucast (ucast (x :: u32) :: u64) = x"
  by (rule bit_word_eqI) (auto simp: bit_simps)

lemma strval_Some [simp]: "strval (Some s) = s"
  by (simp add: strval_def)

lemma ucast_u16_u32_u16 [simp]: "ucast (ucast (x :: u16) :: u32) = x"
  by (rule bit_word_eqI) (auto simp: bit_simps)

lemma unat_ucast_count [simp]:
  "n < 65536 \<Longrightarrow> unat (of_nat n :: u16) = n"
  "n < 2 ^ 32 \<Longrightarrow> unat (ucast (of_nat n :: u32) :: u64) = n"
  by (simp_all add: unsigned_ucast_eq unsigned_of_nat take_bit_nat_eq_self)

lemmas decode_defs = m2s_switch_def m2s_T_def m2s_R_def msg_of_def Let_def

lemma decoder_body:
  assumes d: "drop p buf = body m @ r" and ok: "fields_ok m" "7 + length (body m) < 2 ^ 32"
    and ep: "p + length (body m) \<le> ep" "ep \<le> length buf"
    and t: "f_type f = mtype m" and w: "length (f_wname f) = 16" "length (f_wqid f) = 16"
  shows "\<exists>f' buf'. m2s_switch buf p ep f = Some (f', buf', p + length (body m))
    \<and> f_tag f' = f_tag f \<and> msg_of f' = Some m"
proof -
  have D: "drop (p + k) buf = drop k (body m @ r)" for k
    using d by (simp add: drop_plus)
  note [simp] = decode_defs
  show ?thesis
  proof (cases m)
    case (MTversion ms v)
    obtain b where "gstring buf (p + 4) ep = Some (b, p + 4 + 2 + length v, v)"
      by (rule gstring_wstr [of "p + 4" buf v r ep]) (use MTversion ok ep D [of 4] in auto)
    then show ?thesis using MTversion d ep t by simp
  next
    case (MRversion ms v)
    obtain b where "gstring buf (p + 4) ep = Some (b, p + 4 + 2 + length v, v)"
      by (rule gstring_wstr [of "p + 4" buf v r ep]) (use MRversion ok ep D [of 4] in auto)
    then show ?thesis using MRversion d ep t by simp
  next
    case (MRerror e)
    obtain b where "gstring buf p ep = Some (b, p + 2 + length e, e)"
      by (rule gstring_wstr [of p buf e r ep]) (use MRerror ok ep d in auto)
    then show ?thesis using MRerror d ep t by simp
  next
    case (MTauth a u n)
    obtain b where b: "gstring buf (p + 4) ep = Some (b, p + 4 + 2 + length u, u)"
      "length b = length buf" "drop (p + 4 + 2 + length u) b = wstr n @ r"
      by (rule gstring_wstr [of "p + 4" buf u "wstr n @ r" ep]) (use MTauth ok ep D [of 4] in auto)
    obtain c where "gstring b (p + 4 + 2 + length u) ep
        = Some (c, p + 4 + 2 + length u + 2 + length n, n)"
      by (rule gstring_wstr [OF b(3)]) (use MTauth ok ep b(2) in auto)
    then show ?thesis using b(1) MTauth d ep t by simp
  next
    case (MTattach g a u n)
    obtain b where b: "gstring buf (p + 8) ep = Some (b, p + 8 + 2 + length u, u)"
      "length b = length buf" "drop (p + 8 + 2 + length u) b = wstr n @ r"
      by (rule gstring_wstr [of "p + 8" buf u "wstr n @ r" ep]) (use MTattach ok ep D [of 8] in auto)
    obtain c where "gstring b (p + 8 + 2 + length u) ep
        = Some (c, p + 8 + 2 + length u + 2 + length n, n)"
      by (rule gstring_wstr [OF b(3)]) (use MTattach ok ep b(2) in auto)
    then show ?thesis using b(1) MTattach d ep t D [of 4] by simp
  next
    case (MTcreate g n pe mo)
    obtain b where b: "gstring buf (p + 4) ep = Some (b, p + 4 + 2 + length n, n)"
      "length b = length buf" "drop (p + 4 + 2 + length n) b = PBIT32 pe @ PBIT8 mo @ r"
      by (rule gstring_wstr [of "p + 4" buf n "PBIT32 pe @ PBIT8 mo @ r" ep])
        (use MTcreate ok ep D [of 4] in auto)
    moreover have "drop (p + 4 + 2 + length n + 4) b = PBIT8 mo @ r"
      using b(3) by (simp only: drop_plus) simp
    ultimately show ?thesis using MTcreate d ep t by simp
  next
    case (MTwalk g n ws)
    let ?f = "f\<lparr>f_fid := ucast g, f_newfid := ucast n, f_nwname := of_nat (length ws)\<rparr>"
    obtain b where "gwnames 0 (length ws) buf (p + 10) ep ?f
        = Some (?f\<lparr>f_wname := map Some ws @ drop (length ws) (f_wname f)\<rparr>, b,
            p + 10 + length (concat (map wstr ws)))"
      using gwnames_wstr [of "p + 10" buf ws r ep 0 ?f] MTwalk ok ep D [of 10] w by auto
    moreover have "ucast (GBIT16 (drop (p + 8) buf)) = (of_nat (length ws) :: u16)"
      using MTwalk D [of 8] by simp
    ultimately show ?thesis using MTwalk d ok ep t D [of 4] by (simp add: comp_def)
  next
    case (MRwalk qs)
    let ?f = "f\<lparr>f_nwqid := of_nat (length qs)\<rparr>"
    have "gwqids 0 (length qs) buf (p + 2) ep ?f
      = Some (?f\<lparr>f_wqid := take 0 (f_wqid ?f) @ qs @ drop (0 + length qs) (f_wqid ?f)\<rparr>, buf,
          p + 2 + 13 * length qs)"
      by (rule gwqids_pqid [where r = r]) (use MRwalk ok ep D [of 2] w in auto)
    moreover have "ucast (GBIT16 (drop p buf)) = (of_nat (length qs) :: u16)"
      using MRwalk d by simp
    ultimately show ?thesis using MRwalk ok ep t
      by simp
  next
    case (MRauth q)
    then show ?thesis using gqid_pqid [of p buf q r ep] d ep t by simp
  next
    case (MRattach q)
    then show ?thesis using gqid_pqid [of p buf q r ep] d ep t by simp
  next
    case (MRopen q i)
    then show ?thesis using gqid_pqid [of p buf q "PBIT32 i @ r" ep] d ep t D [of 13] by simp
  next
    case (MRcreate q i)
    then show ?thesis using gqid_pqid [of p buf q "PBIT32 i @ r" ep] d ep t D [of 13] by simp
  qed (insert d ok ep t D [of 2] D [of 4] D [of 6] D [of 8] D [of 12] D [of 16], simp_all)
qed

lemma convS2M_msg:
  assumes "msg_of f = Some m" "counts_ok f" "msg_ok m"
  shows "convS2M f nap =
    (if 7 + length (body m) \<le> unat nap then Inr (frame (f_tag f) m) else Inl Zero)"
proof -
  let ?n = "7 + length (body m)"
  have n: "unat (of_nat ?n :: u32) = ?n"
    using assms(3) unat_count(2) [of ?n] by (simp add: msg_ok_def)
  have gt: "(of_nat ?n :: u32) > nap \<longleftrightarrow> \<not> ?n \<le> unat nap"
    by (subst word_less_nat_alt) (simp add: n not_le del: of_nat_add)
  have nz: "(of_nat ?n :: u32) \<noteq> 0" using n by (metis add_is_0 unat_0 zero_neq_numeral)
  note enc = encoder_body [OF assms(1,2)]
  show ?thesis
    using enc n gt nz by (simp add: convS2M_def frame_def Let_def del: of_nat_add)
qed

lemma convM2S_frame:
  assumes "msg_ok m" "length (f_wname f) = 16" "length (f_wqid f) = 16"
  shows "\<exists>f' buf. convM2S (frame tag m @ r) (length (frame tag m @ r)) f
      = Some (of_nat (length (frame tag m)), f', buf) \<and> f_tag f' = tag \<and> msg_of f' = Some m"
proof -
  define ap where "ap = frame tag m @ r"
  let ?n = "7 + length (body m)"
  let ?f = "f\<lparr>f_type := mtype m, f_tag := tag\<rparr>"
  have len: "length (frame tag m) = ?n" by (simp add: frame_def)
  have la: "length ap = ?n + length r" by (simp add: ap_def len)
  have n: "unat (of_nat ?n :: u32) = ?n"
    using assms(1) unat_count(2) [of ?n] by (simp add: msg_ok_def)
  have sz: "GBIT32 ap = of_nat ?n" and ty: "GBIT8 (drop 4 ap) = mtype m"
    and tg: "ucast (GBIT16 (drop 5 ap)) = tag"
    by (simp_all add: ap_def frame_def del: of_nat_add)
  have "\<not> (of_nat ?n :: u32) < 7"
    by (subst word_less_nat_alt) (simp add: n del: of_nat_add)
  moreover obtain f' buf where "m2s_switch ap 7 (length ap) ?f = Some (f', buf, ?n)"
      "f_tag f' = tag" "msg_of f' = Some m"
    using decoder_body [of 7 ap m r "length ap" ?f] assms
    by (auto simp: ap_def frame_def msg_ok_def)
  ultimately show ?thesis
    by (simp add: convM2S_def Let_def ap_def [symmetric] sz ty tg n len la del: of_nat_add)
qed

section \<open>The decoder stays inside its buffer\<close>

lemma GBIT_append [simp]:
  "1 \<le> length b \<Longrightarrow> GBIT8 (b @ x) = GBIT8 b"
  "2 \<le> length b \<Longrightarrow> GBIT16 (b @ x) = GBIT16 b"
  "4 \<le> length b \<Longrightarrow> GBIT32 (b @ x) = GBIT32 b"
  "8 \<le> length b \<Longrightarrow> GBIT64 (b @ x) = GBIT64 b"
  by (auto simp: GBIT8_def GBIT16_def GBIT32_def GBIT64_def nth_append)

lemma cstring_append_nul: "cstring ((a @ 0 # c) @ x) = cstring (a @ 0 # c)"
  by (induction a) (simp_all add: cstring_def)

lemma gstring_length: "gstring b p ep = Some (b', p', s) \<Longrightarrow> ep \<le> length b \<Longrightarrow> length b' = length b"
  by (auto simp: gstring_def Let_def memmove_def split: if_splits)

lemma gstring_append:
  assumes "length b = ep"
  shows "gstring (b @ x) p ep = map_option (\<lambda>(b', p', s). (b' @ x, p', s)) (gstring b p ep)"
proof (cases "p + 2 \<le> ep \<and> p + 2 + unat (GBIT16 (drop p b)) \<le> ep")
  case True
  let ?n = "unat (GBIT16 (drop p b))"
  have g: "GBIT16 (drop p b @ x) = GBIT16 (drop p b)"
    using True assms by (intro GBIT_append) auto
  have mm: "memmove (b @ x) (Suc p) (Suc (Suc p)) ?n = memmove b (Suc p) (Suc (Suc p)) ?n @ x"
    using True assms by (simp add: memmove_def)
  have l: "length (memmove b (Suc p) (Suc (Suc p)) ?n) = ep"
    using True assms by (simp add: length_memmove)
  define b' where "b' = (memmove b (Suc p) (Suc (Suc p)) ?n)[Suc (p + ?n) := 0]"
  have l': "length b' = ep" by (simp add: b'_def l)
  have "b' ! (Suc (p + ?n)) = 0" using True l by (simp add: b'_def)
  then have "drop (Suc p) b' = take ?n (drop (Suc p) b') @ 0 # drop (Suc ?n) (drop (Suc p) b')"
    using id_take_nth_drop [of ?n "drop (Suc p) b'"] True l' by (simp add: less_diff_conv)
  then have "cstring (drop (Suc p) b' @ x) = cstring (drop (Suc p) b')"
    by (metis cstring_append_nul)
  then show ?thesis
    using True assms l l' by (simp add: gstring_def Let_def g mm list_update_append b'_def [symmetric])
next
  case False
  then show ?thesis using assms by (auto simp: gstring_def Let_def)
qed


lemma gqid_append: "length b = ep \<Longrightarrow> gqid (b @ x) p ep = gqid b p ep"
  by (simp add: gqid_def)

lemma gwnames_append:
  "length b = ep \<Longrightarrow> gwnames i k (b @ x) p ep f
     = map_option (\<lambda>(f', b', p'). (f', b' @ x, p')) (gwnames i k b p ep f)"
proof (induction i k b p ep f rule: gwnames.induct)
  case (2 i k b p ep f)
  then show ?case
    by (cases "gstring b p ep") (auto simp: gstring_append dest: gstring_length)
qed simp

lemma gwqids_append:
  "length b = ep \<Longrightarrow> gwqids i k (b @ x) p ep f
     = map_option (\<lambda>(f', b', p'). (f', b' @ x, p')) (gwqids i k b p ep f)"
proof (induction i k b p ep f rule: gwqids.induct)
  case (2 i k b p ep f)
  then show ?case
    by (cases "gqid b p ep") (auto simp: gqid_append)
qed simp

lemmas append_simps = gstring_append gqid_append gwnames_append gwqids_append

lemma m2s_T_append:
  assumes "length b = ep"
  shows "m2s_T (b @ x) p ep f
    = map_option (\<lambda>(f', b', p'). (f', b' @ x, p')) (m2s_T b p ep f)"
proof -
  have g: "gstring c q ep = Some (c', q', s) \<Longrightarrow> length c = ep \<Longrightarrow> length c' = ep" for c q c' q' s
    using gstring_length by fastforce
  show ?thesis
    using assms unfolding m2s_T_def Let_def if_distrib [of "map_option _"]
    by (intro if_cong refl) (simp_all add: append_simps g split: option.split)
qed

lemma m2s_R_append:
  assumes "length b = ep"
  shows "m2s_R (b @ x) p ep f
    = map_option (\<lambda>(f', b', p'). (f', b' @ x, p')) (m2s_R b p ep f)"
  using assms unfolding m2s_R_def Let_def if_distrib [of "map_option _"]
  by (intro if_cong refl) (simp_all add: append_simps gqid_def split: option.split)

lemma convM2S_append:
  assumes "length b = nap"
  shows "convM2S (b @ x) nap f
    = map_option (\<lambda>(sz, f', b'). (sz, f', b' @ x)) (convM2S b nap f)"
proof (cases "nap < 7")
  case False
  have g: "GBIT32 (b @ x) = GBIT32 b" "GBIT8 (drop 4 (b @ x)) = GBIT8 (drop 4 b)"
    "GBIT16 (drop 5 (b @ x)) = GBIT16 (drop 5 b)"
    using False assms by simp_all
  have sw: "m2s_switch (b @ x) 7 nap h
      = map_option (\<lambda>(f', b', p'). (f', b' @ x, p')) (m2s_switch b 7 nap h)" for h
    using assms by (simp add: m2s_switch_def m2s_T_append m2s_R_append)
  show ?thesis
    using False unfolding convM2S_def Let_def g sw by (simp split: option.split)
qed (simp add: convM2S_def)

section \<open>Properties\<close>

text \<open>A concrete struct for the witnesses: \<open>Tversion\<close>, tag 65535, msize 8192, version \<open>9P2000\<close>.\<close>

definition fcall0 :: Fcall where
  "fcall0 = \<lparr>f_type = 100, f_fid = 0, f_tag = 65535, f_msize = 8192,
     f_version = Some [57, 80, 50, 48, 48, 48], f_oldtag = 0, f_ename = None,
     f_qid = \<lparr>q_path = 0, q_vers = 0, q_type = 0\<rparr>, f_iounit = 0,
     f_aqid = \<lparr>q_path = 0, q_vers = 0, q_type = 0\<rparr>, f_afid = 0, f_uname = None, f_aname = None,
     f_perm = 0, f_name = None, f_mode = 0, f_newfid = 0, f_nwname = 0, f_wname = replicate 16 None,
     f_nwqid = 0, f_wqid = replicate 16 \<lparr>q_path = 0, q_vers = 0, q_type = 0\<rparr>,
     f_offset = 0, f_count = 0, f_data = [], f_nstat = 0, f_stat = []\<rparr>"

lemma fcall0_facts:
  "msg_of fcall0 = Some (MTversion 8192 [57, 80, 50, 48, 48, 48])" "counts_ok fcall0"
  "msg_ok (MTversion 8192 [57, 80, 50, 48, 48, 48])"
  "length (f_wname fcall0) = 16" "length (f_wqid fcall0) = 16"
  by (simp_all add: fcall0_def msg_of_def counts_ok_def msg_ok_def str_ok_def nonul_def)

text \<open>
  Claim C1 (round trip).  Whatever message a well-formed struct stands for, \<open>convS2M\<close> encodes it when
  the buffer has room, and \<open>convM2S\<close> on the bytes written succeeds, returns their number, and gives a
  struct with the same tag that stands for the same message.
\<close>

theorem convS2M_convM2S_roundtrip:
  assumes "msg_of f = Some m" "counts_ok f" "msg_ok m" "7 + length (body m) \<le> unat nap"
    and "length (f_wname f0) = 16" "length (f_wqid f0) = 16"
  shows "\<exists>bs f' buf. convS2M f nap = Inr bs
    \<and> convM2S bs (length bs) f0 = Some (of_nat (length bs), f', buf)
    \<and> f_tag f' = f_tag f \<and> msg_of f' = msg_of f"
  using convS2M_msg [OF assms(1-3), of nap] convM2S_frame [OF assms(3,5,6), of "f_tag f" "[]"]
    assms(1,4) by auto

theorem convS2M_convM2S_roundtrip_witness:
  "\<exists>bs f' buf. convS2M fcall0 8192 = Inr bs
    \<and> convM2S bs (length bs) fcall0 = Some (of_nat (length bs), f', buf)
    \<and> f_tag f' = f_tag fcall0 \<and> msg_of f' = msg_of fcall0"
  by (rule convS2M_convM2S_roundtrip [OF fcall0_facts(1-3) _ fcall0_facts(4,5)]) simp

text \<open>
  Claim C2 (refinement).  On a struct that stands for a message the wire can carry, \<open>convS2M\<close> writes
  exactly the wire form of that message when the buffer has room for it and returns 0 otherwise; in
  particular the size \<open>sizeS2M\<close> announces is the number of bytes written.
\<close>

theorem convS2M_refines:
  assumes "msg_of f = Some m" "counts_ok f" "msg_ok m"
  shows "convS2M f nap =
      (if 7 + length (body m) \<le> unat nap then Inr (frame (f_tag f) m) else Inl Zero)
    \<and> sizeS2M f = Inr (of_nat (length (frame (f_tag f) m)))"
  using convS2M_msg [OF assms] encoder_body [OF assms(1,2)] by (simp add: frame_def)

theorem convS2M_refines_witness:
  "convS2M fcall0 18 = Inl Zero
    \<and> convS2M fcall0 19 = Inr (frame 65535 (MTversion 8192 [57, 80, 50, 48, 48, 48]))"
  using convS2M_refines [OF fcall0_facts(1-3), of 18] convS2M_refines [OF fcall0_facts(1-3), of 19]
  by (simp add: fcall0_def)

text \<open>
  Claim C3 (refinement).  \<open>convM2S\<close> accepts the wire form of every message, also in front of other
  data, returns its size and gives a struct that stands for that message and has its tag.
\<close>

theorem convM2S_accepts:
  assumes "msg_ok m" "length (f_wname f) = 16" "length (f_wqid f) = 16"
  shows "\<exists>f' buf. convM2S (frame tag m @ r) (length (frame tag m @ r)) f
      = Some (of_nat (length (frame tag m)), f', buf) \<and> f_tag f' = tag \<and> msg_of f' = Some m"
  by (rule convM2S_frame [OF assms])

theorem convM2S_accepts_witness:
  "\<exists>f' buf. convM2S (frame 1 (MTwalk 5 6 [[97], [98, 99]]) @ [1, 2])
      (length (frame 1 (MTwalk 5 6 [[97], [98, 99]]) @ [1, 2])) fcall0
    = Some (of_nat (length (frame 1 (MTwalk 5 6 [[97], [98, 99]]))), f', buf)
    \<and> f_tag f' = 1 \<and> msg_of f' = Some (MTwalk 5 6 [[97], [98, 99]])"
  by (rule convM2S_accepts [OF _ fcall0_facts(4,5)])
    (simp add: msg_ok_def str_ok_def nonul_def)

text \<open>
  Claim C4 (memory safety).  Given a buffer of which the first \<open>nap\<close> bytes are the message, \<open>convM2S\<close>
  neither depends on nor changes any byte beyond them, whatever the bytes are: every count in a
  hostile message is checked before it is used, including the in-place moves of \<open>gstring\<close>.
\<close>

theorem convM2S_in_bounds:
  "convM2S (b @ x) (length b) f
    = map_option (\<lambda>(sz, f', b'). (sz, f', b' @ x)) (convM2S b (length b) f)"
  by (rule convM2S_append) simp

text \<open>
  Property (error path).  A struct whose type is not one of the 27 message types is refused: \<open>convS2M\<close>
  returns 0, whatever the buffer.
\<close>

theorem convS2M_unknown_type:
  assumes "msg_of f = None"
  shows "convS2M f nap = Inl Zero"
proof -
  have "f_type f \<notin> {100, 101, 102, 103, 104, 105, 107, 108, 109, 110, 111, 112, 113, 114, 115, 116, 117,
      118, 119, 120, 121, 122, 123, 124, 125, 126, 127}"
    using assms unfolding msg_of_def Let_def by (auto split: if_split_asm)
  then have "sizeS2M f = Inr 0" by (simp add: sizeS2M_def)
  then show ?thesis by (simp add: convS2M_def)
qed

theorem convS2M_unknown_type_witness: "convS2M (fcall0\<lparr>f_type := 106\<rparr>) 8192 = Inl Zero"
  by (rule convS2M_unknown_type) (simp add: msg_of_def)

text \<open>
  Property (defect).  \<open>convS2M\<close> calls \<open>sizeS2M\<close> before it checks \<open>nwname\<close> against \<open>MAXWELEM\<close>, and
  \<open>sizeS2M\<close> has no check: with more than 16 names it reads past the end of the array \<open>wname\<close>, so the
  check in \<open>convS2M\<close> is never reached.
\<close>

theorem convS2M_walk_overrun:
  assumes "f_type f = 110" "length (f_wname f) = 16" "unat (f_nwname f) > 16"
  shows "convS2M f nap = Inl Overrun"
  using assms by (simp add: convS2M_def sizeS2M_def Let_def)

theorem convS2M_walk_overrun_witness:
  "convS2M (fcall0\<lparr>f_type := 110, f_nwname := 17\<rparr>) 8192 = Inl Overrun"
  by (rule convS2M_walk_overrun) (simp_all add: fcall0_def)

end
