(* ===== verification/Styx_Dir.thy ===== *)
theory Styx_Dir
  imports Styx_Wire
begin

text \<open>
  Directory entries on the wire: \<^verbatim>\<open>src/lib9/convD2M.c\<close> and \<^verbatim>\<open>src/lib9/convM2D.c\<close> (with
  \<open>statcheck\<close>).  Offsets into the buffer are naturals, lengths of the four strings are assumed to fit
  the \<open>int\<close> they are kept in; the sum \<open>ss\<close> is a 32-bit value.
\<close>

section \<open>Data and operations\<close>

record Dir =
  d_type :: u16
  d_dev :: u32
  d_qid :: Qid
  d_mode :: u32
  d_atime :: u32
  d_mtime :: u32
  d_length :: u64
  d_name :: cptr
  d_uid :: cptr
  d_gid :: cptr
  d_muid :: cptr

abbreviation (input) STATFIXLEN :: nat where "STATFIXLEN \<equiv> 49"

definition dir_strs :: "Dir \<Rightarrow> byte list list" where
  "dir_strs d = map strval [d_name d, d_uid d, d_gid d, d_muid d]"

definition sizeD2M :: "Dir \<Rightarrow> u32" where
  "sizeD2M d = of_nat STATFIXLEN + sum_list (map (\<lambda>s. of_nat (length s)) (dir_strs d))"

definition d2m_fixed :: "Dir \<Rightarrow> byte list" where
  "d2m_fixed d = PBIT16 (d_type d) @ PBIT32 (d_dev d) @ PBIT8 (q_type (d_qid d))
     @ PBIT32 (q_vers (d_qid d)) @ PBIT64 (q_path (d_qid d)) @ PBIT32 (d_mode d)
     @ PBIT32 (d_atime d) @ PBIT32 (d_mtime d) @ PBIT64 (d_length d)"

text \<open>The string loop: \<open>w\<close> is what has been written so far; \<open>None\<close> is \<open>return 0\<close>.\<close>

fun d2m_strs :: "byte list list \<Rightarrow> nat \<Rightarrow> byte list \<Rightarrow> byte list option" where
  "d2m_strs [] nbuf w = Some w"
| "d2m_strs (s # ss) nbuf w =
     (if length w + length s + 2 > nbuf then None
      else d2m_strs ss nbuf (w @ PBIT16 (of_nat (length s) :: u32) @ s))"

text \<open>\<open>convD2M\<close>: the value returned and the bytes written at the front of the buffer.\<close>

definition convD2M :: "Dir \<Rightarrow> u32 \<Rightarrow> nat \<times> byte list" where
  "convD2M d nbuf =
     (if nbuf < 2 then (0, [])
      else let ss = of_nat STATFIXLEN + sum_list (map (\<lambda>s. of_nat (length s)) (dir_strs d)) :: u32;
               w = PBIT16 (ss - 2) in
        if ss > nbuf then (2, w)
        else (case d2m_strs (dir_strs d) (unat nbuf) (w @ d2m_fixed d) of
            None \<Rightarrow> (0, [])
          | Some w' \<Rightarrow> if unat ss \<noteq> length w' then (0, w') else (length w', w')))"

fun statloop :: "nat \<Rightarrow> byte list \<Rightarrow> nat \<Rightarrow> nat \<Rightarrow> nat option" where
  "statloop 0 buf p ep = Some p"
| "statloop (Suc k) buf p ep =
     (if p + 2 > ep then None
      else statloop k buf (p + 2 + unat (GBIT16 (drop p buf))) ep)"

definition statcheck :: "byte list \<Rightarrow> nat \<Rightarrow> int" where
  "statcheck buf nbuf =
     (if nbuf < STATFIXLEN \<or> nbuf \<noteq> 2 + unat (GBIT16 buf) then -1
      else (case statloop 4 buf (STATFIXLEN - 4 * 2) nbuf of
          None \<Rightarrow> -1
        | Some p \<Rightarrow> if p \<noteq> nbuf then -1 else 0))"

fun m2d_strs :: "nat \<Rightarrow> byte list \<Rightarrow> nat \<Rightarrow> nat \<Rightarrow> (byte list list \<times> nat) option" where
  "m2d_strs 0 buf p ep = Some ([], p)"
| "m2d_strs (Suc k) buf p ep =
     (if p + 2 > ep then None
      else let ns = unat (GBIT16 (drop p buf)) in
        if p + 2 + ns > ep then None
        else map_option (\<lambda>(ss, p'). (cstring (take ns (drop (p + 2) buf) @ [0]) # ss, p'))
          (m2d_strs k buf (p + 2 + ns) ep))"

text \<open>
  \<open>convM2D buf nbuf strs\<close>: the number of bytes read and the entry; \<open>strs\<close> tells whether the caller
  gave memory for the strings, \<open>None\<close> is \<open>return 0\<close>.
\<close>

definition convM2D :: "byte list \<Rightarrow> nat \<Rightarrow> bool \<Rightarrow> (nat \<times> Dir) option" where
  "convM2D buf nbuf strs =
     (if nbuf < STATFIXLEN then None
      else (case m2d_strs 4 buf 41 nbuf of
          None \<Rightarrow> None
        | Some (sv, p) \<Rightarrow>
            let str = (\<lambda>i. if strs then Some (sv ! i) else Some []) in
            Some (p, \<lparr>d_type = ucast (GBIT16 (drop 2 buf)), d_dev = GBIT32 (drop 4 buf),
              d_qid = \<lparr>q_path = GBIT64 (drop 13 buf), q_vers = GBIT32 (drop 9 buf),
                q_type = GBIT8 (drop 8 buf)\<rparr>,
              d_mode = GBIT32 (drop 21 buf), d_atime = GBIT32 (drop 25 buf),
              d_mtime = GBIT32 (drop 29 buf), d_length = GBIT64 (drop 33 buf),
              d_name = str 0, d_uid = str 1, d_gid = str 2, d_muid = str 3\<rparr>)))"

section \<open>The string area\<close>

lemma length_d2m_fixed [simp]: "length (d2m_fixed d) = 39"
  by (simp add: d2m_fixed_def)

lemma d2m_strs_wstr:
  "length w + length (concat (map wstr ss)) \<le> nbuf \<Longrightarrow>
     d2m_strs ss nbuf w = Some (w @ concat (map wstr ss))"
  by (induction ss arbitrary: w) (auto simp: wstr_def)

lemma m2d_strs_wstr:
  assumes "drop p buf = concat (map wstr ss) @ r" "list_all str_ok ss"
    and "p + length (concat (map wstr ss)) \<le> ep"
  shows "m2d_strs (length ss) buf p ep = Some (ss, p + length (concat (map wstr ss)))"
  using assms
proof (induction ss arbitrary: p)
  case Nil
  then show ?case by simp
next
  case (Cons s ss)
  have n: "unat (GBIT16 (drop p buf)) = length s"
    using Cons.prems by (simp add: wstr_def str_ok_def unat_count16)
  have d: "drop (p + 2) buf = s @ concat (map wstr ss) @ r"
    using Cons.prems(1) by (simp only: drop_plus) (simp add: wstr_def [of s])
  have "drop (p + 2 + length s) buf = concat (map wstr ss) @ r"
    using d by (simp only: drop_plus) simp
  then have "m2d_strs (length ss) buf (p + 2 + length s) ep
      = Some (ss, p + 2 + length s + length (concat (map wstr ss)))"
    by (intro Cons.IH) (use Cons.prems in auto)
  then show ?case
    using Cons.prems(2,3) n d by (simp add: Let_def str_ok_def)
qed

text \<open>\<open>statcheck\<close> walks the same string area as \<open>convM2D\<close>.\<close>

lemma statloop_m2d_strs:
  assumes "statloop k buf p ep = Some q" "q \<le> ep"
  shows "\<exists>sv. m2d_strs k buf p ep = Some (sv, q) \<and> length sv = k"
  using assms
proof (induction k buf p ep rule: statloop.induct)
  case (2 k buf p ep)
  have mono: "statloop j b p1 e = Some q1 \<Longrightarrow> p1 \<le> q1" for j b p1 e q1
    by (induction j b p1 e rule: statloop.induct) (auto split: if_splits)
  from "2.prems" have "statloop k buf (p + 2 + unat (GBIT16 (drop p buf))) ep = Some q" "p + 2 \<le> ep"
    by (auto split: if_splits)
  with "2.IH" "2.prems"(2) mono [OF this(1)] show ?case
    by (fastforce simp: Let_def)
qed auto

lemma m2d_strs_statloop:
  "m2d_strs k buf p ep = Some (sv, q) \<Longrightarrow> statloop k buf p ep = Some q"
  by (induction k buf p ep arbitrary: sv rule: m2d_strs.induct)
    (auto simp: Let_def split: if_splits)

section \<open>Properties\<close>

text \<open>An entry the wire can carry: its size fits the 16-bit count.\<close>

definition dir_size :: "Dir \<Rightarrow> nat" where
  "dir_size d = 41 + length (concat (map wstr (dir_strs d)))"

definition dir_ok :: "Dir \<Rightarrow> bool" where
  "dir_ok d \<longleftrightarrow> list_all nonul (dir_strs d) \<and> dir_size d < 65538"

definition dir_bytes :: "Dir \<Rightarrow> byte list" where
  "dir_bytes d = PBIT16 (of_nat (dir_size d - 2) :: u32) @ d2m_fixed d
     @ concat (map wstr (dir_strs d))"

text \<open>What is read back: the same entry, a \<open>nil\<close> string replaced by the empty one.\<close>

definition dir_norm :: "Dir \<Rightarrow> Dir" where
  "dir_norm d = d\<lparr>d_name := Some (strval (d_name d)), d_uid := Some (strval (d_uid d)),
     d_gid := Some (strval (d_gid d)), d_muid := Some (strval (d_muid d))\<rparr>"

lemma length_dir_strs: "length (dir_strs d) = 4"
  by (simp add: dir_strs_def)

lemma length_dir_bytes: "length (dir_bytes d) = dir_size d"
  by (simp add: dir_bytes_def dir_size_def)

lemma dir_ss: "(of_nat 49 + sum_list (map (\<lambda>s. of_nat (length s)) (dir_strs d)) :: u32)
    = of_nat (dir_size d)"
  by (simp add: dir_size_def dir_strs_def)

lemma dir_ok_strs: "dir_ok d \<Longrightarrow> list_all str_ok (dir_strs d)"
  by (auto simp: dir_ok_def dir_size_def dir_strs_def str_ok_def)

lemma dir_ok_size: "dir_ok d \<Longrightarrow> unat (of_nat (dir_size d) :: u32) = dir_size d"
  by (simp add: dir_ok_def unat_count)

lemma dir_size_ge: "49 \<le> dir_size d"
  by (simp add: dir_size_def dir_strs_def)

lemma dir_count:
  assumes "dir_ok d"
  shows "unat (GBIT16 (PBIT16 (of_nat (dir_size d - 2) :: u32) @ r)) = dir_size d - 2"
proof -
  have "dir_size d - 2 < 65536"
    using assms dir_size_ge [of d] unfolding dir_ok_def by linarith
  then show ?thesis by (simp add: unat_count16)
qed

lemma convD2M_bytes:
  assumes "dir_ok d" "dir_size d \<le> unat nbuf"
  shows "convD2M d nbuf = (dir_size d, dir_bytes d)"
proof -
  have nb: "\<not> nbuf < 2" using assms(2) dir_size_ge [of d] by (simp add: word_less_nat_alt)
  have gt: "\<not> of_nat (dir_size d) > nbuf"
    using assms by (simp add: word_less_nat_alt dir_ok_size)
  have m2: "(of_nat (dir_size d) :: u32) - 2 = of_nat (dir_size d - 2)"
    using dir_size_ge [of d] by (simp add: of_nat_diff)
  have "d2m_strs (dir_strs d) (unat nbuf) (PBIT16 (of_nat (dir_size d - 2) :: u32) @ d2m_fixed d)
      = Some (dir_bytes d)"
    using assms(2) by (subst d2m_strs_wstr) (simp_all add: dir_bytes_def dir_size_def)
  then show ?thesis
    using nb gt assms(1) unfolding convD2M_def dir_ss m2 Let_def
    by (simp add: dir_ok_size length_dir_bytes)
qed

lemma convM2D_bytes:
  assumes "dir_ok d"
  shows "convM2D (dir_bytes d @ r) (length (dir_bytes d @ r)) True = Some (dir_size d, dir_norm d)"
proof -
  have st: "m2d_strs (length (dir_strs d)) (dir_bytes d @ r) 41 (length (dir_bytes d @ r))
      = Some (dir_strs d, 41 + length (concat (map wstr (dir_strs d))))"
    by (rule m2d_strs_wstr [where r = r])
      (use dir_ok_strs [OF assms] in \<open>simp_all add: dir_bytes_def\<close>)
  have nb: "\<not> length (dir_bytes d @ r) < 49"
    using dir_size_ge [of d] by (simp add: length_dir_bytes)
  have "length (dir_strs d) = 4" by (simp add: dir_strs_def)
  with st nb show ?thesis
    by (simp add: convM2D_def dir_size_def Let_def del: length_append)
      (simp add: dir_bytes_def d2m_fixed_def dir_norm_def dir_strs_def)
qed

lemma statcheck_bytes: "dir_ok d \<Longrightarrow> statcheck (dir_bytes d) (dir_size d) = 0"
proof -
  assume ok: "dir_ok d"
  have "m2d_strs (length (dir_strs d)) (dir_bytes d) 41 (dir_size d)
      = Some (dir_strs d, 41 + length (concat (map wstr (dir_strs d))))"
    by (rule m2d_strs_wstr [where r = "[]"])
      (use dir_ok_strs [OF ok] in \<open>simp_all add: dir_bytes_def dir_size_def\<close>)
  from m2d_strs_statloop [OF this]
  have "statloop 4 (dir_bytes d) 41 (dir_size d) = Some (dir_size d)"
    unfolding dir_size_def [symmetric] by (simp add: length_dir_strs)
  moreover have "unat (GBIT16 (dir_bytes d)) = dir_size d - 2"
    using dir_count [OF ok] by (simp add: dir_bytes_def)
  ultimately show ?thesis using dir_size_ge [of d] by (simp add: statcheck_def)
qed

definition dir0 :: Dir where
  "dir0 = \<lparr>d_type = 77, d_dev = 1, d_qid = \<lparr>q_path = 7, q_vers = 2, q_type = 128\<rparr>, d_mode = 420,
     d_atime = 3, d_mtime = 4, d_length = 5, d_name = Some [97, 98], d_uid = None,
     d_gid = Some [103], d_muid = None\<rparr>"

lemma dir0_ok: "dir_ok dir0"
  by (simp add: dir0_def dir_ok_def dir_size_def dir_strs_def strval_def nonul_def)

text \<open>
  Claim C5 (round trip).  For every directory entry whose strings have no NUL and whose size fits the
  16-bit count: with room in the buffer \<open>convD2M\<close> returns \<open>sizeD2M\<close>, the bytes it writes pass
  \<open>statcheck\<close>, and \<open>convM2D\<close> reads the same entry back from them (\<open>nil\<close> strings as empty ones).
\<close>

theorem convD2M_convM2D_roundtrip:
  assumes "dir_ok d" "unat (sizeD2M d) \<le> unat nbuf"
  shows "\<exists>bs. convD2M d nbuf = (length bs, bs) \<and> length bs = unat (sizeD2M d)
    \<and> statcheck bs (length bs) = 0
    \<and> convM2D bs (length bs) True = Some (length bs, dir_norm d)"
proof -
  have sz: "unat (sizeD2M d) = dir_size d"
    using dir_ok_size [OF assms(1)] by (simp only: sizeD2M_def dir_ss)
  show ?thesis
    using convD2M_bytes [OF assms(1), of nbuf] convM2D_bytes [OF assms(1), of "[]"]
      statcheck_bytes [OF assms(1)] assms(2) by (auto simp: sz length_dir_bytes)
qed

theorem convD2M_convM2D_roundtrip_witness:
  "\<exists>bs. convD2M dir0 100 = (length bs, bs) \<and> length bs = unat (sizeD2M dir0)
    \<and> statcheck bs (length bs) = 0
    \<and> convM2D bs (length bs) True = Some (length bs, dir_norm dir0)"
  by (rule convD2M_convM2D_roundtrip [OF dir0_ok])
    (simp add: sizeD2M_def dir0_def dir_strs_def strval_def)

text \<open>
  Claim C6 (safety).  A buffer that passes \<open>statcheck\<close> is one \<open>convM2D\<close> accepts and consumes to its
  last byte: servers may check a stat buffer with the one and later parse it with the other.
\<close>

theorem statcheck_convM2D:
  assumes "statcheck buf nbuf = 0"
  shows "\<exists>d. convM2D buf nbuf strs = Some (nbuf, d)"
proof -
  from assms have "\<not> nbuf < 49" "statloop 4 buf 41 nbuf = Some nbuf"
    by (auto simp: statcheck_def split: if_splits option.splits)
  then show ?thesis
    using statloop_m2d_strs [of 4 buf 41 nbuf nbuf] by (auto simp: convM2D_def Let_def)
qed

theorem statcheck_convM2D_witness:
  "\<exists>d. convM2D (dir_bytes dir0) (dir_size dir0) False = Some (dir_size dir0, d)"
  by (rule statcheck_convM2D) (rule statcheck_bytes [OF dir0_ok])

text \<open>
  Property (error path).  When the buffer is too small for the entry but holds the count, \<open>convD2M\<close>
  returns 2 and the count it leaves tells the caller the size needed (the count excludes itself).
\<close>

theorem convD2M_short:
  assumes "dir_ok d" "2 \<le> unat nbuf" "unat nbuf < unat (sizeD2M d)"
  shows "\<exists>w. convD2M d nbuf = (2, w) \<and> length w = 2 \<and> unat (GBIT16 w) + 2 = unat (sizeD2M d)"
proof -
  let ?w = "PBIT16 (of_nat (dir_size d) - 2 :: u32)"
  have sz: "sizeD2M d = of_nat (dir_size d)" by (simp only: sizeD2M_def dir_ss)
  have m2: "(of_nat (dir_size d) :: u32) - 2 = of_nat (dir_size d - 2)"
    using dir_size_ge [of d] by (simp add: of_nat_diff)
  have "convD2M d nbuf = (2, ?w)"
    using assms(2,3) unfolding convD2M_def dir_ss Let_def sz by (simp add: word_less_nat_alt)
  moreover have "unat (GBIT16 ?w) + 2 = unat (sizeD2M d)"
    using dir_count [OF assms(1), of "[]"] dir_size_ge [of d] dir_ok_size [OF assms(1)]
    by (simp only: sz m2 append_Nil2)
  ultimately show ?thesis by simp
qed

theorem convD2M_short_witness:
  "\<exists>w. convD2M dir0 10 = (2, w) \<and> length w = 2 \<and> unat (GBIT16 w) + 2 = unat (sizeD2M dir0)"
  by (rule convD2M_short [OF dir0_ok]) (simp_all add: sizeD2M_def dir0_def dir_strs_def strval_def)

end
