(* ===== verification/Utf.thy ===== *)
theory Utf
  imports Inferno_Base
begin

text \<open>
  UTF-8: \<^verbatim>\<open>src/lib9/rune.c\<close> and the string routines over it (\<^verbatim>\<open>utflen.c\<close>, \<^verbatim>\<open>utfnlen.c\<close>,
  \<^verbatim>\<open>utfrune.c\<close>, \<^verbatim>\<open>utfrrune.c\<close>, \<^verbatim>\<open>runestrlen.c\<close>, \<^verbatim>\<open>runestrchr.c\<close>).  A \<open>Rune\<close> is a
  32-bit unsigned value; \<open>UTFmax\<close> is 4.  A \<open>char*\<close> is the memory from the pointer on; a C string
  ends with a NUL in that memory.
\<close>

section \<open>rune.c\<close>

type_synonym rune = u32

abbreviation (input) UTFmax :: nat where "UTFmax \<equiv> 4"
abbreviation (input) Runeself :: u32 where "Runeself \<equiv> 0x80"
abbreviation (input) Runesync :: u32 where "Runesync \<equiv> 0x80"
abbreviation (input) Runeerror :: rune where "Runeerror \<equiv> 0xFFFD"
abbreviation (input) Runemax :: rune where "Runemax \<equiv> 0x10FFFF"
abbreviation (input) SurrogateMin :: rune where "SurrogateMin \<equiv> 0xD800"
abbreviation (input) SurrogateMax :: rune where "SurrogateMax \<equiv> 0xDFFF"

text \<open>The macros \<open>T(i)\<close> and \<open>RuneX(i)\<close> and the constants derived from them.\<close>

definition T :: "nat \<Rightarrow> u32" where
  "T i = (push_bit (7 - i + 1) 1 - 1) XOR 0xFF"

definition RuneX :: "nat \<Rightarrow> u32" where
  "RuneX i = push_bit ((7 - i) + (i - 1) * 6) 1 - 1"

definition Tx :: u32 where "Tx = T 1"
definition Rune1 :: u32 where "Rune1 = push_bit 7 1 - 1"
definition Maskx :: u32 where "Maskx = push_bit 6 1 - 1"
definition Testx :: u32 where "Testx = Maskx XOR 0xFF"

text \<open>
  \<open>chartorune\<close>: the rune and the number of bytes.  The loop carries \<open>i\<close> and \<open>l\<close>; the bytes are read
  one by one.
\<close>

function c2r :: "u32 \<Rightarrow> byte list \<Rightarrow> nat \<Rightarrow> rune \<Rightarrow> rune \<times> nat" where
  "c2r c0 str i l =
     (if i < UTFmax then
        let ci = ucast (str ! i) XOR Tx in
        if ci AND Testx \<noteq> 0 then (Runeerror, 1)
        else let l' = push_bit 6 l OR ci in
          if c0 < T (i + 2) then
            let l'' = l' AND RuneX (i + 1) in
            if (if i = 1 then c0 < T 2 \<or> l'' \<le> Rune1 else l'' \<le> RuneX i \<or> l'' > Runemax)
            then (Runeerror, 1)
            else if i = 2 \<and> SurrogateMin \<le> l'' \<and> l'' \<le> SurrogateMax then (Runeerror, 1)
            else (l'', i + 1)
          else c2r c0 str (i + 1) l'
      else (Runeerror, 1))"
  by pat_completeness auto
termination
  by (relation "measure (\<lambda>(c0, str, i, l). 4 - i)") auto

definition chartorune :: "byte list \<Rightarrow> rune \<times> nat" where
  "chartorune str =
     (let c0 = ucast (str ! 0) :: u32 in
      if c0 < Tx then (c0, 1) else c2r c0 str 1 c0)"

text \<open>\<open>runetochar\<close>: the bytes stored; their number is the value returned.\<close>

definition r2c_bytes :: "rune \<Rightarrow> nat \<Rightarrow> byte list" where
  "r2c_bytes c i = ucast (T i OR drop_bit ((i - 1) * 6) c)
     # map (\<lambda>j. ucast (Tx OR (drop_bit ((i - j - 1) * 6) c AND Maskx))) [1..<i]"

definition r2c_fix :: "rune \<Rightarrow> rune" where
  "r2c_fix c = (let c = (if c > Runemax then Runeerror else c) in
     if SurrogateMin \<le> c \<and> c \<le> SurrogateMax then Runeerror else c)"

definition runetochar :: "rune \<Rightarrow> byte list" where
  "runetochar c =
     (if c \<le> Rune1 then [ucast c]
      else if c \<le> RuneX 2 then r2c_bytes c 2
      else let c = r2c_fix c in
        if c \<le> RuneX 3 then r2c_bytes c 3 else r2c_bytes c 4)"

definition runelen :: "u64 \<Rightarrow> nat" where
  "runelen c = length (runetochar (ucast c))"

definition runenlen1 :: "rune \<Rightarrow> nat" where
  "runenlen1 c =
     (if c \<le> Rune1 then 1 else if c \<le> RuneX 2 then 2 else if c \<le> RuneX 3 then 3 else 4)"

definition runenlen :: "rune list \<Rightarrow> nat" where
  "runenlen rs = sum_list (map runenlen1 rs)"

definition fullrune :: "byte list \<Rightarrow> nat \<Rightarrow> bool" where
  "fullrune str n =
     (if n = 0 then False
      else let c = ucast (str ! 0) :: u32 in
        if c < Tx then True
        else if c < T 3 then n \<ge> 2
        else if c < T 4 then n \<ge> 3
        else n \<ge> UTFmax)"

section \<open>Strings of UTF-8\<close>

text \<open>
  The loops advance by what \<open>chartorune\<close> returns, at least one byte.  A string that runs out before
  its NUL makes the C code read on past the memory given; the model then returns \<open>None\<close>.
\<close>

lemma c2r_pos: "0 < snd (c2r c0 str i l)"
  by (induction c0 str i l rule: c2r.induct) (subst c2r.simps, auto simp: Let_def)

lemma chartorune_pos [simp]: "0 < snd (chartorune str)"
  by (simp add: chartorune_def Let_def c2r_pos)

function utflen :: "byte list \<Rightarrow> nat option" where
  "utflen [] = None"
| "utflen (c # s) =
     (if ucast c < Runeself then (if c = 0 then Some 0 else map_option Suc (utflen s))
      else map_option Suc (utflen (drop (snd (chartorune (c # s))) (c # s))))"
  by pat_completeness auto
termination
  by (relation "measure length") (auto simp: diff_less)

function utfnlen :: "byte list \<Rightarrow> nat \<Rightarrow> nat" where
  "utfnlen s m =
     (if m = 0 then 0
      else if ucast (s ! 0) < Runeself then
        (if s ! 0 = 0 then 0 else Suc (utfnlen (drop 1 s) (m - 1)))
      else if \<not> fullrune s m then 0
      else Suc (utfnlen (drop (snd (chartorune s)) s) (m - snd (chartorune s))))"
  by pat_completeness auto
termination
  by (relation "measure snd") (auto simp: diff_less)

text \<open>
  \<open>strchr\<close> and \<open>strrchr\<close> of the C library give the offset of the first and the last occurrence of a
  byte, the NUL included; \<open>utfrune\<close> and \<open>utfrrune\<close> use them for a value below \<open>Runesync\<close>.  The
  result is \<open>Some None\<close> for the null pointer.
\<close>

fun strchr :: "byte list \<Rightarrow> byte \<Rightarrow> nat option option" where
  "strchr [] c = None"
| "strchr (b # s) c =
     (if b = c then Some (Some 0)
      else if b = 0 then Some None
      else map_option (map_option Suc) (strchr s c))"

fun strrchr :: "byte list \<Rightarrow> byte \<Rightarrow> nat \<Rightarrow> nat option \<Rightarrow> nat option option" where
  "strrchr [] c o' s1 = None"
| "strrchr (b # s) c o' s1 =
     (let s1' = (if b = c then Some o' else s1) in
      if b = 0 then Some s1' else strrchr s c (o' + 1) s1')"

function utfrune_at :: "byte list \<Rightarrow> u64 \<Rightarrow> nat \<Rightarrow> nat option option" where
  "utfrune_at [] c o' = None"
| "utfrune_at (b # s) c o' =
     (if ucast b < Runeself then
        (if b = 0 then Some None
         else if ucast b = c then Some (Some o')
         else utfrune_at s c (o' + 1))
      else let (r, n) = chartorune (b # s) in
        if ucast r = c then Some (Some o') else utfrune_at (drop n (b # s)) c (o' + n))"
  by pat_completeness auto
termination
proof (relation "measure (\<lambda>(s, c, o'). length s)", goal_cases)
  case (3 b s c o' x r n)
  then have "0 < n" by (metis chartorune_pos snd_conv)
  then show ?case by simp
qed auto

function utfrrune_at :: "byte list \<Rightarrow> u64 \<Rightarrow> nat \<Rightarrow> nat option \<Rightarrow> nat option option" where
  "utfrrune_at [] c o' s1 = None"
| "utfrrune_at (b # s) c o' s1 =
     (if ucast b < Runeself then
        (if b = 0 then Some s1
         else utfrrune_at s c (o' + 1) (if ucast b = c then Some o' else s1))
      else let (r, n) = chartorune (b # s) in
        utfrrune_at (drop n (b # s)) c (o' + n) (if ucast r = c then Some o' else s1))"
  by pat_completeness auto
termination
proof (relation "measure (\<lambda>(s, c, o', s1). length s)", goal_cases)
  case (3 b s c o' s1 x r n)
  then have "0 < n" by (metis chartorune_pos snd_conv)
  then show ?case by simp
qed auto

definition utfrune :: "byte list \<Rightarrow> u64 \<Rightarrow> nat option option" where
  "utfrune s c = (if c <s 0x80 then strchr s (ucast c) else utfrune_at s c 0)"

definition utfrrune :: "byte list \<Rightarrow> u64 \<Rightarrow> nat option option" where
  "utfrrune s c = (if c <s 0x80 then strrchr s (ucast c) 0 None else utfrrune_at s c 0 None)"

fun runestrlen :: "rune list \<Rightarrow> nat option" where
  "runestrlen [] = None"
| "runestrlen (r # s) = (if r = 0 then Some 0 else map_option Suc (runestrlen s))"

fun runestrchr :: "rune list \<Rightarrow> rune \<Rightarrow> nat option option" where
  "runestrchr [] c = None"
| "runestrchr (r # s) c =
     (if c = 0 then (if r = 0 then Some (Some 0) else map_option (map_option Suc) (runestrchr s c))
      else if r = 0 then Some None
      else if r = c then Some (Some 0)
      else map_option (map_option Suc) (runestrchr s c))"

declare c2r.simps [simp del] utfnlen.simps [simp del]

section \<open>The constants\<close>

lemma utf_consts [simp]:
  "T 1 = 0x80" "T (Suc 0) = 0x80" "T 2 = 0xC0" "T 3 = 0xE0" "T 4 = 0xF0" "T 5 = 0xF8"
  "RuneX 2 = 0x7FF" "RuneX 3 = 0xFFFF" "RuneX 4 = 0x1FFFFF"
  "Tx = 0x80" "Rune1 = 0x7F" "Maskx = 0x3F" "Testx = 0xC0"
  by (simp_all add: T_def RuneX_def Tx_def Rune1_def Maskx_def Testx_def)

section \<open>Comparisons as tests of bits\<close>

lemma u32_drop_bit_0: "drop_bit k (c :: u32) = 0 \<longleftrightarrow> unat c < 2 ^ k"
  unfolding word_unat_eq_iff unat_drop_bit_eq by (simp add: drop_bit_eq_div div_eq_0_iff)

lemma u32_le_masks:
  "(c :: u32) \<le> 0x7F \<longleftrightarrow> drop_bit 7 c = 0" "c \<le> 0x7FF \<longleftrightarrow> drop_bit 11 c = 0"
  "c \<le> 0xFFFF \<longleftrightarrow> drop_bit 16 c = 0" "c \<le> 0x1FFFFF \<longleftrightarrow> drop_bit 21 c = 0"
  unfolding u32_drop_bit_0 word_le_nat_alt by auto

text \<open>The comparisons with \<open>T(i)\<close> look at the leading bits of the first byte.\<close>

lemma lead_byte:
  "ucast (b :: byte) < (0x80 :: u32) \<longleftrightarrow> \<not> bit b 7"
  "ucast b < (0xC0 :: u32) \<longleftrightarrow> \<not> (bit b 7 \<and> bit b 6)"
  "ucast b < (0xE0 :: u32) \<longleftrightarrow> \<not> (bit b 7 \<and> bit b 6 \<and> bit b 5)"
  "ucast b < (0xF0 :: u32) \<longleftrightarrow> \<not> (bit b 7 \<and> bit b 6 \<and> bit b 5 \<and> bit b 4)"
  "ucast b < (0xF8 :: u32) \<longleftrightarrow> \<not> (bit b 7 \<and> bit b 6 \<and> bit b 5 \<and> bit b 4 \<and> bit b 3)"
proof -
  have ub: "unat b < 256" using unsigned_less [of b] by simp
  have lt: "ucast b < (of_nat m :: u32) \<longleftrightarrow> unat b < m" if "m < 256" for m
    using that ub by (simp add: word_less_nat_alt unsigned_ucast_eq unsigned_of_nat take_bit_nat_eq_self)
  have d: "drop_bit k b = of_nat m \<longleftrightarrow> unat b div 2 ^ k = m" if "m < 256" for k m
    using that unfolding word_unat_eq_iff unat_drop_bit_eq
    by (simp add: drop_bit_eq_div unsigned_of_nat take_bit_nat_eq_self)
  show "ucast b < (0x80 :: u32) \<longleftrightarrow> \<not> bit b 7"
    using lt [where m = "0x80"] d [where m = 1 and k = 7] ub by (simp add: byte_bits) arith
  show "ucast b < (0xC0 :: u32) \<longleftrightarrow> \<not> (bit b 7 \<and> bit b 6)"
    using lt [where m = "0xC0"] d [where m = 3 and k = 6] ub by (simp add: byte_bits) arith
  show "ucast b < (0xE0 :: u32) \<longleftrightarrow> \<not> (bit b 7 \<and> bit b 6 \<and> bit b 5)"
    using lt [where m = "0xE0"] d [where m = 7 and k = 5] ub by (simp add: byte_bits) arith
  show "ucast b < (0xF0 :: u32) \<longleftrightarrow> \<not> (bit b 7 \<and> bit b 6 \<and> bit b 5 \<and> bit b 4)"
    using lt [where m = "0xF0"] d [where m = 15 and k = 4] ub by (simp add: byte_bits) arith
  show "ucast b < (0xF8 :: u32) \<longleftrightarrow> \<not> (bit b 7 \<and> bit b 6 \<and> bit b 5 \<and> bit b 4 \<and> bit b 3)"
    using lt [where m = "0xF8"] d [where m = 31 and k = 3] ub by (simp add: byte_bits) arith
qed

lemma cont_byte: "(ucast (b :: byte) XOR 0x80) AND 0xC0 = (0 :: u32) \<longleftrightarrow> bit b 7 \<and> \<not> bit b 6"
  by (auto simp: u32_bits)

section \<open>Decoding and encoding, unrolled\<close>

lemma r2c_bytes_simps:
  "r2c_bytes c 2 = [ucast (0xC0 OR drop_bit 6 c), ucast (0x80 OR (c AND 0x3F))]"
  "r2c_bytes c 3 = [ucast (0xE0 OR drop_bit 12 c), ucast (0x80 OR (drop_bit 6 c AND 0x3F)),
     ucast (0x80 OR (c AND 0x3F))]"
  "r2c_bytes c 4 = [ucast (0xF0 OR drop_bit 18 c), ucast (0x80 OR (drop_bit 12 c AND 0x3F)),
     ucast (0x80 OR (drop_bit 6 c AND 0x3F)), ucast (0x80 OR (c AND 0x3F))]"
  by (simp_all add: r2c_bytes_def upt_conv_Cons)

definition cont :: "byte \<Rightarrow> bool" where
  "cont b \<longleftrightarrow> bit b 7 \<and> \<not> bit b 6"

text \<open>The loop of \<open>chartorune\<close> unrolled: one case for each length of a sequence.\<close>

definition tail_bits :: "u32 \<Rightarrow> byte \<Rightarrow> u32" where
  "tail_bits l b = push_bit 6 l OR (ucast b XOR 0x80)"

lemma c2r_1:
  "c2r c0 str 1 l = (let l1 = tail_bits l (str ! 1) in
     if \<not> cont (str ! 1) then (0xFFFD, 1)
     else if c0 < 0xE0 then (if c0 < 0xC0 \<or> l1 AND 0x7FF \<le> 0x7F then (0xFFFD, 1) else (l1 AND 0x7FF, 2))
     else c2r c0 str 2 l1)"
  by (subst c2r.simps) (auto simp: Let_def cont_byte tail_bits_def simp flip: cont_def numeral_2_eq_2)

lemma and_FFFF_small: "\<not> 0x10FFFF < (x :: u32) AND 0xFFFF"
proof -
  have "x AND 0xFFFF \<le> 0xFFFF" by (rule word_and_le1)
  also have "(0xFFFF :: u32) \<le> 0x10FFFF" by simp
  finally show ?thesis by simp
qed

lemma c2r_2:
  "c2r c0 str 2 l = (let l2 = tail_bits l (str ! 2) in
     if \<not> cont (str ! 2) then (0xFFFD, 1)
     else if c0 < 0xF0 then
       (if l2 AND 0xFFFF \<le> 0x7FF \<or> (0xD800 \<le> l2 AND 0xFFFF \<and> l2 AND 0xFFFF \<le> 0xDFFF)
        then (0xFFFD, 1) else (l2 AND 0xFFFF, 3))
     else c2r c0 str 3 l2)"
  by (subst c2r.simps) (simp add: Let_def cont_byte tail_bits_def and_FFFF_small flip: cont_def)

lemma c2r_3:
  "c2r c0 str 3 l = (let l3 = tail_bits l (str ! 3) in
     if \<not> cont (str ! 3) then (0xFFFD, 1)
     else if c0 < 0xF8 then
       (if l3 AND 0x1FFFFF \<le> 0xFFFF \<or> l3 AND 0x1FFFFF > 0x10FFFF
        then (0xFFFD, 1) else (l3 AND 0x1FFFFF, 4))
     else (0xFFFD, 1))"
  by (subst c2r.simps, subst c2r.simps) (auto simp: Let_def cont_byte tail_bits_def simp flip: cont_def)

lemma chartorune_unroll:
  "chartorune str =
     (let b0 = str ! 0; b1 = str ! 1; b2 = str ! 2; b3 = str ! 3;
          l1 = tail_bits (ucast b0) b1; l2 = tail_bits l1 b2; l3 = tail_bits l2 b3 in
      if \<not> bit b0 7 then (ucast b0, 1)
      else if \<not> cont b1 then (0xFFFD, 1)
      else if \<not> bit b0 5 \<or> \<not> bit b0 6 then
        (if \<not> bit b0 6 \<or> l1 AND 0x7FF \<le> 0x7F then (0xFFFD, 1) else (l1 AND 0x7FF, 2))
      else if \<not> cont b2 then (0xFFFD, 1)
      else if \<not> bit b0 4 then
        (if l2 AND 0xFFFF \<le> 0x7FF \<or> (0xD800 \<le> l2 AND 0xFFFF \<and> l2 AND 0xFFFF \<le> 0xDFFF)
         then (0xFFFD, 1) else (l2 AND 0xFFFF, 3))
      else if \<not> cont b3 \<or> bit b0 3 then (0xFFFD, 1)
      else if l3 AND 0x1FFFFF \<le> 0xFFFF \<or> l3 AND 0x1FFFFF > 0x10FFFF then (0xFFFD, 1)
      else (l3 AND 0x1FFFFF, 4))"
  by (simp add: chartorune_def Let_def c2r_1 [unfolded One_nat_def] c2r_2 c2r_3 lead_byte)

section \<open>Valid runes and the round trip\<close>

definition rune_ok :: "rune \<Rightarrow> bool" where
  "rune_ok r \<longleftrightarrow> r \<le> 0x10FFFF \<and> \<not> (0xD800 \<le> r \<and> r \<le> 0xDFFF)"

lemma u32_mask_eq:
  "(l :: u32) AND 0x7FF = c \<Longrightarrow> c \<le> 0x7FF" "l AND 0xFFFF = c \<Longrightarrow> c \<le> 0xFFFF" "l AND 0x1FFFFF = c \<Longrightarrow> c \<le> 0x1FFFFF"
  using word_and_le1 [of l] by blast+

lemma dec_enc_2:
  "drop_bit 11 c = 0 \<Longrightarrow> tail_bits (ucast (ucast (0xC0 OR drop_bit 6 c) :: byte)) (ucast (0x80 OR (c AND 0x3F))) AND 0x7FF = c"
  by (simp add: tail_bits_def u32_bits)

lemma dec_enc_3:
  "drop_bit 16 c = 0 \<Longrightarrow> tail_bits (tail_bits (ucast (ucast (0xE0 OR drop_bit 12 c) :: byte))
     (ucast (0x80 OR (drop_bit 6 c AND 0x3F)))) (ucast (0x80 OR (c AND 0x3F))) AND 0xFFFF = c"
  by (simp add: tail_bits_def u32_bits)

lemma dec_enc_4:
  "drop_bit 21 c = 0 \<Longrightarrow> tail_bits (tail_bits (tail_bits (ucast (ucast (0xF0 OR drop_bit 18 c) :: byte))
     (ucast (0x80 OR (drop_bit 12 c AND 0x3F)))) (ucast (0x80 OR (drop_bit 6 c AND 0x3F))))
       (ucast (0x80 OR (c AND 0x3F))) AND 0x1FFFFF = c"
  by (simp add: tail_bits_def u32_bits)

lemma cont_enc: "cont (ucast ((0x80 :: u32) OR (c AND 0x3F)))"
  by (simp add: cont_def bit_simps)

lemma lead_enc:
  "drop_bit 11 c = 0 \<Longrightarrow> bit (ucast ((0xC0 :: u32) OR drop_bit 6 c) :: byte) 7 \<and> bit (ucast ((0xC0 :: u32) OR drop_bit 6 c) :: byte) 6 \<and> \<not> bit (ucast ((0xC0 :: u32) OR drop_bit 6 c) :: byte) 5"
  "drop_bit 16 c = 0 \<Longrightarrow> bit (ucast ((0xE0 :: u32) OR drop_bit 12 c) :: byte) 7 \<and> bit (ucast ((0xE0 :: u32) OR drop_bit 12 c) :: byte) 6 \<and> bit (ucast ((0xE0 :: u32) OR drop_bit 12 c) :: byte) 5 \<and> \<not> bit (ucast ((0xE0 :: u32) OR drop_bit 12 c) :: byte) 4"
  "drop_bit 21 c = 0 \<Longrightarrow> bit (ucast ((0xF0 :: u32) OR drop_bit 18 c) :: byte) 7 \<and> bit (ucast ((0xF0 :: u32) OR drop_bit 18 c) :: byte) 6 \<and> bit (ucast ((0xF0 :: u32) OR drop_bit 18 c) :: byte) 5 \<and> bit (ucast ((0xF0 :: u32) OR drop_bit 18 c) :: byte) 4 \<and> \<not> bit (ucast ((0xF0 :: u32) OR drop_bit 18 c) :: byte) 3"
  by (simp_all add: u32_bits)

lemma enc_1: "drop_bit 7 c = 0 \<Longrightarrow> \<not> bit (ucast (c :: u32) :: byte) 7 \<and> ucast (ucast c :: byte) = c"
  by (simp add: u32_bits)

lemma runetochar_ok:
  "rune_ok c \<Longrightarrow> runetochar c =
    (if c \<le> 0x7F then [ucast c] else if c \<le> 0x7FF then r2c_bytes c 2
     else if c \<le> 0xFFFF then r2c_bytes c 3 else r2c_bytes c 4)"
  by (auto simp: runetochar_def r2c_fix_def rune_ok_def not_less)

lemma rune_ok_max: "rune_ok c \<Longrightarrow> c \<le> 0x1FFFFF"
  unfolding rune_ok_def by (erule conjE, erule order_trans) simp

lemma chartorune_runetochar:
  assumes "rune_ok c" 
  shows "chartorune (runetochar c @ x) = (c, length (runetochar c))"
proof -
  consider "c \<le> 0x7F" | "\<not> c \<le> 0x7F" "c \<le> 0x7FF" | "\<not> c \<le> 0x7F" "\<not> c \<le> 0x7FF" "c \<le> 0xFFFF"
    | "\<not> c \<le> 0x7F" "\<not> c \<le> 0x7FF" "\<not> c \<le> 0xFFFF" "c \<le> 0x1FFFFF"
    using rune_ok_max [OF assms] by blast
  then show ?thesis
  proof cases
    case 1
    with enc_1 [of c] show ?thesis
      by (simp add: runetochar_ok assms chartorune_unroll u32_le_masks)
  next
    case 2
    then have "drop_bit 11 c = 0" by (simp only: u32_le_masks)
    from 2 dec_enc_2 [OF this] lead_enc(1) [OF this] show ?thesis
      by (simp add: runetochar_ok assms chartorune_unroll r2c_bytes_simps cont_enc)
  next
    case 3
    then have "drop_bit 16 c = 0" by (simp only: u32_le_masks)
    from 3 dec_enc_3 [OF this] lead_enc(2) [OF this] assms show ?thesis
      by (simp add: runetochar_ok chartorune_unroll r2c_bytes_simps cont_enc) (simp add: rune_ok_def)
  next
    case 4
    then have "drop_bit 21 c = 0" by (simp only: u32_le_masks)
    from 4 dec_enc_4 [OF this] lead_enc(3) [OF this] assms show ?thesis
      by (simp add: runetochar_ok chartorune_unroll r2c_bytes_simps cont_enc) (simp add: rune_ok_def not_less)
  qed
qed

lemma rune_ok_2: "c \<le> 0x7FF \<Longrightarrow> rune_ok c"
  by (simp add: rune_ok_def word_le_nat_alt)

lemma rune_ok_3: "c \<le> 0xFFFF \<Longrightarrow> rune_ok c \<longleftrightarrow> \<not> (0xD800 \<le> c \<and> c \<le> 0xDFFF)"
  by (auto simp: rune_ok_def word_le_nat_alt)

lemma rune_ok_4: "\<not> c \<le> 0xFFFF \<Longrightarrow> rune_ok c \<longleftrightarrow> \<not> 0x10FFFF < c"
  by (auto simp: rune_ok_def word_le_nat_alt word_less_nat_alt)

lemma enc_dec_1: "\<not> bit (b0 :: byte) 7 \<Longrightarrow> runetochar (ucast b0) = [b0] \<and> rune_ok (ucast b0)"
proof -
  assume "\<not> bit b0 7"
  then have le: "(ucast b0 :: u32) \<le> 0x7F" by (simp only: u32_le_masks) (simp add: u32_bits)
  then have "(ucast b0 :: u32) \<le> 0x7FF" by (rule order_trans) simp
  with le show ?thesis by (simp add: runetochar_def rune_ok_2 byte_bits)
qed

lemma enc_dec_2:
  "\<lbrakk>bit b0 7; bit b0 6; \<not> bit b0 5; cont b1\<rbrakk>
    \<Longrightarrow> r2c_bytes (tail_bits (ucast b0) b1 AND 0x7FF) 2 = [b0, b1]"
  by (simp add: r2c_bytes_simps byte_bits tail_bits_def cont_def)

lemma enc_dec_3:
  "\<lbrakk>bit b0 7; bit b0 6; bit b0 5; \<not> bit b0 4; cont b1; cont b2\<rbrakk>
    \<Longrightarrow> r2c_bytes (tail_bits (tail_bits (ucast b0) b1) b2 AND 0xFFFF) 3 = [b0, b1, b2]"
  by (simp add: r2c_bytes_simps byte_bits tail_bits_def cont_def)

lemma enc_dec_4:
  "\<lbrakk>bit b0 7; bit b0 6; bit b0 5; bit b0 4; \<not> bit b0 3; cont b1; cont b2; cont b3\<rbrakk>
    \<Longrightarrow> r2c_bytes (tail_bits (tail_bits (tail_bits (ucast b0) b1) b2) b3 AND 0x1FFFFF) 4
        = [b0, b1, b2, b3]"
  by (simp add: r2c_bytes_simps byte_bits tail_bits_def cont_def)

lemma take_nth:
  "1 \<le> length xs \<Longrightarrow> take (Suc 0) xs = [xs ! 0]"
  "2 \<le> length xs \<Longrightarrow> take 2 xs = [xs ! 0, xs ! 1]"
  "3 \<le> length xs \<Longrightarrow> take 3 xs = [xs ! 0, xs ! 1, xs ! 2]"
  "4 \<le> length xs \<Longrightarrow> take 4 xs = [xs ! 0, xs ! 1, xs ! 2, xs ! 3]"
  by (auto simp: list_eq_iff_nth_eq nth_Cons' less_Suc_eq numeral_eq_Suc)

lemma chartorune_canonical_aux:
  assumes "chartorune str = (r, n)" "n \<le> length str"
  shows "rune_ok r" "(r, n) = (0xFFFD, 1) \<or> runetochar r = take n str"
proof -
  define l1 where "l1 = tail_bits (ucast (str ! 0)) (str ! 1)"
  define l2 where "l2 = tail_bits l1 (str ! 2)"
  define l3 where "l3 = tail_bits l2 (str ! 3)"
  consider "(r, n) = (0xFFFD, 1)" | "\<not> bit (str ! 0) 7" "r = ucast (str ! 0)" "n = 1"
    | "r2c_bytes r 2 = [str ! 0, str ! 1]" "\<not> r \<le> 0x7F" "r \<le> 0x7FF" "n = 2"
    | "r2c_bytes r 3 = [str ! 0, str ! 1, str ! 2]" "\<not> r \<le> 0x7FF" "r \<le> 0xFFFF" "rune_ok r" "n = 3"
    | "r2c_bytes r 4 = [str ! 0, str ! 1, str ! 2, str ! 3]" "\<not> r \<le> 0xFFFF" "rune_ok r" "n = 4"
    using assms(1) 
    unfolding chartorune_unroll Let_def l1_def [symmetric] l2_def [symmetric] l3_def [symmetric]
    using enc_dec_2 [of "str ! 0" "str ! 1", folded l1_def]
      enc_dec_3 [of "str ! 0" "str ! 1" "str ! 2", folded l1_def, folded l2_def]
      enc_dec_4 [of "str ! 0" "str ! 1" "str ! 2" "str ! 3", folded l1_def, folded l2_def, folded l3_def]
      word_and_le1 [of l1 "0x7FF"] word_and_le1 [of l2 "0xFFFF"]
    by (auto simp: rune_ok_3 rune_ok_4 split: if_splits)
  then have *: "rune_ok r \<and> ((r, n) = (0xFFFD, 1) \<or> runetochar r = take n str)"
  proof cases
    case 1
    then show ?thesis by (simp add: rune_ok_def)
  next
    case 2
    with assms(2) enc_dec_1 [of "str ! 0"] show ?thesis by (simp add: take_nth)
  next
    case 3
    with assms(2) rune_ok_2 [of r] show ?thesis by (simp add: take_nth runetochar_ok)
  next
    case 4
    have "\<not> r \<le> 0x7F" using 4(2) by (auto dest: order_trans [of r "0x7F" "0x7FF"])
    with 4 assms(2) show ?thesis by (simp add: take_nth runetochar_ok)
  next
    case 5
    have "\<not> r \<le> 0x7F" "\<not> r \<le> 0x7FF"
      using 5(2) by (auto dest: order_trans [of r "0x7F" "0xFFFF"] order_trans [of r "0x7FF" "0xFFFF"])
    with 5 assms(2) show ?thesis by (simp add: take_nth runetochar_ok)
  qed
  then show "rune_ok r" "(r, n) = (0xFFFD, 1) \<or> runetochar r = take n str" by auto
qed

lemma chartorune_append: "\<lbrakk>fullrune str n; n \<le> length str\<rbrakk> \<Longrightarrow> chartorune (take n str @ x) = chartorune str"
proof -
  assume *: "fullrune str n" "n \<le> length str"
  have n1: "(take n str @ x) ! i = str ! i" if "i < n" for i
    using that *(2) by (simp add: nth_append)
  have f: "0 < n" "bit (str ! 0) 7 \<Longrightarrow> Suc 0 < n" "bit (str ! 0) 7 \<Longrightarrow> bit (str ! 0) 6 \<Longrightarrow> bit (str ! 0) 5 \<Longrightarrow> 2 < n"
    "bit (str ! 0) 7 \<Longrightarrow> bit (str ! 0) 6 \<Longrightarrow> bit (str ! 0) 5 \<Longrightarrow> bit (str ! 0) 4 \<Longrightarrow> 3 < n"
    using *(1) by (auto simp: fullrune_def Let_def lead_byte split: if_splits)
  show ?thesis
    by (cases "bit (str ! 0) 7"; cases "bit (str ! 0) 6"; cases "bit (str ! 0) 5"; cases "bit (str ! 0) 4")
      (simp_all add: chartorune_unroll Let_def n1 f)
qed

lemma fullrune_enc: 
  assumes "rune_ok c" 
  shows "fullrune (runetochar c @ x) n \<longleftrightarrow> length (runetochar c) \<le> n"
proof -
  consider "c \<le> 0x7F" | "\<not> c \<le> 0x7F" "c \<le> 0x7FF" | "\<not> c \<le> 0x7F" "\<not> c \<le> 0x7FF" "c \<le> 0xFFFF"
    | "\<not> c \<le> 0x7F" "\<not> c \<le> 0x7FF" "\<not> c \<le> 0xFFFF" "c \<le> 0x1FFFFF"
    using rune_ok_max [OF assms] by blast
  then show ?thesis
  proof cases
    case 1
    then have "drop_bit 7 c = 0" by (simp only: u32_le_masks)
    from 1 enc_1 [OF this, THEN conjunct1] show ?thesis
      by (auto simp: runetochar_ok assms fullrune_def lead_byte Let_def)
  next
    case 2
    then have "drop_bit 11 c = 0" by (simp only: u32_le_masks)
    from 2 lead_enc(1) [OF this] show ?thesis
      by (simp add: runetochar_ok assms fullrune_def lead_byte Let_def r2c_bytes_simps) linarith?
  next
    case 3
    then have "drop_bit 16 c = 0" by (simp only: u32_le_masks)
    from 3 lead_enc(2) [OF this] show ?thesis
      by (auto simp: runetochar_ok assms fullrune_def lead_byte Let_def r2c_bytes_simps)
  next
    case 4
    then have "drop_bit 21 c = 0" by (simp only: u32_le_masks)
    from 4 lead_enc(3) [OF this] show ?thesis
      by (auto simp: runetochar_ok assms fullrune_def lead_byte Let_def r2c_bytes_simps)
  qed
qed

text \<open>A rune of the ASCII range is one byte with the top bit clear; of every other rune all bytes have it set.\<close>

lemma runetochar_ascii: "c \<le> 0x7F \<Longrightarrow> runetochar c = [ucast c]"
  by (simp add: runetochar_def)

lemma ascii_rune:
  assumes "r \<le> 0x7F" "r \<noteq> 0"
  obtains b where "r = ucast b" "\<not> bit b 7" "b \<noteq> 0" "runetochar r = [b]"
proof -
  from assms(1) have "drop_bit 7 r = 0" by (simp only: u32_le_masks)
  from enc_1 [OF this] assms show ?thesis by (intro that [of "ucast r"]) (auto simp: runetochar_ascii)
qed

lemma runetochar_multi: "\<not> c \<le> 0x7F \<Longrightarrow> b \<in> set (runetochar c) \<Longrightarrow> bit b 7"
  by (auto simp: runetochar_def Let_def r2c_bytes_simps bit_simps split: if_splits)

lemma runetochar_ne [simp]: "runetochar c \<noteq> []"
  by (simp add: runetochar_def r2c_bytes_def Let_def)

lemma runetochar_len: "length (runetochar c) \<in> {1..4}"
  by (simp add: runetochar_def r2c_bytes_simps Let_def)

definition utf_encode :: "rune list \<Rightarrow> byte list" where
  "utf_encode rs = concat (map runetochar rs)"

lemma utf_encode_simps [simp]:
  "utf_encode [] = []" "utf_encode (r # rs) = runetochar r @ utf_encode rs"
  by (simp_all add: utf_encode_def)

definition str_runes :: "rune list \<Rightarrow> bool" where
  "str_runes rs \<longleftrightarrow> (\<forall>r\<in>set rs. rune_ok r \<and> r \<noteq> 0)"

lemma str_runes_simps [simp]:
  "str_runes []" "str_runes (r # rs) \<longleftrightarrow> rune_ok r \<and> r \<noteq> 0 \<and> str_runes rs"
  by (auto simp: str_runes_def)

lemma utflen_step: 
  assumes "rune_ok r" "r \<noteq> 0"
  shows "utflen (runetochar r @ s) = map_option Suc (utflen s)"
proof (cases "r \<le> 0x7F")
  case True
  then obtain b where "\<not> bit b 7" "b \<noteq> 0" "runetochar r = [b]"
    by (rule ascii_rune [OF _ assms(2)])
  then show ?thesis by (simp add: lead_byte)
next
  case False
  obtain b bs where e: "runetochar r = b # bs" by (cases "runetochar r") auto
  then have "bit b 7" using runetochar_multi [OF False, of b] by simp
  with chartorune_runetochar [OF assms(1), of s] e show ?thesis by (simp add: lead_byte)
qed

lemma utflen_encode: "str_runes rs \<Longrightarrow> utflen (utf_encode rs @ 0 # x) = Some (length rs)"
  by (induction rs) (simp_all add: utflen_step)

fun rune_index :: "rune \<Rightarrow> rune list \<Rightarrow> nat option" where
  "rune_index c [] = None"
| "rune_index c (r # rs) = (if r = c then Some 0 else map_option (\<lambda>k. length (runetochar r) + k) (rune_index c rs))"

lemma shift_0 [simp]: "map_option (map_option ((+) (0 :: nat))) x = x"
proof -
  have "(+) (0 :: nat) = id" by auto
  then show ?thesis by (simp add: option.map_id0)
qed

lemma strchr_skip:
  "\<forall>b\<in>set bs. b \<noteq> 0 \<and> b \<noteq> c \<Longrightarrow> strchr (bs @ s) c = map_option (map_option (\<lambda>k. length bs + k)) (strchr s c)"
  by (induction bs) (auto simp: option.map_comp o_def option.map_ident intro!: option.map_cong)

lemma ucast_rune_inj: "ucast (r :: u32) = (ucast c :: u64) \<longleftrightarrow> r = c"
proof
  assume "ucast r = (ucast c :: u64)"
  then have "bit (ucast r :: u64) n = bit (ucast c :: u64) n" for n by simp
  then show "r = c" by (intro bit_word_eqI) (fastforce simp: bit_ucast_iff)
qed simp

lemma ucast_byte_inj: "ucast (b :: byte) = (ucast c :: u64) \<longleftrightarrow> ucast b = (c :: u32)"
proof -
  have "(ucast b :: u64) = ucast (ucast b :: u32)"
    by (rule bit_word_eqI) (auto simp: bit_simps dest: bit_imp_le_length)
  then show ?thesis by (metis ucast_rune_inj)
qed

lemma utfrune_at_step:
  assumes "rune_ok r" "r \<noteq> 0"
  shows "utfrune_at (runetochar r @ s) (ucast c) k
     = (if r = c then Some (Some k) else utfrune_at s (ucast c) (k + length (runetochar r)))"
proof (cases "r \<le> 0x7F")
  case True
  then obtain b where "r = ucast b" "\<not> bit b 7" "b \<noteq> 0" "runetochar r = [b]"
    by (rule ascii_rune [OF _ assms(2)])
  then show ?thesis by (simp add: lead_byte ucast_byte_inj)
next
  case False
  obtain b bs where e: "runetochar r = b # bs" by (cases "runetochar r") auto
  then have "bit b 7" using runetochar_multi [OF False, of b] by simp
  with chartorune_runetochar [OF assms(1), of s] e show ?thesis by (simp add: lead_byte ucast_rune_inj)
qed

lemma utfrune_at_encode:
  "str_runes rs \<Longrightarrow> utfrune_at (utf_encode rs @ 0 # x) (ucast (c :: rune)) k
     = Some (map_option (\<lambda>i. k + i) (rune_index c rs))"
  by (induction rs arbitrary: k)
    (auto simp: utfrune_at_step option.map_comp o_def lead_byte intro!: option.map_cong)

lemma strchr_encode:
  "\<lbrakk>str_runes rs; c \<le> 0x7F; c \<noteq> 0\<rbrakk> \<Longrightarrow> strchr (utf_encode rs @ 0 # x) (ucast (c :: rune)) = Some (rune_index c rs)"
proof (induction rs)
  case Nil
  then have "drop_bit 7 c = 0" by (simp only: u32_le_masks)
  from enc_1 [OF this] Nil show ?case by auto
next
  case (Cons r rs)
  from Cons.prems have "drop_bit 7 c = 0" by (simp only: u32_le_masks)
  from enc_1 [OF this] have c: "\<not> bit (ucast c :: byte) 7" "ucast (ucast c :: byte) = c" by auto
  show ?case
  proof (cases "r = c")
    case True
    with Cons show ?thesis by (simp add: runetochar_ascii)
  next
    case False
    have "\<forall>b\<in>set (runetochar r). b \<noteq> 0 \<and> b \<noteq> ucast c"
    proof (cases "r \<le> 0x7F")
      case True
      then have "drop_bit 7 r = 0" by (simp only: u32_le_masks)
      from enc_1 [OF this] True False c Cons.prems show ?thesis by (auto simp: runetochar_ascii)
    next
      case False
      then show ?thesis using runetochar_multi [of r] c by fastforce
    qed
    from strchr_skip [OF this] False Cons show ?thesis by simp
  qed
qed

lemma utfrune_encode:
  assumes "str_runes rs" "rune_ok c" "c \<noteq> 0"
  shows "utfrune (utf_encode rs @ 0 # x) (ucast c) = Some (rune_index c rs)"
proof -
  have "sint (ucast c :: u64) = uint c"
    using uint_bounded [of c] uint_ge_0 [of c]
    by (simp add: sint_uint unsigned_ucast_eq take_bit_int_eq_self signed_take_bit_int_eq_self_iff) (rule order_trans [OF _ uint_ge_0], simp)
  then have s: "(ucast c :: u64) <s 0x80 \<longleftrightarrow> c \<le> 0x7F"
    by (auto simp: word_sless_alt word_le_def)
  have u: "ucast (ucast c :: u64) = (ucast c :: byte)"
    by (rule bit_word_eqI) (auto simp: bit_simps)
  show ?thesis
    using assms utfrune_at_encode [OF assms(1), of x c 0] strchr_encode [OF assms(1) _ assms(3)]
    by (simp add: utfrune_def s u option.map_ident)
qed

section \<open>Correctness of the UTF routines\<close>

definition rune_get :: "byte list \<Rightarrow> (rune \<times> byte list) option" where
  "rune_get s = (if s = [] then None
     else let (r, n) = chartorune s in Some (r, drop n s))"

interpretation utf: stream_codec runetochar rune_get rune_ok
  by unfold_locales (simp add: rune_get_def chartorune_runetochar)

text \<open>Claim C7 (round trip).  For every valid rune (at most \<open>Runemax\<close> and no surrogate),
  \<open>chartorune\<close> on the bytes of \<open>runetochar\<close>, whatever follows them, gives the rune and the number
  of bytes back, so that taking runes off the encoding of a text gives the text back.\<close>

theorem utf_roundtrip:
  assumes "rune_ok r" "list_all rune_ok rs"
  shows "chartorune (runetochar r @ x) = (r, length (runetochar r))
    \<and> get_many rune_get (length rs) (concat (map runetochar rs) @ x) = Some (rs, x)"
  using chartorune_runetochar [OF assms(1)] utf.get_many_put [OF assms(2)] by simp

theorem utf_roundtrip_witness:
  "rune_ok 0x20AC \<and> chartorune ([0xE2, 0x82, 0xAC] @ [0]) = (0x20AC, 3)
   \<and> list_all rune_ok [0x20AC, 0x41]
   \<and> get_many rune_get 2 ([0xE2, 0x82, 0xAC, 0x41] @ [0]) = Some ([0x20AC, 0x41], [0])"
proof -
  have ok: "rune_ok 0x20AC" by code_simp
  have e: "runetochar 0x20AC = [0xE2, 0x82, 0xAC]" by code_simp
  have l: "list_all rune_ok [0x20AC, 0x41]" by code_simp
  have c: "concat (map runetochar [0x20AC, 0x41]) = [0xE2, 0x82, 0xAC, 0x41]" by code_simp
  from utf_roundtrip [OF ok l, of "[0]"] e ok l c show ?thesis by (simp add: numeral_2_eq_2)
qed

text \<open>Claim C8 (safety).  Whatever the input, \<open>chartorune\<close> gives a valid rune, and either it
  reports one byte of error or the bytes it consumed are exactly the encoding \<open>runetochar\<close> gives
  that rune: overlong forms, surrogates and values above \<open>Runemax\<close> are never accepted.\<close>

theorem utf_canonical:
  assumes "chartorune str = (r, n)" "n \<le> length str"
  shows "rune_ok r \<and> ((r, n) = (Runeerror, 1) \<or> runetochar r = take n str)"
  using chartorune_canonical_aux [OF assms] by simp

theorem utf_canonical_witness:
  "chartorune [0xE2, 0x82, 0xAC] = (0x20AC, 3) \<and> runetochar 0x20AC = [0xE2, 0x82, 0xAC]
   \<and> chartorune [0xC0, 0x80] = (Runeerror, 1)"
proof -
  have a: "chartorune [0xE2, 0x82, 0xAC] = (0x20AC, 3)" by code_simp
  have b: "chartorune [0xC0, 0x80] = (Runeerror, 1)" by code_simp
  from utf_canonical [OF a] a b show ?thesis by simp
qed

text \<open>Claim C9 (bounds).  When \<open>fullrune\<close> accepts the first \<open>n\<close> bytes, what \<open>chartorune\<close> returns does
  not depend on anything after them; and of the encoding of a valid rune \<open>fullrune\<close> accepts
  exactly the prefixes that hold all of it.\<close>

theorem fullrune_enough:
  assumes "fullrune str n" "n \<le> length str" "rune_ok r"
  shows "chartorune (take n str @ x) = chartorune str
    \<and> (fullrune (runetochar r @ y) m \<longleftrightarrow> length (runetochar r) \<le> m)"
  using chartorune_append [OF assms(1,2)] fullrune_enc [OF assms(3)] by simp

theorem fullrune_enough_witness:
  "fullrune [0xC3, 0xA9, 0x7A] 2 \<and> chartorune ([0xC3, 0xA9] @ [0x41]) = (0xE9, 2)
   \<and> \<not> fullrune (runetochar 0xE9) 1"
proof -
  have a: "fullrune [0xC3, 0xA9, 0x7A] 2" by code_simp
  have b: "rune_ok 0xE9" by code_simp
  have c: "chartorune [0xC3, 0xA9, 0x7A] = (0xE9, 2)" by code_simp
  have d: "length (runetochar 0xE9) = 2" by code_simp
  from fullrune_enough [OF a _ b, where x = "[0x41]" and y = "[]" and m = 1] a c d show ?thesis by simp
qed

text \<open>Property (functional).  On the NUL-terminated encoding of a text of valid non-zero runes,
  \<open>utflen\<close> counts the runes and \<open>utfrune\<close> gives the byte offset of the first occurrence of a rune,
  or the null pointer, although for ASCII it goes through \<open>strchr\<close> and searches bytes.\<close>

theorem utfrune_utflen_spec:
  assumes "str_runes rs" "rune_ok c" "c \<noteq> 0"
  shows "utflen (utf_encode rs @ 0 # x) = Some (length rs)
    \<and> utfrune (utf_encode rs @ 0 # x) (ucast c) = Some (rune_index c rs)"
  using utflen_encode [OF assms(1)] utfrune_encode [OF assms] by simp

theorem utfrune_utflen_spec_witness:
  "utflen (utf_encode [0x20AC, 0x41] @ [0]) = Some 2
   \<and> utfrune (utf_encode [0x20AC, 0x41] @ [0]) (ucast (0x41 :: rune)) = Some (Some 3)"
proof -
  have a: "str_runes [0x20AC, 0x41]" by code_simp
  have b: "rune_ok 0x41" by code_simp
  have c: "rune_index 0x41 [0x20AC, 0x41] = Some 3" by code_simp
  from utfrune_utflen_spec [OF a b, of "[]"] c show ?thesis by simp
qed

text \<open>Property (error).  For a valid rune \<open>runenlen\<close> counts what \<open>runetochar\<close> writes.  A value above
  \<open>Runemax\<close> is written as \<open>Runeerror\<close>, three bytes, but \<open>runenlen\<close> counts four for it.\<close>

theorem runenlen_mismatch:
  "(rune_ok r \<longrightarrow> runenlen [r] = length (runetochar r))
   \<and> (r > Runemax \<longrightarrow> runetochar r = runetochar Runeerror
        \<and> length (runetochar r) = 3 \<and> runenlen [r] = 4)"
proof (intro conjI impI)
  assume "rune_ok r"
  then show "runenlen [r] = length (runetochar r)"
    by (simp add: runetochar_ok runenlen_def runenlen1_def r2c_bytes_simps)
next
  assume big: "r > Runemax"
  then have "\<not> r \<le> 0x7F" "\<not> r \<le> 0x7FF" "\<not> r \<le> 0xFFFF"
    by (simp_all add: word_less_nat_alt word_le_nat_alt)
  with big show "runetochar r = runetochar Runeerror" "length (runetochar r) = 3" "runenlen [r] = 4"
    by (simp_all add: runetochar_def r2c_fix_def runenlen_def runenlen1_def r2c_bytes_simps)
qed

theorem runenlen_mismatch_witness:
  "runenlen [0x10FFFF] = 4 \<and> length (runetochar 0x10FFFF) = 4
   \<and> runenlen [0x110000] = 4 \<and> length (runetochar 0x110000) = 3"
proof -
  have a: "rune_ok 0x10FFFF" by code_simp
  have b: "(0x110000 :: rune) > Runemax" by code_simp
  have c: "length (runetochar 0x10FFFF) = 4" by code_simp
  from runenlen_mismatch [of "0x10FFFF"] runenlen_mismatch [of "0x110000"] a b c show ?thesis by metis
qed

end
