(* ===== verification/Dis_Operand.thy ===== *)
theory Dis_Operand
  imports Inferno_Base
begin

text \<open>
  Constants in Dis object files: the loader's \<open>operand\<close> and \<open>disw\<close> (\<^verbatim>\<open>src/libinterp/load.c\<close>) and the
  compiler's \<open>discon\<close>, \<open>disbcon\<close>, \<open>disword\<close> and \<open>disdata\<close> (\<^verbatim>\<open>src/limbo/dis.c\<close>).  The compiler's
  values are \<open>long\<close>, 64 bits; the loader's are \<open>s32\<close>.  The loader reads its input without a length
  check; the model gives \<open>None\<close> where it would read past the end.
\<close>

section \<open>The loader\<close>

fun operand :: "byte list \<Rightarrow> (u32 \<times> byte list) option" where
  "operand [] = None"
| "operand (b # r) =
     (let c = ucast b :: u32; sel = c AND 0xC0;
          ext = (if c AND 0x20 \<noteq> 0 then c OR NOT 0x3F else c AND 0x3F) in
      if sel = 0x00 then Some (c, r)
      else if sel = 0x40 then Some (c OR NOT 0x7F, r)
      else if sel = 0x80 then
        (case r of
           b1 # r' \<Rightarrow> Some (push_bit 8 ext OR ucast b1, r')
         | _ \<Rightarrow> None)
      else
        (case r of
           b1 # b2 # b3 # r' \<Rightarrow>
             Some (push_bit 24 ext OR push_bit 16 (ucast b1) OR push_bit 8 (ucast b2) OR ucast b3, r')
         | _ \<Rightarrow> None))"

fun disw :: "byte list \<Rightarrow> (u32 \<times> byte list) option" where
  "disw (c0 # c1 # c2 # c3 # r) =
     Some (push_bit 24 (ucast c0) OR push_bit 16 (ucast c1) OR push_bit 8 (ucast c2) OR ucast c3, r)"
| "disw _ = None"

section \<open>The compiler\<close>

text \<open>
  \<open>discon\<close> writes to the output file, \<open>disbcon\<close> to the instruction buffer; both stop the compiler
  with a fatal error (\<open>None\<close>) when the constant does not pass the overflow check.  Right shifts of
  a \<open>long\<close> are arithmetic.
\<close>

definition con_overflow :: "u64 \<Rightarrow> bool" where
  "con_overflow val \<longleftrightarrow>
     val <s 0 \<and> signed_drop_bit 29 val AND 7 \<noteq> 7 \<or> 0 <s val \<and> signed_drop_bit 29 val \<noteq> 0"

definition discon :: "u64 \<Rightarrow> byte list option" where
  "discon val =
     (if -64 \<le>s val \<and> val \<le>s 63 then Some [ucast (val AND NOT 0x80)]
      else if -8192 \<le>s val \<and> val \<le>s 8191 then
        Some [ucast ((signed_drop_bit 8 val AND NOT 0xC0) OR 0x80), ucast val]
      else if con_overflow val then None
      else Some [ucast (signed_drop_bit 24 val OR 0xC0), ucast (signed_drop_bit 16 val),
                 ucast (signed_drop_bit 8 val), ucast val])"

definition disbcon :: "u64 \<Rightarrow> byte list option" where
  "disbcon val =
     (if -64 \<le>s val \<and> val \<le>s 63 then Some [ucast (val AND NOT 0x80)]
      else if -8192 \<le>s val \<and> val \<le>s 8191 then
        Some [ucast (signed_drop_bit 8 val AND NOT 0xC0 OR 0x80), ucast val]
      else if con_overflow val then None
      else Some [ucast (signed_drop_bit 24 val OR 0xC0), ucast (signed_drop_bit 16 val),
                 ucast (signed_drop_bit 8 val), ucast val])"

definition disword :: "u64 \<Rightarrow> byte list" where
  "disword w = [ucast (signed_drop_bit 24 w), ucast (signed_drop_bit 16 w),
     ucast (signed_drop_bit 8 w), ucast w]"

abbreviation (input) DMAX :: nat where "DMAX \<equiv> 16"

definition DBYTE :: "u32 \<Rightarrow> u32 \<Rightarrow> u32" where
  "DBYTE x l = push_bit 4 x OR l"

definition DTYPE :: "byte \<Rightarrow> u32" where
  "DTYPE x = drop_bit 4 (ucast x)"

definition DLEN :: "byte \<Rightarrow> u32" where
  "DLEN x = ucast x AND 0xF"

definition disdata :: "u32 \<Rightarrow> u64 \<Rightarrow> byte list option" where
  "disdata kind n =
     (if n <s 16 \<and> n \<noteq> 0 then Some [ucast (DBYTE kind (ucast n))]
      else map_option (\<lambda>bs. ucast (DBYTE kind 0) # bs) (discon n))"

definition sfit :: "nat \<Rightarrow> u64 \<Rightarrow> bool" where
  "sfit k v \<longleftrightarrow> - (2 ^ k) \<le> sint v \<and> sint v < 2 ^ k"

lemma sfit_bits: "k < 64 \<Longrightarrow> sfit k v \<longleftrightarrow> (\<forall>n. k \<le> n \<longrightarrow> n < 64 \<longrightarrow> bit v n = bit v 63)"
proof -
  assume k: "k < 64"
  have "sfit k v \<longleftrightarrow> signed_take_bit k (sint v) = sint v"
    by (simp add: sfit_def signed_take_bit_int_eq_self_iff)
  also have "\<dots> \<longleftrightarrow> (\<forall>n. bit v (min (min k n) 63) = bit v (min n 63))"
    by (simp add: bit_eq_iff bit_simps min.commute)
  also have "\<dots> \<longleftrightarrow> (\<forall>n. k \<le> n \<longrightarrow> n < 64 \<longrightarrow> bit v n = bit v 63)"
  proof (rule iffI; intro allI; (intro impI)?)
    fix n assume *: "\<forall>n. bit v (min (min k n) 63) = bit v (min n 63)" "k \<le> n" "n < 64"
    from spec [OF *(1), of n] spec [OF *(1), of 63] *(2,3) show "bit v n = bit v 63"
      by (simp add: min_def split: if_splits)
  next
    fix n assume *: "\<forall>n. k \<le> n \<longrightarrow> n < 64 \<longrightarrow> bit v n = bit v 63"
    from spec [OF *, of "min n 63"] spec [OF *, of k] k
    show "bit v (min (min k n) 63) = bit v (min n 63)"
      by (cases "n < k"; cases "n < 63") (simp_all add: min_def)
  qed
  finally show ?thesis .
qed

lemma sless_0: "(v :: u64) <s 0 \<longleftrightarrow> bit v 63"
  using bit_last_iff [of v] by (simp add: word_sless_alt)

lemma sfit_small:
  "-64 \<le>s v \<and> v \<le>s 63 \<longleftrightarrow> sfit 6 v" "-8192 \<le>s v \<and> v \<le>s 8191 \<longleftrightarrow> sfit 13 v"
  by (auto simp: sfit_def word_sle_eq)

lemma con_overflow_iff: "sfit 31 v \<Longrightarrow> con_overflow v \<longleftrightarrow> \<not> sfit 29 v"
proof -
  assume f: "sfit 31 v"
  define q where "q = sint v div 2 ^ 29"
  have "sint (signed_drop_bit 29 v) = q"
    by (simp add: q_def sint_signed_drop_bit_eq drop_bit_eq_div)
  then have sdb: "signed_drop_bit 29 v = word_of_int q"
    by (metis scast_eq scast_id)
  from f have "-4 \<le> q" "q \<le> 3" by (simp_all add: q_def sfit_def) linarith+
  then have "q \<in> {-4, -3, -2, -1, 0, 1, 2, 3}" by auto
  moreover have "sfit 29 v \<longleftrightarrow> q = 0 \<or> q = -1"
    by (auto simp: sfit_def q_def)
  moreover have "v <s 0 \<longleftrightarrow> q < 0" "0 <s v \<longleftrightarrow> 0 < sint v" "q > 0 \<Longrightarrow> 0 < sint v" "0 < sint v \<Longrightarrow> q \<ge> 0"
    by (auto simp: word_sless_alt q_def)
  ultimately show ?thesis
    unfolding con_overflow_def sdb by auto
qed

lemma sfit_cases:
  assumes "sfit k v" "k < 64"
  obtains "\<And>n. k \<le> n \<Longrightarrow> n < 64 \<Longrightarrow> bit v n" | "\<And>n. k \<le> n \<Longrightarrow> n < 64 \<Longrightarrow> \<not> bit v n"
  using assms by (cases "bit v 63") (auto simp: sfit_bits)

text \<open>The three forms of a constant, each read back by \<open>operand\<close>.\<close>

lemma operand_1: "sfit 6 v \<Longrightarrow> operand (ucast (v AND NOT 0x80) # r) = Some (ucast v, r)"
proof -
  assume "sfit 6 v"
  then show ?thesis
    by (rule sfit_cases) (simp_all add: Let_def u32_bits)
qed

lemma operand_2: "sfit 13 v \<Longrightarrow>
  operand (ucast (signed_drop_bit 8 v AND NOT 0xC0 OR 0x80) # ucast v # r) = Some (ucast v, r)"
proof -
  assume "sfit 13 v"
  then show ?thesis
    by (rule sfit_cases) (simp_all add: Let_def u32_bits)
qed

lemma operand_4: "sfit 29 v \<Longrightarrow>
  operand (ucast (signed_drop_bit 24 v OR 0xC0) # ucast (signed_drop_bit 16 v)
    # ucast (signed_drop_bit 8 v) # ucast v # r) = Some (ucast v, r)"
proof -
  assume "sfit 29 v"
  then show ?thesis
    by (rule sfit_cases) (simp_all add: Let_def u32_bits)
qed

lemma sfit_mono: "j \<le> k \<Longrightarrow> sfit j v \<Longrightarrow> sfit k v"
  unfolding sfit_def using power_increasing [of j k "2 :: int"] by linarith

lemma disbcon_discon: "disbcon = discon"
  by (simp add: fun_eq_iff disbcon_def discon_def)

lemma discon_accepts: "sfit 31 v \<Longrightarrow> discon v \<noteq> None \<longleftrightarrow> sfit 29 v"
  using sfit_mono [of 6 29 v] sfit_mono [of 13 29 v]
  by (simp add: discon_def sfit_small con_overflow_iff)

lemma operand_discon: "\<lbrakk>sfit 29 v; discon v = Some bs\<rbrakk> \<Longrightarrow> operand (bs @ r) = Some (ucast v, r)"
  using operand_1 [of v r] operand_2 [of v r] operand_4 [of v r]
  by (simp only: discon_def sfit_small split: if_splits) auto

lemma discon_length: "discon v = Some bs \<Longrightarrow> length bs \<in> {1..4}"
  by (auto simp: discon_def split: if_splits)

text \<open>A signed 32-bit value fits a constant when it is within 29 bits and a sign.\<close>

definition con_fits :: "u32 \<Rightarrow> bool" where
  "con_fits v \<longleftrightarrow> - (2 ^ 29) \<le> sint v \<and> sint v < 2 ^ 29"

lemma sfit_scast: "con_fits v \<Longrightarrow> sfit 29 (scast v)"
proof -
  assume f: "con_fits v"
  then have "signed_take_bit 63 (sint v) = sint v"
    unfolding signed_take_bit_int_eq_self_iff con_fits_def by auto
  with f show ?thesis by (simp add: con_fits_def sfit_def signed_scast_eq)
qed

lemma ucast_scast_u32: "ucast (scast (v :: u32) :: u64) = v"
  by (rule bit_word_eqI) (auto simp: bit_simps)

definition put_con :: "u32 \<Rightarrow> byte list" where
  "put_con v = the (discon (scast v))"

lemma discon_put_con: "con_fits v \<Longrightarrow> discon (scast v) = Some (put_con v)"
  using discon_accepts [of "scast v"] sfit_scast [of v] sfit_mono [of 29 31 "scast v"]
  by (auto simp: put_con_def)

interpretation con: stream_codec put_con operand con_fits
  by unfold_locales
    (metis discon_put_con operand_discon sfit_scast ucast_scast_u32)

section \<open>Constants from compiler to loader\<close>

text \<open>Property (round trip).  For a value of 32 bits, the compiler's \<open>discon\<close> and \<open>disbcon\<close> stop with
  a fatal error exactly when it does not fit 29 bits and a sign, and otherwise the loader's \<open>operand\<close>
  reads it back from one, two or four bytes and stops right after them.\<close>

theorem discon_operand_roundtrip:
  assumes "- (2 ^ 31) \<le> sint v" "sint v < 2 ^ 31"
  shows "(discon v = None \<longleftrightarrow> \<not> (- (2 ^ 29) \<le> sint v \<and> sint v < 2 ^ 29))
    \<and> disbcon v = discon v
    \<and> (\<forall>bs r. discon v = Some bs \<longrightarrow> operand (bs @ r) = Some (ucast v, r) \<and> length bs \<in> {1..4})"
proof -
  have f: "sfit 31 v" using assms by (simp add: sfit_def)
  show ?thesis
    using discon_accepts [OF f] operand_discon discon_length
    by (fold sfit_def) (auto simp: disbcon_discon)
qed

theorem discon_operand_roundtrip_witness:
  "discon 1000 = Some [0x83, 0xE8] \<and> operand [0x83, 0xE8, 7] = Some (1000, [7])
   \<and> discon 0x40000000 = None"
proof -
  have a: "discon 1000 = Some [0x83, 0xE8]" by code_simp
  have b: "- (2 ^ 31) \<le> sint (1000 :: u64)" "sint (1000 :: u64) < 2 ^ 31" by code_simp+
  have c: "- (2 ^ 31) \<le> sint (0x40000000 :: u64)" "sint (0x40000000 :: u64) < 2 ^ 31"
    "\<not> sint (0x40000000 :: u64) < 2 ^ 29" by code_simp+
  from discon_operand_roundtrip [OF b] discon_operand_roundtrip [OF c(1,2)] a c(3)
  show ?thesis by simp
qed

text \<open>Property (error).  The overflow check looks at bits 29 to 31 of a negative value only: a
  negative \<open>long\<close> below the 32-bit range with those bits set is accepted, and the loader reads its
  low 32 bits.\<close>

theorem discon_truncates:
  assumes "v <s 0" "bit v 29" "bit v 30" "bit v 31" "\<not> - (2 ^ 31) \<le> sint v"
  shows "\<exists>bs. discon v = Some bs \<and> operand bs = Some (ucast v, []) \<and> scast (ucast v :: u32) \<noteq> v"
proof -
  have "signed_drop_bit 29 v AND 7 = 7"
  proof (rule bit_word_eqI)
    fix n assume "n < LENGTH(64)"
    have "bit (7 :: u64) n \<longleftrightarrow> n = 0 \<or> n = 1 \<or> n = 2"
      using bit_mask_iff [of 3 n, where ?'a = u64] by (auto simp: mask_eq_exp_minus_1)
    then show "bit (signed_drop_bit 29 v AND 7) n = bit (7 :: u64) n"
      using assms by (auto simp: bit_and_iff bit_signed_drop_bit_iff)
  qed
  with assms have o: "\<not> con_overflow v"
    by (simp add: con_overflow_def word_sless_alt)
  have s: "\<not> sfit 6 v" "\<not> sfit 13 v" using assms(5) by (auto simp: sfit_def)
  have "operand [ucast (signed_drop_bit 24 v OR 0xC0), ucast (signed_drop_bit 16 v),
      ucast (signed_drop_bit 8 v), ucast v] = Some (ucast v, [])"
    using assms by (simp add: Let_def u32_bits)
  moreover have "scast (ucast v :: u32) \<noteq> v"
  proof
    assume "scast (ucast v :: u32) = v"
    then have "sint v = sint (scast (ucast v :: u32) :: u64)" by simp
    then show False
      using assms(5) sint_ge [of "ucast v :: u32"] sint_lt [of "ucast v :: u32"]
      by (simp add: signed_scast_eq signed_take_bit_int_eq_self)
  qed
  ultimately show ?thesis using o s by (simp add: discon_def sfit_small)
qed

theorem discon_truncates_witness:
  "discon (- 0x100000001) = Some [0xFF, 0xFF, 0xFF, 0xFF]
   \<and> operand [0xFF, 0xFF, 0xFF, 0xFF] = Some (- 1, [])"
proof -
  have a: "discon (- 0x100000001) = Some [0xFF, 0xFF, 0xFF, 0xFF]" by code_simp
  have b: "- 0x100000001 <s (0 :: u64)" "bit (- 0x100000001 :: u64) 29" "bit (- 0x100000001 :: u64) 30"
    "bit (- 0x100000001 :: u64) 31" "\<not> - (2 ^ 31) \<le> sint (- 0x100000001 :: u64)"
    "ucast (- 0x100000001 :: u64) = (- 1 :: u32)" by code_simp+
  from discon_truncates [OF b(1-5)] a b(6) show ?thesis by simp
qed

end
