(* ===== verification/Dis_Inst.thy ===== *)
theory Dis_Inst
  imports Dis_Operand
begin

text \<open>
  Instructions in Dis object files: the compiler's \<open>disinst\<close> and \<open>disaddr\<close> (\<^verbatim>\<open>src/limbo/dis.c\<close>) and
  the loader's instruction loop in \<open>parsemod\<close> with \<open>brpatch\<close> (\<^verbatim>\<open>src/libinterp/load.c\<close>).
\<close>

section \<open>The loader's instructions\<close>

text \<open>
  \<open>union Adr\<close>: a word, a pair of \<open>ushort\<close> indirections, or, after \<open>brpatch\<close>, the address of an
  instruction, given by its index.  The fields \<open>op\<close>, \<open>add\<close>, \<open>reg\<close>, \<open>s\<close>
  and \<open>d\<close> of \<open>struct Inst\<close> have the prefix \<open>i\<close>; an unused operand holds the word 0.
\<close>

datatype Adr = Imm u64 | Ind2 u16 u16 | Ins nat

record Inst =
  iop :: byte
  iadd :: byte
  ireg :: u16
  isrc :: Adr
  idst :: Adr

text \<open>
  What can end the loading of a module.  The first group are the messages of \<open>parsemod\<close>; with the others it would read past the
  end of the file, or read or write outside the table of types or outside the data of the module.
\<close>

datatype load_error =
    BadMagic
  | CorruptSignature
  | NotSigned
  | BadBranch
  | HeapId
  | Implausible
  | BadDesc
  | BadItem
  | BadArray
  | NotArray
  | InitRange
  | PopRange
  | BadName
  | ObsoleteDis
  | Short
  | Overrun_type
  | Overrun_data

abbreviation (input) AMP :: u32 where "AMP \<equiv> 0x00"
abbreviation (input) AFP :: u32 where "AFP \<equiv> 0x01"
abbreviation (input) AIMM :: u32 where "AIMM \<equiv> 0x02"
abbreviation (input) AXXX :: u32 where "AXXX \<equiv> 0x03"
abbreviation (input) AIND :: u32 where "AIND \<equiv> 0x04"
abbreviation (input) AMASK :: u32 where "AMASK \<equiv> 0x07"
abbreviation (input) ARM :: u32 where "ARM \<equiv> 0xC0"
abbreviation (input) AXNON :: u32 where "AXNON \<equiv> 0x00"
abbreviation (input) AXIMM :: u32 where "AXIMM \<equiv> 0x40"
abbreviation (input) AXINF :: u32 where "AXINF \<equiv> 0x80"
abbreviation (input) AXINM :: u32 where "AXINM \<equiv> 0xC0"

definition SRC :: "u32 \<Rightarrow> u32" where "SRC x = push_bit 3 x"
definition DST :: "u32 \<Rightarrow> u32" where "DST x = x"
definition UXSRC :: "byte \<Rightarrow> u32" where "UXSRC x = ucast x AND push_bit 3 AMASK"
definition UXDST :: "byte \<Rightarrow> u32" where "UXDST x = ucast x AND AMASK"

text \<open>Opcodes (\<^verbatim>\<open>src/include/isa.h\<close>) that \<open>brpatch\<close> names.\<close>

abbreviation (input) ICALL :: byte where "ICALL \<equiv> 4"
abbreviation (input) ISPAWN :: byte where "ISPAWN \<equiv> 6"
abbreviation (input) IJMP :: byte where "IJMP \<equiv> 13"
abbreviation (input) IBEQB :: byte where "IBEQB \<equiv> 87"
abbreviation (input) IBNEB :: byte where "IBNEB \<equiv> 88"
abbreviation (input) IBLTB :: byte where "IBLTB \<equiv> 89"
abbreviation (input) IBLEB :: byte where "IBLEB \<equiv> 90"
abbreviation (input) IBGTB :: byte where "IBGTB \<equiv> 91"
abbreviation (input) IBGEB :: byte where "IBGEB \<equiv> 92"
abbreviation (input) IBEQW :: byte where "IBEQW \<equiv> 93"
abbreviation (input) IBNEW :: byte where "IBNEW \<equiv> 94"
abbreviation (input) IBLTW :: byte where "IBLTW \<equiv> 95"
abbreviation (input) IBLEW :: byte where "IBLEW \<equiv> 96"
abbreviation (input) IBGTW :: byte where "IBGTW \<equiv> 97"
abbreviation (input) IBGEW :: byte where "IBGEW \<equiv> 98"
abbreviation (input) IBEQF :: byte where "IBEQF \<equiv> 99"
abbreviation (input) IBNEF :: byte where "IBNEF \<equiv> 100"
abbreviation (input) IBLTF :: byte where "IBLTF \<equiv> 101"
abbreviation (input) IBLEF :: byte where "IBLEF \<equiv> 102"
abbreviation (input) IBGTF :: byte where "IBGTF \<equiv> 103"
abbreviation (input) IBGEF :: byte where "IBGEF \<equiv> 104"
abbreviation (input) IBEQC :: byte where "IBEQC \<equiv> 105"
abbreviation (input) IBNEC :: byte where "IBNEC \<equiv> 106"
abbreviation (input) IBLTC :: byte where "IBLTC \<equiv> 107"
abbreviation (input) IBLEC :: byte where "IBLEC \<equiv> 108"
abbreviation (input) IBGTC :: byte where "IBGTC \<equiv> 109"
abbreviation (input) IBGEC :: byte where "IBGEC \<equiv> 110"
abbreviation (input) IBNEL :: byte where "IBNEL \<equiv> 129"
abbreviation (input) IBLTL :: byte where "IBLTL \<equiv> 130"
abbreviation (input) IBLEL :: byte where "IBLEL \<equiv> 131"
abbreviation (input) IBGTL :: byte where "IBGTL \<equiv> 132"
abbreviation (input) IBGEL :: byte where "IBGEL \<equiv> 133"
abbreviation (input) IBEQL :: byte where "IBEQL \<equiv> 134"

text \<open>
  \<open>brpatch\<close>: for an opcode that branches, the immediate destination becomes the address of the
  instruction, after a range check (\<open>None\<close> is the return value 0).  It is called only when the
  destination is immediate.
\<close>

definition is_branch :: "byte \<Rightarrow> bool" where
  "is_branch o' \<longleftrightarrow> o' \<in> set [
    ICALL, IJMP, IBEQW, IBNEW, IBLTW, IBLEW, IBGTW, IBGEW, IBEQB, IBNEB, IBLTB, IBLEB,
     IBGTB, IBGEB, IBEQF, IBNEF, IBLTF, IBLEF, IBGTF, IBGEF, IBEQC, IBNEC, IBLTC,
     IBLEC, IBGTC, IBGEC, IBEQL, IBNEL, IBLTL, IBLEL, IBGTL, IBGEL, ISPAWN]"

definition brpatch :: "Inst \<Rightarrow> nat \<Rightarrow> Inst option" where
  "brpatch ip nprog =
     (case idst ip of
        Imm imm \<Rightarrow>
          if is_branch (iop ip) then
            if imm <s 0 \<or> word_of_nat nprog \<le>s imm then None
            else Some (ip\<lparr>idst := Ins (unat imm)\<rparr>)
          else Some ip
      | _ \<Rightarrow> Some ip)"

text \<open>One turn of the loop over the instructions, and the loop.\<close>

definition parse_mid :: "Inst \<Rightarrow> byte list \<Rightarrow> load_error + Inst \<times> byte list" where
  "parse_mid ip r =
     (let m = ucast (iadd ip) AND ARM in
      if m = AXIMM \<or> m = AXINF \<or> m = AXINM then
        (case operand r of None \<Rightarrow> Inl Short
         | Some (v, r) \<Rightarrow> Inr (ip\<lparr>ireg := ucast v\<rparr>, r))
      else Inr (ip, r))"

definition parse_ind2 :: "byte list \<Rightarrow> load_error + Adr \<times> byte list" where
  "parse_ind2 r =
     (case operand r of None \<Rightarrow> Inl Short
      | Some (f, r) \<Rightarrow>
          (case operand r of None \<Rightarrow> Inl Short
           | Some (s, r) \<Rightarrow> Inr (Ind2 (ucast f) (ucast s), r)))"

definition parse_src :: "Inst \<Rightarrow> byte list \<Rightarrow> load_error + Inst \<times> byte list" where
  "parse_src ip r =
     (let m = UXSRC (iadd ip) in
      if m = SRC AFP \<or> m = SRC AMP \<or> m = SRC AIMM then
        (case operand r of None \<Rightarrow> Inl Short
         | Some (v, r) \<Rightarrow> Inr (ip\<lparr>isrc := Imm (scast v)\<rparr>, r))
      else if m = SRC (AIND OR AFP) \<or> m = SRC (AIND OR AMP) then
        (case parse_ind2 r of Inl e \<Rightarrow> Inl e | Inr (a, r) \<Rightarrow> Inr (ip\<lparr>isrc := a\<rparr>, r))
      else Inr (ip, r))"

definition parse_dst :: "nat \<Rightarrow> Inst \<Rightarrow> byte list \<Rightarrow> load_error + Inst \<times> byte list" where
  "parse_dst nprog ip r =
     (let m = UXDST (iadd ip) in
      if m = DST AFP \<or> m = DST AMP then
        (case operand r of None \<Rightarrow> Inl Short
         | Some (v, r) \<Rightarrow> Inr (ip\<lparr>idst := Imm (scast v)\<rparr>, r))
      else if m = DST AIMM then
        (case operand r of None \<Rightarrow> Inl Short
         | Some (v, r) \<Rightarrow>
             (case brpatch (ip\<lparr>idst := Imm (scast v)\<rparr>) nprog of
                None \<Rightarrow> Inl BadBranch
              | Some ip \<Rightarrow> Inr (ip, r)))
      else if m = DST (AIND OR AFP) \<or> m = DST (AIND OR AMP) then
        (case parse_ind2 r of Inl e \<Rightarrow> Inl e | Inr (a, r) \<Rightarrow> Inr (ip\<lparr>idst := a\<rparr>, r))
      else Inr (ip, r))"

fun parse_inst :: "nat \<Rightarrow> byte list \<Rightarrow> load_error + Inst \<times> byte list" where
  "parse_inst nprog (o' # a # r) =
     (case parse_mid \<lparr>iop = o', iadd = a, ireg = 0, isrc = Imm 0, idst = Imm 0\<rparr> r of
        Inl e \<Rightarrow> Inl e
      | Inr (ip, r) \<Rightarrow>
          (case parse_src ip r of Inl e \<Rightarrow> Inl e | Inr (ip, r) \<Rightarrow> parse_dst nprog ip r))"
| "parse_inst nprog _ = Inl Short"

fun parse_insts :: "nat \<Rightarrow> nat \<Rightarrow> byte list \<Rightarrow> load_error + Inst list \<times> byte list" where
  "parse_insts nprog 0 r = Inr ([], r)"
| "parse_insts nprog (Suc n) r =
     (case parse_inst nprog r of
        Inl e \<Rightarrow> Inl e
      | Inr (ip, r) \<Rightarrow>
          (case parse_insts nprog n r of Inl e \<Rightarrow> Inl e | Inr (ips, r) \<Rightarrow> Inr (ip # ips, r)))"

section \<open>The compiler's instructions\<close>

text \<open>
  Addressing modes of the compiler (\<^verbatim>\<open>src/limbo/limbo.h\<close>).  Of an address's declaration only
  \<open>decl->iface->offset\<close> is used here, as \<open>iface_offset\<close>.
\<close>

datatype amode = Aimm | Amp | Ampind | Afp | Afpind | Apc | Adesc | Aoff | Anoff | Aerr | Anone | Aldt

record Addr =
  areg :: u64
  offset :: u64
  iface_offset :: u64

record LInst =
  lop :: u16
  smode :: amode
  mmode :: amode
  dmode :: amode
  saddr :: Addr
  maddr :: Addr
  daddr :: Addr

abbreviation (input) INOOP :: u16 where "INOOP \<equiv> 177"

fun dismode :: "amode \<Rightarrow> u32" where
  "dismode Aimm = AIMM" | "dismode Amp = AMP" | "dismode Ampind = AMP OR AIND"
| "dismode Afp = AFP" | "dismode Afpind = AFP OR AIND" | "dismode Apc = AIMM"
| "dismode Adesc = AIMM" | "dismode Aoff = AIMM" | "dismode Anoff = AIMM"
| "dismode Aerr = AXXX" | "dismode Anone = AXXX" | "dismode Aldt = AIMM"

fun disregmode :: "amode \<Rightarrow> u32" where
  "disregmode Aimm = AXIMM" | "disregmode Amp = AXINM" | "disregmode Ampind = AXNON"
| "disregmode Afp = AXINF" | "disregmode Afpind = AXNON" | "disregmode Apc = AXIMM"
| "disregmode Adesc = AXIMM" | "disregmode Aoff = AXIMM" | "disregmode Anoff = AXIMM"
| "disregmode Aerr = AXNON" | "disregmode Anone = AXNON" | "disregmode Aldt = AXIMM"

fun disaddr :: "amode \<Rightarrow> Addr \<Rightarrow> byte list option" where
  "disaddr Anone a = disbcon 0"
| "disaddr Aerr a = disbcon 0"
| "disaddr Aimm a = disbcon (offset a)"
| "disaddr Apc a = disbcon (offset a)"
| "disaddr Adesc a = disbcon (offset a)"
| "disaddr Aoff a = disbcon (iface_offset a)"
| "disaddr Anoff a = disbcon (- (iface_offset a + 1))"
| "disaddr Afp a = disbcon (areg a)"
| "disaddr Amp a = disbcon (areg a)"
| "disaddr Aldt a = disbcon (areg a)"
| "disaddr Afpind a =
     (case disbcon (areg a) of None \<Rightarrow> None | Some x \<Rightarrow> map_option ((@) x) (disbcon (offset a)))"
| "disaddr Ampind a =
     (case disbcon (areg a) of None \<Rightarrow> None | Some x \<Rightarrow> map_option ((@) x) (disbcon (offset a)))"

definition disopt :: "amode \<Rightarrow> Addr \<Rightarrow> byte list option" where
  "disopt m a = (if m \<noteq> Anone then disaddr m a else Some [])"

text \<open>What one turn of \<open>disinst\<close> puts into the instruction buffer.\<close>

definition disinst1 :: "LInst \<Rightarrow> byte list option" where
  "disinst1 i =
     (case disopt (mmode i) (maddr i) of None \<Rightarrow> None | Some xm \<Rightarrow>
      (case disopt (smode i) (saddr i) of None \<Rightarrow> None | Some xs \<Rightarrow>
       (case disopt (dmode i) (daddr i) of None \<Rightarrow> None | Some xd \<Rightarrow>
         Some (ucast (lop i)
           # ucast (SRC (dismode (smode i)) OR DST (dismode (dmode i)) OR disregmode (mmode i))
           # xm @ xs @ xd))))"

abbreviation (input) MAXCON :: nat where "MAXCON \<equiv> 4"
abbreviation (input) MAXADDR :: nat where "MAXADDR \<equiv> 2 * MAXCON"
abbreviation (input) MAXINST :: nat where "MAXINST \<equiv> 3 * MAXADDR + 2"
abbreviation (input) NIBUF :: nat where "NIBUF \<equiv> 1024"

text \<open>
  \<open>disinst\<close>: the loop carries what was written to the file and the instruction buffer, which is
  flushed when the next instruction might not fit.
\<close>

fun disinst_loop :: "LInst list \<Rightarrow> byte list \<Rightarrow> byte list \<Rightarrow> (byte list \<times> byte list) option" where
  "disinst_loop [] out ibuf = Some (out, ibuf)"
| "disinst_loop (i # is) out ibuf =
     (if lop i = INOOP then disinst_loop is out ibuf
      else let (out, ibuf) = (if length ibuf \<ge> NIBUF - MAXINST then (out @ ibuf, []) else (out, ibuf)) in
        case disinst1 i of None \<Rightarrow> None
        | Some x \<Rightarrow> disinst_loop is out (ibuf @ x))"

definition disinst :: "LInst list \<Rightarrow> byte list option" where
  "disinst is = map_option (\<lambda>(out, ibuf). if length ibuf > 0 then out @ ibuf else out)
     (disinst_loop is [] [])"

section \<open>What the loader makes of the compiler's instructions\<close>

text \<open>The value an operand of one constant stands for, and the operand the loader should hold.\<close>

fun addr_val :: "amode \<Rightarrow> Addr \<Rightarrow> u64" where
  "addr_val Aimm a = offset a" | "addr_val Apc a = offset a" | "addr_val Adesc a = offset a"
| "addr_val Aoff a = iface_offset a" | "addr_val Anoff a = - (iface_offset a + 1)"
| "addr_val Afp a = areg a" | "addr_val Amp a = areg a" | "addr_val Aldt a = areg a"
| "addr_val _ a = 0"

definition is_ind :: "amode \<Rightarrow> bool" where
  "is_ind m \<longleftrightarrow> m = Afpind \<or> m = Ampind"

definition addr_fits :: "amode \<Rightarrow> Addr \<Rightarrow> bool" where
  "addr_fits m a \<longleftrightarrow> m \<noteq> Aerr \<and>
     (if is_ind m then sfit 29 (areg a) \<and> sfit 29 (offset a) else sfit 29 (addr_val m a))"

definition adr_of :: "amode \<Rightarrow> Addr \<Rightarrow> Adr" where
  "adr_of m a = (if is_ind m then Ind2 (ucast (areg a)) (ucast (offset a)) else Imm (addr_val m a))"

definition dst_of :: "LInst \<Rightarrow> Adr" where
  "dst_of i = (if dismode (dmode i) = AIMM \<and> is_branch (ucast (lop i))
     then Ins (unat (addr_val (dmode i) (daddr i))) else adr_of (dmode i) (daddr i))"

definition inst_of :: "LInst \<Rightarrow> Inst" where
  "inst_of i = \<lparr>iop = ucast (lop i),
     iadd = ucast (SRC (dismode (smode i)) OR DST (dismode (dmode i)) OR disregmode (mmode i)),
     ireg = ucast (addr_val (mmode i) (maddr i)), isrc = adr_of (smode i) (saddr i), idst = dst_of i\<rparr>"

definition inst_ok :: "nat \<Rightarrow> LInst \<Rightarrow> bool" where
  "inst_ok nprog i \<longleftrightarrow> addr_fits (smode i) (saddr i) \<and> addr_fits (dmode i) (daddr i) \<and> addr_fits (mmode i) (maddr i)
     \<and> \<not> is_ind (mmode i)
     \<and> (dismode (dmode i) = AIMM \<and> is_branch (ucast (lop i)) \<longrightarrow>
          0 \<le> sint (addr_val (dmode i) (daddr i)) \<and> sint (addr_val (dmode i) (daddr i)) < int nprog)"

lemma scast_ucast_sfit: "sfit 29 v \<Longrightarrow> scast (ucast v :: u32) = v"
proof -
  assume f: "sfit 29 v"
  have all: "\<forall>n. 29 \<le> n \<longrightarrow> n < 64 \<longrightarrow> bit v n = bit v 63"
    by (rule sfit_bits [THEN iffD1, OF _ f]) simp
  show ?thesis
  proof (rule bit_word_eqI)
    fix n assume n: "n < LENGTH(64)"
    have "bit v 31 = bit v n" if "31 \<le> n"
      using spec [OF all, of 31] spec [OF all, of n] that n by simp
    then show "bit (scast (ucast v :: u32) :: u64) n = bit v n"
      using n by (cases "31 \<le> n") (simp_all add: bit_simps min_def)
  qed
qed

lemma operand_disbcon:
  assumes "sfit 29 v"
  obtains bs where "disbcon v = Some bs" "length bs \<le> 4" "\<And>r. operand (bs @ r) = Some (ucast v, r)"
  using discon_accepts [of v] sfit_mono [of 29 31 v] operand_discon [of v] discon_length [of v] assms
  by (auto simp: disbcon_discon)

lemma ucast_u16_u64: "(ucast (ucast (v :: u64) :: u32) :: u16) = ucast v"
  by (rule bit_word_eqI) (auto simp: bit_simps)

lemma mode_byte:
  assumes "ms AND 7 = ms" "md AND 7 = md" "mr AND 0xC0 = mr"
  shows "UXSRC (ucast (SRC ms OR DST md OR mr)) = SRC ms"
    "UXDST (ucast (SRC ms OR DST md OR mr)) = DST md"
    "ucast (ucast (SRC ms OR DST md OR mr) :: byte) AND 0xC0 = mr"
  using assms by (simp_all add: UXSRC_def UXDST_def SRC_def DST_def u32_bits)

lemma dismode_7 [simp]: "dismode m AND 7 = dismode m" "disregmode m AND 0xC0 = disregmode m"
  by (cases m; simp)+

lemmas dis_mode_byte = mode_byte [OF dismode_7(1) dismode_7(1) dismode_7(2)]

text \<open>Each operand in turn: the bytes \<open>disopt\<close> writes are what the loader's step for it reads.\<close>

lemma parse_ind2_disaddr:
  assumes "is_ind m" "addr_fits m a"
  obtains x where "disaddr m a = Some x" "length x \<le> 8" "\<And>r. parse_ind2 (x @ r) = Inr (adr_of m a, r)"
proof -
  from assms have "sfit 29 (areg a)" "sfit 29 (offset a)" by (auto simp: addr_fits_def)
  then obtain x y where "disbcon (areg a) = Some x" "length x \<le> 4" "disbcon (offset a) = Some y"
    "length y \<le> 4" "\<And>r. operand (x @ r) = Some (ucast (areg a), r)"
    "\<And>r. operand (y @ r) = Some (ucast (offset a), r)"
    by (metis operand_disbcon)
  moreover from this have "disaddr m a = Some (x @ y)" using assms(1) by (auto simp: is_ind_def)
  ultimately show ?thesis
    using assms(1) by (intro that [of "x @ y"]) (auto simp: parse_ind2_def adr_of_def ucast_u16_u64)
qed

lemma disaddr_val:
  "\<not> is_ind m \<Longrightarrow> disaddr m a = disbcon (addr_val m a)"
  by (cases m) (simp_all add: is_ind_def)

lemma operand_disaddr:
  assumes "\<not> is_ind m" "addr_fits m a"
  obtains x where "disaddr m a = Some x" "length x \<le> 8"
    "\<And>r. operand (x @ r) = Some (ucast (addr_val m a), r)"
    "scast (ucast (addr_val m a) :: u32) = addr_val m a"
proof -
  from assms have f: "sfit 29 (addr_val m a)" by (simp add: addr_fits_def)
  then obtain x where "disbcon (addr_val m a) = Some x" "length x \<le> 4"
    "\<And>r. operand (x @ r) = Some (ucast (addr_val m a), r)"
    by (rule operand_disbcon) blast
  then show ?thesis
    using assms(1) scast_ucast_sfit [OF f] by (intro that [of x]) (simp_all add: disaddr_val)
qed

lemma dismode_cases:
  "m \<noteq> Aerr \<Longrightarrow> m \<noteq> Anone \<Longrightarrow> \<not> is_ind m \<Longrightarrow> dismode m \<in> {AFP, AMP, AIMM}"
  "is_ind m \<Longrightarrow> dismode m \<in> {AIND OR AFP, AIND OR AMP}"
  "\<not> is_ind m \<Longrightarrow> m \<noteq> Aerr \<Longrightarrow> m \<noteq> Anone \<Longrightarrow> disregmode m \<in> {AXIMM, AXINF, AXINM}"
  by (cases m; simp add: is_ind_def)+

lemma parse_mid_ok:
  assumes "addr_fits m a" "\<not> is_ind m" "ucast (iadd ip) AND ARM = disregmode m" "ireg ip = 0"
  obtains x where "disopt m a = Some x" "length x \<le> 8"
    "\<And>r. parse_mid ip (x @ r) = Inr (ip\<lparr>ireg := ucast (addr_val m a)\<rparr>, r)"
proof (cases "m = Anone")
  case True
  with assms show ?thesis by (intro that [of "[]"]) (simp_all add: disopt_def parse_mid_def)
next
  case False
  obtain x where "disaddr m a = Some x" "length x \<le> 8"
    "\<And>r. operand (x @ r) = Some (ucast (addr_val m a), r)"
    using operand_disaddr [OF assms(2,1)] by metis
  moreover have "disregmode m \<in> {AXIMM, AXINF, AXINM}"
    using assms False by (intro dismode_cases) (simp_all add: addr_fits_def)
  ultimately show ?thesis using assms(3) False
    by (intro that [of x]) (auto simp: disopt_def parse_mid_def Let_def ucast_u16_u64)
qed

lemma parse_src_ok:
  assumes "addr_fits m a" "UXSRC (iadd ip) = SRC (dismode m)" "isrc ip = Imm 0"
  obtains x where "disopt m a = Some x" "length x \<le> 8"
    "\<And>r. parse_src ip (x @ r) = Inr (ip\<lparr>isrc := adr_of m a\<rparr>, r)"
proof -
  consider "m = Anone" | "is_ind m" | "m \<noteq> Anone" "\<not> is_ind m" by blast
  then show ?thesis
  proof cases
    case 1
    with assms show ?thesis
      by (intro that [of "[]"]) (simp_all add: disopt_def parse_src_def adr_of_def is_ind_def SRC_def)
  next
    case 2
    then obtain x where "disaddr m a = Some x" "length x \<le> 8"
      "\<And>r. parse_ind2 (x @ r) = Inr (adr_of m a, r)"
      using parse_ind2_disaddr assms(1) by metis
    moreover have "m \<noteq> Anone" using 2 by (auto simp: is_ind_def)
    ultimately show ?thesis using assms(2) dismode_cases(2) [OF 2]
      by (intro that [of x]) (auto simp: disopt_def parse_src_def Let_def SRC_def)
  next
    case 3
    obtain x where "disaddr m a = Some x" "length x \<le> 8"
      "\<And>r. operand (x @ r) = Some (ucast (addr_val m a), r)"
      "scast (ucast (addr_val m a) :: u32) = addr_val m a"
      using operand_disaddr [OF 3(2) assms(1)] by metis
    moreover have "dismode m \<in> {AFP, AMP, AIMM}"
      using assms 3 by (intro dismode_cases) (simp_all add: addr_fits_def)
    ultimately show ?thesis using assms(2) 3
      by (intro that [of x]) (auto simp: disopt_def parse_src_def Let_def adr_of_def)
  qed
qed

lemma brpatch_ok:
  assumes "nprog < 2 ^ 31" "is_branch (iop ip) \<longrightarrow> 0 \<le> sint v \<and> sint v < int nprog" "idst ip = Imm v"
  shows "brpatch ip nprog = Some (if is_branch (iop ip) then ip\<lparr>idst := Ins (unat v)\<rparr> else ip)"
proof -
  have "sint (word_of_nat nprog :: u64) = int nprog"
    using assms(1) by (simp add: signed_of_nat signed_take_bit_int_eq_self)
  with assms show ?thesis by (auto simp: brpatch_def word_sless_alt word_sle_eq)
qed

lemma parse_dst_ok:
  assumes "addr_fits m a" "UXDST (iadd ip) = DST (dismode m)" "idst ip = Imm 0" "nprog < 2 ^ 31"
    and "dismode m = AIMM \<and> is_branch (iop ip) \<longrightarrow> 0 \<le> sint (addr_val m a) \<and> sint (addr_val m a) < int nprog"
  obtains x where "disopt m a = Some x" "length x \<le> 8"
    "\<And>r. parse_dst nprog ip (x @ r) = Inr (ip\<lparr>idst := if dismode m = AIMM \<and> is_branch (iop ip)
       then Ins (unat (addr_val m a)) else adr_of m a\<rparr>, r)"
proof -
  consider "m = Anone" | "is_ind m" | "m \<noteq> Anone" "\<not> is_ind m" by blast
  then show ?thesis
  proof cases
    case 1
    with assms show ?thesis
      by (intro that [of "[]"]) (simp_all add: disopt_def parse_dst_def adr_of_def is_ind_def DST_def)
  next
    case 2
    then obtain x where "disaddr m a = Some x" "length x \<le> 8"
      "\<And>r. parse_ind2 (x @ r) = Inr (adr_of m a, r)"
      using parse_ind2_disaddr assms(1) by metis
    moreover have "m \<noteq> Anone" using 2 by (auto simp: is_ind_def)
    ultimately show ?thesis using assms(2) dismode_cases(2) [OF 2]
      by (intro that [of x]) (auto simp: disopt_def parse_dst_def Let_def DST_def)
  next
    case 3
    obtain x where "disaddr m a = Some x" "length x \<le> 8"
      "\<And>r. operand (x @ r) = Some (ucast (addr_val m a), r)"
      "scast (ucast (addr_val m a) :: u32) = addr_val m a"
      using operand_disaddr [OF 3(2) assms(1)] by metis
    moreover have "dismode m \<in> {AFP, AMP, AIMM}"
      using assms 3 by (intro dismode_cases) (simp_all add: addr_fits_def)
    moreover have "dismode m = AIMM \<Longrightarrow> brpatch (ip\<lparr>idst := Imm (addr_val m a)\<rparr>) nprog
      = Some (ip\<lparr>idst := if is_branch (iop ip) then Ins (unat (addr_val m a)) else Imm (addr_val m a)\<rparr>)"
      using brpatch_ok [OF assms(4), of "ip\<lparr>idst := Imm (addr_val m a)\<rparr>" "addr_val m a"] assms(5) by simp
    ultimately show ?thesis using assms(2) 3
      by (intro that [of x]) (auto simp: disopt_def parse_dst_def Let_def adr_of_def DST_def)
  qed
qed

lemma parse_inst_disinst1:
  assumes "inst_ok nprog i" "nprog < 2 ^ 31"
  obtains x where "disinst1 i = Some x" "length x \<le> MAXINST"
    "\<And>r. parse_inst nprog (x @ r) = Inr (inst_of i, r)"
proof -
  define md where "md = (ucast (SRC (dismode (smode i)) OR DST (dismode (dmode i)) OR disregmode (mmode i)) :: byte)"
  define ip where "ip = \<lparr>iop = ucast (lop i), iadd = md, ireg = 0, isrc = Imm 0, idst = Imm 0\<rparr>"
  define ip1 where "ip1 = ip\<lparr>ireg := ucast (addr_val (mmode i) (maddr i))\<rparr>"
  define ip2 where "ip2 = ip1\<lparr>isrc := adr_of (smode i) (saddr i)\<rparr>"
  note defs = ip_def ip1_def ip2_def
  note ok = assms(1) [unfolded inst_ok_def]
  obtain xm where xm: "disopt (mmode i) (maddr i) = Some xm" "length xm \<le> 8" "\<And>r. parse_mid ip (xm @ r) = Inr (ip1, r)"
    using ok dis_mode_byte by (auto simp: defs md_def intro: parse_mid_ok [of "mmode i" "maddr i" ip])
  obtain xs where xs: "disopt (smode i) (saddr i) = Some xs" "length xs \<le> 8" "\<And>r. parse_src ip1 (xs @ r) = Inr (ip2, r)"
    using ok dis_mode_byte by (auto simp: defs md_def intro: parse_src_ok [of "smode i" "saddr i" ip1])
  obtain xd where xd: "disopt (dmode i) (daddr i) = Some xd" "length xd \<le> 8" "\<And>r. parse_dst nprog ip2 (xd @ r) = Inr (inst_of i, r)"
    using ok dis_mode_byte assms(2)
    by (auto simp: defs md_def inst_of_def dst_of_def intro: parse_dst_ok [of "dmode i" "daddr i" ip2 nprog])
  show ?thesis
    by (rule that [of "ucast (lop i) # md # xm @ xs @ xd"])
      (use xm xs xd in \<open>simp_all add: disinst1_def md_def [symmetric] ip_def [symmetric]\<close>)
qed

definition live :: "LInst list \<Rightarrow> LInst list" where
  "live is = filter (\<lambda>i. lop i \<noteq> INOOP) is"

lemma disinst_loop_parse:
  assumes "nprog < 2 ^ 31" "\<forall>i\<in>set (live is). inst_ok nprog i"
  shows "\<exists>out' ibuf' bs. disinst_loop is out ibuf = Some (out', ibuf') \<and> out' @ ibuf' = out @ ibuf @ bs
    \<and> (\<forall>r. parse_insts nprog (length (live is)) (bs @ r) = Inr (map inst_of (live is), r))"
  using assms(2)
proof (induction "is" arbitrary: out ibuf)
  case Nil
  then show ?case by (simp add: live_def)
next
  case (Cons i "is")
  show ?case
  proof (cases "lop i = INOOP")
    case True
    with Cons show ?thesis by (simp add: live_def)
  next
    case False
    define st where "st = (if length ibuf \<ge> NIBUF - MAXINST then (out @ ibuf, []) else (out, ibuf))"
    have cat: "fst st @ snd st = out @ ibuf" by (simp add: st_def)
    have "inst_ok nprog i" using Cons.prems False by (simp add: live_def)
    then obtain x where x: "disinst1 i = Some x" "\<And>r. parse_inst nprog (x @ r) = Inr (inst_of i, r)"
      using parse_inst_disinst1 assms(1) by metis
    have "\<forall>i\<in>set (live is). inst_ok nprog i" using Cons.prems by (simp add: live_def split: if_splits)
    from Cons.IH [OF this, of "fst st" "snd st @ x"] obtain out' ibuf' bs where
      "disinst_loop is (fst st) (snd st @ x) = Some (out', ibuf')"
      "out' @ ibuf' = fst st @ (snd st @ x) @ bs"
      "\<forall>r. parse_insts nprog (length (live is)) (bs @ r) = Inr (map inst_of (live is), r)" by blast
    moreover from this cat have "out' @ ibuf' = out @ ibuf @ x @ bs" by (metis append.assoc)
    moreover have "disinst_loop (i # is) out ibuf = disinst_loop is (fst st) (snd st @ x)"
      using False x(1) by (simp add: st_def)
    moreover have "live (i # is) = i # live is" using False by (simp add: live_def)
    ultimately show ?thesis
      using x(2) by (intro exI [of _ out'] exI [of _ ibuf'] exI [of _ "x @ bs"]) simp
  qed
qed

lemma disaddr_length: "disaddr m a = Some x \<Longrightarrow> length x \<le> 8"
  by (cases m) (auto simp: disbcon_discon dest!: discon_length split: option.splits)

lemma disinst1_length: "disinst1 i = Some x \<Longrightarrow> length x \<le> MAXINST"
  by (auto simp: disinst1_def disopt_def dest!: disaddr_length split: option.splits if_splits)

lemma disinst_loop_bound:
  "disinst_loop is out ibuf = Some (out', ibuf') \<Longrightarrow> length ibuf \<le> NIBUF \<Longrightarrow> length ibuf' \<le> NIBUF"
proof (induction "is" out ibuf rule: disinst_loop.induct)
  case (2 i "is" out ibuf)
  then show ?case
    by (auto simp: Let_def dest: disinst1_length split: if_splits option.splits)
qed simp

text \<open>Claim C14 (round trip).  If every instruction of a Limbo program has operands that fit (and no
  error mode, no indirect middle operand, and branches inside the program), the compiler's \<open>disinst\<close>
  writes it without a fatal error, and the loader's loop reads as many instructions as are not
  \<open>INOOP\<close>: the compiler's operands, with branch destinations turned into instruction addresses.
  Flushing the instruction buffer does not show.\<close>

theorem disinst_parse_roundtrip:
  assumes "nprog < 2 ^ 31" "\<forall>i\<in>set (live is). inst_ok nprog i"
  shows "\<exists>bs. disinst is = Some bs \<and>
    (\<forall>r. parse_insts nprog (length (live is)) (bs @ r) = Inr (map inst_of (live is), r))"
proof -
  from disinst_loop_parse [OF assms, of "[]" "[]"] obtain out ibuf bs where
    "disinst_loop is [] [] = Some (out, ibuf)" "out @ ibuf = bs"
    "\<forall>r. parse_insts nprog (length (live is)) (bs @ r) = Inr (map inst_of (live is), r)" by auto
  then show ?thesis by (auto simp: disinst_def)
qed

definition jmp0 :: LInst where
  "jmp0 = \<lparr>lop = 13, smode = Anone, mmode = Anone, dmode = Apc, saddr = \<lparr>areg = 0, offset = 0, iface_offset = 0\<rparr>,
     maddr = \<lparr>areg = 0, offset = 0, iface_offset = 0\<rparr>, daddr = \<lparr>areg = 0, offset = 1, iface_offset = 0\<rparr>\<rparr>"

definition addw0 :: LInst where
  "addw0 = \<lparr>lop = 58, smode = Afp, mmode = Aimm, dmode = Ampind, saddr = \<lparr>areg = 400, offset = 0, iface_offset = 0\<rparr>,
     maddr = \<lparr>areg = 0, offset = 5, iface_offset = 0\<rparr>, daddr = \<lparr>areg = 40, offset = 8, iface_offset = 0\<rparr>\<rparr>"

theorem disinst_parse_roundtrip_witness:
  "disinst [jmp0, addw0] = Some [13, 0x1A, 1, 58, 0x4C, 5, 0x81, 0x90, 40, 8]
   \<and> parse_insts 2 2 [13, 0x1A, 1, 58, 0x4C, 5, 0x81, 0x90, 40, 8]
     = Inr ([\<lparr>iop = 13, iadd = 0x1A, ireg = 0, isrc = Imm 0, idst = Ins 1\<rparr>,
             \<lparr>iop = 58, iadd = 0x4C, ireg = 5, isrc = Imm 400, idst = Ind2 40 8\<rparr>], [])"
proof -
  have a: "(2 :: nat) < 2 ^ 31" by simp
  have b: "\<forall>i\<in>set (live [jmp0, addw0]). inst_ok 2 i" by code_simp
  have c: "disinst [jmp0, addw0] = Some [13, 0x1A, 1, 58, 0x4C, 5, 0x81, 0x90, 40, 8]" by code_simp
  have d: "length (live [jmp0, addw0]) = 2" by code_simp
  have e: "map inst_of (live [jmp0, addw0])
     = [\<lparr>iop = 13, iadd = 0x1A, ireg = 0, isrc = Imm 0, idst = Ins 1\<rparr>,
        \<lparr>iop = 58, iadd = 0x4C, ireg = 5, isrc = Imm 400, idst = Ind2 40 8\<rparr>]" by code_simp
  from disinst_parse_roundtrip [OF a b] have
    "parse_insts 2 2 ([13, 0x1A, 1, 58, 0x4C, 5, 0x81, 0x90, 40, 8] @ [])
     = Inr (map inst_of (live [jmp0, addw0]), [])" unfolding c d by blast
  with c e show ?thesis by simp
qed

text \<open>Property (bounds).  Whatever the instructions, the instruction buffer of \<open>disinst\<close> never holds
  more than its \<open>NIBUF\<close> bytes: at most \<open>MAXINST\<close> bytes are added after the test that flushes it.\<close>

theorem disinst_buffer_bound:
  assumes "disinst_loop is [] [] = Some (out, ibuf)"
  shows "length ibuf \<le> NIBUF"
  using disinst_loop_bound [OF assms] by simp

theorem disinst_buffer_bound_witness:
  "disinst_loop [jmp0, addw0] [] [] = Some ([], [13, 0x1A, 1, 58, 0x4C, 5, 0x81, 0x90, 40, 8])
   \<and> length [13, 0x1A, 1, 58, 0x4C, 5, 0x81, 0x90, 40, 8 :: byte] \<le> NIBUF"
proof -
  have a: "disinst_loop [jmp0, addw0] [] [] = Some ([], [13, 0x1A, 1, 58, 0x4C, 5, 0x81, 0x90, 40, 8])"
    by code_simp
  from a disinst_buffer_bound [OF a] show ?thesis by simp
qed

end
