(* ===== verification/Dis_Module.thy ===== *)
theory Dis_Module
  imports Dis_Inst
begin

text \<open>
  Type descriptors and exception handlers in Dis object files: \<open>disdesc\<close> and \<open>disexc\<close> of the compiler
  (\<^verbatim>\<open>src/limbo/dis.c\<close>), the loops of \<open>parsemod\<close> that read them and \<open>dtype\<close> (\<^verbatim>\<open>src/libinterp/load.c\<close>,
  \<^verbatim>\<open>src/libinterp/heap.c\<close>).  An access outside the table \<open>m->type\<close> is the error \<open>Overrun_type\<close>.
\<close>

section \<open>Type descriptors\<close>

record Type =
  tsize :: u32
  tnp :: u32
  tmap :: "byte list"

definition dtype :: "u32 \<Rightarrow> byte list \<Rightarrow> u32 \<Rightarrow> Type" where
  "dtype sz map' mapsize = \<lparr>tsize = sz, tnp = mapsize, tmap = take (unat mapsize) map'\<rparr>"

type_synonym type_table = "Type option list"

text \<open>
  One turn of the loop: the table has \<open>hsize\<close> entries.  The check of \<open>id\<close> lets \<open>id = hsize\<close> and
  negative numbers pass.
\<close>

definition parse_type :: "nat \<Rightarrow> type_table \<Rightarrow> byte list \<Rightarrow> load_error + type_table \<times> byte list" where
  "parse_type hsize types r =
     (case operand r of None \<Rightarrow> Inl Short
      | Some (ident, r) \<Rightarrow>
        if sint ident > int hsize then Inl HeapId
        else case operand r of None \<Rightarrow> Inl Short
        | Some (tsz, r) \<Rightarrow>
          (case operand r of None \<Rightarrow> Inl Short
           | Some (np, r) \<Rightarrow>
             if tsz <s 0 \<or> np <s 0 \<or> 128 * 1024 <s np then Inl Implausible
             else if length r < unat np then Inl Short
             else if sint ident < 0 \<or> sint ident = int hsize then Inl Overrun_type
             else Inr (types[unat ident := Some (dtype tsz r np)], drop (unat np) r)))"

fun parse_types :: "nat \<Rightarrow> nat \<Rightarrow> type_table \<Rightarrow> byte list \<Rightarrow> load_error + type_table \<times> byte list" where
  "parse_types hsize 0 types r = Inr (types, r)"
| "parse_types hsize (Suc n) types r =
     (case parse_type hsize types r of Inl e \<Rightarrow> Inl e
      | Inr (types, r) \<Rightarrow> parse_types hsize n types r)"

text \<open>The compiler's side.\<close>

record Desc =
  desc_id :: u64
  desc_size :: u64
  desc_nmap :: u64
  desc_map :: "byte list"

fun disdesc :: "Desc list \<Rightarrow> byte list option" where
  "disdesc [] = Some []"
| "disdesc (d # ds) =
     (case discon (desc_id d) of None \<Rightarrow> None | Some a \<Rightarrow>
      (case discon (desc_size d) of None \<Rightarrow> None | Some b \<Rightarrow>
       (case discon (desc_nmap d) of None \<Rightarrow> None | Some c \<Rightarrow>
         map_option (\<lambda>r. a @ b @ c @ take (unat (desc_nmap d)) (desc_map d) @ r) (disdesc ds))))"

section \<open>Exception handlers\<close>

text \<open>
  A handler of the object file.  \<open>cstr\<close> reads a NUL-terminated name.  The loop of \<open>parsemod\<close> decides
  by the variable \<open>n\<close>, which holds the number of labels of the handler before (or an unrelated value
  on the first turn), whether to look the descriptor up.
\<close>

record Handler =
  eoff :: u64
  pc1 :: u64
  pc2 :: u64
  ht :: "Type option"
  ne :: u64
  etab :: "(byte list option \<times> u64) list"

fun cstr :: "byte list \<Rightarrow> (byte list \<times> byte list) option" where
  "cstr [] = None"
| "cstr (b # r) = (if b = 0 then Some ([], r) else map_option (\<lambda>(x, r). (b # x, r)) (cstr r))"

fun parse_etab :: "nat \<Rightarrow> byte list \<Rightarrow> load_error + (byte list option \<times> u64) list \<times> byte list" where
  "parse_etab 0 r =
     (case operand r of None \<Rightarrow> Inl Short | Some (pc, r) \<Rightarrow> Inr ([(None, scast pc)], r))"
| "parse_etab (Suc n) r =
     (case cstr r of None \<Rightarrow> Inl Short
      | Some (x, r) \<Rightarrow>
        (case operand r of None \<Rightarrow> Inl Short
         | Some (pc, r) \<Rightarrow>
           (case parse_etab n r of Inl e \<Rightarrow> Inl e
            | Inr (es, r) \<Rightarrow> Inr ((Some x, scast pc) # es, r))))"

definition lookup_type :: "type_table \<Rightarrow> u32 \<Rightarrow> load_error + Type option" where
  "lookup_type types i = (if sint i < 0 \<or> int (length types) \<le> sint i then Inl Overrun_type
     else Inr (types ! unat i))"

definition parse_handler :: "type_table \<Rightarrow> u64 \<Rightarrow> byte list
    \<Rightarrow> load_error + Handler \<times> u64 \<times> byte list" where
  "parse_handler types n r =
     (case get_many operand 4 r of
        Some ([eo, p1, p2, descid], r) \<Rightarrow>
          (case (if n \<noteq> - 1 then lookup_type types descid else Inr None) of
             Inl e \<Rightarrow> Inl e
           | Inr t \<Rightarrow>
             (case operand r of None \<Rightarrow> Inl Short
              | Some (v, r) \<Rightarrow>
                let n = scast v :: u64; n' = n AND 0xFFFF in
                (case parse_etab (unat n') r of Inl e \<Rightarrow> Inl e
                 | Inr (es, r) \<Rightarrow>
                   Inr (\<lparr>eoff = scast eo, pc1 = scast p1, pc2 = scast p2, ht = t,
                          ne = signed_drop_bit 16 n, etab = es\<rparr>, n', r))))
      | _ \<Rightarrow> Inl Short)"

fun parse_handlers :: "type_table \<Rightarrow> nat \<Rightarrow> u64 \<Rightarrow> byte list
    \<Rightarrow> load_error + Handler list \<times> byte list" where
  "parse_handlers types 0 n r = Inr ([], r)"
| "parse_handlers types (Suc k) n r =
     (case parse_handler types n r of Inl e \<Rightarrow> Inl e
      | Inr (h, n, r) \<Rightarrow>
        (case parse_handlers types k n r of Inl e \<Rightarrow> Inl e | Inr (hs, r) \<Rightarrow> Inr (h # hs, r)))"

text \<open>
  The compiler's side, for the handlers that are reached.  \<open>ex_pc1\<close> and \<open>ex_pc2\<close> are what \<open>getpc\<close>
  gives, \<open>ex_desc\<close> the id of the descriptor if there is one, \<open>ex_labs\<close> the names and program
  counters, \<open>ex_wild\<close> the program counter of the wildcard.
\<close>

record LExcept =
  ex_reach1 :: bool
  ex_reach2 :: bool
  ex_off :: u64
  ex_pc1 :: u64
  ex_pc2 :: u64
  ex_desc :: "u64 option"
  ex_ne :: u64
  ex_labs :: "(byte list \<times> u64) list"
  ex_wild :: "u64 option"

fun dislabs :: "(byte list \<times> u64) list \<Rightarrow> byte list option" where
  "dislabs [] = Some []"
| "dislabs ((nm, pc) # xs) =
     (case discon pc of None \<Rightarrow> None | Some c \<Rightarrow> map_option (\<lambda>r. nm @ [0] @ c @ r) (dislabs xs))"

fun discons :: "u64 list \<Rightarrow> byte list option" where
  "discons [] = Some []"
| "discons (v # vs) = (case discon v of None \<Rightarrow> None | Some c \<Rightarrow> map_option ((@) c) (discons vs))"

definition disexc1 :: "LExcept \<Rightarrow> byte list option" where
  "disexc1 e =
     (case discons [ex_off e, ex_pc1 e, ex_pc2 e,
          (case ex_desc e of Some i \<Rightarrow> i | None \<Rightarrow> - 1),
          word_of_nat (length (ex_labs e)) OR push_bit 16 (ex_ne e)] of None \<Rightarrow> None
      | Some a \<Rightarrow>
        (case dislabs (ex_labs e) of None \<Rightarrow> None
         | Some b \<Rightarrow>
           map_option (\<lambda>c. a @ b @ c) (discon (case ex_wild e of None \<Rightarrow> - 1 | Some pc \<Rightarrow> pc))))"

fun disexcs :: "LExcept list \<Rightarrow> byte list option" where
  "disexcs [] = Some []"
| "disexcs (e # es) =
     (if \<not> ex_reach1 e \<and> \<not> ex_reach2 e then disexcs es
      else case disexc1 e of None \<Rightarrow> None | Some a \<Rightarrow> map_option ((@) a) (disexcs es))"

definition disexc :: "LExcept list \<Rightarrow> byte list option" where
  "disexc es =
     (case discon (word_of_nat (length (filter (\<lambda>e. ex_reach1 e \<or> ex_reach2 e) es))) of None \<Rightarrow> None
      | Some a \<Rightarrow>
        (case disexcs es of None \<Rightarrow> None
         | Some b \<Rightarrow> map_option (\<lambda>c. a @ b @ c) (discon 0)))"

definition parse_excepts :: "type_table \<Rightarrow> u64 \<Rightarrow> byte list \<Rightarrow> load_error + Handler list \<times> byte list" where
  "parse_excepts types n r =
     (case operand r of None \<Rightarrow> Inl Short
      | Some (nh, r) \<Rightarrow>
        (case parse_handlers types (nat (sint nh)) n r of Inl e \<Rightarrow> Inl e
         | Inr (hs, r) \<Rightarrow> (case r of [] \<Rightarrow> Inl Short | _ # r \<Rightarrow> Inr (hs, r))))"

section \<open>Descriptors from compiler to loader\<close>

lemma sint_ucast_sfit: "sfit 29 v \<Longrightarrow> sint (ucast v :: u32) = sint v"
proof -
  assume "sfit 29 v"
  then have "sint v = sint (scast (ucast v :: u32) :: u64)" by (simp add: scast_ucast_sfit)
  also have "\<dots> = sint (ucast v :: u32)"
    using sint_ge [of "ucast v :: u32"] sint_lt [of "ucast v :: u32"]
    by (simp add: signed_scast_eq signed_take_bit_int_eq_self)
  finally show ?thesis by simp
qed

definition type_of :: "Desc \<Rightarrow> Type" where
  "type_of d = \<lparr>tsize = ucast (desc_size d), tnp = ucast (desc_nmap d), tmap = desc_map d\<rparr>"

definition desc_ok :: "nat \<Rightarrow> Desc \<Rightarrow> bool" where
  "desc_ok hsize d \<longleftrightarrow> unat (desc_id d) < hsize \<and> unat (desc_size d) < 2 ^ 29
     \<and> unat (desc_nmap d) \<le> 128 * 1024 \<and> length (desc_map d) = unat (desc_nmap d)"

definition set_types :: "Desc list \<Rightarrow> type_table \<Rightarrow> type_table" where
  "set_types ds ts = foldl (\<lambda>ts d. ts[unat (desc_id d) := Some (type_of d)]) ts ds"

lemma sint_small:
  assumes "unat (w :: 'l::len word) < 2 ^ 29" "32 \<le> LENGTH('l)"
  shows "sint w = uint w"
proof -
  have "(2 :: int) ^ 29 \<le> 2 ^ (LENGTH('l) - 1)" using assms(2) by (intro power_increasing) auto
  moreover have "uint w < 2 ^ 29" using assms(1) uint_less_unat(1) [of w "2 ^ 29"] by simp
  moreover have "0 \<le> uint w" by simp
  ultimately have "- (2 ^ (LENGTH('l) - 1)) \<le> uint w \<and> uint w < 2 ^ (LENGTH('l) - 1)" by linarith
  then show ?thesis by (simp add: sint_uint signed_take_bit_int_eq_self_iff)
qed

lemma small_u64:
  assumes "unat (v :: u64) < 2 ^ 29"
  shows "sfit 29 v" "sint (ucast v :: u32) = uint v" "unat (ucast v :: u32) = unat v"
proof -
  show u: "unat (ucast v :: u32) = unat v"
    using assms by (simp add: unsigned_ucast_eq take_bit_nat_eq_self)
  have "uint v < 2 ^ 29" using assms uint_less_unat(1) [of v "2 ^ 29"] by simp
  then show "sfit 29 v" using sint_small [OF assms] by (simp add: sfit_def order_trans [OF _ uint_ge_0])
  show "sint (ucast v :: u32) = uint v"
    using sint_small [of "ucast v :: u32"] assms u by (simp add: uint_nat del: of_nat_unat)
qed

lemma discon_small:
  assumes "unat (v :: u64) < 2 ^ 29"
  obtains bs where "discon v = Some bs" "\<And>r. operand (bs @ r) = Some (ucast v, r)"
  using operand_disbcon [OF small_u64(1) [OF assms]] by (auto simp: disbcon_discon)

lemma parse_type_ok:
  assumes "desc_ok hsize d" "hsize < 2 ^ 29" "length ts = hsize"
  obtains x where "\<And>ds. disdesc (d # ds) = map_option ((@) x) (disdesc ds)"
    "\<And>r. parse_type hsize ts (x @ r) = Inr (ts[unat (desc_id d) := Some (type_of d)], r)"
proof -
  have i: "unat (desc_id d) < 2 ^ 29" "unat (desc_size d) < 2 ^ 29" "unat (desc_nmap d) < 2 ^ 29"
    using assms by (auto simp: desc_ok_def)
  obtain a b c where abc: "discon (desc_id d) = Some a" "discon (desc_size d) = Some b"
    "discon (desc_nmap d) = Some c" "\<And>r. operand (a @ r) = Some (ucast (desc_id d), r)"
    "\<And>r. operand (b @ r) = Some (ucast (desc_size d), r)"
    "\<And>r. operand (c @ r) = Some (ucast (desc_nmap d), r)"
    using discon_small [OF i(1)] discon_small [OF i(2)] discon_small [OF i(3)] by metis
  show ?thesis
  proof (rule that)
    show "disdesc (d # ds) = map_option ((@) (a @ b @ c @ desc_map d)) (disdesc ds)" for ds
      using abc assms(1) by (cases "disdesc ds") (simp_all add: desc_ok_def)
    show "parse_type hsize ts ((a @ b @ c @ desc_map d) @ r)
        = Inr (ts[unat (desc_id d) := Some (type_of d)], r)" for r
      using abc assms small_u64 [OF i(1)] small_u64 [OF i(2)] small_u64 [OF i(3)]
        uint_less_unat(1) [of "desc_id d" hsize] uint_less_unat(2) [of "desc_nmap d" 131072]
      by (simp add: parse_type_def desc_ok_def dtype_def type_of_def word_sless_alt)
  qed
qed

lemma parse_types_disdesc:
  assumes "hsize < 2 ^ 29"
  shows "\<lbrakk>\<forall>d\<in>set ds. desc_ok hsize d; length ts = hsize\<rbrakk> \<Longrightarrow>
    \<exists>bs. disdesc ds = Some bs \<and>
      (\<forall>r. parse_types hsize (length ds) ts (bs @ r) = Inr (set_types ds ts, r))"
proof (induction ds arbitrary: ts)
  case Nil
  then show ?case by (simp add: set_types_def)
next
  case (Cons d ds)
  let ?ts = "ts[unat (desc_id d) := Some (type_of d)]"
  from Cons.prems have "desc_ok hsize d" by simp
  from parse_type_ok [OF this assms Cons.prems(2)] obtain x where
    x: "\<And>ds. disdesc (d # ds) = map_option ((@) x) (disdesc ds)"
    "\<And>r. parse_type hsize ts (x @ r) = Inr (?ts, r)" by metis
  from Cons.IH [of ?ts] Cons.prems obtain bs where "disdesc ds = Some bs"
    "\<forall>r. parse_types hsize (length ds) ?ts (bs @ r) = Inr (set_types ds ?ts, r)" by auto
  with x show ?case by (auto simp: set_types_def)
qed

lemma set_types_length [simp]: "length (set_types ds ts) = length ts"
  by (induction ds arbitrary: ts) (simp_all add: set_types_def)

lemma set_types_nth:
  "\<lbrakk>distinct (map desc_id ds); d \<in> set ds; unat (desc_id d) < length ts\<rbrakk>
    \<Longrightarrow> set_types ds ts ! unat (desc_id d) = Some (type_of d)"
proof (induction ds arbitrary: ts rule: rev_induct)
  case (snoc e ds)
  have "set_types (ds @ [e]) ts = (set_types ds ts)[unat (desc_id e) := Some (type_of e)]" for ts
    by (simp add: set_types_def)
  moreover have "unat (desc_id e) \<noteq> unat (desc_id d)" if "d \<noteq> e \<or> d \<in> set ds"
    using snoc.prems that by (auto simp: word_unat_eq_iff [symmetric])
  ultimately show ?case using snoc by (cases "d \<in> set ds") (auto simp: nth_list_update)
qed simp

text \<open>Property (round trip).  For descriptors with distinct ids below the number of descriptors, the
  compiler's \<open>disdesc\<close> succeeds and the loader's loop fills the table: the entry of every id holds the
  size and the pointer map of its descriptor, and reading stops at the end of the descriptors.\<close>

theorem disdesc_parse_roundtrip:
  assumes "length ds < 2 ^ 29" "\<forall>d\<in>set ds. desc_ok (length ds) d" "distinct (map desc_id ds)"
  shows "\<exists>bs ts. disdesc ds = Some bs \<and> length ts = length ds
    \<and> (\<forall>r. parse_types (length ds) (length ds) (replicate (length ds) None) (bs @ r) = Inr (ts, r))
    \<and> (\<forall>d\<in>set ds. ts ! unat (desc_id d) = Some (type_of d))"
proof -
  let ?ts = "set_types ds (replicate (length ds) None)"
  from parse_types_disdesc [OF assms(1,2), of "replicate (length ds) None"] obtain bs where
    "disdesc ds = Some bs"
    "\<forall>r. parse_types (length ds) (length ds) (replicate (length ds) None) (bs @ r) = Inr (?ts, r)" by auto
  moreover have "\<forall>d\<in>set ds. ?ts ! unat (desc_id d) = Some (type_of d)"
    using assms by (auto simp: desc_ok_def intro!: set_types_nth)
  ultimately show ?thesis by (intro exI [of _ bs] exI [of _ ?ts]) simp
qed

theorem disdesc_parse_roundtrip_witness:
  "disdesc [\<lparr>desc_id = 1, desc_size = 64, desc_nmap = 1, desc_map = [0xC0]\<rparr>,
            \<lparr>desc_id = 0, desc_size = 8, desc_nmap = 0, desc_map = []\<rparr>]
     = Some [1, 0x80, 64, 1, 0xC0, 0, 8, 0]
   \<and> (\<exists>ts. parse_types 2 2 [None, None] [1, 0x80, 64, 1, 0xC0, 0, 8, 0] = Inr (ts, []))"
proof -
  let ?ds = "[\<lparr>desc_id = 1, desc_size = 64, desc_nmap = 1, desc_map = [0xC0]\<rparr>,
            \<lparr>desc_id = 0, desc_size = 8, desc_nmap = 0, desc_map = []\<rparr>]"
  have a: "length ?ds < 2 ^ 29" by simp
  have b: "\<forall>d\<in>set ?ds. desc_ok (length ?ds) d" by (simp add: desc_ok_def)
  have c: "distinct (map desc_id ?ds)" by simp
  have d: "disdesc ?ds = Some [1, 0x80, 64, 1, 0xC0, 0, 8, 0]" by code_simp
  have e: "length ?ds = 2" "replicate (length ?ds) None = [None, None]" by simp_all
  from disdesc_parse_roundtrip [OF a b c, unfolded e(2), unfolded e(1)] obtain bs ts where
    "disdesc ?ds = Some bs" "\<forall>r. parse_types 2 2 [None, None] (bs @ r) = Inr (ts, r)" by blast
  then have "parse_types 2 2 [None, None] ([1, 0x80, 64, 1, 0xC0, 0, 8, 0] @ []) = Inr (ts, [])"
    unfolding d by (metis option.inject)
  with d show ?thesis by auto
qed

text \<open>Property (error).  The loader's range check of a descriptor's id is off by one: the id \<open>hsize\<close>,
  one past the end of the table, is not rejected as out of range and the store goes outside the
  table; so does every negative id.\<close>

theorem parse_type_overrun:
  assumes "discon v = Some a" "- (2 ^ 29) \<le> sint v" "sint v < 2 ^ 29"
    and "sint v = int hsize \<or> sint v < 0"
  shows "parse_type hsize ts (a @ [8, 0] @ r) = Inl Overrun_type"
proof -
  have f: "sfit 29 v" using assms by (simp add: sfit_def)
  have o: "operand (8 # y) = Some (8, y)" "operand (0 # y) = Some (0, y)" for y by simp_all
  show ?thesis
    using operand_discon [OF f assms(1)] sint_ucast_sfit [OF f] assms(4)
    by (auto simp: parse_type_def o word_sless_alt simp del: operand.simps)
qed

theorem parse_type_overrun_witness:
  "discon 2 = Some [2] \<and> parse_type 2 [None, None] [2, 8, 0] = Inl Overrun_type
   \<and> discon (- 1) = Some [0x7F] \<and> parse_type 2 [None, None] [0x7F, 8, 0] = Inl Overrun_type"
proof -
  have a: "discon 2 = Some [2]" "discon (- 1) = Some [0x7F]" by code_simp+
  show ?thesis
    using parse_type_overrun [OF a(1), of 2 "[None, None]" "[]"]
      parse_type_overrun [OF a(2), of 2 "[None, None]" "[]"] a by simp
qed

section \<open>Exception handlers from compiler to loader\<close>

lemma discons_get_many:
  "\<lbrakk>\<forall>v\<in>set vs. sfit 29 v; discons vs = Some bs\<rbrakk>
    \<Longrightarrow> get_many operand (length vs) (bs @ r) = Some (map ucast vs, r)"
  by (induction vs arbitrary: bs)
    (auto simp: operand_discon simp del: operand.simps split: option.splits)

text \<open>Property (error).  A handler without descriptor, which the compiler writes with the descriptor
  number -1, is not recognised as such by the loader: it tests the variable \<open>n\<close> in place of the
  number it has just read and, unless \<open>n\<close> happens to be -1, takes entry -1 of the type table.\<close>

theorem handler_without_descriptor:
  assumes "ex_desc e = None" "disexc1 e = Some bs" "n \<noteq> - 1"
    and "\<forall>v\<in>{ex_off e, ex_pc1 e, ex_pc2 e}. - (2 ^ 29) \<le> sint v \<and> sint v < 2 ^ 29"
  shows "parse_handler types n (bs @ r) = Inl Overrun_type"
proof -
  from assms(1,2) obtain a x b where a: "discons [ex_off e, ex_pc1 e, ex_pc2 e, - 1] = Some a"
    "bs = a @ b"
    by (auto simp: disexc1_def split: option.splits)
  have "get_many operand 4 (a @ b @ r) = Some (map ucast [ex_off e, ex_pc1 e, ex_pc2 e, - 1], b @ r)"
    using discons_get_many [OF _ a(1), of "b @ r"] assms(4) by (simp add: sfit_def numeral_eq_Suc)
  moreover have "sint (ucast (- 1 :: u64) :: u32) < 0" by code_simp
  ultimately show ?thesis
    using assms(3) by (simp add: parse_handler_def a lookup_type_def)
qed

definition except0 :: LExcept where
  "except0 = \<lparr>ex_reach1 = True, ex_reach2 = True, ex_off = 40, ex_pc1 = 3, ex_pc2 = 9, ex_desc = None,
     ex_ne = 0, ex_labs = [([0x61], 12)], ex_wild = None\<rparr>"

theorem handler_without_descriptor_witness:
  "disexc1 except0 = Some [40, 3, 9, 0x7F, 1, 0x61, 0, 12, 0x7F]
   \<and> parse_handler [] 0 [40, 3, 9, 0x7F, 1, 0x61, 0, 12, 0x7F] = Inl Overrun_type"
proof -
  have a: "ex_desc except0 = None" by (simp add: except0_def)
  have b: "disexc1 except0 = Some [40, 3, 9, 0x7F, 1, 0x61, 0, 12, 0x7F]" by code_simp
  have c: "(0 :: u64) \<noteq> - 1" by simp
  have d: "\<forall>v\<in>{ex_off except0, ex_pc1 except0, ex_pc2 except0}. - (2 ^ 29) \<le> sint v \<and> sint v < 2 ^ 29"
    by (simp add: except0_def)
  from handler_without_descriptor [OF a b c d, of "[]" "[]"] b show ?thesis by simp
qed

end
