(* ===== verification/Dis_Mem.thy ===== *)
theory Dis_Mem
  imports Inferno_Base
begin

text \<open>
  The byte memory of the Dis virtual machine (\<^verbatim>\<open>src/libinterp\<close>) on a 64-bit little-endian host:
  the C types \<open>BYTE\<close>, \<open>SHORT\<close>, \<open>WORD\<close> and \<open>LONG\<close> of \<^verbatim>\<open>src/include/interp.h\<close> as loads and stores of
  1, 2, 8 and 8 bytes.  Addresses wrap around at \<open>2^64\<close>.
\<close>

type_synonym memory = "u64 \<Rightarrow> byte"

definition load_bytes :: "memory \<Rightarrow> u64 \<Rightarrow> nat \<Rightarrow> byte list" where
  "load_bytes mem a n = map (\<lambda>i. mem (a + word_of_nat i)) [0..<n]"

definition store_bytes :: "memory \<Rightarrow> u64 \<Rightarrow> byte list \<Rightarrow> memory" where
  "store_bytes mem a bs =
     (\<lambda>x. let i = unat (x - a) in if i < length bs then bs ! i else mem x)"

definition load16 :: "memory \<Rightarrow> u64 \<Rightarrow> u16" where
  "load16 mem a = ucast (GBIT16 (load_bytes mem a 2))"

definition load64 :: "memory \<Rightarrow> u64 \<Rightarrow> u64" where
  "load64 mem a = GBIT64 (load_bytes mem a 8)"

definition load32 :: "memory \<Rightarrow> u64 \<Rightarrow> u32" where
  "load32 mem a = GBIT32 (load_bytes mem a 4)"

definition store16 :: "memory \<Rightarrow> u64 \<Rightarrow> u16 \<Rightarrow> memory" where
  "store16 mem a v = store_bytes mem a (PBIT16 v)"

definition store64 :: "memory \<Rightarrow> u64 \<Rightarrow> u64 \<Rightarrow> memory" where
  "store64 mem a v = store_bytes mem a (PBIT64 v)"

text \<open>The addresses of \<open>n\<close> bytes from \<open>a\<close> on.\<close>

definition span :: "u64 \<Rightarrow> nat \<Rightarrow> u64 set" where
  "span a n = {x. unat (x - a) < n}"

section \<open>Loads after stores\<close>

lemma span_0 [simp]: "span a 0 = {}"
  by (simp add: span_def)

lemma span_self [simp]: "a \<in> span a n \<longleftrightarrow> 0 < n"
  by (simp add: span_def)

lemma unat_word_of_nat: "i < 2 ^ 64 \<Longrightarrow> unat (word_of_nat i :: u64) = i"
  by (simp add: unsigned_of_nat take_bit_nat_eq_self)

lemma span_offset: "\<lbrakk>i < n; n < 2 ^ 64\<rbrakk> \<Longrightarrow> a + word_of_nat i \<in> span a n"
  by (simp add: span_def unat_word_of_nat)

lemma length_load_bytes [simp]: "length (load_bytes mem a n) = n"
  by (simp add: load_bytes_def)

lemma store_bytes_frame: "x \<notin> span a (length bs) \<Longrightarrow> store_bytes mem a bs x = mem x"
  by (simp add: store_bytes_def span_def Let_def)

lemma load_bytes_cong:
  "\<lbrakk>\<And>x. x \<in> span a n \<Longrightarrow> mem x = mem' x; n < 2 ^ 64\<rbrakk> \<Longrightarrow> load_bytes mem a n = load_bytes mem' a n"
  by (simp add: load_bytes_def span_offset)

lemma load_store_bytes:
  "length bs < 2 ^ 64 \<Longrightarrow> load_bytes (store_bytes mem a bs) a (length bs) = bs"
  by (rule nth_equalityI) (simp_all add: load_bytes_def store_bytes_def unat_word_of_nat)

section \<open>Cells\<close>

text \<open>
  What the instructions rely on: a cell of \<open>n\<close> bytes holds what was stored last, a store changes no
  byte outside its cell and a load looks at no byte outside its cell.
\<close>

locale cell =
  fixes ld :: "memory \<Rightarrow> u64 \<Rightarrow> 'v"
    and st :: "memory \<Rightarrow> u64 \<Rightarrow> 'v \<Rightarrow> memory"
    and n :: nat
  assumes ld_st: "ld (st mem a v) a = v"
    and st_frame: "x \<notin> span a n \<Longrightarrow> st mem a v x = mem x"
    and ld_cong: "(\<And>x. x \<in> span a n \<Longrightarrow> mem x = mem' x) \<Longrightarrow> ld mem a = ld mem' a"
begin

lemma ld_frame: "(\<And>x. x \<notin> D \<Longrightarrow> mem' x = mem x) \<Longrightarrow> span a n \<inter> D = {} \<Longrightarrow> ld mem' a = ld mem a"
  by (rule ld_cong) blast

lemma ld_st_other: "span a n \<inter> span b n = {} \<Longrightarrow> ld (st mem b v) a = ld mem a"
  using ld_frame [of "span b n" "st mem b v" mem a] st_frame [of _ b mem v] by blast

end

interpretation byte_cell: cell "\<lambda>mem a. mem a" "\<lambda>mem a v. mem(a := v)" 1
  by unfold_locales (auto simp: span_def)

lemma GBIT_load_store:
  "ucast (GBIT16 (PBIT16 v)) = (v :: u16)" "GBIT64 (PBIT64 w) = (w :: u64)"
proof -
  have "ucast (ucast v :: u32) = v" by (rule bit_word_eqI) (auto simp: bit_simps)
  then show "ucast (GBIT16 (PBIT16 v)) = v" using GBIT16_PBIT16 [of v "[]"] by simp
  show "GBIT64 (PBIT64 w) = w" using GBIT64_PBIT64 [of w "[]"] by simp
qed

interpretation short_cell: cell load16 store16 2
proof
  show "load16 (store16 mem a v) a = v" for mem a v
    using load_store_bytes [of "PBIT16 v" mem a] by (simp add: load16_def store16_def GBIT_load_store)
  show "x \<notin> span a 2 \<Longrightarrow> store16 mem a v x = mem x" for x a mem v
    using store_bytes_frame [of x a "PBIT16 v" mem] by (simp add: store16_def)
  show "(\<And>x. x \<in> span a 2 \<Longrightarrow> mem x = mem' x) \<Longrightarrow> load16 mem a = load16 mem' a" for a mem mem'
    using load_bytes_cong [of a 2 mem mem'] by (simp add: load16_def)
qed

interpretation word_cell: cell load64 store64 8
proof
  show "load64 (store64 mem a v) a = v" for mem a v
    using load_store_bytes [of "PBIT64 v" mem a] by (simp add: load64_def store64_def GBIT_load_store)
  show "x \<notin> span a 8 \<Longrightarrow> store64 mem a v x = mem x" for x a mem v
    using store_bytes_frame [of x a "PBIT64 v" mem] by (simp add: store64_def)
  show "(\<And>x. x \<in> span a 8 \<Longrightarrow> mem x = mem' x) \<Longrightarrow> load64 mem a = load64 mem' a" for a mem mem'
    using load_bytes_cong [of a 8 mem mem'] by (simp add: load64_def)
qed

end
