(* ===== verification/Dis_Exec.thy ===== *)
theory Dis_Exec
  imports Dis_Mem "HOL-Library.Signed_Division"
begin

text \<open>
  The Dis interpreter: operand decoding (\<^verbatim>\<open>src/libinterp/dec.c\<close>, which \<^verbatim>\<open>src/libinterp/decgen.c\<close>
  writes) and the instructions on bytes, words and bigs (\<^verbatim>\<open>src/libinterp/xec.c\<close>).  The program lies in
  the same memory as its data: an \<open>Inst\<close> is 24 bytes, \<open>op\<close>, \<open>add\<close> and \<open>reg\<close> at 0, 1 and 2, the
  unions \<open>s\<close> and \<open>d\<close> at 8 and 16, so that an immediate operand is the address of its union, as in
  the source.  Arithmetic on \<open>WORD\<close> and \<open>LONG\<close>, 64 bits, wraps around.  A division by zero, or of
  the least value by -1, traps on this machine; a shift uses the low 6 bits of its count (5 for a
  \<open>BYTE\<close>, which is promoted to \<open>int\<close>).
\<close>

section \<open>Registers\<close>

text \<open>
  \<open>struct REG\<close>, without the fields only the scheduler and the stack use.  \<open>rt\<close> is the address of
  the middle temporary \<open>R.t\<close>, \<open>prog\<close> is \<open>R.M->prog\<close> and \<open>compiled\<close> is \<open>R.M->compiled\<close>.
\<close>

record REG =
  mem :: memory
  PC :: u64
  MP :: u64
  FP :: u64
  rs :: u64
  rd :: u64
  rm :: u64
  rt :: u64
  prog :: u64
  compiled :: bool
  IC :: u32

datatype vm_error =
    ZeroDivide
  | exBounds
  | exNilref
  | exNegsize
  | exHeap
  | exOp
  | Fault
  | Forever

abbreviation (input) "IBY2WD \<equiv> (8 :: u64)"
abbreviation (input) "sizeof_Inst \<equiv> (24 :: u64)"

section \<open>dec.c\<close>

definition USRC :: "byte \<Rightarrow> byte" where "USRC x = drop_bit 3 x AND 7"
definition UDST :: "byte \<Rightarrow> byte" where "UDST x = x AND 7"

definition DIND :: "u64 \<Rightarrow> u64 \<Rightarrow> REG \<Rightarrow> u64" where
  "DIND reg xxx R = load64 (mem R) (reg + ucast (load16 (mem R) xxx)) + ucast (load16 (mem R) (xxx + 2))"

definition dec_s :: "byte \<Rightarrow> REG \<Rightarrow> REG" where
  "dec_s add R =
     (let s = PC R + 8; u = USRC add in
      if u = 0 then R\<lparr>rs := MP R + load64 (mem R) s\<rparr>
      else if u = 1 then R\<lparr>rs := FP R + load64 (mem R) s\<rparr>
      else if u = 2 then R\<lparr>rs := s\<rparr>
      else if u = 4 then R\<lparr>rs := DIND (MP R) s R\<rparr>
      else if u = 5 then R\<lparr>rs := DIND (FP R) s R\<rparr>
      else R)"

definition dec_d :: "byte \<Rightarrow> REG \<Rightarrow> REG option" where
  "dec_d add R =
     (let d = PC R + 16; u = UDST add in
      if u = 0 then Some (R\<lparr>rd := MP R + load64 (mem R) d\<rparr>)
      else if u = 1 then Some (R\<lparr>rd := FP R + load64 (mem R) d\<rparr>)
      else if u = 2 then Some (R\<lparr>rd := d\<rparr>)
      else if u = 4 then Some (R\<lparr>rd := DIND (MP R) d R\<rparr>)
      else if u = 5 then Some (R\<lparr>rd := DIND (FP R) d R\<rparr>)
      else None)"

definition dec_m :: "byte \<Rightarrow> REG \<Rightarrow> REG" where
  "dec_m add R =
     (let reg = load16 (mem R) (PC R + 2); u = add AND 0xC0 in
      if u = 0x00 then R\<lparr>rm := rd R\<rparr>
      else if u = 0x40 then R\<lparr>mem := store64 (mem R) (rt R) (scast reg), rm := rt R\<rparr>
      else if u = 0x80 then R\<lparr>rm := FP R + ucast reg\<rparr>
      else R\<lparr>rm := MP R + ucast reg\<rparr>)"

text \<open>The function of the table \<open>dec\<close> for the addressing mode \<open>add\<close>.\<close>

definition dec :: "byte \<Rightarrow> REG \<Rightarrow> REG" where
  "dec add R = (let R = dec_s add R in case dec_d add R of None \<Rightarrow> R | Some R \<Rightarrow> dec_m add R)"

section \<open>Access to operands\<close>

text \<open>The macros \<open>B\<close>, \<open>W\<close>, \<open>V\<close>, \<open>SH\<close> and \<open>JMP\<close>; \<open>UW\<close> and \<open>UV\<close> read the same bytes.\<close>

definition B :: "(REG \<Rightarrow> u64) \<Rightarrow> REG \<Rightarrow> byte" where "B r R = mem R (r R)"
definition W :: "(REG \<Rightarrow> u64) \<Rightarrow> REG \<Rightarrow> u64" where "W r R = load64 (mem R) (r R)"
definition V :: "(REG \<Rightarrow> u64) \<Rightarrow> REG \<Rightarrow> u64" where "V r R = load64 (mem R) (r R)"
definition SH :: "(REG \<Rightarrow> u64) \<Rightarrow> REG \<Rightarrow> u16" where "SH r R = load16 (mem R) (r R)"

definition setB :: "byte \<Rightarrow> REG \<Rightarrow> REG" where "setB v R = R\<lparr>mem := (mem R)(rd R := v)\<rparr>"
definition setW :: "u64 \<Rightarrow> REG \<Rightarrow> REG" where "setW v R = R\<lparr>mem := store64 (mem R) (rd R) v\<rparr>"
definition setV :: "u64 \<Rightarrow> REG \<Rightarrow> REG" where "setV v R = R\<lparr>mem := store64 (mem R) (rd R) v\<rparr>"
definition setSH :: "u16 \<Rightarrow> REG \<Rightarrow> REG" where "setSH v R = R\<lparr>mem := store16 (mem R) (rd R) v\<rparr>"
definition JMP :: "REG \<Rightarrow> REG" where "JMP R = R\<lparr>PC := load64 (mem R) (rd R)\<rparr>"

text \<open>Division and remainder of C truncate towards zero.\<close>

definition quot :: "u64 \<Rightarrow> u64 \<Rightarrow> vm_error + u64" where
  "quot a b = (if b = 0 \<or> sint a = - (2 ^ 63) \<and> b = - 1 then Inl ZeroDivide
     else Inr (word_of_int (sint a sdiv sint b)))"

definition remd :: "u64 \<Rightarrow> u64 \<Rightarrow> vm_error + u64" where
  "remd a b = (if b = 0 \<or> sint a = - (2 ^ 63) \<and> b = - 1 then Inl ZeroDivide
     else Inr (word_of_int (sint a smod sint b)))"

definition shl :: "u64 \<Rightarrow> u64 \<Rightarrow> u64" where "shl v n = push_bit (unat (n AND 63)) v"
definition sar :: "u64 \<Rightarrow> u64 \<Rightarrow> u64" where "sar v n = signed_drop_bit (unat (n AND 63)) v"
definition shr :: "u64 \<Rightarrow> u64 \<Rightarrow> u64" where "shr v n = drop_bit (unat (n AND 63)) v"

section \<open>Instructions\<close>

definition runt :: "REG \<Rightarrow> REG" where "runt R = R"
definition jmp :: "REG \<Rightarrow> REG" where "jmp R = JMP R"
definition movpc :: "REG \<Rightarrow> REG" where "movpc R = R\<lparr>mem := store64 (mem R) (rd R) (prog R + sizeof_Inst * W rs R)\<rparr>"
definition movm :: "REG \<Rightarrow> REG" where "movm R = R\<lparr>mem := store_bytes (mem R) (rd R) (load_bytes (mem R) (rs R) (unat (W rm R)))\<rparr>"
definition lea :: "REG \<Rightarrow> REG" where "lea R = setW (rs R) R"
definition movb :: "REG \<Rightarrow> REG" where "movb R = setB (B rs R) R"
definition movw :: "REG \<Rightarrow> REG" where "movw R = setW (W rs R) R"
definition movl :: "REG \<Rightarrow> REG" where "movl R = setV (V rs R) R"
definition cvtbw :: "REG \<Rightarrow> REG" where "cvtbw R = setW (ucast (B rs R)) R"
definition cvtwb :: "REG \<Rightarrow> REG" where "cvtwb R = setB (ucast (W rs R)) R"
definition cvtws :: "REG \<Rightarrow> REG" where "cvtws R = setSH (ucast (W rs R)) R"
definition cvtsw :: "REG \<Rightarrow> REG" where "cvtsw R = setW (scast (SH rs R)) R"
definition cvtwl :: "REG \<Rightarrow> REG" where "cvtwl R = setV (W rs R) R"
definition cvtlw :: "REG \<Rightarrow> REG" where "cvtlw R = setW (V rs R) R"

definition addb :: "REG \<Rightarrow> REG" where "addb R = setB (B rm R + B rs R) R"
definition addw :: "REG \<Rightarrow> REG" where "addw R = setW (W rm R + W rs R) R"
definition addl :: "REG \<Rightarrow> REG" where "addl R = setV (V rm R + V rs R) R"
definition subb :: "REG \<Rightarrow> REG" where "subb R = setB (B rm R - B rs R) R"
definition subw :: "REG \<Rightarrow> REG" where "subw R = setW (W rm R - W rs R) R"
definition subl :: "REG \<Rightarrow> REG" where "subl R = setV (V rm R - V rs R) R"
definition mulb :: "REG \<Rightarrow> REG" where "mulb R = setB (B rm R * B rs R) R"
definition mulw :: "REG \<Rightarrow> REG" where "mulw R = setW (W rm R * W rs R) R"
definition mull :: "REG \<Rightarrow> REG" where "mull R = setV (V rm R * V rs R) R"
definition andb :: "REG \<Rightarrow> REG" where "andb R = setB (B rm R AND B rs R) R"
definition andw :: "REG \<Rightarrow> REG" where "andw R = setW (W rm R AND W rs R) R"
definition andl :: "REG \<Rightarrow> REG" where "andl R = setV (V rm R AND V rs R) R"
definition xorb :: "REG \<Rightarrow> REG" where "xorb R = setB (B rm R XOR B rs R) R"
definition xorw :: "REG \<Rightarrow> REG" where "xorw R = setW (W rm R XOR W rs R) R"
definition xorl :: "REG \<Rightarrow> REG" where "xorl R = setV (V rm R XOR V rs R) R"
definition orb :: "REG \<Rightarrow> REG" where "orb R = setB (B rm R OR B rs R) R"
definition orw :: "REG \<Rightarrow> REG" where "orw R = setW (W rm R OR W rs R) R"
definition orl :: "REG \<Rightarrow> REG" where "orl R = setV (V rm R OR V rs R) R"

definition divb :: "REG \<Rightarrow> vm_error + REG" where
  "divb R = (if B rs R = 0 then Inl ZeroDivide else Inr (setB (B rm R div B rs R) R))"

definition modb :: "REG \<Rightarrow> vm_error + REG" where
  "modb R = (if B rs R = 0 then Inl ZeroDivide else Inr (setB (B rm R mod B rs R) R))"

definition divw :: "REG \<Rightarrow> vm_error + REG" where
  "divw R = (case quot (W rm R) (W rs R) of Inl e \<Rightarrow> Inl e | Inr v \<Rightarrow> Inr (setW v R))"

definition divl :: "REG \<Rightarrow> vm_error + REG" where
  "divl R = (case quot (V rm R) (V rs R) of Inl e \<Rightarrow> Inl e | Inr v \<Rightarrow> Inr (setV v R))"

definition modw :: "REG \<Rightarrow> vm_error + REG" where
  "modw R = (case remd (W rm R) (W rs R) of Inl e \<Rightarrow> Inl e | Inr v \<Rightarrow> Inr (setW v R))"

definition modl :: "REG \<Rightarrow> vm_error + REG" where
  "modl R = (case remd (V rm R) (V rs R) of Inl e \<Rightarrow> Inl e | Inr v \<Rightarrow> Inr (setV v R))"

definition shlb :: "REG \<Rightarrow> REG" where
  "shlb R = setB (ucast (push_bit (unat (W rs R AND 31)) (ucast (B rm R) :: u32))) R"
definition shrb :: "REG \<Rightarrow> REG" where
  "shrb R = setB (ucast (signed_drop_bit (unat (W rs R AND 31)) (ucast (B rm R) :: u32))) R"
definition shlw :: "REG \<Rightarrow> REG" where "shlw R = setW (shl (W rm R) (W rs R)) R"
definition shll :: "REG \<Rightarrow> REG" where "shll R = setV (shl (V rm R) (W rs R)) R"
definition shrw :: "REG \<Rightarrow> REG" where "shrw R = setW (sar (W rm R) (W rs R)) R"
definition shrl :: "REG \<Rightarrow> REG" where "shrl R = setV (sar (V rm R) (W rs R)) R"
definition lsrw :: "REG \<Rightarrow> REG" where "lsrw R = setW (shr (W rm R) (W rs R)) R"
definition lsrl :: "REG \<Rightarrow> REG" where "lsrl R = setV (shr (V rm R) (W rs R)) R"

definition beqb :: "REG \<Rightarrow> REG" where "beqb R = (if B rs R = B rm R then JMP R else R)"
definition bneb :: "REG \<Rightarrow> REG" where "bneb R = (if B rs R \<noteq> B rm R then JMP R else R)"
definition bltb :: "REG \<Rightarrow> REG" where "bltb R = (if B rs R < B rm R then JMP R else R)"
definition bleb :: "REG \<Rightarrow> REG" where "bleb R = (if B rs R \<le> B rm R then JMP R else R)"
definition bgtb :: "REG \<Rightarrow> REG" where "bgtb R = (if B rm R < B rs R then JMP R else R)"
definition bgeb :: "REG \<Rightarrow> REG" where "bgeb R = (if B rm R \<le> B rs R then JMP R else R)"
definition beqw :: "REG \<Rightarrow> REG" where "beqw R = (if W rs R = W rm R then JMP R else R)"
definition bnew :: "REG \<Rightarrow> REG" where "bnew R = (if W rs R \<noteq> W rm R then JMP R else R)"
definition bltw :: "REG \<Rightarrow> REG" where "bltw R = (if W rs R <s W rm R then JMP R else R)"
definition blew :: "REG \<Rightarrow> REG" where "blew R = (if W rs R \<le>s W rm R then JMP R else R)"
definition bgtw :: "REG \<Rightarrow> REG" where "bgtw R = (if W rm R <s W rs R then JMP R else R)"
definition bgew :: "REG \<Rightarrow> REG" where "bgew R = (if W rm R \<le>s W rs R then JMP R else R)"
definition beql :: "REG \<Rightarrow> REG" where "beql R = (if V rs R = V rm R then JMP R else R)"
definition bnel :: "REG \<Rightarrow> REG" where "bnel R = (if V rs R \<noteq> V rm R then JMP R else R)"
definition bltl :: "REG \<Rightarrow> REG" where "bltl R = (if V rs R <s V rm R then JMP R else R)"
definition blel :: "REG \<Rightarrow> REG" where "blel R = (if V rs R \<le>s V rm R then JMP R else R)"
definition bgtl :: "REG \<Rightarrow> REG" where "bgtl R = (if V rm R <s V rs R then JMP R else R)"
definition bgel :: "REG \<Rightarrow> REG" where "bgel R = (if V rm R \<le>s V rs R then JMP R else R)"

text \<open>
  \<open>iexpw\<close>, and \<open>iexpl\<close> which differs in the type of its operand only: the loop of the
  square-and-multiply.  The count \<open>n\<close> is signed; for the least value \<open>n = -n\<close> stays negative and the
  arithmetic shift never reaches 0.  \<open>fuel\<close> bounds the turns; 64 are enough for every other count.
\<close>

fun exp_loop :: "nat \<Rightarrow> u64 \<Rightarrow> u64 \<Rightarrow> u64 \<Rightarrow> u64 option" where
  "exp_loop 0 x n r = None"
| "exp_loop (Suc fuel) x n r =
     (let r = (if n AND 1 \<noteq> 0 then r * x else r); n = signed_drop_bit 1 n in
      if n = 0 then Some r else exp_loop fuel (x * x) n r)"

definition iexp :: "nat \<Rightarrow> u64 \<Rightarrow> u64 \<Rightarrow> vm_error + u64" where
  "iexp fuel x n =
     (let inv = n <s 0; n = (if n <s 0 then - n else n) in
      case exp_loop fuel x n 1 of None \<Rightarrow> Inl Forever
      | Some r \<Rightarrow> if inv then quot 1 r else Inr r)"

definition iexpw :: "nat \<Rightarrow> REG \<Rightarrow> vm_error + REG" where
  "iexpw fuel R = (case iexp fuel (W rm R) (W rs R) of Inl e \<Rightarrow> Inl e | Inr r \<Rightarrow> Inr (setW r R))"

definition iexpl :: "nat \<Rightarrow> REG \<Rightarrow> vm_error + REG" where
  "iexpl fuel R = (case iexp fuel (V rm R) (W rs R) of Inl e \<Rightarrow> Inl e | Inr r \<Rightarrow> Inr (setV r R))"

text \<open>
  Arrays.  \<open>struct Array\<close> holds \<open>len\<close>, \<open>t\<close>, \<open>root\<close> and \<open>data\<close> at 0, 8, 16 and 24; the size of an
  element is at 24 of its \<open>Type\<close>.  \<open>H\<close> is the null pointer of Limbo.  The index is unsigned.
  Before raising \<open>exBounds\<close> the code prints \<open>a->len\<close>, which faults when \<open>a\<close> is \<open>H\<close>.
\<close>

abbreviation (input) H :: u64 where "H \<equiv> - 1"

definition ind_at :: "(REG \<Rightarrow> u64 \<Rightarrow> u64) \<Rightarrow> REG \<Rightarrow> vm_error + REG" where
  "ind_at esize R =
     (let a = load64 (mem R) (rs R); i = W rd R in
      if a = H then Inl Fault
      else if i \<ge> load64 (mem R) a then Inl exBounds
      else Inr (R\<lparr>mem := store64 (mem R) (rm R) (load64 (mem R) (a + 24) + i * esize R a)\<rparr>))"

definition indx :: "REG \<Rightarrow> vm_error + REG" where
  "indx = ind_at (\<lambda>R a. scast (load32 (mem R) (load64 (mem R) (a + 8) + 24)))"
definition indw :: "REG \<Rightarrow> vm_error + REG" where "indw = ind_at (\<lambda>R a. 8)"
definition indf :: "REG \<Rightarrow> vm_error + REG" where "indf = ind_at (\<lambda>R a. 8)"
definition indl :: "REG \<Rightarrow> vm_error + REG" where "indl = ind_at (\<lambda>R a. 8)"
definition indb :: "REG \<Rightarrow> vm_error + REG" where "indb = ind_at (\<lambda>R a. 1)"

text \<open>
  \<open>acheck\<close>: \<open>tsz\<close> and \<open>sz\<close> are \<open>int\<close>; their product is computed in \<open>int\<close>, then added to the sizes
  of the headers (32 bytes each) and cut to \<open>int\<close> again.
\<close>

definition acheck :: "u32 \<Rightarrow> u32 \<Rightarrow> vm_error + unit" where
  "acheck tsz sz =
     (if sz <s 0 then Inl exNegsize
      else if ucast (32 + 32 + scast (tsz * sz) :: u64) <s sz \<and> tsz \<noteq> 0 then Inl exHeap
      else Inr ())"

text \<open>
  \<open>icase\<close> and \<open>casel\<close>: binary search in a table of labels.  A table has \<open>n\<close> entries of a low
  bound, a high bound and a program counter; the address of the entries and the stride in bytes are
  the arguments.  \<open>n\<close> is signed.
\<close>

lemma sint_pos_uint:
  assumes "0 \<le> sint (n :: u64)"
  shows "sint n = uint n" "unat n < 2 ^ 63"
proof -
  have lt: "sint n < 2 ^ 63" using sint_lt [of n] by simp
  have "uint n = take_bit 64 (sint n)" by (simp add: uint_sint)
  also have "\<dots> = sint n" using assms lt by (simp add: take_bit_int_eq_self)
  finally show e: "sint n = uint n" by simp
  have "int (unat n) < int (2 ^ 63)" using lt unfolding e uint_nat by simp
  then show "unat n < 2 ^ 63" by (simp only: of_nat_less_iff)
qed

lemma half_pos:
  assumes "0 <s (n :: u64)"
  shows "unat (signed_drop_bit 1 n) = unat n div 2" "0 < unat n" "unat n < 2 ^ 63"
    "unat (n - (signed_drop_bit 1 n + 1)) = unat n - unat n div 2 - 1"
proof -
  have p: "0 < sint n" using assms by (simp add: word_sless_alt)
  then have e: "sint n = uint n" and u: "unat n < 2 ^ 63" using sint_pos_uint [of n] by simp_all
  show "unat n < 2 ^ 63" by (rule u)
  show pos: "0 < unat n" using p by (cases "n = 0") (auto simp: unat_gt_0)
  have "sint (signed_drop_bit 1 n) = uint n div 2"
    by (simp add: sint_signed_drop_bit_eq drop_bit_eq_div e)
  then have "signed_drop_bit 1 n = word_of_int (uint n div 2)" by (metis scast_eq scast_id)
  also have "\<dots> = word_of_nat (unat n div 2)" by (metis of_int_of_nat_eq of_nat_numeral uint_nat zdiv_int)
  finally have h: "signed_drop_bit 1 n = word_of_nat (unat n div 2)" .
  then show 1: "unat (signed_drop_bit 1 n) = unat n div 2"
    using u by (simp add: unsigned_of_nat take_bit_nat_eq_self)
  have "n - (signed_drop_bit 1 n + 1) = word_of_nat (unat n - unat n div 2 - 1)"
  proof -
    have "n = word_of_nat (unat n)" by simp
    moreover have "unat n = (unat n - unat n div 2 - 1) + unat n div 2 + 1" using pos by simp
    ultimately have "n = word_of_nat (unat n - unat n div 2 - 1) + word_of_nat (unat n div 2) + 1"
      by (metis of_nat_add of_nat_1)
    then show ?thesis unfolding h by (simp add: algebra_simps)
  qed
  then show "unat (n - (signed_drop_bit 1 n + 1)) = unat n - unat n div 2 - 1"
    using u by (simp add: unsigned_of_nat take_bit_nat_eq_self)
qed

lemma half_less:
  assumes "0 <s (n :: u64)"
  shows "unat (signed_drop_bit 1 n) < unat n" "unat (n - (signed_drop_bit 1 n + 1)) < unat n"
  using half_pos [OF assms] by simp_all

function case_loop :: "memory \<Rightarrow> u64 \<Rightarrow> u64 \<Rightarrow> u64 \<Rightarrow> u64 \<Rightarrow> u64 \<Rightarrow> u64 \<Rightarrow> u64" where
  "case_loop mm stride pco v t n d =
     (if 0 <s n then
        let n2 = signed_drop_bit 1 n; l = t + n2 * stride in
        if v <s load64 mm l then case_loop mm stride pco v t n2 d
        else if load64 mm (l + 8) \<le>s v then case_loop mm stride pco v (l + stride) (n - (n2 + 1)) d
        else load64 mm (l + pco)
      else d)"
  by pat_completeness auto
termination
  by (relation "measure (\<lambda>(mm, stride, pco, v, t, n, d). unat n)") (auto simp: half_less [unfolded One_nat_def])

definition case_jump :: "u64 \<Rightarrow> REG \<Rightarrow> REG" where
  "case_jump d R = (if compiled R then R\<lparr>PC := d\<rparr> else R\<lparr>PC := prog R + sizeof_Inst * d\<rparr>)"

definition icase :: "REG \<Rightarrow> REG" where
  "icase R =
     (let t = rd R + IBY2WD; n = load64 (mem R) (t - 8); d = load64 (mem R) (t + n * 24) in
      case_jump (case_loop (mem R) 24 16 (W rs R) t n d) R)"

definition casel :: "REG \<Rightarrow> REG" where
  "casel R =
     (let t = rd R + 2 * IBY2WD; n = load64 (mem R) (t - 16); d = load64 (mem R) (t + n * 48) in
      case_jump (case_loop (mem R) 48 32 (V rs R) t n d) R)"

definition igoto :: "REG \<Rightarrow> REG" where
  "igoto R = case_jump (load64 (mem R) (rd R + W rs R * IBY2WD)) R"

definition call :: "REG \<Rightarrow> REG" where
  "call R =
     (let f = load64 (mem R) (rs R); mm = store64 (store64 (mem R) f (PC R)) (f + 8) (FP R) in
      JMP (R\<lparr>mem := mm, FP := f\<rparr>))"

section \<open>Arrays, lists and fixed point\<close>

definition lena :: "REG \<Rightarrow> REG" where
  "lena R = (let a = load64 (mem R) (rs R) in setW (if a \<noteq> H then load64 (mem R) a else 0) R)"

text \<open>\<open>struct List\<close> holds \<open>tail\<close>, \<open>t\<close> and \<open>data\<close> at 0, 8 and 16.  A cyclic list is never left.\<close>

fun list_len :: "nat \<Rightarrow> memory \<Rightarrow> u64 \<Rightarrow> u64 \<Rightarrow> u64 option" where
  "list_len fuel mm a l =
     (if a = H then Some l
      else case fuel of 0 \<Rightarrow> None | Suc f \<Rightarrow> list_len f mm (load64 mm a) (l + 1))"

definition lenl :: "nat \<Rightarrow> REG \<Rightarrow> vm_error + REG" where
  "lenl fuel R = (case list_len fuel (mem R) (load64 (mem R) (rs R)) 0 of
     None \<Rightarrow> Inl Forever | Some l \<Rightarrow> Inr (setW l R))"

definition list_data :: "REG \<Rightarrow> u64" where "list_data R = load64 (mem R) (rs R) + 16"
definition headb :: "REG \<Rightarrow> REG" where "headb R = setB (mem R (list_data R)) R"
definition headw :: "REG \<Rightarrow> REG" where "headw R = setW (load64 (mem R) (list_data R)) R"
definition headl :: "REG \<Rightarrow> REG" where "headl R = setV (load64 (mem R) (list_data R)) R"
definition headm :: "REG \<Rightarrow> REG" where
  "headm R = R\<lparr>mem := store_bytes (mem R) (rd R) (load_bytes (mem R) (list_data R) (unat (W rm R)))\<rparr>"

text \<open>
  \<open>slicea\<close> up to the allocation of the new header: the bounds check, in \<open>int\<close>, and the fields of
  the slice.  \<open>None\<close> is the return with nothing to do (an empty slice of \<open>H\<close>).
\<close>

record Array =
  alen :: u64
  at :: u64
  aroot :: u64
  adata :: u64

definition slicea :: "u64 \<Rightarrow> (Array \<times> u32) option \<Rightarrow> u64 \<Rightarrow> u64 \<Rightarrow> vm_error + Array option" where
  "slicea aaddr ds wm ws =
     (let v = ucast wm :: u32; start = ucast ws :: u32; n = v - start in
      case ds of
        None \<Rightarrow> if n = 0 then Inr None else Inl exNilref
      | Some (ar, tsize) \<Rightarrow>
          if n <s 0 \<or> (scast start :: u64) > alen ar \<or> (scast v :: u64) > alen ar then Inl exBounds
          else Inr (Some \<lparr>alen = scast n, at = at ar,
                 aroot = (if aroot ar \<noteq> H then aroot ar else aaddr),
                 adata = adata ar + scast (start * tsize)\<rparr>))"

text \<open>\<open>Stmp\<close> and \<open>Dtmp\<close> are temporaries of the frame.\<close>

definition Stmp :: "REG \<Rightarrow> u64" where "Stmp R = load64 (mem R) (FP R + 5 * IBY2WD)"
definition Dtmp :: "REG \<Rightarrow> u64" where "Dtmp R = load64 (mem R) (FP R + 7 * IBY2WD)"

definition scale :: "u64 \<Rightarrow> u64 \<Rightarrow> u64" where
  "scale r p = (if 0 \<le>s p then shl r p else sar r (- p))"

definition set_quot :: "u64 \<Rightarrow> u64 \<Rightarrow> REG \<Rightarrow> vm_error + REG" where
  "set_quot r a R = (case quot r a of Inl e \<Rightarrow> Inl e | Inr q \<Rightarrow> Inr (setW q R))"

definition mulx :: "REG \<Rightarrow> REG" where "mulx R = setW (scale (W rm R * W rs R) (Dtmp R)) R"
definition divx :: "REG \<Rightarrow> vm_error + REG" where
  "divx R = set_quot (scale (W rm R) (Dtmp R)) (W rs R) R"
definition cvtxx :: "REG \<Rightarrow> REG" where "cvtxx R = setW (scale (W rs R) (W rm R)) R"

definition mulx0 :: "REG \<Rightarrow> vm_error + REG" where
  "mulx0 R = (let x = W rm R; y = W rs R in
     if x = 0 \<or> y = 0 then Inr (setW 0 R) else set_quot (scale (x * y) (Dtmp R)) (Stmp R) R)"
definition divx0 :: "REG \<Rightarrow> vm_error + REG" where
  "divx0 R = (let x = W rm R; y = W rs R in
     if x = 0 then Inr (setW 0 R) else set_quot (scale (Stmp R * x) (Dtmp R)) y R)"
definition cvtxx0 :: "REG \<Rightarrow> vm_error + REG" where
  "cvtxx0 R = (let x = W rs R in
     if x = 0 then Inr (setW 0 R) else set_quot (scale x (W rm R)) (Stmp R) R)"

definition mulx1 :: "REG \<Rightarrow> vm_error + REG" where
  "mulx1 R =
     (let x = W rm R; y = W rs R; p0 = Dtmp R; a = Stmp R in
      if x = 0 \<or> y = 0 then Inr (setW 0 R)
      else let vnz = p0 AND 2 \<noteq> 0; wnz = p0 AND 1 \<noteq> 0; p = signed_drop_bit 2 p0;
               v = (if vnz then
                      if 0 \<le>s x \<and> y <s 0 \<or> x <s 0 \<and> 0 \<le>s y then - (a - 1) else a - 1
                    else 0);
               w = (if wnz \<and>
                      (\<not> vnz \<and> (0 <s x \<and> y <s 0 \<or> x <s 0 \<and> 0 <s y)
                       \<or> vnz \<and> (0 <s x \<and> 0 <s y \<or> x <s 0 \<and> y <s 0))
                    then shl 1 (- p) - 1 else 0) in
        set_quot (scale (x * y + w) p + v) a R)"

definition divx1 :: "REG \<Rightarrow> vm_error + REG" where
  "divx1 R =
     (let x = W rm R; y = W rs R; p0 = Dtmp R; b = Stmp R in
      if x = 0 then Inr (setW 0 R)
      else let vnz = p0 AND 2 \<noteq> 0; wnz = p0 AND 1 \<noteq> 0; p = signed_drop_bit 2 p0;
               v = (if vnz then if 0 \<le>s x \<and> y <s 0 \<or> x <s 0 \<and> 0 \<le>s y then - 1 else 1 else 0);
               w = (if wnz \<and> x \<le>s 0 then shl 1 (- p) - 1 else 0) in
        (case quot (scale (b * x + w) p) y of Inl e \<Rightarrow> Inl e | Inr q \<Rightarrow> Inr (setW (q + v) R)))"

definition cvtxx1 :: "REG \<Rightarrow> vm_error + REG" where
  "cvtxx1 R =
     (let x = W rs R; p0 = W rm R; a = Stmp R in
      if x = 0 then Inr (setW 0 R)
      else let vnz = p0 AND 2 \<noteq> 0; wnz = p0 AND 1 \<noteq> 0; p = signed_drop_bit 2 p0;
               v = (if vnz then if x <s 0 then - (a - 1) else a - 1 else 0);
               w = (if wnz \<and> (\<not> vnz \<and> x <s 0 \<or> vnz \<and> 0 <s x) then shl 1 (- p) - 1 else 0) in
        set_quot (scale (x + w) p + v) a R)"

section \<open>The interpreter loop\<close>

text \<open>
  \<open>optab\<close>: the instructions of this theory by opcode.  \<open>other\<close> stands for the opcodes whose
  instructions are modelled elsewhere or not at all (floating point, strings, channels, heap).
\<close>

definition optab_total :: "(byte \<times> (REG \<Rightarrow> REG)) list" where
  "optab_total = [
    (3, igoto), (4, call), (7, runt), (13, jmp), (14, icase), (32, headb), (33, headw),
     (36, headm), (39, lea), (42, movm), (44, movb), (45, movw), (47, cvtbw), (48, cvtwb),
     (57, addb), (58, addw), (60, subb), (61, subw), (63, mulb), (64, mulw), (71, andb),
     (72, andw), (73, orb), (74, orw), (75, xorb), (76, xorw), (77, shlb), (78, shlw),
     (79, shrb), (80, shrw), (85, lena), (87, beqb), (88, bneb), (89, bltb), (90, bleb),
     (91, bgtb), (92, bgeb), (93, beqw), (94, bnew), (95, bltw), (96, blew), (97, bgtw),
     (98, bgew), (118, movl), (119, addl), (120, subl), (123, mull), (124, andl),
     (125, orl), (126, xorl), (127, shll), (128, shrl), (129, bnel), (130, bltl),
     (131, blel), (132, bgtl), (133, bgel), (134, beql), (137, cvtlw), (138, cvtwl),
     (141, headl), (146, movpc), (151, cvtws), (152, cvtsw), (153, lsrw), (154, lsrl),
     (155, runt), (159, casel), (160, mulx), (162, cvtxx)]"

definition optab_partial :: "(byte \<times> (REG \<Rightarrow> vm_error + REG)) list" where
  "optab_partial = [
    (40, indx), (66, divb), (67, divw), (69, modw), (70, modb), (114, indw), (115, indf),
     (116, indb), (121, divl), (122, modl), (145, indl), (161, divx), (163, mulx0),
     (164, divx0), (165, cvtxx0), (166, mulx1), (167, divx1), (168, cvtxx1)]"

definition optab_loops :: "(byte \<times> (nat \<Rightarrow> REG \<Rightarrow> vm_error + REG)) list" where
  "optab_loops = [
    (86, lenl), (171, iexpw), (172, iexpl)]"

definition optab :: "nat \<Rightarrow> (byte \<Rightarrow> REG \<Rightarrow> vm_error + REG) \<Rightarrow> byte \<Rightarrow> REG \<Rightarrow> vm_error + REG" where
  "optab fuel other o' R =
     (case map_of optab_total o' of Some f \<Rightarrow> Inr (f R)
      | None \<Rightarrow>
        (case map_of optab_partial o' of Some f \<Rightarrow> f R
         | None \<Rightarrow>
           (case map_of optab_loops o' of Some f \<Rightarrow> f fuel R
            | None \<Rightarrow> if o' = 0 \<or> o' > 174 then Inl exOp else other o' R)))"

definition xec1 :: "nat \<Rightarrow> (byte \<Rightarrow> REG \<Rightarrow> vm_error + REG) \<Rightarrow> REG \<Rightarrow> vm_error + REG" where
  "xec1 fuel other R =
     (let R = dec (mem R (PC R + 1)) R; o' = mem R (PC R) in
      optab fuel other o' (R\<lparr>PC := PC R + sizeof_Inst\<rparr>))"

text \<open>The loop runs until \<open>--R.IC\<close> is 0; an instruction may set \<open>R.IC\<close> to 1 to end the time slice.\<close>

fun xec_loop :: "nat \<Rightarrow> nat \<Rightarrow> (byte \<Rightarrow> REG \<Rightarrow> vm_error + REG) \<Rightarrow> REG \<Rightarrow> vm_error + REG" where
  "xec_loop 0 fuel other R = Inl Forever"
| "xec_loop (Suc turns) fuel other R =
     (case xec1 fuel other R of Inl e \<Rightarrow> Inl e
      | Inr R \<Rightarrow>
        let ic = IC R - 1; R = R\<lparr>IC := ic\<rparr> in
        if ic \<noteq> 0 then xec_loop turns fuel other R else Inr R)"

end
