(* ===== verification/Dis_Vm.thy ===== *)
theory Dis_Vm
  imports Dis_Exec
begin

text \<open>
  Correctness of the instructions of \<^verbatim>\<open>Dis_Exec\<close>: exponentiation, case tables (also as the compiler
  lays them out), array indexing, the size check for new arrays, word arithmetic and division.
\<close>

section \<open>Exponentiation\<close>

lemma half_nonneg:
  assumes "0 \<le> sint (n :: u64)"
  shows "signed_drop_bit 1 n = word_of_nat (unat n div 2)" "unat (signed_drop_bit 1 n) = unat n div 2"
proof -
  have u: "unat (signed_drop_bit 1 n) = unat n div 2"
  proof (cases "n = 0")
    case False
    then have "0 <s n" using assms sint_pos_uint(1) [OF assms] by (simp add: word_sless_alt order_less_le uint_0_iff)
    then show ?thesis by (rule half_pos)
  qed simp
  then show "unat (signed_drop_bit 1 n) = unat n div 2" .
  show "signed_drop_bit 1 n = word_of_nat (unat n div 2)"
    unfolding u [symmetric] by simp
qed

lemma sint_nonneg_iff: "0 \<le> sint (n :: u64) \<longleftrightarrow> unat n < 2 ^ 63"
proof
  assume "unat n < 2 ^ 63"
  then have "uint n < 2 ^ 63" using uint_less_unat(1) [of n "2 ^ 63"] by simp
  moreover have "- (2 ^ 63) \<le> uint n" by (rule order_trans [OF _ uint_ge_0]) simp
  ultimately have "sint n = uint n" by (simp add: sint_uint signed_take_bit_int_eq_self_iff)
  then show "0 \<le> sint n" by simp
qed (rule sint_pos_uint)

lemma exp_loop_correct:
  "\<lbrakk>unat n < 2 ^ k; 0 < k; k \<le> 63; k \<le> fuel\<rbrakk> \<Longrightarrow> exp_loop fuel x n r = Some (r * x ^ unat n)"
proof (induction fuel arbitrary: k x n r)
  case (Suc fuel)
  have "unat n < 2 ^ 63"
    using Suc.prems(1,3) power_increasing [of k 63 "2 :: nat"] by simp
  then have nn: "0 \<le> sint n" by (simp add: sint_nonneg_iff)
  note h = half_nonneg [OF nn]
  have odd: "n AND 1 \<noteq> 0 \<longleftrightarrow> odd (unat n)"
  proof -
    have "n AND 1 = of_bool (odd n)" by (simp add: and_one_eq mod_2_eq_odd)
    moreover have "odd n \<longleftrightarrow> odd (unat n)" by (simp add: bit_unsigned_iff flip: bit_0)
    ultimately show ?thesis by simp
  qed
  have split: "x ^ unat n = (if odd (unat n) then x else 1) * (x * x) ^ (unat n div 2)"
    by (cases "odd (unat n)")
      (auto elim!: oddE evenE simp: power_add power_mult power2_eq_square power_mult_distrib)
  show ?case
  proof (cases "unat n div 2 = 0")
    case True
    then show ?thesis using h split by (simp add: odd)
  next
    case False
    then have "1 < k" using Suc.prems(1,2) by (cases "k = 1") auto
    have "unat n div 2 < 2 ^ (k - 1)" using Suc.prems(1) \<open>1 < k\<close> by (simp add: power_eq_if)
    then have "exp_loop fuel (x * x) (signed_drop_bit 1 n) r' = Some (r' * (x * x) ^ (unat n div 2))" for r'
      using Suc.IH [of "signed_drop_bit 1 n" "k - 1" "x * x" r'] Suc.prems \<open>1 < k\<close> h(2) by simp
    moreover have "signed_drop_bit 1 n \<noteq> 0" using False h(2) by (metis unat_0)
    ultimately show ?thesis using split by (simp add: odd mult.assoc)
  qed
qed simp

text \<open>For the least value the loop never ends: the count stays negative.\<close>

lemma exp_loop_negative: "sint n < 0 \<Longrightarrow> exp_loop fuel x n r = None"
proof (induction fuel arbitrary: x n r)
  case (Suc fuel)
  have "sint (signed_drop_bit 1 n) = sint n div 2"
    by (simp add: sint_signed_drop_bit_eq drop_bit_eq_div)
  with Suc.prems have "sint (signed_drop_bit 1 n) < 0" by simp
  moreover from this have "signed_drop_bit 1 n \<noteq> 0" by auto
  ultimately show ?case using Suc.IH by (simp add: Let_def)
qed simp

lemma sint_minus:
  assumes "sint (n :: u64) \<noteq> - (2 ^ 63)"
  shows "sint (- n) = - sint n"
proof -
  have "- (2 ^ 63) \<le> sint n" "sint n < 2 ^ 63" using sint_ge [of n] sint_lt [of n] by simp_all
  then have "signed_take_bit 63 (- sint n) = - sint n"
    using assms by (simp add: signed_take_bit_int_eq_self_iff)
  moreover have "sint (- n) = sint (word_of_int (- sint n) :: u64)" by simp
  ultimately show ?thesis by (simp only: signed_of_int) simp
qed

text \<open>Claim C20 (functional).  Exponentiation by squaring: for a count \<open>n \<ge> 0\<close>, \<open>iexpw\<close> (and \<open>iexpl\<close>)
  computes the power \<open>x^n\<close> modulo \<open>2^64\<close> in at most 63 turns; for a negative count other than the
  least one it divides 1 by the power, raising the divide error exactly when the power wraps to 0.\<close>

theorem iexp_power:
  assumes "sint n \<noteq> - (2 ^ 63)" "63 \<le> fuel"
  shows "iexp fuel x n = (if 0 \<le>s n then Inr (x ^ unat n) else quot 1 (x ^ unat (- n)))"
proof (cases "0 \<le> sint n")
  case True
  then have "unat n < 2 ^ 63" by (simp add: sint_nonneg_iff)
  from exp_loop_correct [OF this _ _ assms(2), of x 1] True show ?thesis
    by (simp add: iexp_def word_sless_alt word_sle_eq)
next
  case False
  then have "unat (- n) < 2 ^ 63"
    using sint_minus [OF assms(1)] sint_nonneg_iff [of "- n"] by simp
  from exp_loop_correct [OF this _ _ assms(2), of x 1] False show ?thesis
    by (simp add: iexp_def word_sless_alt word_sle_eq)
qed

theorem iexp_power_witness:
  "iexp 63 3 5 = Inr 243 \<and> iexp 63 (- 1) (- 3) = Inr (- 1) \<and> iexp 63 2 (- 64) = Inl ZeroDivide"
proof -
  have a: "sint (5 :: u64) \<noteq> - (2 ^ 63)" "sint (- 3 :: u64) \<noteq> - (2 ^ 63)"
    "sint (- 64 :: u64) \<noteq> - (2 ^ 63)" by code_simp+
  have q: "quot 1 ((- 1) ^ unat (- (- 3) :: u64)) = Inr (- 1)"
    "quot 1 (2 ^ unat (- (- 64) :: u64)) = Inl ZeroDivide" by code_simp+
  from iexp_power [OF a(1), of 63 3] iexp_power [OF a(2), of 63 "- 1"] iexp_power [OF a(3), of 63 2] q
  show ?thesis by (simp add: word_sle_eq)
qed

text \<open>Property (error).  With the least count \<open>-2^63\<close> the loop of \<open>iexpw\<close> and \<open>iexpl\<close> never ends:
  no number of turns is enough.\<close>

theorem iexp_forever: "iexp fuel x (0x8000000000000000) = Inl Forever"
proof -
  have "sint (- 0x8000000000000000 :: u64) < 0" "sint (0x8000000000000000 :: u64) < 0" by code_simp+
  then show ?thesis
    using exp_loop_negative [of "- 0x8000000000000000" fuel x 1]
    by (simp add: iexp_def word_sless_alt)
qed

definition mem_words :: "(u64 \<times> u64) list \<Rightarrow> memory" where
  "mem_words ws x =
     (case map_of ws (x AND NOT 7) of Some v \<Rightarrow> PBIT64 v ! unat (x AND 7) | None \<Rightarrow> 0)"

lemma load64_mem_words:
  assumes "a AND 7 = 0"
  shows "load64 (mem_words ws) a = (case map_of ws a of Some v \<Rightarrow> v | None \<Rightarrow> 0)"
proof -
  have bits7: "bit (7 :: u64) n \<longleftrightarrow> n < 3" for n
    using bit_mask_iff [of 3 n, where ?'a = u64] by (auto simp: mask_eq_exp_minus_1)
  have seven: "(7 :: u64) = mask 3" by (simp add: mask_eq_exp_minus_1)
  have low: "\<not> bit a n" if "n < 3" for n
    using assms that bits7 [of n] by (metis bit_0_eq bit_and_iff bot_apply bot_bool_def)
  have "(a + word_of_nat i) AND NOT 7 = a \<and> (a + word_of_nat i) AND 7 = word_of_nat i" if "i < 8" for i
  proof -
    have small: "\<not> bit (word_of_nat i :: u64) n" if "\<not> n < 3" for n
    proof -
      have "(2::nat) ^ 3 \<le> 2 ^ n" using that by (intro power_increasing) auto
      then have "i < 2 ^ n" using \<open>i < 8\<close> by simp
      then have "\<not> bit i n" by (simp add: bit_iff_odd)
      then show ?thesis by (simp add: bit_simps)
    qed
    have "a + word_of_nat i = a OR word_of_nat i"
      using low small by (intro disjunctive_add_eq_or bit_word_eqI) (auto simp: bit_and_iff)
    then show ?thesis
      using low small unfolding seven
      by (auto intro!: bit_word_eqI simp: bit_and_iff bit_or_iff bit_not_iff bit_mask_iff) blast
  qed
  then have "load_bytes (mem_words ws) a 8 = (case map_of ws a of Some v \<Rightarrow> PBIT64 v | None \<Rightarrow> replicate 8 0)"
    by (intro nth_equalityI) (auto simp: load_bytes_def mem_words_def unat_word_of_nat split: option.splits)
  moreover have "GBIT64 (replicate 8 0) = 0" by (simp add: GBIT64_def)
  ultimately show ?thesis by (simp add: load64_def GBIT_load_store split: option.splits)
qed

section \<open>Case tables\<close>

text \<open>
  A label: the values from \<open>lo\<close> to \<open>hi - 1\<close> go to \<open>pc\<close>.  \<open>table_at\<close> says how \<open>case_loop\<close> finds
  labels in memory; \<open>select\<close> is the linear search the binary search must agree with.
\<close>

type_synonym label = "u64 \<times> u64 \<times> u64"

definition table_at :: "memory \<Rightarrow> u64 \<Rightarrow> u64 \<Rightarrow> u64 \<Rightarrow> label list \<Rightarrow> bool" where
  "table_at mm stride pco t es \<longleftrightarrow> (\<forall>i<length es. case es ! i of (lo, hi, pc) \<Rightarrow>
     load64 mm (t + word_of_nat i * stride) = lo \<and> load64 mm (t + word_of_nat i * stride + 8) = hi
     \<and> load64 mm (t + word_of_nat i * stride + pco) = pc)"

definition labels_ok :: "label list \<Rightarrow> bool" where
  "labels_ok es \<longleftrightarrow> sorted_wrt (\<lambda>(_, hi, _) (lo, _, _). sint hi \<le> sint lo) es
     \<and> (\<forall>(lo, hi, _)\<in>set es. sint lo \<le> sint hi)"

fun select :: "u64 \<Rightarrow> label list \<Rightarrow> u64 \<Rightarrow> u64" where
  "select v [] d = d"
| "select v ((lo, hi, pc) # es) d = (if lo \<le>s v \<and> v <s hi then pc else select v es d)"

lemma select_append:
  "select v (es @ fs) d = select v es (select v fs d)"
  by (induction es) auto

lemma select_none: "\<forall>(lo, hi, pc)\<in>set es. \<not> (lo \<le>s v \<and> v <s hi) \<Longrightarrow> select v es d = d"
  by (induction es) auto

lemma labels_ok_split:
  assumes "labels_ok (es @ (lo, hi, pc) # fs)"
  shows "labels_ok es" "labels_ok fs" "sint lo \<le> sint hi"
    "(l, h, p) \<in> set es \<Longrightarrow> sint h \<le> sint lo" "(l, h, p) \<in> set fs \<Longrightarrow> sint hi \<le> sint l"
  using assms by (auto simp: labels_ok_def sorted_wrt_append)

lemma table_at_split:
  assumes "table_at mm stride pco t (es @ e # fs)"
  shows "table_at mm stride pco t es"
    "table_at mm stride pco (t + (word_of_nat (length es) + 1) * stride) fs"
    "load64 mm (t + word_of_nat (length es) * stride) = fst e"
    "load64 mm (t + word_of_nat (length es) * stride + 8) = fst (snd e)"
    "load64 mm (t + word_of_nat (length es) * stride + pco) = snd (snd e)"
proof -
  note tab = assms [unfolded table_at_def, rule_format]
  show "table_at mm stride pco t es"
    unfolding table_at_def
  proof (intro allI impI)
    fix i assume "i < length es"
    with tab [of i] show "case es ! i of (lo, hi, pc) \<Rightarrow>
      load64 mm (t + word_of_nat i * stride) = lo \<and> load64 mm (t + word_of_nat i * stride + 8) = hi
      \<and> load64 mm (t + word_of_nat i * stride + pco) = pc"
      by (simp add: nth_append)
  qed
  have at: "t + word_of_nat (length es + 1 + i) * stride
      = t + (word_of_nat (length es) + 1) * stride + word_of_nat i * stride" for i
    by (simp add: algebra_simps)
  show "table_at mm stride pco (t + (word_of_nat (length es) + 1) * stride) fs"
    unfolding table_at_def
  proof (intro allI impI)
    fix i assume "i < length fs"
    with tab [of "length es + 1 + i"] show "case fs ! i of (lo, hi, pc) \<Rightarrow>
      load64 mm (t + (word_of_nat (length es) + 1) * stride + word_of_nat i * stride) = lo
      \<and> load64 mm (t + (word_of_nat (length es) + 1) * stride + word_of_nat i * stride + 8) = hi
      \<and> load64 mm (t + (word_of_nat (length es) + 1) * stride + word_of_nat i * stride + pco) = pc"
      unfolding at by (simp add: nth_append)
  qed
  show "load64 mm (t + word_of_nat (length es) * stride) = fst e"
    "load64 mm (t + word_of_nat (length es) * stride + 8) = fst (snd e)"
    "load64 mm (t + word_of_nat (length es) * stride + pco) = snd (snd e)"
    using tab [of "length es"] by (auto simp: nth_append split: prod.splits)
qed

declare case_loop.simps [simp del]

lemma case_loop_select:
  "\<lbrakk>table_at mm stride pco t es; labels_ok es; length es < 2 ^ 63\<rbrakk>
    \<Longrightarrow> case_loop mm stride pco v t (word_of_nat (length es)) d = select v es d"
proof (induction "length es" arbitrary: es t rule: less_induct)
  case less
  define n where "n = length es"
  define w where "w = (word_of_nat n :: u64)"
  have un: "unat w = n" using less.prems(3) by (simp add: w_def n_def unsigned_of_nat take_bit_nat_eq_self)
  have sn: "0 \<le> sint w" using less.prems(3) by (simp add: sint_nonneg_iff un n_def)
  show ?case
  proof (cases "n = 0")
    case True
    then show ?thesis by (simp add: n_def case_loop.simps)
  next
    case False
    define k where "k = n div 2"
    have k: "k < length es" using False by (simp add: k_def n_def)
    obtain lo hi pc where e: "es ! k = (lo, hi, pc)" by (metis prod_cases3)
    define es1 where "es1 = take k es"
    define es2 where "es2 = drop (Suc k) es"
    have es: "es = es1 @ (lo, hi, pc) # es2"
      using k e unfolding es1_def es2_def by (metis id_take_nth_drop)
    have len: "length es1 = k" "length es2 = n - k - 1"
      using k by (simp_all add: es1_def es2_def n_def)
    have "w \<noteq> 0" using False un by auto
    then have pos: "0 <s w"
      using sn sint_pos_uint(1) [OF sn] by (simp add: word_sless_alt order_less_le uint_0_iff)
    have h: "signed_drop_bit 1 w = word_of_nat k" using half_nonneg(1) [OF sn] un by (simp add: k_def)
    have u2: "unat (w - (signed_drop_bit 1 w + 1)) = n - k - 1"
      using half_pos(4) [OF pos] un by (simp add: k_def)
    have h2: "w - (signed_drop_bit 1 w + 1) = word_of_nat (n - k - 1)"
      unfolding u2 [symmetric] by simp
    note tab = table_at_split [OF less.prems(1) [unfolded es]]
    note lab = labels_ok_split [OF less.prems(2) [unfolded es]]
    have IH1: "case_loop mm stride pco v t (word_of_nat k) d = select v es1 d"
      using less.hyps [of es1 t] tab(1) lab(1) k less.prems(3) by (simp add: len n_def)
    have IH2: "case_loop mm stride pco v (t + word_of_nat k * stride + stride) (word_of_nat (n - k - 1)) d
        = select v es2 d"
      using less.hyps [of es2 "t + (word_of_nat k + 1) * stride"] tab(2) lab(2) less.prems(3) False
      by (simp add: len n_def algebra_simps)
    have before: "select v es1 d' = d'" if "\<not> v <s lo" for d'
      using that lab(4) by (intro select_none) (fastforce simp: word_sless_alt)
    have after: "select v es2 d' = d'" if "v <s hi" for d'
      using that lab(5) by (intro select_none) (fastforce simp: word_sless_alt word_sle_eq)
    have sel: "select v es d = select v es1 (if lo \<le>s v \<and> v <s hi then pc else select v es2 d)"
      by (simp add: es select_append)
    have unfold: "case_loop mm stride pco v t w d =
       (if v <s lo then case_loop mm stride pco v t (word_of_nat k) d
        else if hi \<le>s v
        then case_loop mm stride pco v (t + word_of_nat k * stride + stride) (word_of_nat (n - k - 1)) d
        else pc)"
      using tab(3-5) by (subst case_loop.simps) (simp add: pos h [unfolded One_nat_def] h2 [unfolded h] len Let_def)
    show ?thesis
      unfolding n_def [symmetric] w_def [symmetric] unfold IH1 IH2 sel
      using before after lab(3) by (auto simp: word_sless_alt word_sle_eq not_less not_le)
  qed
qed

text \<open>
  The tables as the compiler lays them out (\<open>disdatum\<close> in \<^verbatim>\<open>src/limbo/dis.c\<close>, cases \<open>Tcase\<close> and
  \<open>Tcasel\<close>) and the loader stores them: pairs of an offset and a word.  A label of the source, \<open>start..stop\<close>, is written with
  \<open>stop + 1\<close>; \<open>wild\<close> is the program counter of the wildcard, or -1.  \<open>disint\<close> writes 32 bits of a word, and the loader
  extends their sign to a word again (\<open>as32\<close>); \<open>disbig\<close> writes 64 bits.
\<close>

definition as32 :: "u64 \<Rightarrow> u64" where
  "as32 v = scast (ucast v :: u32)"

fun tcase_labs :: "u64 \<Rightarrow> label list \<Rightarrow> u64 \<Rightarrow> (u64 \<times> u64) list" where
  "tcase_labs offset [] wild = [(offset, as32 wild)]"
| "tcase_labs offset ((start, stop, pc) # ls) wild =
     (offset, as32 start) # (offset + IBY2WD, as32 (stop + 1)) # (offset + IBY2WD + IBY2WD, as32 pc)
       # tcase_labs (offset + IBY2WD + IBY2WD + IBY2WD) ls wild"

definition tcase :: "u64 \<Rightarrow> label list \<Rightarrow> u64 \<Rightarrow> (u64 \<times> u64) list" where
  "tcase offset ls wild = (offset, as32 (word_of_nat (length ls))) # tcase_labs (offset + IBY2WD) ls wild"

abbreviation (input) "IBY2LG \<equiv> (8 :: u64)"

fun tcasel_labs :: "u64 \<Rightarrow> label list \<Rightarrow> u64 \<Rightarrow> (u64 \<times> u64) list" where
  "tcasel_labs offset [] wild = [(offset, as32 wild)]"
| "tcasel_labs offset ((start, stop, pc) # ls) wild =
     (offset, start) # (offset + IBY2LG, stop + 1) # (offset + IBY2LG + IBY2LG, as32 pc)
       # tcasel_labs (offset + IBY2LG + IBY2LG + 2 * IBY2WD) ls wild"

definition tcasel :: "u64 \<Rightarrow> label list \<Rightarrow> u64 \<Rightarrow> (u64 \<times> u64) list" where
  "tcasel offset ls wild = (offset, as32 (word_of_nat (length ls))) # tcasel_labs (offset + 2 * IBY2WD) ls wild"

definition holds :: "memory \<Rightarrow> u64 \<Rightarrow> (u64 \<times> u64) list \<Rightarrow> bool" where
  "holds mm base ws \<longleftrightarrow> (\<forall>(off, v)\<in>set ws. load64 mm (base + off) = v)"

definition lab_range :: "label \<Rightarrow> label" where
  "lab_range = (\<lambda>(start, stop, pc). (as32 start, as32 (stop + 1), as32 pc))"

lemma tcase_labs_table:
  "holds mm base (tcase_labs off ls wild) \<Longrightarrow>
     table_at mm 24 16 (base + off) (map lab_range ls)
     \<and> load64 mm (base + off + word_of_nat (length ls) * 24) = as32 wild"
proof (induction ls arbitrary: off)
  case Nil
  then show ?case by (simp add: holds_def table_at_def)
next
  case (Cons l ls)
  obtain start stop pc where l: "l = (start, stop, pc)" by (metis prod_cases3)
  from Cons.prems have rest: "holds mm base (tcase_labs (off + 24) ls wild)"
    and e: "load64 mm (base + off) = as32 start" "load64 mm (base + off + 8) = as32 (stop + 1)"
      "load64 mm (base + off + 16) = as32 pc"
    by (auto simp: holds_def l add.assoc)
  note IH = Cons.IH [OF rest]
  have step: "base + off + word_of_nat (Suc i) * 24 = base + (off + 24) + word_of_nat i * 24" for i
    by (simp add: algebra_simps)
  have "table_at mm 24 16 (base + off) (map lab_range (l # ls))"
    unfolding table_at_def
  proof (intro allI impI)
    fix i assume i: "i < length (map lab_range (l # ls))"
    show "case map lab_range (l # ls) ! i of (lo, hi, pc) \<Rightarrow>
      load64 mm (base + off + word_of_nat i * 24) = lo \<and> load64 mm (base + off + word_of_nat i * 24 + 8) = hi
      \<and> load64 mm (base + off + word_of_nat i * 24 + 16) = pc"
    proof (cases i)
      case 0
      with e show ?thesis by (simp add: l lab_range_def)
    next
      case (Suc j)
      with i IH [unfolded table_at_def] show ?thesis unfolding Suc step by simp
    qed
  qed
  moreover have "load64 mm (base + off + word_of_nat (length (l # ls)) * 24) = as32 wild"
    using IH step [of "length ls"] by (simp add: add.assoc)
  ultimately show ?case by simp
qed

text \<open>
  The labels of a \<open>case\<close> over \<open>int\<close> in the source: ranges of numbers of 32 bits in ascending order, of which the last number of an \<open>int\<close>,
  \<open>0x7FFFFFFF\<close>, does not end one.  \<open>in_label\<close> is the search through them in order.
\<close>

definition case_labels :: "label list \<Rightarrow> bool" where
  "case_labels ls \<longleftrightarrow> sorted_wrt (\<lambda>(_, stop, _) (start, _, _). sint stop < sint start) ls
     \<and> (\<forall>(start, stop, pc)\<in>set ls. - (2 ^ 31) \<le> sint start \<and> sint start \<le> sint stop \<and> sint stop < 2 ^ 31 - 1 \<and> as32 pc = pc)"

fun in_label :: "u64 \<Rightarrow> label list \<Rightarrow> u64 \<Rightarrow> u64" where
  "in_label v [] wild = wild"
| "in_label v ((start, stop, pc) # ls) wild = (if start \<le>s v \<and> v \<le>s stop then pc else in_label v ls wild)"

lemma sint_as32: "sint (as32 v) = signed_take_bit 31 (sint v)"
  unfolding as32_def by (rule bit_eqI) (auto simp: bit_simps min_def)

lemma as32_small:
  assumes "- (2 ^ 31) \<le> sint v" "sint v < 2 ^ 31"
  shows "as32 v = v"
proof -
  have "sint (as32 v) = sint v"
    using assms by (simp add: sint_as32 signed_take_bit_int_eq_self)
  then have "word_of_int (sint (as32 v)) = (word_of_int (sint v) :: u64)" by simp
  then show ?thesis by simp
qed

lemma sint_suc: "sint v < 2 ^ 31 - 1 \<Longrightarrow> - (2 ^ 31) \<le> sint v \<Longrightarrow> sint (v + 1 :: u64) = sint v + 1"
  by (simp add: sint_word_ariths(1) signed_take_bit_int_eq_self)

lemma sint_word_of_nat: "n < 2 ^ 31 \<Longrightarrow> sint (word_of_nat n :: u64) = int n"
  by (simp add: signed_of_nat signed_take_bit_int_eq_self)

lemma label_range:
  assumes "case_labels ls" "(start, stop, pc) \<in> set ls"
  shows "lab_range (start, stop, pc) = (start, stop + 1, pc)" "sint (stop + 1) = sint stop + 1"
proof -
  have c: "- (2 ^ 31) \<le> sint start" "sint start \<le> sint stop" "sint stop < 2 ^ 31 - 1" "as32 pc = pc"
    using assms by (auto simp: case_labels_def)
  show s: "sint (stop + 1) = sint stop + 1"
    using c by (intro sint_suc) simp_all
  have "as32 start = start" "as32 (stop + 1) = stop + 1"
    using c s by (auto intro!: as32_small)
  with c(4) show "lab_range (start, stop, pc) = (start, stop + 1, pc)"
    by (simp add: lab_range_def)
qed

lemma labels_ranges:
  "case_labels ls \<Longrightarrow> labels_ok (map lab_range ls) \<and> select v (map lab_range ls) wild = in_label v ls wild"
proof (induction ls)
  case Nil
  then show ?case by (simp add: labels_ok_def)
next
  case (Cons l ls)
  obtain start stop pc where l: "l = (start, stop, pc)" by (metis prod_cases3)
  have tl: "case_labels ls" and before: "\<And>a b c. (a, b, c) \<in> set ls \<Longrightarrow> sint stop < sint a"
    and le: "sint start \<le> sint stop"
    using Cons.prems by (auto simp: case_labels_def l)
  note r = label_range [OF Cons.prems, of start stop pc, unfolded l, simplified]
  have "sint stop + 1 \<le> sint lo" if "(a, b, c) \<in> set ls" "lab_range (a, b, c) = (lo, hi, p)" for a b c lo hi p
    using before [OF that(1)] label_range(1) [OF tl that(1)] that(2) by simp
  moreover have "(x :: u64) \<le>s y \<longleftrightarrow> x <s y + 1" if "sint (y + 1) = sint y + 1" for x y
    using that by (simp add: word_sle_eq word_sless_alt)
  ultimately show ?case
    using Cons.IH [OF tl] le r by (auto simp: l labels_ok_def)
qed

text \<open>Claim C19 (refinement).  On a table written by the compiler for a Limbo \<open>case\<close> over \<open>int\<close> and stored by the loader, with
  its labels in ascending order, in the range of an \<open>int\<close> and none ending at \<open>0x7FFFFFFF\<close>, and its program counters, the wildcard's included, and the number of
  labels in that range too, the binary search of \<open>icase\<close> in a module that is interpreted jumps to the program counter of the
  label whose range holds the value, as a search through the labels in order does, and to the
  wildcard when there is none.\<close>

theorem icase_select:
  assumes "holds (mem R) (rd R) (tcase 0 ls wild)" "case_labels ls" "length ls < 2 ^ 31" "as32 wild = wild"
    and "\<not> compiled R"
  shows "icase R = R\<lparr>PC := prog R + sizeof_Inst * in_label (W rs R) ls wild\<rparr>"
proof -
  have len: "as32 (word_of_nat (length ls)) = word_of_nat (length ls)"
    using assms(3) by (intro as32_small) (simp_all add: sint_word_of_nat)
  from assms(1) have n: "load64 (mem R) (rd R) = word_of_nat (length ls)"
    and ls: "holds (mem R) (rd R) (tcase_labs 8 ls wild)"
    by (auto simp: holds_def tcase_def len)
  note tab = tcase_labs_table [OF ls, unfolded assms(4)]
  note lab = labels_ranges [OF assms(2), of "W rs R" wild]
  from case_loop_select [OF conjunct1 [OF tab] conjunct1 [OF lab], of "W rs R" wild] assms(3)
  have "case_loop (mem R) 24 16 (W rs R) (rd R + 8) (word_of_nat (length ls)) wild = in_label (W rs R) ls wild"
    using conjunct2 [OF lab] by simp
  then show ?thesis
    using conjunct2 [OF tab] assms(5) by (simp add: icase_def n case_jump_def)
qed

definition R0 :: REG where
  "R0 = \<lparr>mem = \<lambda>_. 0, PC = 0, MP = 0, FP = 0, rs = 0, rd = 0, rm = 0, rt = 0, prog = 0,
     compiled = False, IC = 1\<rparr>"

theorem icase_select_witness:
  "PC (icase (R0\<lparr>mem := mem_words ((0x1000, 7) # tcase 0 [(1, 5, 10), (6, 9, 20)] 30), rs := 0x1000\<rparr>)) = 480"
proof -
  let ?m = "mem_words ((0x1000, 7) # tcase 0 [(1, 5, 10), (6, 9, 20)] 30)"
  let ?R = "R0\<lparr>mem := ?m, rs := 0x1000\<rparr>"
  have a: "holds ?m 0 (tcase 0 [(1, 5, 10), (6, 9, 20)] 30)"
    by (simp add: holds_def tcase_def load64_mem_words)
  have b: "case_labels [(1, 5, 10), (6, 9, 20)]" "as32 30 = 30" by code_simp+
  have c: "load64 ?m 0x1000 = 7" by (simp add: load64_mem_words)
  have d: "in_label 7 [(1, 5, 10), (6, 9, 20)] 30 = 20" by code_simp
  have "icase ?R = ?R\<lparr>PC := prog ?R + sizeof_Inst * in_label (W rs ?R) [(1, 5, 10), (6, 9, 20)] 30\<rparr>"
    by (rule icase_select) (use a b in \<open>simp_all add: R0_def\<close>)
  then show ?thesis using c d by (simp add: R0_def W_def)
qed

text \<open>A label that ends at \<open>0x7FFFFFFF\<close> is never taken: the end of its range wraps round.\<close>

lemma icase_last_label:
  assumes "holds (mem R) (rd R) (tcase 0 [(start, 0x7FFFFFFF, pc)] wild)" "\<not> compiled R" "- (2 ^ 31) \<le> sint (W rs R)"
  shows "icase R = R\<lparr>PC := prog R + sizeof_Inst * as32 wild\<rparr>"
proof -
  have k: "as32 1 = 1" "sint (as32 0x80000000) = - (2 ^ 31)" by code_simp+
  from assms(1) have t: "load64 (mem R) (rd R) = 1" "load64 (mem R) (rd R + 16) = as32 0x80000000"
    "load64 (mem R) (rd R + 32) = as32 wild"
    by (simp_all add: holds_def tcase_def k)
  have "as32 0x80000000 \<le>s W rs R" using assms(3) k(2) by (simp add: word_sle_eq)
  with t assms(2) show ?thesis
    by (simp add: icase_def case_jump_def case_loop.simps word_sless_alt Let_def ac_simps)
qed

text \<open>Property (error).  \<open>casel\<close> steps through its table in entries of 48 bytes and takes the program
  counter at byte 32 of an entry, while the compiler writes entries of 32 bytes with the program
  counter at byte 16: with 8-byte words a Limbo \<open>case\<close> over \<open>big\<close> goes to the wrong place.\<close>

theorem casel_layout_mismatch:
  "\<exists>ls wild R. case_labels ls \<and> holds (mem R) (rd R) (tcasel 0 ls wild)
     \<and> \<not> compiled R \<and> PC (casel R) \<noteq> prog R + sizeof_Inst * in_label (V rs R) ls wild"
proof -
  let ?ls = "[(1, 5, 10), (6, 9, 20)]"
  let ?m = "mem_words ((0x1000, 3) # tcasel 0 ?ls 30)"
  let ?R = "R0\<lparr>mem := ?m, rs := 0x1000\<rparr>"
  have a: "case_labels ?ls" by code_simp
  have b: "holds ?m 0 (tcasel 0 ?ls 30)"
    by (simp add: holds_def tcasel_def load64_mem_words)
  have v: "V rs ?R = 3" by (simp add: V_def R0_def load64_mem_words)
  have sel: "in_label 3 ?ls 30 = 10" by code_simp
  have "as32 2 = 2" "as32 10 = 10" "as32 20 = 20" "as32 30 = 30" by code_simp+
  then have "PC (casel ?R) = 144"
    by (simp add: casel_def case_jump_def R0_def V_def tcasel_def load64_mem_words case_loop.simps word_sless_alt word_sle_eq)
  then have c: "PC (casel ?R) \<noteq> prog ?R + sizeof_Inst * in_label (V rs ?R) ?ls 30"
    using v sel by (simp add: R0_def)
  have d: "rd ?R = 0" "\<not> compiled ?R" "mem ?R = ?m" by (simp_all add: R0_def)
  show ?thesis using a b c d by (intro exI [of _ ?ls] exI [of _ 30] exI [of _ ?R]) simp
qed

lemma cut_sum: "ucast (k + scast (x :: u32) :: u64) = (ucast k + x :: u32)"
proof -
  have s: "uint (scast x :: u64) = sint x mod 2 ^ 64"
    unfolding scast_eq unsigned_of_int by (simp add: take_bit_eq_mod)
  have "uint (ucast (k + scast x :: u64) :: u32) = (uint k + sint x) mod 2 ^ 32"
    unfolding unsigned_ucast_eq uint_word_ariths s by (simp add: take_bit_eq_mod mod_simps mod_mod_cancel)
  moreover have "uint (ucast k + x :: u32) = (uint k + uint x) mod 2 ^ 32"
    by (simp add: unsigned_ucast_eq take_bit_eq_mod uint_word_ariths mod_simps)
  moreover have "uint x = sint x mod 2 ^ 32" by (simp add: uint_sint take_bit_eq_mod)
  ultimately show ?thesis by (simp add: word_uint_eq_iff mod_simps)
qed

lemma sint32_cases:
  "sint (w :: u32) = (if unat w < 2 ^ 31 then uint w else uint w - 2 ^ 32)"
proof -
  have r: "- (2 ^ 31) \<le> sint w" "sint w < 2 ^ 31" using sint_ge [of w] sint_lt [of w] by simp_all
  have "uint w = sint w mod 2 ^ 32" by (simp add: uint_sint take_bit_eq_mod)
  also have "\<dots> = (if 0 \<le> sint w then sint w else sint w + 2 ^ 32)"
  proof (cases "0 \<le> sint w")
    case False
    have "sint w mod 2 ^ 32 = (sint w + 2 ^ 32) mod 2 ^ 32" by simp
    also have "\<dots> = sint w + 2 ^ 32" using r False by (intro mod_pos_pos_trivial) auto
    finally show ?thesis using False by simp
  qed (use r in simp)
  finally show ?thesis
    using r uint_less_unat(1) [of w "2 ^ 31"] by (simp split: if_splits)
qed

lemma acheck_exact_aux:
  assumes "0 \<le> sint tsz" "0 \<le> sint sz" "tsz \<noteq> 0" "64 + unat tsz * unat sz < 2 ^ 32"
  shows "acheck tsz sz = Inr () \<longleftrightarrow> 64 + unat tsz * unat sz < 2 ^ 31"
proof -
  define c where "c = (64 + tsz * sz :: u32)"
  have c: "unat c = 64 + unat tsz * unat sz" using assms(4) by (simp add: c_def unat_word_ariths)
  have le: "unat sz \<le> unat tsz * unat sz" using assms(3) unat_gt_0 [of tsz] mult_le_mono1 [of 1 "unat tsz" "unat sz"] by simp
  have sz: "unat sz < 2 ^ 31" using assms(2) sint32_cases [of sz] uint_bounded [of sz] by (simp split: if_splits)
  define z k where "z = unat sz" and "k = 64 + unat tsz * unat sz"
  have "sint sz = int z" using sint32_cases [of sz] sz by (simp add: z_def)
  moreover have "sint c = (if k < 2 ^ 31 then int k else int k - 2 ^ 32)"
    using sint32_cases [of c] unfolding c k_def [symmetric] uint_nat by simp
  moreover have "z \<le> k" using le unfolding k_def z_def by (rule trans_le_add2)
  moreover have "k < 2 ^ 32" "z < 2 ^ 31" using assms(4) sz by (simp_all add: k_def z_def)
  moreover have "acheck tsz sz = Inr () \<longleftrightarrow> \<not> sint c < sint sz"
    using assms(2,3) cut_sum [of 64 "tsz * sz"] by (simp add: acheck_def word_sless_alt c_def)
  ultimately show ?thesis unfolding k_def [symmetric] by (cases "k < 2 ^ 31") simp_all
qed

section \<open>Arrays\<close>

lemma ind_at_bounds:
  assumes "ind_at esize R = Inr R'"
  defines "a \<equiv> load64 (mem R) (rs R)"
  defines "sz \<equiv> unat (esize R a)"
    and "len \<equiv> unat (load64 (mem R) a)"
    and "data \<equiv> unat (load64 (mem R) (a + 24))"
  assumes "data + len * sz < 2 ^ 64"
  shows "unat (W rd R) < len" "unat (load64 (mem R') (rm R)) = data + unat (W rd R) * sz"
    "x \<notin> span (rm R) 8 \<Longrightarrow> mem R' x = mem R x"
proof -
  define i where "i = W rd R"
  from assms(1) have R': "R' = R\<lparr>mem := store64 (mem R) (rm R) (load64 (mem R) (a + 24) + i * esize R a)\<rparr>"
    and "\<not> load64 (mem R) a \<le> i"
    by (auto simp: ind_at_def Let_def a_def i_def split: if_splits)
  then have i: "unat i < len" by (simp add: len_def word_le_nat_alt)
  then have "unat i * sz \<le> len * sz" by simp
  with assms(6) have "data + unat i * sz < 2 ^ 64" by linarith
  then have "unat (load64 (mem R) (a + 24) + i * esize R a) = data + unat i * sz"
    unfolding data_def sz_def by (simp add: unat_word_ariths)
  then show "unat (load64 (mem R') (rm R)) = data + unat (W rd R) * sz"
    unfolding R' i_def [symmetric] by (simp add: word_cell.ld_st)
  show "unat (W rd R) < len" using i by (simp add: i_def)
  show "x \<notin> span (rm R) 8 \<Longrightarrow> mem R' x = mem R x"
    unfolding R' by (simp add: word_cell.st_frame)
qed

lemma ind_at_error: "ind_at esize R = Inl e \<longleftrightarrow>
    (let a = load64 (mem R) (rs R) in
      a = H \<and> e = Fault \<or> a \<noteq> H \<and> load64 (mem R) a \<le> W rd R \<and> e = exBounds)"
  by (auto simp: ind_at_def Let_def)

text \<open>Claim C21 (safety).  Indexing an array: whenever \<open>indw\<close>, \<open>indl\<close>, \<open>indb\<close> or \<open>indx\<close> succeeds, the
  index, taken as unsigned, is below the length, and the address it gives is that of a whole element
  inside the data of the array (which lies inside the address space); nothing but the result cell
  changes.  It fails exactly for a nil array and for an index out of range, negative ones included.\<close>

theorem array_index_safe:
  assumes "(ind, esize) \<in> set [(indw, \<lambda>R a. 8 :: u64), (indl, \<lambda>R a. 8), (indf, \<lambda>R a. 8), (indb, \<lambda>R a. 1),
      (indx, \<lambda>R a. scast (load32 (mem R) (load64 (mem R) (a + 8) + 24)))]"
    and "a = load64 (mem R) (rs R)" "len = unat (load64 (mem R) a)"
    and "data = unat (load64 (mem R) (a + 24))" "sz = unat (esize R a)" "data + len * sz < 2 ^ 64"
  shows "(\<forall>R'. ind R = Inr R' \<longrightarrow> unat (W rd R) < len
       \<and> data \<le> unat (load64 (mem R') (rm R)) \<and> unat (load64 (mem R') (rm R)) + sz \<le> data + len * sz
       \<and> (\<forall>x. x \<notin> span (rm R) 8 \<longrightarrow> mem R' x = mem R x))
     \<and> ((\<exists>e. ind R = Inl e) \<longleftrightarrow> a = H \<or> len \<le> unat (W rd R))"
proof -
  from assms(1) have ind: "ind = ind_at esize"
    by (auto simp: indw_def indl_def indf_def indb_def indx_def)
  have le: "data + i * sz + sz \<le> data + len * sz" if "i < len" for i
  proof -
    have "(i + 1) * sz \<le> len * sz" using that by (intro mult_right_mono) auto
    then show ?thesis by simp
  qed
  show ?thesis
  proof (intro conjI allI impI)
    fix R' assume R': "ind R = Inr R'"
    note b = ind_at_bounds [OF R' [unfolded ind], folded assms(2), folded assms(3,4,5), OF assms(6)]
    show "unat (W rd R) < len" "data \<le> unat (load64 (mem R') (rm R))"
      "unat (load64 (mem R') (rm R)) + sz \<le> data + len * sz"
      using b(1,2) le by simp_all
    show "x \<notin> span (rm R) 8 \<Longrightarrow> mem R' x = mem R x" for x by (rule b(3))
  next
    show "(\<exists>e. ind R = Inl e) \<longleftrightarrow> a = H \<or> len \<le> unat (W rd R)"
      unfolding ind ind_at_error by (auto simp: Let_def assms(2,3) word_le_nat_alt)
  qed
qed

theorem array_index_safe_witness:
  "\<exists>R'. indw (R0\<lparr>mem := mem_words [(0, 0x100), (8, 2), (0x100, 3), (0x118, 0x200)], rs := 0, rd := 8, rm := 16\<rparr>) = Inr R'
     \<and> unat (load64 (mem R') 16) + 8 \<le> 0x200 + 3 * 8"
proof -
  let ?m = "mem_words [(0, 0x100), (8, 2), (0x100, 3), (0x118, 0x200)]"
  let ?R = "R0\<lparr>mem := ?m, rs := 0, rd := 8, rm := 16\<rparr>"
  have l: "load64 ?m 0 = 0x100" "load64 ?m 8 = 2" "load64 ?m 0x100 = 3" "load64 ?m 0x118 = 0x200"
    by (simp_all add: load64_mem_words)
  have "(indw, \<lambda>R a. 8 :: u64) \<in> set [(indw, \<lambda>R a. 8 :: u64), (indl, \<lambda>R a. 8), (indf, \<lambda>R a. 8), (indb, \<lambda>R a. 1),
      (indx, \<lambda>R a. scast (load32 (mem R) (load64 (mem R) (a + 8) + 24)))]" by (rule list.set_intros(1))
  moreover have "0x100 = load64 (mem ?R) (rs ?R)" "3 = unat (load64 (mem ?R) 0x100)"
    "0x200 = unat (load64 (mem ?R) (0x100 + 24))" "8 = unat (8 :: u64)" "0x200 + 3 * 8 < (2 :: nat) ^ 64"
    using l by simp_all
  ultimately have "(\<forall>R'. indw ?R = Inr R' \<longrightarrow> unat (W rd ?R) < 3 \<and> 0x200 \<le> unat (load64 (mem R') (rm ?R))
      \<and> unat (load64 (mem R') (rm ?R)) + 8 \<le> 0x200 + 3 * 8 \<and> (\<forall>x. x \<notin> span (rm ?R) 8 \<longrightarrow> mem R' x = mem ?R x))
    \<and> ((\<exists>e. indw ?R = Inl e) \<longleftrightarrow> 0x100 = H \<or> 3 \<le> unat (W rd ?R))"
    by (rule array_index_safe)
  moreover have "unat (W rd ?R) = 2" "rm ?R = 16" using l(2) by (simp_all add: W_def)
  ultimately have *: "\<forall>R'. indw ?R = Inr R' \<longrightarrow> unat (load64 (mem R') 16) + 8 \<le> 0x200 + 3 * 8"
    "\<not> (\<exists>e. indw ?R = Inl e)" by simp_all
  then obtain R' where "indw ?R = Inr R'" by (metis sum.exhaust)
  with *(1) show ?thesis by blast
qed

text \<open>Property (bounds).  The size check of \<open>newa\<close> and \<open>newaz\<close>: as long as the size of the array with
  its headers is below \<open>2^32\<close>, \<open>acheck\<close> accepts it exactly when it is below \<open>2^31\<close>, the range of the
  \<open>int\<close> the allocator takes.\<close>

theorem acheck_exact:
  assumes "0 \<le> sint tsz" "0 \<le> sint sz" "tsz \<noteq> 0" "64 + unat tsz * unat sz < 2 ^ 32"
  shows "acheck tsz sz = Inr () \<longleftrightarrow> 64 + unat tsz * unat sz < 2 ^ 31"
  using assms by (rule acheck_exact_aux)

theorem acheck_exact_witness:
  "acheck 8 1000 = Inr () \<and> acheck 8 0x10000000 \<noteq> Inr ()"
  using acheck_exact [of 8 1000] acheck_exact [of 8 "0x10000000"] by simp

text \<open>Property (error).  Beyond that the check can be passed by a product that wraps: an array of
  201326592 elements of 24 bytes needs more than 4 GB, \<open>acheck\<close> accepts it, and the size in \<open>int\<close>
  passed to the allocator is about 512 MB.\<close>

theorem acheck_overflow:
  "acheck 24 201326592 = Inr () \<and> 64 + unat (24 :: u32) * unat (201326592 :: u32) > 2 ^ 32
   \<and> sint (24 * 201326592 :: u32) = 536870912"
proof (intro conjI)
  show "acheck 24 201326592 = Inr ()" by (simp add: acheck_def word_sless_alt)
qed simp_all

section \<open>Arithmetic instructions\<close>

definition word_ops :: "((REG \<Rightarrow> REG) \<times> (u64 \<Rightarrow> u64 \<Rightarrow> u64)) list" where
  "word_ops = [(addw, (+)), (subw, (-)), (mulw, (*)), (andw, (AND)), (orw, (OR)), (xorw, (XOR)),
     (addl, (+)), (subl, (-)), (mull, (*)), (andl, (AND)), (orl, (OR)), (xorl, (XOR)),
     (shlw, shl), (shrw, sar), (lsrw, shr), (shll, shl), (shrl, sar), (lsrl, shr)]"

lemma word_ops_setW: "(op, f) \<in> set word_ops \<Longrightarrow> op R = setW (f (W rm R) (W rs R)) R"
  by (auto simp: word_ops_def addw_def subw_def mulw_def andw_def orw_def xorw_def addl_def subl_def
      mull_def andl_def orl_def xorl_def shlw_def shrw_def lsrw_def shll_def shrl_def lsrl_def
      setW_def setV_def W_def V_def)

lemma W_setW: "W rd (setW v R) = v"
  by (simp add: W_def setW_def word_cell.ld_st)

lemma sint_word_of_int: "\<lbrakk>- (2 ^ 63) \<le> k; k < 2 ^ 63\<rbrakk> \<Longrightarrow> sint (word_of_int k :: u64) = k"
  by (simp add: signed_of_int signed_take_bit_int_eq_self)

lemma sdiv_range:
  assumes "- (2 ^ 63) \<le> (a :: int)" "a < 2 ^ 63" "\<not> (a = - (2 ^ 63) \<and> b = - 1)"
  shows "- (2 ^ 63) \<le> a sdiv b" "a sdiv b < 2 ^ 63"
proof -
  have r: "- \<bar>a\<bar> \<le> a sdiv b" "a sdiv b \<le> \<bar>a\<bar>" using sdiv_int_range [of a b] by simp_all
  have a: "\<bar>a\<bar> \<le> 2 ^ 63" using assms(1,2) by linarith
  show "- (2 ^ 63) \<le> a sdiv b" using r a by linarith
  show "a sdiv b < 2 ^ 63"
  proof (rule ccontr)
    assume "\<not> a sdiv b < 2 ^ 63"
    then have e: "a sdiv b = 2 ^ 63" "a = - (2 ^ 63)" using r a assms(2) by linarith+
    then have "b = - 1" using int_sdiv_negated_is_minus1 [of a b] by simp
    with e assms(3) show False by simp
  qed
qed

lemma quot_remd:
  assumes "b \<noteq> 0" "\<not> (sint a = - (2 ^ 63) \<and> b = - 1)"
  obtains q r where "quot a b = Inr q" "remd a b = Inr r" "sint a = sint q * sint b + sint r"
    "\<bar>sint r\<bar> < \<bar>sint b\<bar>" "0 \<le> sint a * sint r"
proof -
  have ra: "- (2 ^ 63) \<le> sint a" "sint a < 2 ^ 63" using sint_ge [of a] sint_lt [of a] by simp_all
  have rb: "- (2 ^ 63) \<le> sint b" "sint b < 2 ^ 63" using sint_ge [of b] sint_lt [of b] by simp_all
  have b0: "sint b \<noteq> 0" using assms(1) by (metis scast_eq scast_id word_of_int_0)
  have b1: "sint b = - 1 \<Longrightarrow> b = - 1" by (metis scast_eq scast_id word_of_int_neg_1)
  define r where "r = sint a smod sint b"
  have rr: "- \<bar>sint b\<bar> < r" "r < \<bar>sint b\<bar>" using smod_int_range [OF b0, of "sint a"] by (simp_all add: r_def)
  have q: "sint (word_of_int (sint a sdiv sint b) :: u64) = sint a sdiv sint b"
    using sdiv_range [OF ra, of "sint b"] assms(2) b1 by (intro sint_word_of_int) auto
  have r: "sint (word_of_int r :: u64) = r"
    using rr rb by (intro sint_word_of_int) linarith+
  have "sint a = (sint a sdiv sint b) * sint b + r"
    using mult_sdiv_smod_eq [of "sint b" "sint a"] by (simp add: r_def mult.commute)
  moreover have "0 \<le> sint a * r"
    using smod_int_compares [where a = "sint a" and b = "sint b"] b0
    by (cases "0 \<le> sint a"; cases "0 < sint b") (auto simp: r_def zero_le_mult_iff)
  ultimately show ?thesis
    using assms rr q r
    by (intro that [of "word_of_int (sint a sdiv sint b)" "word_of_int r"])
      (auto simp: quot_def remd_def r_def)
qed

text \<open>Property (functional).  The word and big instructions for addition, subtraction, multiplication,
  bitwise operations and shifts store at the destination the operation, modulo \<open>2^64\<close>, of the middle
  and the source operand, read before the store even where the cells overlap, and change no other
  byte and no register.\<close>

theorem word_ops_correct:
  assumes "(op, f) \<in> set word_ops"
  shows "W rd (op R) = f (W rm R) (W rs R) \<and> op R = R\<lparr>mem := mem (op R)\<rparr>
    \<and> (\<forall>x. x \<notin> span (rd R) 8 \<longrightarrow> mem (op R) x = mem R x)"
  unfolding word_ops_setW [OF assms]
  using W_setW by (simp add: setW_def word_cell.st_frame W_def word_cell.ld_st)

theorem word_ops_correct_witness:
  "W rd (addw R0) = W rm R0 + W rs R0"
proof -
  have "(addw, (+)) \<in> set word_ops" unfolding word_ops_def by (rule list.set_intros(1))
  from word_ops_correct [OF this, of R0] show ?thesis by simp
qed

text \<open>Property (functional).  Signed division: \<open>divw\<close> and \<open>modw\<close> trap exactly on a zero divisor and on
  the least word divided by -1; otherwise they store a quotient and a remainder with
  \<open>m = q * s + r\<close>, \<open>|r| < |s|\<close> and the sign of \<open>r\<close> that of \<open>m\<close> (truncation towards zero).\<close>

theorem divw_modw_correct:
  "(divw R = Inl ZeroDivide \<longleftrightarrow> W rs R = 0 \<or> sint (W rm R) = - (2 ^ 63) \<and> W rs R = - 1)
   \<and> (modw R = Inl ZeroDivide \<longleftrightarrow> W rs R = 0 \<or> sint (W rm R) = - (2 ^ 63) \<and> W rs R = - 1)
   \<and> (W rs R = 0 \<or> sint (W rm R) = - (2 ^ 63) \<and> W rs R = - 1 \<or>
      (\<exists>q r. divw R = Inr (setW q R) \<and> modw R = Inr (setW r R)
        \<and> sint (W rm R) = sint q * sint (W rs R) + sint r
        \<and> \<bar>sint r\<bar> < \<bar>sint (W rs R)\<bar> \<and> 0 \<le> sint (W rm R) * sint r))"
proof (cases "W rs R = 0 \<or> sint (W rm R) = - (2 ^ 63) \<and> W rs R = - 1")
  case True
  then show ?thesis by (auto simp: divw_def modw_def quot_def remd_def)
next
  case False
  then obtain q r where "quot (W rm R) (W rs R) = Inr q" "remd (W rm R) (W rs R) = Inr r"
    "sint (W rm R) = sint q * sint (W rs R) + sint r" "\<bar>sint r\<bar> < \<bar>sint (W rs R)\<bar>"
    "0 \<le> sint (W rm R) * sint r" using quot_remd by metis
  with False show ?thesis by (auto simp: divw_def modw_def)
qed

end
