(* ===== verification/Dis_Run.thy ===== *)
theory Dis_Run
  imports Dis_Module Dis_Vm
begin

text \<open>
  From Limbo's instructions to the interpreter's operands: the compiler's encoding, the loader and
  the decoder together.  \<open>inst_at\<close> says that a loaded \<open>Inst\<close> lies in memory.
\<close>

definition adr_at :: "memory \<Rightarrow> u64 \<Rightarrow> u64 \<Rightarrow> Adr \<Rightarrow> bool" where
  "adr_at mm base a x = (case x of
     Imm v \<Rightarrow> load64 mm a = v
   | Ind2 f g \<Rightarrow> load16 mm a = f \<and> load16 mm (a + 2) = g
   | Ins k \<Rightarrow> load64 mm a = base + sizeof_Inst * word_of_nat k)"

definition inst_at :: "memory \<Rightarrow> u64 \<Rightarrow> u64 \<Rightarrow> Inst \<Rightarrow> bool" where
  "inst_at mm base pc i \<longleftrightarrow> mm pc = iop i \<and> mm (pc + 1) = iadd i \<and> load16 mm (pc + 2) = ireg i
     \<and> adr_at mm base (pc + 8) (isrc i) \<and> adr_at mm base (pc + 16) (idst i)"

text \<open>The address a Limbo operand stands for; \<open>u\<close> is where an immediate operand lies.\<close>

fun ea :: "REG \<Rightarrow> u64 \<Rightarrow> amode \<Rightarrow> Addr \<Rightarrow> u64" where
  "ea R u Afp a = FP R + areg a"
| "ea R u Amp a = MP R + areg a"
| "ea R u Afpind a = load64 (mem R) (FP R + areg a) + offset a"
| "ea R u Ampind a = load64 (mem R) (MP R + areg a) + offset a"
| "ea R u _ a = u"

definition ind_fits :: "amode \<Rightarrow> Addr \<Rightarrow> bool" where
  "ind_fits m a \<longleftrightarrow> (is_ind m \<longrightarrow> unat (areg a) < 65536 \<and> unat (offset a) < 65536)"

definition mid_fits :: "amode \<Rightarrow> Addr \<Rightarrow> bool" where
  "mid_fits m a \<longleftrightarrow> (if m = Afp \<or> m = Amp then unat (areg a) < 65536
     else - 32768 \<le> sint (addr_val m a) \<and> sint (addr_val m a) < 32768)"

lemma mode_fields:
  assumes "ms AND 7 = ms" "md AND 7 = md" "mr AND 0xC0 = mr"
  shows "USRC (ucast (SRC ms OR DST md OR mr)) = ucast ms"
    "UDST (ucast (SRC ms OR DST md OR mr)) = ucast md"
    "(ucast (SRC ms OR DST md OR mr) :: byte) AND 0xC0 = ucast mr"
  using assms by (simp_all add: USRC_def UDST_def SRC_def DST_def byte_bits u32_bits)

lemmas inst_mode = mode_fields [OF dismode_7(1) dismode_7(1) dismode_7(2)]

lemma ucast_u16_id: "unat (v :: u64) < 65536 \<Longrightarrow> ucast (ucast v :: u16) = v"
  by (simp add: word_unat_eq_iff unsigned_ucast_eq unsigned_take_bit_eq take_bit_nat_eq_self)

lemma dec_s_ea:
  assumes "USRC add = ucast (dismode m)" "adr_at (mem R) (prog R) (PC R + 8) (adr_of m a)"
    and "m \<noteq> Aerr" "m \<noteq> Anone" "ind_fits m a"
  shows "dec_s add R = R\<lparr>rs := ea R (PC R + 8) m a\<rparr>"
  using assms
  by (cases m) (simp_all add: dec_s_def adr_at_def adr_of_def is_ind_def ind_fits_def DIND_def ucast_u16_id)

lemma dec_d_ea:
  assumes "UDST add = ucast (dismode m)"
    and "if dismode m = AIMM \<and> br then True else adr_at (mem R) (prog R) (PC R + 16) (adr_of m a)"
    and "m \<noteq> Aerr" "m \<noteq> Anone" "ind_fits m a"
  shows "dec_d add R = Some (R\<lparr>rd := ea R (PC R + 16) m a\<rparr>)"
  using assms
  by (cases m) (simp_all add: dec_d_def adr_at_def adr_of_def is_ind_def ind_fits_def DIND_def ucast_u16_id)

lemma scast_u16_id:
  assumes "- 32768 \<le> sint (v :: u64)" "sint v < 32768"
  shows "scast (ucast v :: u16) = v"
proof -
  have "sint (ucast v :: u16) = signed_take_bit 15 (uint v)" by (simp add: signed_ucast_eq)
  also have "\<dots> = signed_take_bit 15 (sint v)"
    by (rule bit_eqI) (auto simp: bit_simps min_def)
  also have "\<dots> = sint v" using assms by (simp add: signed_take_bit_int_eq_self)
  finally show ?thesis by (metis scast_eq scast_id)
qed

definition mid_ok :: "LInst \<Rightarrow> REG \<Rightarrow> REG \<Rightarrow> bool" where
  "mid_ok i R R' = (case mmode i of
     Anone \<Rightarrow> rm R' = rd R'
   | Afp \<Rightarrow> rm R' = FP R + areg (maddr i)
   | Amp \<Rightarrow> rm R' = MP R + areg (maddr i)
   | _ \<Rightarrow> W rm R' = addr_val (mmode i) (maddr i))"

lemma dec_m_ok:
  assumes "add AND 0xC0 = ucast (disregmode m)" "load16 (mem R) (PC R + 2) = ucast (addr_val m a)"
    and "\<not> is_ind m" "m \<noteq> Aerr" "m \<noteq> Anone \<longrightarrow> mid_fits m a"
  shows "rs (dec_m add R) = rs R" "rd (dec_m add R) = rd R"
    "case m of Anone \<Rightarrow> rm (dec_m add R) = rd R | Afp \<Rightarrow> rm (dec_m add R) = FP R + areg a
       | Amp \<Rightarrow> rm (dec_m add R) = MP R + areg a | _ \<Rightarrow> W rm (dec_m add R) = addr_val m a"
  using assms
  by (cases m; simp add: dec_m_def is_ind_def mid_fits_def ucast_u16_id scast_u16_id W_def word_cell.ld_st)+

lemma decode_ok:
  assumes "inst_ok nprog i" "inst_at (mem R) (prog R) (PC R) (inst_of i)"
    and "smode i \<noteq> Anone" "dmode i \<noteq> Anone" "ind_fits (smode i) (saddr i)" "ind_fits (dmode i) (daddr i)"
    and "mmode i \<noteq> Anone \<longrightarrow> mid_fits (mmode i) (maddr i)"
  defines "R' \<equiv> dec (mem R (PC R + 1)) R"
  shows "rs R' = ea R (PC R + 8) (smode i) (saddr i)" "rd R' = ea R (PC R + 16) (dmode i) (daddr i)"
    "mid_ok i R R'"
proof -
  let ?add = "mem R (PC R + 1)"
  have err: "smode i \<noteq> Aerr" "dmode i \<noteq> Aerr" "mmode i \<noteq> Aerr" "\<not> is_ind (mmode i)"
    using assms(1) by (auto simp: inst_ok_def addr_fits_def)
  have at: "?add = ucast (SRC (dismode (smode i)) OR DST (dismode (dmode i)) OR disregmode (mmode i))"
    "load16 (mem R) (PC R + 2) = ucast (addr_val (mmode i) (maddr i))"
    "adr_at (mem R) (prog R) (PC R + 8) (adr_of (smode i) (saddr i))"
    "adr_at (mem R) (prog R) (PC R + 16) (dst_of i)"
    using assms(2) by (simp_all add: inst_at_def inst_of_def)
  define R1 where "R1 = R\<lparr>rs := ea R (PC R + 8) (smode i) (saddr i)\<rparr>"
  define R2 where "R2 = R1\<lparr>rd := ea R (PC R + 16) (dmode i) (daddr i)\<rparr>"
  have s: "dec_s ?add R = R1"
    unfolding R1_def using err at assms by (intro dec_s_ea) (simp_all add: inst_mode)
  have "dec_d ?add R1 = Some (R1\<lparr>rd := ea R1 (PC R1 + 16) (dmode i) (daddr i)\<rparr>)"
    using err at assms
    by (intro dec_d_ea [where br = "is_branch (ucast (lop i))"])
      (simp_all add: inst_mode R1_def dst_of_def split: if_splits)
  moreover have "ea R1 u m a = ea R u m a" for u m a by (cases m) (simp_all add: R1_def)
  ultimately have d: "dec_d ?add R1 = Some R2" by (simp add: R2_def R1_def)
  have R': "R' = dec_m ?add R2" by (simp add: R'_def dec_def s d)
  have m: "?add AND 0xC0 = ucast (disregmode (mmode i))" by (simp add: at(1) inst_mode)
  have eq: "mem R2 = mem R" "PC R2 = PC R" "FP R2 = FP R" "MP R2 = MP R"
    "rs R2 = ea R (PC R + 8) (smode i) (saddr i)" "rd R2 = ea R (PC R + 16) (dmode i) (daddr i)"
    by (simp_all add: R2_def R1_def)
  note dm = dec_m_ok [OF m, of R2 "maddr i", unfolded eq, OF at(2) err(4,3) assms(7)]
  show "rs R' = ea R (PC R + 8) (smode i) (saddr i)" "rd R' = ea R (PC R + 16) (dmode i) (daddr i)"
    using dm(1,2) by (simp_all add: R')
  with dm show "mid_ok i R R'"
    unfolding R' mid_ok_def by (simp split: amode.splits)
qed

text \<open>Claim C10 (refinement).  From the compiler to the interpreter: take an instruction of the compiler
  with operands that fit, let \<open>disinst\<close> encode it and the loader parse it, and put the loaded
  instruction in memory at the program counter.  Then decoding gives the source and destination
  addresses that the Limbo operands stand for (frame and module offsets, indirections, or the place
  of the immediate, which holds its value), and the middle operand likewise, its immediate in the
  register temporary.\<close>

theorem compile_load_decode:
  assumes "disinst1 i = Some x" "parse_inst nprog x = Inr (ip, [])" "inst_ok nprog i" "nprog < 2 ^ 31"
    and "inst_at (mem R) (prog R) (PC R) ip"
    and "smode i \<noteq> Anone" "dmode i \<noteq> Anone" "ind_fits (smode i) (saddr i)" "ind_fits (dmode i) (daddr i)"
    and "mmode i \<noteq> Anone \<longrightarrow> mid_fits (mmode i) (maddr i)" "R' = dec (mem R (PC R + 1)) R"
  shows "rs R' = ea R (PC R + 8) (smode i) (saddr i) \<and> rd R' = ea R (PC R + 16) (dmode i) (daddr i)
    \<and> mid_ok i R R' \<and> (dismode (smode i) = AIMM \<longrightarrow> load64 (mem R) (rs R') = addr_val (smode i) (saddr i))"
proof -
  obtain y where y: "disinst1 i = Some y" "\<And>r. parse_inst nprog (y @ r) = Inr (inst_of i, r)"
    using parse_inst_disinst1 [OF assms(3,4)] by metis
  have ip: "ip = inst_of i" using y(2) [of "[]"] y(1) assms(1,2) by simp
  note dec = decode_ok [OF assms(3) assms(5) [unfolded ip] assms(6-10), folded assms(11)]
  have "load64 (mem R) (rs R') = addr_val (smode i) (saddr i)" if "dismode (smode i) = AIMM"
    using assms(5) that dec(1)
    by (cases "smode i") (simp_all add: ip inst_at_def inst_of_def adr_at_def adr_of_def is_ind_def)
  with dec show ?thesis by blast
qed

definition addw1 :: LInst where
  "addw1 = \<lparr>lop = 58, smode = Afp, mmode = Aimm, dmode = Amp, saddr = \<lparr>areg = 40, offset = 0, iface_offset = 0\<rparr>,
     maddr = \<lparr>areg = 0, offset = 5, iface_offset = 0\<rparr>, daddr = \<lparr>areg = 8, offset = 0, iface_offset = 0\<rparr>\<rparr>"

definition addw1_mem :: memory where
  "addw1_mem x = (if x = 0 then 58 else if x = 1 then 0x48 else if x = 2 then 5 else if x = 8 then 40
     else if x = 16 then 8 else 0)"

theorem compile_load_decode_witness:
  "disinst1 addw1 = Some [58, 0x48, 5, 40, 8]
   \<and> (let R = R0\<lparr>mem := addw1_mem, FP := 0x1000, MP := 0x2000, rt := 0x3000\<rparr>; R' = dec 0x48 R in
      rs R' = 0x1028 \<and> rd R' = 0x2008 \<and> W rm R' = 5)"
proof -
  let ?R = "R0\<lparr>mem := addw1_mem, FP := 0x1000, MP := 0x2000, rt := 0x3000\<rparr>"
  have 1: "disinst1 addw1 = Some [58, 0x48, 5, 40, 8]" by code_simp
  have 2: "parse_inst 1 [58, 0x48, 5, 40, 8] = Inr (inst_of addw1, [])" by code_simp
  have 3: "inst_ok 1 addw1" by code_simp
  have 4: "(1 :: nat) < 2 ^ 31" by simp
  have 5: "inst_at (mem ?R) (prog ?R) (PC ?R) (inst_of addw1)" by code_simp
  have 6: "smode addw1 \<noteq> Anone" "dmode addw1 \<noteq> Anone" "ind_fits (smode addw1) (saddr addw1)"
    "ind_fits (dmode addw1) (daddr addw1)" "mmode addw1 \<noteq> Anone \<longrightarrow> mid_fits (mmode addw1) (maddr addw1)"
    by (simp_all add: addw1_def ind_fits_def is_ind_def mid_fits_def)
  have 7: "dec 0x48 ?R = dec (mem ?R (PC ?R + 1)) ?R" by (simp add: R0_def addw1_mem_def)
  from compile_load_decode [OF 1 2 3 4 5 6 7] 1 show ?thesis
    by (simp add: addw1_def mid_ok_def Let_def R0_def)
qed

end
