(* ===== verification/Lock_Queue.thy ===== *)
theory Lock_Queue
  imports Inferno_Base
begin

text \<open>
  Queues of waiting processes as the locks keep them: \<open>head\<close> and \<open>tail\<close> of the lock and the field
  \<open>qnext\<close> of each process (\<^verbatim>\<open>src/emu/port/lock.c\<close>, \<^verbatim>\<open>src/os/port/qlock.c\<close>), and the system of processes
  that use one queueing lock.  A process is a number.  What a function does between \<open>lock(&q->use)\<close>
  and \<open>unlock(&q->use)\<close> is one step.
\<close>

section \<open>The linked queue\<close>

type_synonym proc = nat

record PQueue =
  head :: "proc option"
  tail :: "proc option"
  qnext :: "proc \<Rightarrow> proc option"

text \<open>The statements that append \<open>up\<close>, with and without \<open>up->qnext = nil\<close>, and those that take the
  first process \<open>p\<close> off.\<close>

definition enq_stale :: "proc \<Rightarrow> 'a PQueue_scheme \<Rightarrow> 'a PQueue_scheme" where
  "enq_stale up q =
     (let q = (case tail q of None \<Rightarrow> q\<lparr>head := Some up\<rparr>
               | Some p \<Rightarrow> q\<lparr>qnext := (qnext q)(p := Some up)\<rparr>) in
      q\<lparr>tail := Some up\<rparr>)"

definition enq :: "proc \<Rightarrow> 'a PQueue_scheme \<Rightarrow> 'a PQueue_scheme" where
  "enq up q = (let q = enq_stale up q in q\<lparr>qnext := (qnext q)(up := None)\<rparr>)"

definition deq :: "proc \<Rightarrow> 'a PQueue_scheme \<Rightarrow> 'a PQueue_scheme" where
  "deq p q =
     (let q = q\<lparr>head := qnext q p\<rparr> in
      if head q = None then q\<lparr>tail := None\<rparr> else q)"

text \<open>The list of processes a queue stands for.\<close>

fun lpath :: "(proc \<Rightarrow> proc option) \<Rightarrow> proc option \<Rightarrow> proc list \<Rightarrow> bool" where
  "lpath nx h [] \<longleftrightarrow> h = None"
| "lpath nx h (p # ps) \<longleftrightarrow> h = Some p \<and> lpath nx (nx p) ps"

definition pq_rep :: "'a PQueue_scheme \<Rightarrow> proc list \<Rightarrow> bool" where
  "pq_rep q ws \<longleftrightarrow> lpath (qnext q) (head q) ws \<and> distinct ws
     \<and> tail q = (if ws = [] then None else Some (last ws))"

lemma lpath_upd [simp]: "p \<notin> set ws \<Longrightarrow> lpath (nx(p := x)) h ws = lpath nx h ws"
  by (induction ws arbitrary: h) auto

lemma lpath_snoc:
  "\<lbrakk>lpath nx h ws; ws \<noteq> []; up \<notin> set ws; distinct ws\<rbrakk>
    \<Longrightarrow> lpath (nx(last ws := Some up, up := None)) h (ws @ [up])"
proof (induction ws arbitrary: h)
  case (Cons p ws)
  then show ?case
    by (cases "ws = []") (auto simp: fun_upd_twist)
qed simp

lemma lpath_unique: "\<lbrakk>lpath nx h ws; lpath nx h ws'\<rbrakk> \<Longrightarrow> ws = ws'"
proof (induction ws arbitrary: h ws')
  case Nil
  then show ?case by (cases ws') auto
next
  case (Cons p ws)
  then show ?case by (cases ws') auto
qed

lemma pq_rep_head: "pq_rep q ws \<Longrightarrow> head q = (case ws of [] \<Rightarrow> None | p # _ \<Rightarrow> Some p)"
  by (cases ws) (auto simp: pq_rep_def)

lemma enq_rep: "\<lbrakk>pq_rep q ws; up \<notin> set ws\<rbrakk> \<Longrightarrow> pq_rep (enq up q) (ws @ [up])"
  using lpath_snoc [of "qnext q" "head q" ws up]
  by (cases "ws = []") (auto simp: pq_rep_def enq_def enq_stale_def Let_def)

lemma deq_rep: "pq_rep q (p # ws) \<Longrightarrow> pq_rep (deq p q) ws"
  by (cases ws) (auto simp: pq_rep_def deq_def Let_def)

lemma enq_more [simp]: "PQueue.more (enq up q) = PQueue.more q" "PQueue.more (deq p q) = PQueue.more q"
  by (simp_all add: enq_def enq_stale_def deq_def Let_def split: option.splits)

section \<open>Processes around a queueing lock\<close>

datatype pstat = Idle | Waiting | Holding

record 'q sys =
  lk :: 'q
  st :: "proc \<Rightarrow> pstat"
  bad :: bool

text \<open>
  A process that is idle calls \<open>qlock\<close> or \<open>canqlock\<close> (which may also fail because another processor is
  inside the lock); the holder calls \<open>qunlock\<close>, which makes a waiting process ready: it goes on as the
  holder.  \<open>bad\<close> records that a process was made ready that was not waiting.
\<close>

datatype act = Qlock proc | Canqlock proc bool | Qunlock proc

fun do_act :: "(proc \<Rightarrow> 'q \<Rightarrow> 'q \<times> bool) \<Rightarrow> (bool \<Rightarrow> 'q \<Rightarrow> 'q \<times> bool) \<Rightarrow> ('q \<Rightarrow> 'q \<times> proc option)
    \<Rightarrow> act \<Rightarrow> 'q sys \<Rightarrow> 'q sys option" where
  "do_act lockf tryf unlockf (Qlock p) s =
     (if st s p = Idle then
        let (q, got) = lockf p (lk s) in
        Some (s\<lparr>lk := q, st := (st s)(p := if got then Holding else Waiting)\<rparr>)
      else None)"
| "do_act lockf tryf unlockf (Canqlock p busy) s =
     (if st s p = Idle then
        let (q, got) = tryf busy (lk s) in
        Some (s\<lparr>lk := q, st := (st s)(p := if got then Holding else Idle)\<rparr>)
      else None)"
| "do_act lockf tryf unlockf (Qunlock p) s =
     (if st s p = Holding then
        let (q, w) = unlockf (lk s); st' = (st s)(p := Idle) in
        case w of
          None \<Rightarrow> Some (s\<lparr>lk := q, st := st'\<rparr>)
        | Some x \<Rightarrow> Some (s\<lparr>lk := q, st := st'(x := Holding), bad := bad s \<or> st s x \<noteq> Waiting\<rparr>)
      else None)"

fun run :: "(act \<Rightarrow> 's \<Rightarrow> 's option) \<Rightarrow> act list \<Rightarrow> 's \<Rightarrow> 's option" where
  "run f [] s = Some s"
| "run f (a # as) s = (case f a s of None \<Rightarrow> None | Some s \<Rightarrow> run f as s)"

text \<open>
  The invariant over any view \<open>rep\<close> of the lock: no process was ever made ready that did not wait; the
  processes waiting are those of the queue; there is one holder when the lock is locked, and none else.
\<close>

definition lock_inv :: "('q \<Rightarrow> bool \<Rightarrow> proc list \<Rightarrow> bool) \<Rightarrow> 'q sys \<Rightarrow> bool" where
  "lock_inv rep s \<longleftrightarrow> \<not> bad s \<and> (\<exists>l ws. rep (lk s) l ws \<and> (\<forall>p. st s p = Waiting \<longleftrightarrow> p \<in> set ws)
     \<and> (if l then \<exists>h. \<forall>p. st s p = Holding \<longleftrightarrow> p = h else \<forall>p. st s p \<noteq> Holding))"

definition lock_init :: "'q \<Rightarrow> 'q sys \<Rightarrow> bool" where
  "lock_init q s \<longleftrightarrow> lk s = q \<and> \<not> bad s \<and> (\<forall>p. st s p = Idle)"

definition sys0 :: "'q \<Rightarrow> 'q sys" where
  "sys0 q = \<lparr>lk = q, st = (\<lambda>_. Idle), bad = False\<rparr>"

lemma sys0_init: "lock_init q (sys0 q)"
  by (simp add: lock_init_def sys0_def)

fun is_unlock :: "act \<Rightarrow> bool" where
  "is_unlock (Qunlock _) = True"
| "is_unlock _ = False"

text \<open>
  The interface of a queueing lock: \<open>rep q l ws\<close> says that the lock \<open>q\<close> is held or not (\<open>l\<close>) and
  that the processes \<open>ws\<close> wait for it in this order.
\<close>

locale queue_lock =
  fixes lockf :: "proc \<Rightarrow> 'q \<Rightarrow> 'q \<times> bool"
    and tryf :: "bool \<Rightarrow> 'q \<Rightarrow> 'q \<times> bool"
    and unlockf :: "'q \<Rightarrow> 'q \<times> proc option"
    and rep :: "'q \<Rightarrow> bool \<Rightarrow> proc list \<Rightarrow> bool"
  assumes rep_free: "rep q False ws \<Longrightarrow> ws = []"
    and rep_distinct: "rep q l ws \<Longrightarrow> distinct ws"
    and rep_unique: "\<lbrakk>rep q l ws; rep q l' ws'\<rbrakk> \<Longrightarrow> l = l' \<and> ws = ws'"
    and lock_free: "rep q False [] \<Longrightarrow> \<exists>q'. lockf p q = (q', True) \<and> rep q' True []"
    and lock_held: "\<lbrakk>rep q True ws; p \<notin> set ws\<rbrakk> \<Longrightarrow> \<exists>q'. lockf p q = (q', False) \<and> rep q' True (ws @ [p])"
    and try_free: "rep q False [] \<Longrightarrow> \<exists>q'. tryf False q = (q', True) \<and> rep q' True []"
    and try_held: "rep q True ws \<Longrightarrow> tryf busy q = (q, False)"
    and try_busy: "tryf True q = (q, False)"
    and unlock_last: "rep q True [] \<Longrightarrow> \<exists>q'. unlockf q = (q', None) \<and> rep q' False []"
    and unlock_next: "rep q True (p # ws) \<Longrightarrow> \<exists>q'. unlockf q = (q', Some p) \<and> rep q' True ws"
begin


lemma inv_cases:
  assumes "lock_inv rep s"
  obtains (free) "rep (lk s) False []" "\<forall>p. st s p = Idle" "\<not> bad s"
  | (held) h ws where "rep (lk s) True ws" "\<forall>p. st s p = Waiting \<longleftrightarrow> p \<in> set ws"
      "\<forall>p. st s p = Holding \<longleftrightarrow> p = h" "\<not> bad s" "h \<notin> set ws"
proof -
  obtain l ws where r: "rep (lk s) l ws" "\<forall>p. st s p = Waiting \<longleftrightarrow> p \<in> set ws" "\<not> bad s"
    and h: "if l then \<exists>h. \<forall>p. st s p = Holding \<longleftrightarrow> p = h else \<forall>p. st s p \<noteq> Holding"
    using assms unfolding lock_inv_def by blast
  show thesis
  proof (cases l)
    case True
    with h obtain x where x: "\<forall>p. st s p = Holding \<longleftrightarrow> p = x"
      by auto
    then have "x \<notin> set ws"
      using r(2) by (metis pstat.distinct(6))
    then show thesis
      using r x held [of ws x] True by simp
  next
    case False
    moreover have "ws = []"
      using False r(1) rep_free by auto
    moreover have "\<forall>p. st s p = Idle"
    proof
      fix p
      show "st s p = Idle"
        using r(2) h False \<open>ws = []\<close> by (cases "st s p") auto
    qed
    ultimately show thesis
      using r free by simp
  qed
qed

lemma inv_free: "\<lbrakk>rep (lk s) False []; \<forall>p. st s p = Idle; \<not> bad s\<rbrakk> \<Longrightarrow> lock_inv rep s"
  unfolding lock_inv_def by (intro conjI exI [of _ False] exI [of _ "[]"]) simp_all

lemma inv_held:
  "\<lbrakk>rep (lk s) True ws; \<forall>p. st s p = Waiting \<longleftrightarrow> p \<in> set ws; \<forall>p. st s p = Holding \<longleftrightarrow> p = h; \<not> bad s\<rbrakk>
    \<Longrightarrow> lock_inv rep s"
  unfolding lock_inv_def by (intro conjI exI [of _ True] exI [of _ ws]) auto

lemma act_qlock:
  assumes inv: "lock_inv rep s" and act: "do_act lockf tryf unlockf (Qlock p) s = Some t"
  shows "lock_inv rep t"
  using inv
proof (cases rule: inv_cases)
  case free
  obtain q' where "lockf p (lk s) = (q', True)" "rep q' True []"
    using lock_free [OF free(1)] by blast
  then show ?thesis
    using act free by (intro inv_held [of _ "[]" p]) (auto split: if_splits)
next
  case (held h ws)
  have idle: "st s p = Idle"
    using act by (auto split: if_splits)
  then have "p \<notin> set ws" "p \<noteq> h"
    using held(2,3) by force+
  moreover obtain q' where "lockf p (lk s) = (q', False)" "rep q' True (ws @ [p])"
    using lock_held [OF held(1) \<open>p \<notin> set ws\<close>] by blast
  ultimately show ?thesis
    using act held idle by (intro inv_held [of _ "ws @ [p]" h]) (auto split: if_splits)
qed

lemma act_canqlock:
  assumes inv: "lock_inv rep s" and act: "do_act lockf tryf unlockf (Canqlock p busy) s = Some t"
  shows "lock_inv rep t"
  using inv
proof (cases rule: inv_cases)
  case free
  obtain q' where q': "tryf False (lk s) = (q', True)" "rep q' True []"
    using try_free [OF free(1)] by blast
  show ?thesis
  proof (cases busy)
    case True
    then show ?thesis
      using act free by (intro inv_free) (auto simp: try_busy split: if_splits)
  next
    case False
    then show ?thesis
      using act free q' by (intro inv_held [of _ "[]" p]) (auto split: if_splits)
  qed
next
  case (held h ws)
  have idle: "st s p = Idle"
    using act by (auto split: if_splits)
  then have "(st s)(p := Idle) = st s"
    by auto
  then show ?thesis
    using act held idle by (intro inv_held [of _ ws h]) (auto simp: try_held [OF held(1)])
qed

lemma act_qunlock:
  assumes inv: "lock_inv rep s" and act: "do_act lockf tryf unlockf (Qunlock p) s = Some t"
  shows "lock_inv rep t"
  using inv
proof (cases rule: inv_cases)
  case free
  then show ?thesis
    using act by (auto split: if_splits)
next
  case (held h ws)
  have p: "st s p = Holding" "p = h"
    using act held(3) by (auto split: if_splits)
  show ?thesis
  proof (cases ws)
    case Nil
    obtain q' where q': "unlockf (lk s) = (q', None)" "rep q' False []"
      using unlock_last held(1) Nil by blast
    have "st s x = Idle" if "x \<noteq> h" for x
      using held(2,3) Nil that by (cases "st s x") auto
    then show ?thesis
      using act q' held p by (intro inv_free) auto
  next
    case (Cons w ws')
    obtain q' where q': "unlockf (lk s) = (q', Some w)" "rep q' True ws'"
      using unlock_next held(1) Cons by blast
    have "w \<notin> set ws'" "st s w = Waiting"
      using rep_distinct [OF held(1)] held(2) Cons by auto
    then show ?thesis
      using act q' held p Cons by (intro inv_held [of _ ws' w]) (auto split: if_splits)
  qed
qed

lemma act_inv: "\<lbrakk>lock_inv rep s; do_act lockf tryf unlockf a s = Some t\<rbrakk> \<Longrightarrow> lock_inv rep t"
  by (cases a) (blast intro: act_qlock act_canqlock act_qunlock)+

lemma run_inv: "\<lbrakk>lock_inv rep s; run (do_act lockf tryf unlockf) as s = Some t\<rbrakk> \<Longrightarrow> lock_inv rep t"
  by (induction as arbitrary: s) (auto split: option.splits dest: act_inv)

lemma init_inv: "\<lbrakk>lock_init q s; rep q False []\<rbrakk> \<Longrightarrow> lock_inv rep s"
  by (simp add: lock_init_def inv_free)

text \<open>What the invariant says of the processes.\<close>

lemma inv_exclusive: "\<lbrakk>lock_inv rep s; st s p = Holding; st s r = Holding\<rbrakk> \<Longrightarrow> p = r"
  by (erule inv_cases) auto

lemma inv_not_stuck:
  assumes "lock_inv rep s" "st s p = Waiting"
  shows "\<exists>h t. st s h = Holding \<and> do_act lockf tryf unlockf (Qunlock h) s = Some t"
  using assms by (cases rule: inv_cases) (auto simp: Let_def split: prod.splits option.splits)

text \<open>The queue is served in order: with \<open>us\<close> in front of it, a process holds the lock at the latest
  when the lock has been released once more than there are processes in \<open>us\<close>.\<close>

lemma waiting_step:
  assumes inv: "lock_inv rep s" and r: "rep (lk s) True (us @ p # vs)" "st s p = Waiting"
    and act: "do_act lockf tryf unlockf a s = Some t"
  shows "(\<exists>us' vs'. st t p = Waiting \<and> rep (lk t) True (us' @ p # vs')
      \<and> length us = length us' + (if is_unlock a then 1 else 0)) \<or> (st t p = Holding \<and> is_unlock a \<and> us = [])"
  using inv
proof (cases rule: inv_cases)
  case free
  then show ?thesis
    using r by auto
next
  case (held h ws)
  have ws: "ws = us @ p # vs"
    using rep_unique held(1) r(1) by blast
  show ?thesis
  proof (cases a)
    case (Qlock x)
    have x: "st s x = Idle"
      using act Qlock by (auto split: if_splits)
    then have "x \<notin> set (us @ p # vs)"
      using held(2) ws by force
    then obtain q' where "lockf x (lk s) = (q', False)" "rep q' True (us @ p # vs @ [x])"
      using lock_held [OF r(1)] by force
    then show ?thesis
      using act Qlock x r(2) by (intro disjI1 exI [of _ us] exI [of _ "vs @ [x]"]) auto
  next
    case (Canqlock x busy)
    then show ?thesis
      using act try_held [OF r(1)] r by (intro disjI1 exI [of _ us] exI [of _ vs]) (auto split: if_splits)
  next
    case (Qunlock x)
    have x: "st s x = Holding" "x \<noteq> p"
      using act Qunlock r(2) by (auto split: if_splits)
    show ?thesis
    proof (cases us)
      case Nil
      then obtain q' where "unlockf (lk s) = (q', Some p)"
        using unlock_next r(1) by force
      then show ?thesis
        using act Qunlock x Nil by auto
    next
      case (Cons u us')
      then obtain q' where q': "unlockf (lk s) = (q', Some u)" "rep q' True (us' @ p # vs)"
        using unlock_next r(1) by force
      have "u \<noteq> p"
        using rep_distinct [OF r(1)] Cons by auto
      then show ?thesis
        using act Qunlock x r(2) q' Cons by (intro disjI1 exI [of _ us'] exI [of _ vs]) auto
    qed
  qed
qed

lemma run_fifo:
  "\<lbrakk>lock_inv rep s; rep (lk s) True (us @ p # vs); st s p = Waiting;
    run (do_act lockf tryf unlockf) as s = Some t; length us < length (filter is_unlock as)\<rbrakk>
    \<Longrightarrow> \<exists>n u. n \<le> length as \<and> run (do_act lockf tryf unlockf) (take n as) s = Some u \<and> st u p = Holding"
proof (induction as arbitrary: s us vs)
  case (Cons a as)
  obtain s' where s': "do_act lockf tryf unlockf a s = Some s'" "run (do_act lockf tryf unlockf) as s' = Some t"
    using Cons.prems(4) by (auto split: option.splits)
  have inv': "lock_inv rep s'"
    using act_inv Cons.prems(1) s'(1) by blast
  from waiting_step [OF Cons.prems(1-3) s'(1)] show ?case
  proof (elim disjE exE conjE)
    fix us' vs'
    assume "st s' p = Waiting" "rep (lk s') True (us' @ p # vs')"
      and "length us = length us' + (if is_unlock a then 1 else 0)"
    then obtain n u where "n \<le> length as" "run (do_act lockf tryf unlockf) (take n as) s' = Some u" "st u p = Holding"
      using Cons.IH [OF inv' _ _ s'(2), of us' vs'] Cons.prems(5) by (auto split: if_splits)
    then show ?thesis
      using s'(1) by (intro exI [of _ "Suc n"] exI [of _ u]) simp
  next
    assume "st s' p = Holding"
    then show ?thesis
      using s'(1) by (intro exI [of _ 1] exI [of _ s']) simp
  qed
qed simp

end

text \<open>
  A lock from whose queue a note may take a process, which then returns from its call without the lock.
\<close>

definition pull_act :: "(proc \<Rightarrow> 'q \<Rightarrow> 'q option) \<Rightarrow> proc \<Rightarrow> 'q sys \<Rightarrow> 'q sys option" where
  "pull_act pullf p s =
     (case pullf p (lk s) of None \<Rightarrow> None
      | Some q \<Rightarrow> Some (s\<lparr>lk := q, st := (if st s p = Waiting then (st s)(p := Idle) else st s)\<rparr>))"

locale queue_lock_note = queue_lock +
  fixes pullf :: "proc \<Rightarrow> 'a \<Rightarrow> 'a option"
  assumes pull_waiting: "\<lbrakk>rep q True ws; p \<in> set ws\<rbrakk> \<Longrightarrow> \<exists>q'. pullf p q = Some q' \<and> rep q' True (remove1 p ws)"
    and pull_other: "\<lbrakk>rep q l ws; p \<notin> set ws\<rbrakk> \<Longrightarrow> pullf p q = Some q"
begin

lemma pull_total: "lock_inv rep s \<Longrightarrow> \<exists>t. pull_act pullf p s = Some t"
  by (erule inv_cases) (auto simp: pull_act_def pull_other dest: pull_waiting [of _ _ p] split: option.splits)

lemma pull_inv:
  assumes inv: "lock_inv rep s" and act: "pull_act pullf p s = Some t"
  shows "lock_inv rep t"
  using inv
proof (cases rule: inv_cases)
  case free
  then show ?thesis
    using act by (intro inv_free) (auto simp: pull_act_def pull_other)
next
  case (held h ws)
  show ?thesis
  proof (cases "p \<in> set ws")
    case True
    then obtain q' where "pullf p (lk s) = Some q'" "rep q' True (remove1 p ws)"
      using pull_waiting held(1) by blast
    then show ?thesis
      using True act held rep_distinct [OF held(1)]
      by (intro inv_held [of _ "remove1 p ws" h]) (auto simp: pull_act_def split: if_splits)
  next
    case False
    then show ?thesis
      using act held pull_other [OF held(1)] by (intro inv_held [of _ ws h]) (auto simp: pull_act_def)
  qed
qed

end

end
