(* ===== verification/Emu_Lock.thy ===== *)
theory Emu_Lock
  imports Lock_Queue
begin

text \<open>
  The queueing lock and the readers/writer lock of the hosted system (\<^verbatim>\<open>src/emu/port/lock.c\<close>).  The
  queueing lock implements the interface \<open>queue_lock\<close>; the readers/writer lock is two of them, \<open>x\<close> and
  \<open>k\<close>, and a counter, and is modelled as a machine in which every process has a program counter
  between the calls of \<open>qlock\<close>, \<open>canqlock\<close> and \<open>qunlock\<close>.
\<close>

section \<open>Lock and QLock\<close>

record Lock =
  val :: int

text \<open>\<open>_tas\<close> sets the word and returns what it held.\<close>

definition tas :: "Lock \<Rightarrow> Lock \<times> int" where
  "tas l = (l\<lparr>val := 1\<rparr>, val l)"

definition canlock :: "Lock \<Rightarrow> Lock \<times> bool" where
  "canlock l = (let (l, v) = tas l in (l, v = 0))"

definition unlock :: "Lock \<Rightarrow> Lock" where
  "unlock l = l\<lparr>val := 0\<rparr>"

record QLock = PQueue +
  locked :: int

definition QLock0 :: QLock where
  "QLock0 = \<lparr>head = None, tail = None, qnext = (\<lambda>_. None), locked = 0\<rparr>"

text \<open>The result of \<open>qlock\<close> says whether the caller goes on with the lock or blocks, that of \<open>qunlock\<close>
  which process is made ready.\<close>

definition qlock :: "proc \<Rightarrow> QLock \<Rightarrow> QLock \<times> bool" where
  "qlock up q = (if locked q = 0 then (q\<lparr>locked := 1\<rparr>, True) else (enq up q, False))"

definition canqlock :: "bool \<Rightarrow> QLock \<Rightarrow> QLock \<times> bool" where
  "canqlock busy q =
     (if busy then (q, False)
      else if locked q \<noteq> 0 then (q, False)
      else (q\<lparr>locked := 1\<rparr>, True))"

definition qunlock :: "QLock \<Rightarrow> QLock \<times> proc option" where
  "qunlock q =
     (case head q of
        Some p \<Rightarrow> (deq p q, Some p)
      | None \<Rightarrow> (q\<lparr>locked := 0\<rparr>, None))"

definition qrep :: "QLock \<Rightarrow> bool \<Rightarrow> proc list \<Rightarrow> bool" where
  "qrep q l ws \<longleftrightarrow> pq_rep q ws \<and> locked q = (if l then 1 else 0) \<and> (\<not> l \<longrightarrow> ws = [])"

lemma locked_enq [simp]: "locked (enq up q) = locked q" "locked (deq p q) = locked q"
  by (simp_all add: enq_def enq_stale_def deq_def Let_def split: option.splits)

lemma pq_rep_locked [simp]: "pq_rep (q\<lparr>locked := v\<rparr>) ws = pq_rep q ws"
  by (simp add: pq_rep_def)

lemma qlock_free: "qrep q False [] \<Longrightarrow> qlock p q = (q\<lparr>locked := 1\<rparr>, True) \<and> qrep (q\<lparr>locked := 1\<rparr>) True []"
  by (simp add: qrep_def qlock_def)

lemma qlock_held: "\<lbrakk>qrep q True ws; p \<notin> set ws\<rbrakk> \<Longrightarrow> qlock p q = (enq p q, False) \<and> qrep (enq p q) True (ws @ [p])"
  by (simp add: qrep_def qlock_def enq_rep)

lemma qunlock_last: "qrep q True [] \<Longrightarrow> qunlock q = (q\<lparr>locked := 0\<rparr>, None) \<and> qrep (q\<lparr>locked := 0\<rparr>) False []"
  by (auto simp: qrep_def qunlock_def dest: pq_rep_head)

lemma qunlock_next: "qrep q True (p # ws) \<Longrightarrow> qunlock q = (deq p q, Some p) \<and> qrep (deq p q) True ws"
  by (auto simp: qrep_def qunlock_def deq_rep dest: pq_rep_head)

lemma qrep_QLock0: "qrep QLock0 False []"
  by (simp add: qrep_def QLock0_def pq_rep_def)

interpretation emu_qlock: queue_lock qlock canqlock qunlock qrep
proof unfold_locales
  show "\<And>q ws. qrep q False ws \<Longrightarrow> ws = []"
    by (simp add: qrep_def)
  show "\<And>q l ws. qrep q l ws \<Longrightarrow> distinct ws"
    by (simp add: qrep_def pq_rep_def)
  show "\<And>q l ws l' ws'. \<lbrakk>qrep q l ws; qrep q l' ws'\<rbrakk> \<Longrightarrow> l = l' \<and> ws = ws'"
    by (auto simp: qrep_def pq_rep_def dest: lpath_unique split: if_splits)
  show "\<And>q p. qrep q False [] \<Longrightarrow> \<exists>q'. qlock p q = (q', True) \<and> qrep q' True []"
    using qlock_free by blast
  show "\<And>q ws p. \<lbrakk>qrep q True ws; p \<notin> set ws\<rbrakk> \<Longrightarrow> \<exists>q'. qlock p q = (q', False) \<and> qrep q' True (ws @ [p])"
    using qlock_held by blast
  show "\<And>q. qrep q True [] \<Longrightarrow> \<exists>q'. qunlock q = (q', None) \<and> qrep q' False []"
    using qunlock_last by blast
  show "\<And>q p ws. qrep q True (p # ws) \<Longrightarrow> \<exists>q'. qunlock q = (q', Some p) \<and> qrep q' True ws"
    using qunlock_next by blast
qed (auto simp: canqlock_def qrep_def)

abbreviation qact :: "act \<Rightarrow> QLock sys \<Rightarrow> QLock sys option" where
  "qact \<equiv> do_act qlock canqlock qunlock"

text \<open>
  Claim C22 (invariant).  Whatever processes call \<open>qlock\<close>, \<open>canqlock\<close> and \<open>qunlock\<close> on a lock that was free, in
  whatever order: at most one process is past its \<open>qlock\<close>; \<open>qunlock\<close> only makes processes ready that
  wait; and when a process waits, another one holds the lock and may release it.
\<close>

theorem qlock_exclusion:
  assumes "lock_init QLock0 s" and "run qact as s = Some t"
  shows "(\<forall>p r. st t p = Holding \<longrightarrow> st t r = Holding \<longrightarrow> p = r) \<and> \<not> bad t
    \<and> (\<forall>p. st t p = Waiting \<longrightarrow> (\<exists>h u. st t h = Holding \<and> qact (Qunlock h) t = Some u))"
proof -
  have inv: "lock_inv qrep t"
    using assms emu_qlock.init_inv emu_qlock.run_inv qrep_QLock0 by blast
  then have "\<not> bad t"
    by (simp add: lock_inv_def)
  then show ?thesis
    using emu_qlock.inv_exclusive [OF inv] emu_qlock.inv_not_stuck [OF inv] by blast
qed

theorem qlock_exclusion_witness:
  "\<exists>t. run qact [Qlock 1, Qlock 2, Canqlock 3 False, Qlock 4, Qunlock 1] (sys0 QLock0) = Some t
    \<and> st t 2 = Holding \<and> st t 4 = Waiting \<and> (\<forall>p. st t p = Holding \<longrightarrow> p = 2)"
proof -
  define t where "t = the (run qact [Qlock 1, Qlock 2, Canqlock 3 False, Qlock 4, Qunlock 1] (sys0 QLock0))"
  have t: "run qact [Qlock 1, Qlock 2, Canqlock 3 False, Qlock 4, Qunlock 1] (sys0 QLock0) = Some t"
    "st t 2 = Holding" "st t 4 = Waiting"
    by (simp_all add: t_def sys0_def QLock0_def qlock_def canqlock_def qunlock_def enq_def enq_stale_def deq_def)
  then show ?thesis
    using qlock_exclusion [OF sys0_init t(1)] by blast
qed

text \<open>
  Claim C23 (liveness).  The lock is handed over in the order of arrival.  When a process waits behind the
  processes \<open>us\<close>, then in every run with more than \<open>length us\<close> calls of \<open>qunlock\<close> it gets to hold the lock,
  whatever else happens in between: no process overtakes it.
\<close>

theorem qlock_fifo:
  assumes "lock_init QLock0 s" and "run qact as s = Some t" and "qrep (lk t) True (us @ p # vs)"
    and "run qact bs t = Some u" and "length us < length (filter is_unlock bs)"
  shows "\<exists>n v. n \<le> length bs \<and> run qact (take n bs) t = Some v \<and> st v p = Holding"
proof -
  have inv: "lock_inv qrep t"
    using assms(1,2) emu_qlock.init_inv emu_qlock.run_inv qrep_QLock0 by blast
  then have "st t p = Waiting"
    using assms(3) emu_qlock.rep_unique unfolding lock_inv_def by fastforce
  then show ?thesis
    using emu_qlock.run_fifo [OF inv assms(3)] assms(4,5) by blast
qed

theorem qlock_fifo_witness:
  "\<exists>t u v n. run qact [Qlock 1, Qlock 2, Qlock 3] (sys0 QLock0) = Some t \<and> st t 3 = Waiting
    \<and> run qact [Qunlock 1, Qlock 1, Qunlock 2] t = Some u
    \<and> n \<le> 3 \<and> run qact (take n [Qunlock 1, Qlock 1, Qunlock 2]) t = Some v \<and> st v 3 = Holding"
proof -
  note defs = sys0_def QLock0_def qlock_def canqlock_def qunlock_def enq_def enq_stale_def deq_def
  define t where "t = the (run qact [Qlock 1, Qlock 2, Qlock 3] (sys0 QLock0))"
  define u where "u = the (run qact [Qunlock 1, Qlock 1, Qunlock 2] t)"
  have t: "run qact [Qlock 1, Qlock 2, Qlock 3] (sys0 QLock0) = Some t" "st t 3 = Waiting"
    by (simp_all add: t_def defs)
  have u: "run qact [Qunlock 1, Qlock 1, Qunlock 2] t = Some u"
    by (simp add: u_def t_def defs)
  have q: "qrep (lk t) True ([2] @ 3 # [])"
    by (simp add: t_def qrep_def pq_rep_def defs)
  have len: "length [2 :: proc] < length (filter is_unlock [Qunlock 1, Qlock 1, Qunlock 2])"
    by simp
  obtain n v where "n \<le> length [Qunlock 1, Qlock 1, Qunlock 2]"
    "run qact (take n [Qunlock 1, Qlock 1, Qunlock 2]) t = Some v" "st v 3 = Holding"
    using qlock_fifo [OF sys0_init t(1) q u len] by blast
  moreover have "length [Qunlock 1, Qlock 1, Qunlock 2] = 3"
    by simp
  ultimately show ?thesis
    using t u by metis
qed

section \<open>RWlock\<close>

text \<open>
  Where a process is: outside; in \<open>qlock(&l->x)\<close> of \<open>rlock\<close> or \<open>wlock\<close>; in \<open>rlock\<close> past it, then past the
  lines under \<open>lock(&l->l)\<close>; returned from \<open>rlock\<close>; in \<open>wlock\<close> before and inside \<open>qlock(&l->k)\<close>; returned from
  \<open>wlock\<close>; in \<open>wunlock\<close> past \<open>qunlock(&l->k)\<close>.
\<close>

datatype rwpc = Outside | RX | RGot | RRel | Reading | WX | WGot | WK | Writing | WRel

record RWlock =
  xq :: QLock
  kq :: QLock
  readers :: int
  pc :: "proc \<Rightarrow> rwpc"
  misready :: bool

definition setpc :: "proc \<Rightarrow> rwpc \<Rightarrow> RWlock \<Rightarrow> RWlock" where
  "setpc p v l = l\<lparr>pc := (pc l)(p := v)\<rparr>"

text \<open>\<open>osready(p)\<close> inside \<open>qunlock\<close> lets \<open>p\<close> return from its \<open>qlock\<close>.\<close>

definition wake :: "proc option \<Rightarrow> RWlock \<Rightarrow> RWlock" where
  "wake w l = (case w of None \<Rightarrow> l
     | Some p \<Rightarrow>
         (case pc l p of
            RX \<Rightarrow> setpc p RGot l
          | WX \<Rightarrow> setpc p WGot l
          | WK \<Rightarrow> setpc p Writing l
          | _ \<Rightarrow> l\<lparr>misready := True\<rparr>))"

definition unlock_x :: "RWlock \<Rightarrow> RWlock" where
  "unlock_x l = (let (q, w) = qunlock (xq l) in wake w (l\<lparr>xq := q\<rparr>))"

definition unlock_k :: "RWlock \<Rightarrow> RWlock" where
  "unlock_k l = (let (q, w) = qunlock (kq l) in wake w (l\<lparr>kq := q\<rparr>))"

definition rlock :: "proc \<Rightarrow> RWlock \<Rightarrow> RWlock" where
  "rlock p l = (let (q, got) = qlock p (xq l) in setpc p (if got then RGot else RX) (l\<lparr>xq := q\<rparr>))"

definition canrlock :: "bool \<Rightarrow> proc \<Rightarrow> RWlock \<Rightarrow> RWlock" where
  "canrlock busy p l =
     (let (q, got) = canqlock busy (xq l) in setpc p (if got then RGot else Outside) (l\<lparr>xq := q\<rparr>))"

text \<open>\<open>canqlock(&l->k)\<close> finds \<open>k.use\<close> free: the other uses of \<open>k\<close> are under \<open>l->l\<close> or under \<open>x\<close>.\<close>

definition rlock_count :: "proc \<Rightarrow> RWlock \<Rightarrow> RWlock" where
  "rlock_count p l = setpc p RRel (l\<lparr>readers := readers l + 1, kq := fst (canqlock False (kq l))\<rparr>)"

definition rlock_leave :: "proc \<Rightarrow> RWlock \<Rightarrow> RWlock" where
  "rlock_leave p l = setpc p Reading (unlock_x l)"

definition runlock :: "proc \<Rightarrow> RWlock \<Rightarrow> RWlock" where
  "runlock p l =
     (let l = l\<lparr>readers := readers l - 1\<rparr> in
      setpc p Outside (if readers l = 0 then unlock_k l else l))"

definition wlock :: "proc \<Rightarrow> RWlock \<Rightarrow> RWlock" where
  "wlock p l = (let (q, got) = qlock p (xq l) in setpc p (if got then WGot else WX) (l\<lparr>xq := q\<rparr>))"

definition wlock_k :: "proc \<Rightarrow> RWlock \<Rightarrow> RWlock" where
  "wlock_k p l = (let (q, got) = qlock p (kq l) in setpc p (if got then Writing else WK) (l\<lparr>kq := q\<rparr>))"

definition wunlock :: "proc \<Rightarrow> RWlock \<Rightarrow> RWlock" where
  "wunlock p l = setpc p WRel (unlock_k l)"

definition wunlock_leave :: "proc \<Rightarrow> RWlock \<Rightarrow> RWlock" where
  "wunlock_leave p l = setpc p Outside (unlock_x l)"

inductive rw_step :: "RWlock \<Rightarrow> RWlock \<Rightarrow> bool" where
  rlock: "pc l p = Outside \<Longrightarrow> rw_step l (rlock p l)"
| canrlock: "pc l p = Outside \<Longrightarrow> rw_step l (canrlock busy p l)"
| rlock_count: "pc l p = RGot \<Longrightarrow> rw_step l (rlock_count p l)"
| rlock_leave: "pc l p = RRel \<Longrightarrow> rw_step l (rlock_leave p l)"
| runlock: "pc l p = Reading \<Longrightarrow> rw_step l (runlock p l)"
| wlock: "pc l p = Outside \<Longrightarrow> rw_step l (wlock p l)"
| wlock_k: "pc l p = WGot \<Longrightarrow> rw_step l (wlock_k p l)"
| wunlock: "pc l p = Writing \<Longrightarrow> rw_step l (wunlock p l)"
| wunlock_leave: "pc l p = WRel \<Longrightarrow> rw_step l (wunlock_leave p l)"

definition rw_init :: "RWlock \<Rightarrow> bool" where
  "rw_init l \<longleftrightarrow> l = \<lparr>xq = QLock0, kq = QLock0, readers = 0, pc = (\<lambda>_. Outside), misready = False\<rparr>"

text \<open>The processes that hold \<open>x\<close>, and those counted in \<open>readers\<close>.\<close>

fun has_x :: "rwpc \<Rightarrow> bool" where
  "has_x RGot = True" | "has_x RRel = True" | "has_x WGot = True" | "has_x WK = True"
| "has_x Writing = True" | "has_x WRel = True" | "has_x _ = False"

fun counted :: "rwpc \<Rightarrow> bool" where
  "counted RRel = True" | "counted Reading = True" | "counted _ = False"

text \<open>A state seen as: the holder \<open>xo\<close> of \<open>x\<close>, the queues \<open>wx\<close> and \<open>wk\<close>, the readers \<open>C\<close>, the writer \<open>wo\<close>.\<close>

definition rw_view ::
    "RWlock \<Rightarrow> proc option \<Rightarrow> proc list \<Rightarrow> proc list \<Rightarrow> proc set \<Rightarrow> proc option \<Rightarrow> bool" where
  "rw_view l xo wx wk C wo \<longleftrightarrow>
     qrep (xq l) (xo \<noteq> None) wx \<and> qrep (kq l) (C \<noteq> {} \<or> wo \<noteq> None) wk
     \<and> (\<forall>p. pc l p = RX \<or> pc l p = WX \<longleftrightarrow> p \<in> set wx) \<and> (\<forall>p. has_x (pc l p) \<longleftrightarrow> xo = Some p)
     \<and> (\<forall>p. pc l p = WK \<longleftrightarrow> p \<in> set wk) \<and> (\<forall>p. pc l p = Writing \<longleftrightarrow> wo = Some p)
     \<and> (\<forall>p. counted (pc l p) \<longleftrightarrow> p \<in> C) \<and> finite C \<and> readers l = int (card C)
     \<and> (wo \<noteq> None \<longrightarrow> C = {}) \<and> \<not> misready l"

definition rw_inv :: "RWlock \<Rightarrow> bool" where
  "rw_inv l \<longleftrightarrow> (\<exists>xo wx wk C wo. rw_view l xo wx wk C wo)"

lemma view_at:
  assumes "rw_view l xo wx wk C wo"
  shows "p \<in> set wx \<longleftrightarrow> pc l p = RX \<or> pc l p = WX" "p \<in> set wk \<longleftrightarrow> pc l p = WK"
    "p \<in> C \<longleftrightarrow> counted (pc l p)" "wo = Some p \<longleftrightarrow> pc l p = Writing" "xo = Some p \<longleftrightarrow> has_x (pc l p)"
  using assms unfolding rw_view_def by simp_all

lemma rw_invI: "rw_view l xo wx wk C wo \<Longrightarrow> rw_inv l"
  unfolding rw_inv_def by blast

lemma enter_view:
  assumes v: "rw_view l xo wx wk C wo" and p: "pc l p = Outside"
  shows "rw_view (rlock p l) (if xo = None then Some p else xo) (if xo = None then wx else wx @ [p]) wk C wo
    \<and> rw_view (wlock p l) (if xo = None then Some p else xo) (if xo = None then wx else wx @ [p]) wk C wo"
proof -
  have "p \<notin> set wx" "p \<notin> set wk" "p \<notin> C" "wo \<noteq> Some p" "xo \<noteq> Some p"
    by (simp_all add: view_at [OF v] p)
  then show ?thesis
    using v p qlock_held [of "xq l" wx p] qlock_free [of "xq l" p] emu_qlock.rep_free [of "xq l" wx]
    unfolding rw_view_def rlock_def wlock_def setpc_def
    by (cases xo) auto
qed

lemma canrlock_view:
  assumes v: "rw_view l xo wx wk C wo" and p: "pc l p = Outside"
  shows "rw_view (canrlock busy p l) (if xo = None \<and> \<not> busy then Some p else xo) wx wk C wo"
proof -
  have o: "p \<notin> set wx" "p \<notin> set wk" "p \<notin> C" "wo \<noteq> Some p" "xo \<noteq> Some p"
    by (simp_all add: view_at [OF v] p)
  then show ?thesis
    using v p emu_qlock.rep_free [of "xq l" wx]
    unfolding rw_view_def canrlock_def setpc_def canqlock_def
    by (cases xo) (auto simp: qrep_def)
qed

lemma writer_has_x: "rw_view l xo wx wk C (Some w) \<Longrightarrow> xo = Some w"
  using view_at(4,5) [of l xo wx wk C "Some w" w] by auto

lemma rlock_count_view:
  assumes v: "rw_view l xo wx wk C wo" and p: "pc l p = RGot"
  shows "rw_view (rlock_count p l) xo wx wk (insert p C) None"
proof -
  have o: "p \<notin> set wx" "p \<notin> set wk" "p \<notin> C" "xo = Some p"
    by (simp_all add: view_at [OF v] p)
  have wo: "wo = None"
    using v o p view_at(4) [OF v, of p] by (cases wo) (auto dest!: writer_has_x)
  show ?thesis
    using v p o
    unfolding rw_view_def rlock_count_def setpc_def canqlock_def wo
    by (auto simp: qrep_def)
qed

lemma leave_view:
  assumes v: "rw_view l xo wx wk C wo" and p: "pc l p = RRel \<or> pc l p = WRel"
  shows "\<exists>xo' wx'. rw_view (setpc p (if pc l p = RRel then Reading else Outside) (unlock_x l)) xo' wx' wk C wo"
proof -
  have o: "p \<notin> set wx" "p \<notin> set wk" "xo = Some p" "wo \<noteq> Some p" "p \<in> C \<longleftrightarrow> pc l p = RRel"
    using p by (auto simp: view_at [OF v])
  show ?thesis
  proof (cases wx)
    case Nil
    then have "rw_view (setpc p (if pc l p = RRel then Reading else Outside) (unlock_x l)) None [] wk C wo"
      using v p o qunlock_last [of "xq l"]
      unfolding rw_view_def unlock_x_def setpc_def wake_def by auto
    then show ?thesis by blast
  next
    case (Cons w ws)
    have w1: "pc l w = RX \<or> pc l w = WX"
      using view_at(1) [OF v, of w] Cons by simp
    then have w: "w \<noteq> p" "w \<notin> C" "w \<notin> set wk" "wo \<noteq> Some w"
      using p by (auto simp: view_at(2-4) [OF v])
    have ws: "w \<notin> set ws"
      using v Cons by (auto simp: rw_view_def qrep_def pq_rep_def)
    have "rw_view (setpc p (if pc l p = RRel then Reading else Outside) (unlock_x l)) (Some w) ws wk C wo"
      using v o w w1 ws qunlock_next [of "xq l" w ws] Cons p
      unfolding rw_view_def unlock_x_def setpc_def wake_def
      by (cases "pc l p = RRel"; cases "pc l w = RX") auto
    then show ?thesis by blast
  qed
qed

lemma wk_has_x: "\<lbrakk>rw_view l xo wx wk C wo; w \<in> set wk\<rbrakk> \<Longrightarrow> xo = Some w"
  by (simp add: view_at)

lemma wlock_k_view:
  assumes v: "rw_view l xo wx wk C wo" and p: "pc l p = WGot"
  shows "\<exists>wk' wo'. rw_view (wlock_k p l) xo wx wk' C wo'"
proof -
  have o: "p \<notin> set wx" "p \<notin> set wk" "p \<notin> C" "xo = Some p" "wo \<noteq> Some p"
    by (simp_all add: view_at [OF v] p)
  have wo: "wo = None" and wk: "wk = []"
    using writer_has_x [of l xo wx wk C] wk_has_x [OF v] v o by (cases wo, auto) (cases wk, auto)
  show ?thesis
  proof (cases "C = {}")
    case True
    then have "rw_view (wlock_k p l) xo wx [] C (Some p)"
      using v p o wo wk qlock_free [of "kq l" p]
      unfolding rw_view_def wlock_k_def setpc_def by auto
    then show ?thesis by blast
  next
    case False
    then have "rw_view (wlock_k p l) xo wx [p] C None"
      using v p o wo wk qlock_held [of "kq l" "[]" p]
      unfolding rw_view_def wlock_k_def setpc_def by auto
    then show ?thesis by blast
  qed
qed

lemma wunlock_view:
  assumes v: "rw_view l xo wx wk C wo" and p: "pc l p = Writing"
  shows "rw_view (wunlock p l) xo wx [] C None"
proof -
  have o: "p \<notin> set wx" "p \<notin> set wk" "p \<notin> C" "xo = Some p" "wo = Some p"
    by (simp_all add: view_at [OF v] p)
  have wk: "wk = []"
    using wk_has_x [OF v] o by (cases wk) auto
  show ?thesis
    using v p o wk qunlock_last [of "kq l"]
    unfolding rw_view_def wunlock_def unlock_k_def wake_def setpc_def by auto
qed

lemma runlock_view:
  assumes v: "rw_view l xo wx wk C wo" and p: "pc l p = Reading"
  shows "\<exists>wk' wo'. rw_view (runlock p l) xo wx wk' (C - {p}) wo'"
proof -
  have o: "p \<notin> set wx" "p \<notin> set wk" "p \<in> C" "xo \<noteq> Some p"
    by (simp_all add: view_at [OF v] p)
  have wo: "wo = None" and fin: "finite C"
    using v o(3) by (auto simp: rw_view_def)
  show ?thesis
  proof (cases "C = {p}")
    case False
    then have "C - {p} \<noteq> {}"
      using o(3) by auto
    then have "0 < card (C - {p})" "C - {p} \<noteq> {}"
      using fin by (auto simp only: card_gt_0_iff)
    then have "rw_view (runlock p l) xo wx wk (C - {p}) wo"
      using v p o wo fin \<open>C \<noteq> {p}\<close> unfolding rw_view_def runlock_def setpc_def
      by (cases "C = {}") (auto simp: card_Diff_singleton)
    then show ?thesis by blast
  next
    case C: True
    show ?thesis
    proof (cases wk)
      case Nil
      then have "rw_view (runlock p l) xo wx [] {} None"
        using v p o wo C qunlock_last [of "kq l"]
        unfolding rw_view_def runlock_def unlock_k_def wake_def setpc_def by auto
      then show ?thesis using C by auto
    next
      case (Cons w ws)
      have wk: "pc l w = WK"
        using view_at(2) [OF v, of w] Cons by simp
      then have w: "w \<noteq> p" "xo = Some w" "w \<notin> set wx"
        using p by (auto simp: view_at(1,5) [OF v])
      have ws: "w \<notin> set ws"
        using v Cons by (auto simp: rw_view_def qrep_def pq_rep_def)
      have "ws = []"
        using wk_has_x [OF v] Cons w(2) ws by (cases ws) auto
      then have q: "qunlock (kq l) = (deq w (kq l), Some w)" "qrep (deq w (kq l)) True []"
        using v C Cons qunlock_next [of "kq l" w "[]"] by (simp_all add: rw_view_def)
      have all: "\<forall>x. pc l x = WK \<longleftrightarrow> x = w" "\<forall>x. pc l x \<noteq> Writing" "\<forall>x. counted (pc l x) \<longleftrightarrow> x = p"
        using view_at(2) [OF v] view_at(3) [OF v] view_at(4) [OF v] wo C Cons \<open>ws = []\<close> by simp_all
      have "readers l = 1"
        using v C by (simp add: rw_view_def)
      then have r: "runlock p l = l\<lparr>readers := 0, kq := deq w (kq l), pc := (pc l)(w := Writing, p := Outside)\<rparr>"
        using q(1) wk by (simp add: runlock_def unlock_k_def wake_def setpc_def)
      have "rw_view (runlock p l) xo wx [] {} (Some w)"
        using v p o w wk all q(2) unfolding r rw_view_def by auto
      then show ?thesis using C by auto
    qed
  qed
qed

interpretation emu_rw: step_system rw_init rw_step rw_inv
proof
  show "rw_inv l" if "rw_init l" for l
    using that qrep_QLock0 by (intro rw_invI [of l None "[]" "[]" "{}" None]) (simp add: rw_init_def rw_view_def)
  show "rw_inv l'" if "rw_inv l" "rw_step l l'" for l l'
  proof -
    obtain xo wx wk C wo where v: "rw_view l xo wx wk C wo"
      using \<open>rw_inv l\<close> unfolding rw_inv_def by blast
    show ?thesis
      using \<open>rw_step l l'\<close>
    proof cases
      case (rlock_leave p)
      then show ?thesis
        using leave_view [OF v, of p] by (auto simp: rlock_leave_def intro: rw_invI)
    next
      case (wunlock_leave p)
      then show ?thesis
        using leave_view [OF v, of p] by (auto simp: wunlock_leave_def intro: rw_invI)
    qed (use enter_view [OF v] canrlock_view [OF v] rlock_count_view [OF v] runlock_view [OF v]
          wlock_k_view [OF v] wunlock_view [OF v] in \<open>blast intro: rw_invI\<close>)+
  qed
qed

text \<open>
  Claim C24 (invariant).  The readers/writer lock, built of two queueing locks, keeps its promise whatever processes call
  it and however their calls interleave between those of \<open>qlock\<close>, \<open>canqlock\<close> and \<open>qunlock\<close>: a process that
  has returned from \<open>wlock\<close> is alone, no process has returned from \<open>rlock\<close> or from another \<open>wlock\<close>;
  \<open>readers\<close> is the number of processes counted by \<open>rlock\<close>, and no process is made ready that is not
  waiting.
\<close>

theorem rwlock_exclusion:
  assumes "rw_init l" and "rw_step\<^sup>*\<^sup>* l l'"
  shows "(\<forall>p r. pc l' p = Writing \<longrightarrow> pc l' r \<noteq> Reading \<and> (pc l' r = Writing \<longrightarrow> r = p))
    \<and> readers l' = int (card {p. counted (pc l' p)}) \<and> \<not> misready l'"
proof -
  obtain xo wx wk C wo where v: "rw_view l' xo wx wk C wo"
    using emu_rw.reachable_inv [OF assms] unfolding rw_inv_def by blast
  have "pc l' r \<noteq> Reading \<and> (pc l' r = Writing \<longrightarrow> r = p)" if "pc l' p = Writing" for p r
  proof -
    have wo: "wo = Some p"
      by (simp add: view_at(4) [OF v] that)
    have "wo \<noteq> None \<longrightarrow> C = {}"
      using v unfolding rw_view_def by (elim conjE)
    with wo have "C = {}"
      by simp
    then show ?thesis
      using view_at(3,4) [OF v, of r] wo by auto
  qed
  moreover have "{p. counted (pc l' p)} = C"
    using view_at(3) [OF v] by blast
  moreover have "readers l' = int (card C)" "\<not> misready l'"
    using v unfolding rw_view_def by simp_all
  ultimately show ?thesis
    by simp
qed

theorem rwlock_exclusion_witness:
  "\<exists>l l'. rw_init l \<and> rw_step\<^sup>*\<^sup>* l l' \<and> pc l' 1 = Writing \<and> pc l' 2 = RX \<and> readers l' = 0
    \<and> (\<forall>r. pc l' r = Writing \<longrightarrow> r = 1)"
proof -
  define l0 where "l0 = \<lparr>xq = QLock0, kq = QLock0, readers = 0, pc = (\<lambda>_. Outside), misready = False\<rparr>"
  define l1 where "l1 = wlock 1 l0"
  define l2 where "l2 = wlock_k 1 l1"
  define l3 where "l3 = rlock 2 l2"
  note defs = l3_def l2_def l1_def l0_def wlock_def wlock_k_def rlock_def setpc_def qlock_def QLock0_def
  have init: "rw_init l0"
    by (simp add: rw_init_def l0_def)
  have "rw_step l0 l1" "rw_step l1 l2" "rw_step l2 l3"
    unfolding l1_def l2_def l3_def
    by (rule rw_step.wlock rw_step.wlock_k rw_step.rlock, simp add: defs)+
  then have steps: "rw_step\<^sup>*\<^sup>* l0 l3"
    by (meson converse_rtranclp_into_rtranclp rtranclp.rtrancl_refl)
  have "pc l3 1 = Writing" "pc l3 2 = RX" "readers l3 = 0"
    by (simp_all add: defs enq_def enq_stale_def)
  then show ?thesis
    using init steps rwlock_exclusion [OF init steps] by blast
qed

end
