(* ===== verification/Os_Qlock.thy ===== *)
theory Os_Qlock
  imports Lock_Queue
begin

text \<open>
  The locks of the native kernel (\<^verbatim>\<open>src/os/port/qlock.c\<close>) and the part of \<open>postnote\<close> of
  \<^verbatim>\<open>src/os/port/proc.c\<close> that takes a process out of an \<open>eqlock\<close>.  Diagnostics (\<open>print\<close>, the counters of
  \<open>rwstats\<close>, saved program counters) are left out, and there is always a current process \<open>up\<close>.
\<close>

section \<open>QLock\<close>

text \<open>\<open>eql p\<close>: the field \<open>eql\<close> of \<open>p\<close> points to this lock; \<open>queueing p\<close>: the state of \<open>p\<close> is \<open>Queueing\<close>.\<close>

record QLock = PQueue +
  locked :: int
  eql :: "proc \<Rightarrow> bool"
  queueing :: "proc \<Rightarrow> bool"

definition QLock0 :: QLock where
  "QLock0 = \<lparr>head = None, tail = None, qnext = (\<lambda>_. None), locked = 0, eql = (\<lambda>_. False), queueing = (\<lambda>_. False)\<rparr>"

definition qlock :: "proc \<Rightarrow> QLock \<Rightarrow> QLock \<times> bool" where
  "qlock up q =
     (if locked q = 0 then (q\<lparr>locked := 1\<rparr>, True)
      else ((enq_stale up q)\<lparr>eql := (eql q)(up := False), queueing := (queueing q)(up := True)\<rparr>, False))"

datatype eqres = Acquired | Queued | Interrupted


text \<open>What \<open>eqlock\<close> does when \<open>sched()\<close> returns.\<close>

definition eqlock_resume :: "proc \<Rightarrow> QLock \<Rightarrow> QLock \<times> eqres" where
  "eqlock_resume up q = (if \<not> eql q up then (q, Interrupted) else (q\<lparr>eql := (eql q)(up := False)\<rparr>, Acquired))"

definition canqlock :: "bool \<Rightarrow> QLock \<Rightarrow> QLock \<times> bool" where
  "canqlock busy q =
     (if busy then (q, False)
      else if locked q \<noteq> 0 then (q, False)
      else (q\<lparr>locked := 1\<rparr>, True))"

definition qunlock :: "QLock \<Rightarrow> QLock \<times> proc option" where
  "qunlock q =
     (case head q of
        Some p \<Rightarrow> ((deq p q)\<lparr>queueing := (queueing q)(p := False)\<rparr>, Some p)
      | None \<Rightarrow> (q\<lparr>locked := 0\<rparr>, None))"





lemma enq_fields [simp]:
  "locked (enq up q) = locked q" "eql (enq up q) = eql q" "queueing (enq up q) = queueing q"
  "locked (deq p q) = locked q" "eql (deq p q) = eql q" "queueing (deq p q) = queueing q"
  by (simp_all add: enq_def enq_stale_def deq_def Let_def split: option.splits)

lemma pq_rep_fields [simp]:
  "pq_rep (q\<lparr>locked := v\<rparr>) ws = pq_rep q ws" "pq_rep (q\<lparr>eql := e\<rparr>) ws = pq_rep q ws"
  "pq_rep (q\<lparr>queueing := u\<rparr>) ws = pq_rep q ws"
  by (simp_all add: pq_rep_def)












text \<open>
  Property (safety).  The plain \<open>qlock\<close> of the kernel does not set \<open>up->qnext\<close> to \<open>nil\<close> when it appends, as \<open>eqlock\<close>,
  \<open>rlock\<close>, \<open>wlock\<close> and the \<open>qlock\<close> of the hosted system do.  Three processes that use one lock correctly
  reach a state in which \<open>qunlock\<close> makes a process ready that is not waiting: a stale \<open>qnext\<close> is taken
  for the next in the queue, and the lock is left locked with an empty queue.
\<close>

theorem qlock_stale_qnext:
  "\<exists>t. run (do_act qlock canqlock qunlock)
      [Qlock 1, Qlock 2, Qlock 3, Qunlock 1, Qunlock 2, Qlock 2, Qunlock 3, Qunlock 2] (sys0 QLock0) = Some t
    \<and> bad t \<and> locked (lk t) = 1 \<and> head (lk t) = None"
  by (simp add: sys0_def QLock0_def qlock_def qunlock_def enq_stale_def deq_def)

section \<open>RWlock\<close>

text \<open>Where a process is, with \<open>QueueingR\<close> and \<open>QueueingW\<close> as its \<open>state\<close> has them; a process that is made
  ready goes on as a reader or as the writer.\<close>

datatype rwstate = NotIn | QueueingR | QueueingW | HasR | HasW

record RWlock = PQueue +
  readers :: int
  writer :: int
  wproc :: "proc option"
  state :: "proc \<Rightarrow> rwstate"

datatype rwerr = Panic string

definition setst :: "proc \<Rightarrow> rwstate \<Rightarrow> RWlock \<Rightarrow> RWlock" where
  "setst p v q = q\<lparr>state := (state q)(p := v)\<rparr>"

definition rlock :: "proc \<Rightarrow> RWlock \<Rightarrow> RWlock" where
  "rlock up q =
     (if writer q = 0 \<and> head q = None then setst up HasR (q\<lparr>readers := readers q + 1\<rparr>)
      else setst up QueueingR (enq up q))"

definition canrlock :: "proc \<Rightarrow> RWlock \<Rightarrow> RWlock \<times> bool" where
  "canrlock up q =
     (if writer q = 0 \<and> head q = None then (setst up HasR (q\<lparr>readers := readers q + 1\<rparr>), True)
      else (q, False))"

text \<open>The caller \<open>up\<close> leaves; the result is the lock with the process made ready.\<close>

definition runlock :: "proc \<Rightarrow> RWlock \<Rightarrow> rwerr + RWlock" where
  "runlock up q =
     (let p = head q; q = setst up NotIn (q\<lparr>readers := readers q - 1\<rparr>) in
      if readers q > 0 then Inr q
      else (case p of
          None \<Rightarrow> Inr q
        | Some p \<Rightarrow>
            if state q p \<noteq> QueueingW then Inl (Panic ''runlock'')
            else Inr (setst p HasW ((deq p q)\<lparr>writer := 1\<rparr>))))"

definition wlock :: "proc \<Rightarrow> RWlock \<Rightarrow> RWlock" where
  "wlock up q =
     (if readers q = 0 \<and> writer q = 0 then setst up HasW (q\<lparr>wproc := Some up, writer := 1\<rparr>)
      else setst up QueueingW (enq up q))"

text \<open>\<open>while(q->head != nil && q->head->state == QueueingR)\<close>\<close>

partial_function (option) wake_readers :: "RWlock \<Rightarrow> RWlock option" where
  "wake_readers q =
     (case head q of
        None \<Rightarrow> Some q
      | Some p \<Rightarrow>
          if state q p = QueueingR
          then wake_readers (setst p HasR (q\<lparr>head := qnext q p, readers := readers q + 1\<rparr>))
          else Some q)"

definition wunlock :: "proc \<Rightarrow> RWlock \<Rightarrow> (rwerr + RWlock) option" where
  "wunlock up q =
     (let q = setst up NotIn q in
      case head q of
        None \<Rightarrow> Some (Inr (q\<lparr>writer := 0\<rparr>))
      | Some p \<Rightarrow>
          if state q p = QueueingW then Some (Inr (setst p HasW (deq p q)))
          else if state q p \<noteq> QueueingR then Some (Inl (Panic ''wunlock''))
          else (case wake_readers q of
              None \<Rightarrow> None
            | Some q \<Rightarrow>
                let q = (if head q = None then q\<lparr>tail := None\<rparr> else q) in
                Some (Inr (q\<lparr>writer := 0\<rparr>))))"

inductive rw_step :: "RWlock \<Rightarrow> RWlock \<Rightarrow> bool" where
  rlock: "state q p = NotIn \<Longrightarrow> rw_step q (rlock p q)"
| canrlock: "\<lbrakk>state q p = NotIn; canrlock p q = (q', b)\<rbrakk> \<Longrightarrow> rw_step q q'"
| runlock: "\<lbrakk>state q p = HasR; runlock p q = Inr q'\<rbrakk> \<Longrightarrow> rw_step q q'"
| wlock: "state q p = NotIn \<Longrightarrow> rw_step q (wlock p q)"
| wunlock: "\<lbrakk>state q p = HasW; wunlock p q = Some (Inr q')\<rbrakk> \<Longrightarrow> rw_step q q'"

definition rw_init :: "RWlock \<Rightarrow> bool" where
  "rw_init q \<longleftrightarrow> head q = None \<and> tail q = None \<and> readers q = 0 \<and> writer q = 0 \<and> state q = (\<lambda>_. NotIn)"

text \<open>A state seen as the queue \<open>ws\<close>, the readers \<open>C\<close> and the writer \<open>wo\<close>.\<close>

definition rw_view :: "RWlock \<Rightarrow> proc list \<Rightarrow> proc set \<Rightarrow> proc option \<Rightarrow> bool" where
  "rw_view q ws C wo \<longleftrightarrow> pq_rep q ws
     \<and> (\<forall>p. state q p = QueueingR \<or> state q p = QueueingW \<longleftrightarrow> p \<in> set ws)
     \<and> (\<forall>p. state q p = HasR \<longleftrightarrow> p \<in> C) \<and> (\<forall>p. state q p = HasW \<longleftrightarrow> wo = Some p)
     \<and> finite C \<and> readers q = int (card C) \<and> writer q = (if wo = None then 0 else 1)
     \<and> (wo \<noteq> None \<longrightarrow> C = {})
     \<and> (wo = None \<longrightarrow> ws \<noteq> [] \<longrightarrow> C \<noteq> {} \<and> state q (hd ws) = QueueingW)"

definition rw_inv :: "RWlock \<Rightarrow> bool" where
  "rw_inv q \<longleftrightarrow> (\<exists>ws C wo. rw_view q ws C wo)"

lemma rw_fields [simp]:
  "readers (enq up q) = readers q" "writer (enq up q) = writer q" "state (enq up q) = state q"
  "readers (deq p q) = readers q" "writer (deq p q) = writer q" "state (deq p q) = state q"
  by (simp_all add: enq_def enq_stale_def deq_def Let_def split: option.splits)

lemma setst_fields [simp]:
  "readers (setst p v q) = readers q" "writer (setst p v q) = writer q" "state (setst p v q) = (state q)(p := v)"
  "head (setst p v q) = head q" "tail (setst p v q) = tail q" "qnext (setst p v q) = qnext q"
  "pq_rep (setst p v q) ws = pq_rep q ws"
  by (simp_all add: setst_def pq_rep_def)

lemma rw_rep_fields [simp]:
  "pq_rep (q\<lparr>readers := v\<rparr>) ws = pq_rep q ws" "pq_rep (q\<lparr>writer := v\<rparr>) ws = pq_rep q ws"
  "pq_rep (q\<lparr>wproc := x\<rparr>) ws = pq_rep q ws"
  by (simp_all add: pq_rep_def)

lemma os_view_at:
  assumes "rw_view q ws C wo"
  shows "p \<in> set ws \<longleftrightarrow> state q p = QueueingR \<or> state q p = QueueingW" "p \<in> C \<longleftrightarrow> state q p = HasR"
    "wo = Some p \<longleftrightarrow> state q p = HasW"
  using assms unfolding rw_view_def by simp_all

lemma os_view_head: "rw_view q ws C wo \<Longrightarrow> head q = (case ws of [] \<Rightarrow> None | p # _ \<Rightarrow> Some p)"
  by (rule pq_rep_head) (simp add: rw_view_def)

lemma os_rlock_view:
  assumes v: "rw_view q ws C wo" and p: "state q p = NotIn"
  shows "rw_view (rlock p q) (if wo = None \<and> ws = [] then [] else ws @ [p])
    (if wo = None \<and> ws = [] then insert p C else C) wo"
proof -
  have o: "p \<notin> set ws" "p \<notin> C" "wo \<noteq> Some p"
    by (simp_all add: os_view_at [OF v] p)
  show ?thesis
    using v p o os_view_head [OF v] enq_rep [of q ws p]
    unfolding rw_view_def rlock_def
    by (cases ws; cases wo) auto
qed

lemma os_canrlock_view:
  assumes v: "rw_view q ws C wo" and p: "state q p = NotIn" and c: "canrlock p q = (q', b)"
  shows "rw_inv q'"
proof (cases "wo = None \<and> ws = []")
  case True
  then have "q' = rlock p q"
    using c v os_view_head [OF v] by (auto simp: canrlock_def rlock_def rw_view_def)
  then show ?thesis
    using os_rlock_view [OF v p] unfolding rw_inv_def by blast
next
  case False
  then have "q' = q"
    using c v os_view_head [OF v] by (auto simp: canrlock_def rw_view_def split: list.splits if_splits)
  then show ?thesis
    using v unfolding rw_inv_def by blast
qed

lemma os_wlock_view:
  assumes v: "rw_view q ws C wo" and p: "state q p = NotIn"
  shows "rw_view (wlock p q) (if wo = None \<and> C = {} then [] else ws @ [p]) C
    (if wo = None \<and> C = {} then Some p else wo)"
proof -
  have o: "p \<notin> set ws" "p \<notin> C" "wo \<noteq> Some p"
    by (simp_all add: os_view_at [OF v] p)
  show ?thesis
    using v p o os_view_head [OF v] enq_rep [of q ws p]
    unfolding rw_view_def wlock_def
    by (cases ws; cases wo; cases "C = {}") auto
qed


lemma os_runlock_view:
  assumes v: "rw_view q ws C wo" and p: "state q p = HasR"
  shows "\<exists>q' ws' wo'. runlock p q = Inr q' \<and> rw_view q' ws' (C - {p}) wo'"
proof -
  have o: "p \<notin> set ws" "p \<in> C" "wo \<noteq> Some p"
    by (simp_all add: os_view_at [OF v] p)
  have wo: "wo = None" and fin: "finite C" and rd: "readers q = int (card C)"
    using v o(2) unfolding rw_view_def by auto
  show ?thesis
  proof (cases "C = {p}")
    case False
    then have "C - {p} \<noteq> {}"
      using o(2) by auto
    then have "0 < card (C - {p})"
      using fin by (simp only: card_gt_0_iff) simp
    then have "runlock p q = Inr (setst p NotIn (q\<lparr>readers := readers q - 1\<rparr>))"
      using rd o(2) fin by (simp add: runlock_def card_Diff_singleton)
    moreover have "rw_view (setst p NotIn (q\<lparr>readers := readers q - 1\<rparr>)) ws (C - {p}) None"
      using v p o wo fin rd \<open>0 < card (C - {p})\<close> \<open>C - {p} \<noteq> {}\<close> unfolding rw_view_def
      by (auto simp: card_Diff_singleton)
    ultimately show ?thesis by blast
  next
    case C: True
    show ?thesis
    proof (cases ws)
      case Nil
      have "runlock p q = Inr (setst p NotIn (q\<lparr>readers := readers q - 1\<rparr>))"
        using os_view_head [OF v] Nil by (simp add: runlock_def Let_def)
      moreover have "rw_view (setst p NotIn (q\<lparr>readers := readers q - 1\<rparr>)) [] {} None"
        using v p o wo C Nil unfolding rw_view_def by auto
      ultimately show ?thesis using C by auto
    next
      case (Cons w ws')
      define r where "r = setst p NotIn (q\<lparr>readers := readers q - 1\<rparr>)"
      have w: "state q w = QueueingW" "w \<noteq> p" "w \<notin> set ws'"
        using v wo Cons o(1) by (auto simp: rw_view_def pq_rep_def)
      then have r: "runlock p q = Inr (setst w HasW ((deq w r)\<lparr>writer := 1\<rparr>))"
        using os_view_head [OF v] Cons rd C by (simp add: runlock_def r_def)
      have "pq_rep (deq w r) ws'"
        by (rule deq_rep) (use v Cons in \<open>simp add: r_def rw_view_def\<close>)
      then have "rw_view (setst w HasW ((deq w r)\<lparr>writer := 1\<rparr>)) ws' {} (Some w)"
        using v p o w wo C Cons unfolding rw_view_def by (auto simp: r_def)
      then show ?thesis using r C by auto
    qed
  qed
qed

lemma wake_readers_run:
  "\<lbrakk>lpath (qnext q) (head q) (us @ vs); distinct (us @ vs); \<forall>p\<in>set us. state q p = QueueingR;
    vs \<noteq> [] \<longrightarrow> state q (hd vs) \<noteq> QueueingR\<rbrakk>
   \<Longrightarrow> \<exists>h. wake_readers q = Some (q\<lparr>head := h, readers := readers q + int (length us),
        state := (\<lambda>x. if x \<in> set us then HasR else state q x)\<rparr>) \<and> lpath (qnext q) h vs"
proof (induction us arbitrary: q)
  case Nil
  then show ?case
    by (subst wake_readers.simps) (cases vs; auto)
next
  case (Cons u us)
  define r where "r = setst u HasR (q\<lparr>head := qnext q u, readers := readers q + 1\<rparr>)"
  have "wake_readers q = wake_readers r"
    using Cons.prems by (subst wake_readers.simps) (simp add: r_def)
  moreover have "vs \<noteq> [] \<longrightarrow> hd vs \<noteq> u"
    using Cons.prems(2) by (cases vs) auto
  then have "\<exists>h. wake_readers r = Some (r\<lparr>head := h, readers := readers r + int (length us),
        state := (\<lambda>x. if x \<in> set us then HasR else state r x)\<rparr>) \<and> lpath (qnext r) h vs"
    using Cons.prems by (intro Cons.IH) (auto simp: r_def)
  moreover have "(\<lambda>x. if x \<in> set us then HasR else state r x) = (\<lambda>x. if x \<in> set (u # us) then HasR else state q x)"
    by (auto simp: r_def)
  ultimately show ?case
    by (auto simp: r_def setst_def add.assoc)
qed

lemma os_wunlock_view:
  assumes v: "rw_view q ws C wo" and p: "state q p = HasW"
  shows "\<exists>q' ws' C' wo'. wunlock p q = Some (Inr q') \<and> rw_view q' ws' C' wo'"
proof -
  have o: "p \<notin> set ws" "p \<notin> C" "wo = Some p"
    by (simp_all add: os_view_at [OF v] p)
  have C: "C = {}"
    using v o(3) unfolding rw_view_def by simp
  define r where "r = setst p NotIn q"
  have rep: "pq_rep r ws" and hd: "head r = (case ws of [] \<Rightarrow> None | w # _ \<Rightarrow> Some w)"
    using v os_view_head [OF v] by (simp_all add: r_def rw_view_def)
  have str: "state r x = (if x = p then NotIn else state q x)" for x
    by (simp add: r_def)
  have in_ws: "x \<in> set ws \<longleftrightarrow> state r x = QueueingR \<or> state r x = QueueingW" for x
    using os_view_at(1) [OF v, of x] o(1) by (auto simp: str)
  have none: "state r x \<noteq> HasW" "state r x \<noteq> HasR" for x
    using os_view_at(2,3) [OF v, of x] o C by (auto simp: str)
  show ?thesis
  proof (cases ws)
    case Nil
    then have "wunlock p q = Some (Inr (r\<lparr>writer := 0\<rparr>))"
      using hd by (simp add: wunlock_def r_def)
    moreover have "rw_view (r\<lparr>writer := 0\<rparr>) [] {} None"
      using rep in_ws none v C Nil unfolding rw_view_def by (simp add: r_def)
    ultimately show ?thesis by blast
  next
    case (Cons w ws')
    show ?thesis
    proof (cases "state r w = QueueingW")
      case True
      have "pq_rep (deq w r) ws'" "w \<notin> set ws'"
        using rep Cons by (simp_all add: deq_rep) (simp add: pq_rep_def)
      moreover have "\<forall>x. state r x = QueueingR \<or> state r x = QueueingW \<longleftrightarrow> x = w \<or> x \<in> set ws'"
        using in_ws Cons by simp
      moreover have "readers r = 0" "writer r = 1"
        using v C o by (simp_all add: r_def rw_view_def)
      ultimately have "rw_view (setst w HasW (deq w r)) ws' {} (Some w)"
        using none unfolding rw_view_def by simp
      moreover have "wunlock p q = Some (Inr (setst w HasW (deq w r)))"
        using True hd Cons by (simp add: wunlock_def r_def)
      ultimately show ?thesis by blast
    next
      case False
      then have qr: "state r w = QueueingR"
        using in_ws [of w] Cons by simp
      define us vs where "us = takeWhile (\<lambda>x. state r x = QueueingR) ws"
        and "vs = dropWhile (\<lambda>x. state r x = QueueingR) ws"
      have uv: "ws = us @ vs" "distinct (us @ vs)" "\<forall>x\<in>set us. state r x = QueueingR"
        "vs \<noteq> [] \<longrightarrow> state r (hd vs) \<noteq> QueueingR"
        using rep hd_dropWhile [of "\<lambda>x. state r x = QueueingR" ws]
        by (auto simp: us_def vs_def pq_rep_def dest: set_takeWhileD)
      obtain h where wr: "wake_readers r = Some (r\<lparr>head := h, readers := readers r + int (length us),
          state := (\<lambda>x. if x \<in> set us then HasR else state r x)\<rparr>)" and lp: "lpath (qnext r) h vs"
        using wake_readers_run [OF _ uv(2-4)] rep uv(1) by (auto simp: pq_rep_def)
      define r' where "r' = (r\<lparr>head := h, readers := readers r + int (length us),
          state := (\<lambda>x. if x \<in> set us then HasR else state r x)\<rparr>)"
      define r'' where "r'' = (if h = None then r'\<lparr>tail := None\<rparr> else r')"
      have "wunlock p q = Some (Inr (r''\<lparr>writer := 0\<rparr>))"
        using hd Cons qr wr by (simp add: wunlock_def r_def r'_def r''_def Let_def)
      moreover have "rw_view (r''\<lparr>writer := 0\<rparr>) vs (set us) None"
      proof -
        have "h = None \<longleftrightarrow> vs = []"
          using lp by (cases vs) auto
        then have "pq_rep r'' vs"
          using rep lp uv(1,2) by (auto simp: pq_rep_def r''_def r'_def)
        moreover have "us \<noteq> []"
          using Cons qr by (simp add: us_def)
        moreover have "card (set us) = length us"
          using uv(2) by (simp add: distinct_card)
        moreover have "vs \<noteq> [] \<Longrightarrow> state r (hd vs) = QueueingW"
          using uv in_ws [of "hd vs"] by auto
        moreover have "hd vs \<notin> set us" if "vs \<noteq> []"
          using that uv(2) by auto
        moreover have st: "state r'' = (\<lambda>x. if x \<in> set us then HasR else state r x)" "readers r'' = int (length us)"
          using v C by (auto simp: r''_def r'_def r_def rw_view_def)
        ultimately show ?thesis
          using uv in_ws none unfolding rw_view_def by auto
      qed
      ultimately show ?thesis by blast
    qed
  qed
qed


interpretation os_rw: step_system rw_init rw_step rw_inv
proof
  show "rw_inv q" if "rw_init q" for q
    using that unfolding rw_inv_def
    by (intro exI [of _ "[]"] exI [of _ "{}"] exI [of _ None]) (simp add: rw_init_def rw_view_def pq_rep_def)
  show "rw_inv q'" if inv: "rw_inv q" and step: "rw_step q q'" for q q'
  proof -
    obtain ws C wo where v: "rw_view q ws C wo"
      using inv unfolding rw_inv_def by blast
    show ?thesis
      using step
    proof cases
      case (rlock p)
      then show ?thesis
        using os_rlock_view [OF v] unfolding rw_inv_def by blast
    next
      case (wlock p)
      then show ?thesis
        using os_wlock_view [OF v] unfolding rw_inv_def by blast
    next
      case (canrlock p b)
      then show ?thesis
        using os_canrlock_view [OF v] by blast
    next
      case (runlock p)
      then show ?thesis
        using os_runlock_view [OF v, of p] unfolding rw_inv_def by auto
    next
      case (wunlock p)
      then show ?thesis
        using os_wunlock_view [OF v, of p] unfolding rw_inv_def by auto
    qed
  qed
qed

text \<open>
  Claim C25 (safety).  The readers/writer lock of the kernel.  In every state that processes reach which pair
  \<open>rlock\<close> or \<open>canrlock\<close> with \<open>runlock\<close> and \<open>wlock\<close> with \<open>wunlock\<close>: a writer is alone; processes wait only
  while another one has the lock; and the releasing operations return, they never reach their \<open>panic\<close>
  and the loop of \<open>wunlock\<close> ends.
\<close>

theorem os_rwlock_safe:
  assumes "rw_init q" and "rw_step\<^sup>*\<^sup>* q q'"
  shows "(\<forall>p r. state q' p = HasW \<longrightarrow> state q' r \<noteq> HasR \<and> (state q' r = HasW \<longrightarrow> r = p))
    \<and> (\<forall>p. state q' p = QueueingR \<or> state q' p = QueueingW \<longrightarrow> (\<exists>r. state q' r = HasR \<or> state q' r = HasW))
    \<and> (\<forall>p. state q' p = HasR \<longrightarrow> (\<exists>t. runlock p q' = Inr t))
    \<and> (\<forall>p. state q' p = HasW \<longrightarrow> (\<exists>t. wunlock p q' = Some (Inr t)))"
proof -
  obtain ws C wo where v: "rw_view q' ws C wo"
    using os_rw.reachable_inv [OF assms] unfolding rw_inv_def by blast
  have c: "wo \<noteq> None \<longrightarrow> C = {}" "wo = None \<longrightarrow> ws \<noteq> [] \<longrightarrow> C \<noteq> {}"
    using v unfolding rw_view_def by simp_all
  have "state q' r \<noteq> HasR \<and> (state q' r = HasW \<longrightarrow> r = p)" if "state q' p = HasW" for p r
    using that c(1) os_view_at(2,3) [OF v, of r] os_view_at(3) [OF v, of p] by auto
  moreover have "\<exists>r. state q' r = HasR \<or> state q' r = HasW" if "state q' p = QueueingR \<or> state q' p = QueueingW" for p
  proof -
    have "ws \<noteq> []"
      using that os_view_at(1) [OF v, of p] by auto
    then show ?thesis
      using c(2) os_view_at(2,3) [OF v] by (cases wo) blast+
  qed
  ultimately show ?thesis
    using os_runlock_view [OF v] os_wunlock_view [OF v] by blast
qed

theorem os_rwlock_safe_witness:
  "\<exists>q q'. rw_init q \<and> rw_step\<^sup>*\<^sup>* q q' \<and> state q' 1 = HasW \<and> state q' 2 = QueueingR \<and> state q' 3 = QueueingW
    \<and> (\<exists>t. wunlock 1 q' = Some (Inr t))"
proof -
  define q0 where "q0 = \<lparr>head = None, tail = None, qnext = (\<lambda>_. None), readers = 0, writer = 0, wproc = None,
    state = (\<lambda>_. NotIn)\<rparr>"
  define q3 where "q3 = wlock 3 (rlock 2 (wlock 1 q0))"
  note defs = q3_def q0_def wlock_def rlock_def setst_def enq_def enq_stale_def
  have init: "rw_init q0"
    by (simp add: rw_init_def q0_def)
  have "rw_step q0 (wlock 1 q0)" "rw_step (wlock 1 q0) (rlock 2 (wlock 1 q0))"
    "rw_step (rlock 2 (wlock 1 q0)) q3"
    unfolding q3_def by (rule rw_step.wlock rw_step.rlock, simp add: defs)+
  then have steps: "rw_step\<^sup>*\<^sup>* q0 q3"
    by (meson converse_rtranclp_into_rtranclp rtranclp.rtrancl_refl)
  have "state q3 1 = HasW" "state q3 2 = QueueingR" "state q3 3 = QueueingW"
    by (simp_all add: defs)
  then show ?thesis
    using init steps os_rwlock_safe [OF init steps] by blast
qed

end
