(* ===== verification/Qio_Block.thy ===== *)
theory Qio_Block
  imports Inferno_Base
begin

text \<open>
  The blocks of the I/O queues (\<^verbatim>\<open>src/emu/port/qio.c\<close>, the structure in \<^verbatim>\<open>src/emu/port/dat.h\<close>).  A block is
  a buffer with the offsets of \<open>rp\<close>, \<open>wp\<close> and \<open>lim\<close> from \<open>base\<close>; a chain linked by \<open>next\<close> is a list, \<open>nil\<close> the
  empty list.  A routine that follows \<open>nil\<close> gives \<open>Nilref\<close>, one that calls \<open>panic\<close> gives \<open>Panic\<close>.  Lengths are
  natural numbers: a chain of 2 GB, whose length overflows \<open>int\<close>, and running out of memory are outside the model.
\<close>

section \<open>Blocks\<close>

record Block =
  brp :: nat
  bwp :: nat
  blim :: nat
  buf :: "byte list"

datatype berr = Nilref | Panic

definition BLEN :: "Block \<Rightarrow> nat" where
  "BLEN b = bwp b - brp b"

definition BALLOC :: "Block \<Rightarrow> nat" where
  "BALLOC b = blim b"

definition allocb :: "nat \<Rightarrow> Block" where
  "allocb sz = \<lparr>brp = 0, bwp = 0, blim = sz, buf = replicate sz 0\<rparr>"

text \<open>The bytes from \<open>rp\<close> to \<open>wp\<close>, and \<open>memmove(b->wp, ...); b->wp += n\<close>.\<close>

definition bdata :: "Block \<Rightarrow> byte list" where
  "bdata b = take (BLEN b) (drop (brp b) (buf b))"

definition bput :: "byte list \<Rightarrow> Block \<Rightarrow> Block" where
  "bput bs b = b\<lparr>buf := take (bwp b) (buf b) @ bs @ drop (bwp b + length bs) (buf b), bwp := bwp b + length bs\<rparr>"

text \<open>\<open>checkb\<close>, which panics otherwise.\<close>

definition checkb :: "Block \<Rightarrow> bool" where
  "checkb b \<longleftrightarrow> brp b \<le> blim b \<and> bwp b \<le> blim b"

definition padblock :: "Block list \<Rightarrow> int \<Rightarrow> berr + Block list" where
  "padblock bs sz =
     (case bs of
        [] \<Rightarrow> Inl Nilref
      | bp # next \<Rightarrow>
          if sz \<ge> 0 then
            if int (brp bp) \<ge> sz then Inr (bp\<lparr>brp := brp bp - nat sz\<rparr> # next)
            else if next \<noteq> [] then Inl Panic
            else
              let n = BLEN bp; nbp = allocb (nat sz + n);
                  nbp = nbp\<lparr>brp := nat sz, bwp := nat sz\<rparr>;
                  nbp = bput (bdata bp) nbp
              in Inr [nbp\<lparr>brp := brp nbp - nat sz\<rparr>]
          else if next \<noteq> [] then Inl Panic
          else if int (blim bp) - int (bwp bp) \<ge> - sz then Inr [bp]
          else
            let n = BLEN bp; nbp = allocb (nat (- sz) + n)
            in Inr [bput (bdata bp) nbp])"

primrec blocklen :: "Block list \<Rightarrow> nat" where
  "blocklen [] = 0"
| "blocklen (b # bs) = BLEN b + blocklen bs"

primrec blockalloclen :: "Block list \<Rightarrow> nat" where
  "blockalloclen [] = 0"
| "blockalloclen (b # bs) = BALLOC b + blockalloclen bs"

fun concat_loop :: "Block \<Rightarrow> Block list \<Rightarrow> Block" where
  "concat_loop nb [] = nb"
| "concat_loop nb (f # fs) = concat_loop (bput (bdata f) nb) fs"

definition concatblock :: "Block list \<Rightarrow> berr + Block list" where
  "concatblock bs =
     (case bs of
        [] \<Rightarrow> Inl Nilref
      | bp # next \<Rightarrow> if next = [] then Inr bs else Inr [concat_loop (allocb (blocklen bs)) bs])"

fun pullup_loop :: "Block \<Rightarrow> Block list \<Rightarrow> nat \<Rightarrow> Block list" where
  "pullup_loop bp [] n = []"
| "pullup_loop bp (nbp # next) n =
     (let i = BLEN nbp in
      if i > n then bput (take n (bdata nbp)) bp # nbp\<lparr>brp := brp nbp + n\<rparr> # next
      else
        let bp = bput (bdata nbp) bp; n = n - i
        in if n = 0 then bp # next else pullup_loop bp next n)"

definition pullupblock :: "Block list \<Rightarrow> nat \<Rightarrow> berr + Block list" where
  "pullupblock bs n =
     (case bs of
        [] \<Rightarrow> Inl Nilref
      | bp # next \<Rightarrow>
          if BLEN bp \<ge> n then Inr bs
          else
            let (bp, next) = (if blim bp - brp bp < n then (allocb n, bs) else (bp, next))
            in Inr (pullup_loop bp next (n - BLEN bp)))"

fun trim_front :: "Block list \<Rightarrow> nat \<Rightarrow> berr + Block list" where
  "trim_front [] off = Inl Nilref"
| "trim_front (bp # bs) off =
     (if BLEN bp < off then trim_front bs (off - BLEN bp) else Inr (bp\<lparr>brp := brp bp + off\<rparr> # bs))"

fun trim_back :: "Block list \<Rightarrow> nat \<Rightarrow> berr + Block list" where
  "trim_back [] len = Inl Nilref"
| "trim_back (bp # bs) len =
     (if BLEN bp < len then map_sum id ((#) bp) (trim_back bs (len - BLEN bp))
      else Inr [bp\<lparr>bwp := bwp bp - (BLEN bp - len)\<rparr>])"

text \<open>A result \<open>nil\<close> is the empty list.\<close>

definition trimblock :: "Block list \<Rightarrow> nat \<Rightarrow> nat \<Rightarrow> berr + Block list" where
  "trimblock bs off len =
     (if blocklen bs < off + len then Inr []
      else (case trim_front bs off of Inl e \<Rightarrow> Inl e | Inr bs \<Rightarrow> trim_back bs len))"

fun copy_loop :: "Block \<Rightarrow> Block list \<Rightarrow> nat \<Rightarrow> Block \<times> nat" where
  "copy_loop nbp [] count = (nbp, count)"
| "copy_loop nbp (bp # bs) count =
     (if count > 0 then
        let l = (if BLEN bp > count then count else BLEN bp)
        in copy_loop (bput (take l (bdata bp)) nbp) bs (count - l)
      else (nbp, count))"

definition copyblock :: "Block list \<Rightarrow> nat \<Rightarrow> Block" where
  "copyblock bs count =
     (case copy_loop (allocb count) bs count of
        (nbp, count) \<Rightarrow> if count > 0 then bput (replicate count 0) nbp else nbp)"

definition adjustblock :: "Block list \<Rightarrow> int \<Rightarrow> berr + Block list" where
  "adjustblock bs len =
     (case bs of
        [] \<Rightarrow> Inl Nilref
      | bp # next \<Rightarrow>
          if len < 0 then Inr []
          else if brp bp + nat len > blim bp then Inr [copyblock bs (nat len)]
          else
            let n = BLEN bp;
                bp = (if nat len > n then (bput (replicate (nat len - n) 0) bp) else bp)
            in Inr (bp\<lparr>bwp := brp bp + nat len\<rparr> # next))"

text \<open>\<open>pullblock\<close> gives the number of bytes thrown away and the rest.\<close>

fun pullblock :: "Block list \<Rightarrow> nat \<Rightarrow> nat \<times> Block list" where
  "pullblock [] count = (0, [])"
| "pullblock (bp # bs) count =
     (if count = 0 then (0, bp # bs)
      else
        let n = (if count < BLEN bp then count else BLEN bp);
            bp = bp\<lparr>brp := brp bp + n\<rparr>
        in if BLEN bp = 0 then (case pullblock bs (count - n) of (k, r) \<Rightarrow> (n + k, r))
           else (n, bp # bs))"

definition packblock1 :: "Block \<Rightarrow> Block" where
  "packblock1 nbp = (if 4 * BLEN nbp < BALLOC nbp then bput (bdata nbp) (allocb (BLEN nbp)) else nbp)"

definition packblock :: "Block list \<Rightarrow> Block list" where
  "packblock bs = map packblock1 bs"

text \<open>\<open>bl2mem\<close> gives the bytes written to memory and the first block that was not consumed, with those after it.\<close>

fun bl2mem :: "Block list \<Rightarrow> nat \<Rightarrow> byte list \<times> Block list" where
  "bl2mem [] n = ([], [])"
| "bl2mem (b # next) n =
     (if BLEN b > n then (take n (bdata b), b\<lparr>brp := brp b + n\<rparr> # next)
      else (case bl2mem next (n - BLEN b) of (m, r) \<Rightarrow> (bdata b @ m, r)))"

definition Maxatomic :: nat where
  "Maxatomic = 32 * 1024"

function mem2bl :: "byte list \<Rightarrow> Block list" where
  "mem2bl p =
     (let n = (if length p > Maxatomic then Maxatomic else length p);
          b = bput (take n p) (allocb n); rest = drop n p
      in if rest \<noteq> [] then b # mem2bl rest else [b])"
  by pat_completeness auto
termination
  by (relation "measure length") (auto simp: Maxatomic_def Let_def split: if_splits)

declare mem2bl.simps [simp del]

section \<open>Well-formed blocks and their data\<close>

definition bwf :: "Block \<Rightarrow> bool" where
  "bwf b \<longleftrightarrow> length (buf b) = blim b \<and> brp b \<le> bwp b \<and> bwp b \<le> blim b"

definition cbytes :: "Block list \<Rightarrow> byte list" where
  "cbytes bs = concat (map bdata bs)"

lemma cbytes_simps [simp]: "cbytes [] = []" "cbytes (b # bs) = bdata b @ cbytes bs" "cbytes (as @ bs) = cbytes as @ cbytes bs"
  by (simp_all add: cbytes_def)

lemma length_bdata [simp]: "bwf b \<Longrightarrow> length (bdata b) = BLEN b"
  by (auto simp: bwf_def bdata_def BLEN_def)

lemma length_cbytes: "\<forall>b\<in>set bs. bwf b \<Longrightarrow> length (cbytes bs) = blocklen bs"
  by (induction bs) simp_all

lemma allocb_ok [simp]: "bwf (allocb n)" "bdata (allocb n) = []" "BLEN (allocb n) = 0" "blim (allocb n) = n" "brp (allocb n) = 0" "bwp (allocb n) = 0"
  by (simp_all add: allocb_def bwf_def bdata_def BLEN_def)

lemma bput_ok:
  assumes "bwf b" "bwp b + length bs \<le> blim b"
  shows "bwf (bput bs b)" "bdata (bput bs b) = bdata b @ bs" "brp (bput bs b) = brp b" "blim (bput bs b) = blim b"
    "bwp (bput bs b) = bwp b + length bs" "BLEN (bput bs b) = BLEN b + length bs"
proof -
  show w: "bwf (bput bs b)" "brp (bput bs b) = brp b" "blim (bput bs b) = blim b" "bwp (bput bs b) = bwp b + length bs"
     "BLEN (bput bs b) = BLEN b + length bs"
    using assms by (auto simp: bwf_def bput_def BLEN_def)
  have "drop (brp b) (take (bwp b) (buf b)) = bdata b"
    by (simp add: bdata_def BLEN_def drop_take)
  moreover have "length (bdata b) = BLEN b"
    using assms(1) by simp
  ultimately show "bdata (bput bs b) = bdata b @ bs"
    using assms w(5) unfolding bdata_def [of "bput bs b"]
    by (simp add: w(2) bput_def bwf_def)
qed

lemma brp_forward:
  assumes "bwf b" "n \<le> BLEN b"
  shows "bwf (b\<lparr>brp := brp b + n\<rparr>)" "bdata (b\<lparr>brp := brp b + n\<rparr>) = drop n (bdata b)" "BLEN (b\<lparr>brp := brp b + n\<rparr>) = BLEN b - n"
  using assms by (auto simp: bwf_def bdata_def BLEN_def drop_take add.commute)

lemma bwp_back:
  assumes "bwf b" "n \<le> BLEN b"
  shows "bwf (b\<lparr>bwp := bwp b - (BLEN b - n)\<rparr>)" "bdata (b\<lparr>bwp := bwp b - (BLEN b - n)\<rparr>) = take n (bdata b)"
  using assms by (auto simp: bwf_def bdata_def BLEN_def min_def)

lemma concat_loop_ok:
  "\<lbrakk>bwf nb; \<forall>b\<in>set bs. bwf b; bwp nb + blocklen bs \<le> blim nb\<rbrakk>
    \<Longrightarrow> bwf (concat_loop nb bs) \<and> bdata (concat_loop nb bs) = bdata nb @ cbytes bs"
  by (induction bs arbitrary: nb) (auto simp: bput_ok)

lemma pullup_loop_ok:
  "\<lbrakk>bwf bp; \<forall>b\<in>set bs. bwf b; 0 < n; bwp bp + n \<le> blim bp\<rbrakk>
    \<Longrightarrow> if n \<le> blocklen bs
      then \<exists>b r. pullup_loop bp bs n = b # r \<and> bwf b \<and> (\<forall>b\<in>set r. bwf b) \<and> BLEN b = BLEN bp + n \<and> cbytes (b # r) = bdata bp @ cbytes bs
      else pullup_loop bp bs n = []"
proof (induction bs arbitrary: bp n)
  case Nil
  then show ?case
    by simp
next
  case (Cons nb bs)
  have nb: "bwf nb"
    using Cons.prems(2) by simp
  show ?case
  proof (cases "n < BLEN nb")
    case True
    have "bwp bp + length (take n (bdata nb)) \<le> blim bp"
      using Cons.prems(4) by simp
    note p = bput_ok [OF Cons.prems(1) this]
    show ?thesis
      using True p brp_forward [OF nb, of n] Cons.prems nb by (simp add: Let_def)
  next
    case False
    have "bwp bp + length (bdata nb) \<le> blim bp"
      using Cons.prems(4) False nb by simp
    note p = bput_ok [OF Cons.prems(1) this]
    show ?thesis
    proof (cases "n = BLEN nb")
      case True
      then show ?thesis
        using p Cons.prems nb by (simp add: Let_def)
    next
      case d: False
      have "0 < n - BLEN nb" "bwp (bput (bdata nb) bp) + (n - BLEN nb) \<le> blim (bput (bdata nb) bp)"
        using False d p Cons.prems(4) nb by simp_all
      note ih = Cons.IH [OF p(1) _ this]
      have e: "pullup_loop bp (nb # bs) n = pullup_loop (bput (bdata nb) bp) bs (n - BLEN nb)" "BLEN nb \<le> n"
        using False d by (simp_all add: Let_def)
      then show ?thesis
        using ih Cons.prems(2) p nb unfolding e(1) by (auto simp: le_diff_conv2 split: if_splits)
    qed
  qed
qed

lemma trim_front_ok:
  "\<lbrakk>\<forall>b\<in>set bs. bwf b; bs \<noteq> []; off \<le> blocklen bs\<rbrakk>
    \<Longrightarrow> \<exists>r. trim_front bs off = Inr r \<and> (\<forall>b\<in>set r. bwf b) \<and> r \<noteq> [] \<and> cbytes r = drop off (cbytes bs)"
proof (induction bs arbitrary: off)
  case (Cons b bs)
  show ?case
  proof (cases "BLEN b < off")
    case True
    then have "bs \<noteq> []"
      using Cons.prems(3) by auto
    then show ?thesis
      using Cons.IH [of "off - BLEN b"] Cons.prems True by auto
  next
    case False
    then show ?thesis
      using brp_forward [of b off] Cons.prems by simp
  qed
qed simp

lemma trim_back_ok:
  "\<lbrakk>\<forall>b\<in>set bs. bwf b; bs \<noteq> []; len \<le> blocklen bs\<rbrakk>
    \<Longrightarrow> \<exists>r. trim_back bs len = Inr r \<and> (\<forall>b\<in>set r. bwf b) \<and> cbytes r = take len (cbytes bs)"
proof (induction bs arbitrary: len)
  case (Cons b bs)
  show ?case
  proof (cases "BLEN b < len")
    case True
    then have "bs \<noteq> []"
      using Cons.prems(3) by auto
    moreover have "len - BLEN b \<le> blocklen bs"
      using Cons.prems(3) by simp
    ultimately obtain r where "trim_back bs (len - BLEN b) = Inr r" "\<forall>b\<in>set r. bwf b" "cbytes r = take (len - BLEN b) (cbytes bs)"
      using Cons.IH [of "len - BLEN b"] Cons.prems by auto
    then show ?thesis
      using Cons.prems True by simp
  next
    case False
    then show ?thesis
      using bwp_back [of b len] Cons.prems by simp
  qed
qed simp

lemma copy_loop_ok:
  "\<lbrakk>bwf nb; \<forall>b\<in>set bs. bwf b; bwp nb + count \<le> blim nb; copy_loop nb bs count = (nb', count')\<rbrakk>
    \<Longrightarrow> bwf nb' \<and> bdata nb' = bdata nb @ take count (cbytes bs) \<and> count' = count - length (cbytes bs)
      \<and> bwp nb' + count' \<le> blim nb'"
proof (induction bs arbitrary: nb count)
  case (Cons b bs)
  define l where "l = (if BLEN b > count then count else BLEN b)"
  have b: "bwf b" "l \<le> count"
    using Cons.prems(2) by (simp_all add: l_def)
  have "bwp nb + length (take l (bdata b)) \<le> blim nb"
    using Cons.prems(3) b(2) by simp
  note p = bput_ok [OF Cons.prems(1) this]
  show ?case
  proof (cases "count > 0")
    case True
    then have e: "copy_loop (bput (take l (bdata b)) nb) bs (count - l) = (nb', count')"
      using Cons.prems(4) by (simp add: l_def Let_def)
    have "bwp (bput (take l (bdata b)) nb) + (count - l) \<le> blim (bput (take l (bdata b)) nb)"
      using p Cons.prems(3) b by simp
    from Cons.IH [OF p(1) _ this e] show ?thesis
      using Cons.prems(2) p b by (auto simp: l_def min_def split: if_splits)
  qed (use Cons.prems in simp)
qed simp

lemma copyblock_ok:
  assumes "\<forall>b\<in>set bs. bwf b"
  shows "bwf (copyblock bs count)" "bdata (copyblock bs count) = take count (cbytes bs) @ replicate (count - blocklen bs) 0"
proof -
  obtain nb c where e: "copy_loop (allocb count) bs count = (nb, c)"
    by fastforce
  have n: "bwf nb" "bdata nb = take count (cbytes bs)" "c = count - blocklen bs" "bwp nb + c \<le> blim nb"
    using copy_loop_ok [OF _ assms _ e] length_cbytes [OF assms] by simp_all
  show "bwf (copyblock bs count)" "bdata (copyblock bs count) = take count (cbytes bs) @ replicate (count - blocklen bs) 0"
    using n bput_ok [OF n(1), of "replicate c 0"] by (simp_all add: copyblock_def e)
qed

lemma bwf_checkb: "bwf b \<Longrightarrow> checkb b"
  by (simp add: bwf_def checkb_def)

lemma adjustblock_ok:
  assumes "bwf b"
  shows "\<exists>b'. adjustblock [b] (int n) = Inr [b'] \<and> bwf b' \<and> bdata b' = take n (bdata b) @ replicate (n - BLEN b) 0"
proof (cases "brp b + n > blim b")
  case True
  then show ?thesis
    using copyblock_ok [of "[b]" n] assms by (auto simp: adjustblock_def)
next
  case False
  show ?thesis
  proof (cases "n > BLEN b")
    case True
    have w: "bwp b = brp b + BLEN b"
      using assms by (simp add: bwf_def BLEN_def)
    have "bwp b + length (replicate (n - BLEN b) (0 :: byte)) \<le> blim b"
      using False True w by simp
    note p = bput_ok [OF assms this]
    have "bwp (bput (replicate (n - BLEN b) 0) b) = brp b + n"
      using p(5) True w by simp
    then have "(bput (replicate (n - BLEN b) 0) b)\<lparr>bwp := brp b + n\<rparr> = bput (replicate (n - BLEN b) 0) b"
      by (metis Block.surjective Block.update_convs(2))
    then show ?thesis
      using False True p assms by (simp add: adjustblock_def Let_def)
  next
    case le: False
    have "bwp b - (BLEN b - n) = brp b + n"
      using le assms unfolding bwf_def BLEN_def by linarith
    then show ?thesis
      using bwp_back [OF assms, of n] le False by (simp add: adjustblock_def Let_def)
  qed
qed

lemma pullblock_ok:
  "\<lbrakk>\<forall>b\<in>set bs. bwf b; pullblock bs count = (k, r)\<rbrakk>
    \<Longrightarrow> k = min count (blocklen bs) \<and> (\<forall>b\<in>set r. bwf b) \<and> cbytes r = drop count (cbytes bs)"
proof (induction bs arbitrary: count k r)
  case (Cons b bs)
  define n where "n = (if count < BLEN b then count else BLEN b)"
  have b: "bwf b" "n \<le> BLEN b"
    using Cons.prems(1) by (simp_all add: n_def)
  note f = brp_forward [OF b]
  show ?case
  proof (cases "count = 0 \<or> n < BLEN b")
    case True
    then show ?thesis
      using Cons.prems f b by (auto simp: n_def Let_def split: if_splits)
  next
    case False
    obtain k' r' where e: "pullblock bs (count - n) = (k', r')"
      by fastforce
    then have "k = n + k'" "r = r'" "n = BLEN b" "n \<le> count"
      using False Cons.prems(2) f(3) b by (auto simp: n_def [symmetric] Let_def split: if_splits) (simp_all add: n_def split: if_splits)
    then show ?thesis
      using Cons.IH [OF _ e] Cons.prems(1) b by (auto simp: min_def)
  qed
qed simp

lemma packblock1_ok: "bwf b \<Longrightarrow> bwf (packblock1 b) \<and> bdata (packblock1 b) = bdata b \<and> BALLOC (packblock1 b) \<le> BALLOC b"
  by (auto simp: packblock1_def bput_ok BALLOC_def)

lemma packblock_ok: "\<forall>b\<in>set bs. bwf b \<Longrightarrow> (\<forall>b\<in>set (packblock bs). bwf b) \<and> cbytes (packblock bs) = cbytes bs"
  by (induction bs) (auto simp: packblock_def packblock1_ok)

lemma bl2mem_ok:
  "\<lbrakk>\<forall>b\<in>set bs. bwf b; bl2mem bs n = (m, r)\<rbrakk> \<Longrightarrow> m = take n (cbytes bs) \<and> (\<forall>b\<in>set r. bwf b) \<and> cbytes r = drop n (cbytes bs)"
proof (induction bs arbitrary: n m r)
  case (Cons b bs)
  show ?case
  proof (cases "BLEN b > n")
    case True
    then show ?thesis
      using Cons.prems brp_forward [of b n] by auto
  next
    case False
    obtain m' r' where e: "bl2mem bs (n - BLEN b) = (m', r')"
      by fastforce
    then have "m = bdata b @ m'" "r = r'"
      using False Cons.prems(2) by auto
    then show ?thesis
      using Cons.IH [OF _ e] Cons.prems(1) False by auto
  qed
qed simp

lemma mem2bl_ok: "cbytes (mem2bl p) = p \<and> (\<forall>b\<in>set (mem2bl p). bwf b \<and> BLEN b \<le> Maxatomic \<and> BALLOC b = BLEN b)"
proof (induction p rule: mem2bl.induct)
  case (1 p)
  define n where "n = (if length p > Maxatomic then Maxatomic else length p)"
  define b where "b = bput (take n p) (allocb n)"
  have n: "n \<le> length p" "n \<le> Maxatomic"
    by (simp_all add: n_def)
  have b: "bwf b" "bdata b = take n p" "BLEN b = n" "BALLOC b = n"
    using n bput_ok [of "allocb n" "take n p"] by (simp_all add: b_def BALLOC_def)
  have e: "mem2bl p = (if drop n p \<noteq> [] then b # mem2bl (drop n p) else [b])"
    unfolding b_def n_def by (subst mem2bl.simps) (simp add: Let_def)
  show ?case
  proof (cases "drop n p = []")
    case True
    then show ?thesis
      using e b n by simp
  next
    case False
    then show ?thesis
      using 1 [OF n_def b_def refl] e b n by simp
  qed
qed


lemma pullupblock_ok:
  assumes wf: "\<forall>b\<in>set bs. bwf b" and ne: "bs \<noteq> []"
  shows "if n \<le> blocklen bs \<or> n = 0
    then \<exists>b r. pullupblock bs n = Inr (b # r) \<and> (\<forall>b\<in>set (b # r). bwf b) \<and> n \<le> BLEN b \<and> (BLEN (hd bs) < n \<longrightarrow> BLEN b = n)
      \<and> cbytes (b # r) = cbytes bs
    else pullupblock bs n = Inr []"
proof -
  obtain bp nx where bs: "bs = bp # nx"
    using ne by (cases bs) auto
  show ?thesis
  proof (cases "BLEN bp \<ge> n")
    case True
    then show ?thesis
      using wf by (simp add: bs pullupblock_def)
  next
    case False
    define p where "p = (if blim bp - brp bp < n then (allocb n, bs) else (bp, nx))"
    have e: "pullupblock bs n = Inr (pullup_loop (fst p) (snd p) (n - BLEN (fst p)))"
      using False by (simp add: pullupblock_def bs p_def split: prod.splits)
    have "bwf (fst p)" "\<forall>b\<in>set (snd p). bwf b" "0 < n - BLEN (fst p)" "bwp (fst p) + (n - BLEN (fst p)) \<le> blim (fst p)"
      using False wf by (auto simp: p_def bs bwf_def BLEN_def allocb_def)
    note l = pullup_loop_ok [OF this]
    have "n - BLEN (fst p) \<le> blocklen (snd p) \<longleftrightarrow> n \<le> blocklen bs" "bdata (fst p) @ cbytes (snd p) = cbytes bs" "BLEN (fst p) + (n - BLEN (fst p)) = n"
      using False by (auto simp: p_def bs)
    then show ?thesis
      using l False unfolding e by (auto simp: bs split: if_splits)
  qed
qed

lemma padblock_ok:
  assumes "bwf bp"
  shows "0 \<le> sz \<Longrightarrow> sz \<le> int (brp bp) \<or> nx = [] \<Longrightarrow> \<exists>b. padblock (bp # nx) sz = Inr (b # nx) \<and> bwf b
      \<and> BLEN b = BLEN bp + nat sz \<and> drop (nat sz) (bdata b) = bdata bp"
    and "sz < 0 \<Longrightarrow> nx = [] \<Longrightarrow> \<exists>b. padblock (bp # nx) sz = Inr [b] \<and> bwf b \<and> bdata b = bdata bp \<and> bwp b + nat (- sz) \<le> blim b"
    and "nx \<noteq> [] \<Longrightarrow> \<not> (0 \<le> sz \<and> sz \<le> int (brp bp)) \<Longrightarrow> padblock (bp # nx) sz = Inl Panic"
proof -
  show "\<exists>b. padblock (bp # nx) sz = Inr (b # nx) \<and> bwf b \<and> BLEN b = BLEN bp + nat sz \<and> drop (nat sz) (bdata b) = bdata bp"
    if "0 \<le> sz" "sz \<le> int (brp bp) \<or> nx = []"
  proof (cases "sz \<le> int (brp bp)")
    case True
    define b where "b = bp\<lparr>brp := brp bp - nat sz\<rparr>"
    have "bwf b" "BLEN b = BLEN bp + nat sz" "bp = b\<lparr>brp := brp b + nat sz\<rparr>" "nat sz \<le> BLEN b"
      using assms True that(1) by (auto simp: b_def bwf_def BLEN_def)
    moreover have "padblock (bp # nx) sz = Inr (b # nx)"
      using True that(1) by (simp add: padblock_def b_def)
    ultimately show ?thesis
      using brp_forward(2) [of b "nat sz"] by metis
  next
    case False
    define b0 where "b0 = (allocb (nat sz + BLEN bp))\<lparr>brp := nat sz, bwp := nat sz\<rparr>"
    have b0: "bwf b0" "bwp b0 + length (bdata bp) \<le> blim b0" "bdata b0 = []" "brp b0 = nat sz" "BLEN b0 = 0" "bwp b0 = nat sz"
      using assms by (auto simp: b0_def bwf_def allocb_def BLEN_def bdata_def)
    note p = bput_ok [OF b0(1,2)]
    define b where "b = (bput (bdata bp) b0)\<lparr>brp := brp (bput (bdata bp) b0) - nat sz\<rparr>"
    have "bwf b" "BLEN b = BLEN bp + nat sz" "bput (bdata bp) b0 = b\<lparr>brp := brp b + nat sz\<rparr>" "nat sz \<le> BLEN b"
      using p b0 assms by (auto simp: b_def bwf_def BLEN_def [of "_\<lparr>brp := _\<rparr>"])
    moreover have "padblock (bp # nx) sz = Inr (b # nx)"
      using False that by (simp add: padblock_def b_def b0_def Let_def)
    ultimately show ?thesis
      using brp_forward(2) [of b "nat sz"] p(2) b0(3) by auto
  qed
  show "\<exists>b. padblock (bp # nx) sz = Inr [b] \<and> bwf b \<and> bdata b = bdata bp \<and> bwp b + nat (- sz) \<le> blim b" if "sz < 0" "nx = []"
  proof (cases "int (blim bp) - int (bwp bp) \<ge> - sz")
    case True
    then show ?thesis
      using that assms by (auto simp: padblock_def)
  next
    case False
    then show ?thesis
      using that assms bput_ok [of "allocb (nat (- sz) + BLEN bp)" "bdata bp"] by (auto simp: padblock_def Let_def)
  qed
  show "padblock (bp # nx) sz = Inl Panic" if "nx \<noteq> []" "\<not> (0 \<le> sz \<and> sz \<le> int (brp bp))"
    using that by (auto simp: padblock_def)
qed

text \<open>
  Claim C40 (functional).  The routines that change how a chain of blocks holds its bytes.  \<open>concatblock\<close>, \<open>packblock\<close> and, when there
  are enough bytes, \<open>pullupblock\<close> keep the bytes of a chain; \<open>pullupblock\<close> leaves at least \<open>n\<close> bytes in the first
  block, exactly \<open>n\<close> if there were fewer, and gives nothing when the chain is too short.  No store leaves a block.
\<close>

theorem block_layout_correct:
  assumes "\<forall>b\<in>set bs. bwf b" and "bs \<noteq> []"
  shows "(\<exists>b. concatblock bs = Inr [b] \<and> bwf b \<and> bdata b = cbytes bs)
    \<and> (\<forall>b\<in>set (packblock bs). bwf b) \<and> cbytes (packblock bs) = cbytes bs
    \<and> (if n \<le> blocklen bs \<or> n = 0
       then \<exists>b r. pullupblock bs n = Inr (b # r) \<and> (\<forall>b\<in>set (b # r). bwf b) \<and> n \<le> BLEN b \<and> (BLEN (hd bs) < n \<longrightarrow> BLEN b = n)
         \<and> cbytes (b # r) = cbytes bs
       else pullupblock bs n = Inr [])"
proof -
  have "\<exists>b. concatblock bs = Inr [b] \<and> bwf b \<and> bdata b = cbytes bs"
    using assms concat_loop_ok [of "allocb (blocklen bs)" bs] by (cases bs) (auto simp: concatblock_def)
  then show ?thesis
    using packblock_ok [OF assms(1)] pullupblock_ok [OF assms] by blast
qed

theorem block_layout_correct_witness:
  "\<exists>b r. pullupblock (mem2bl [1, 2] @ mem2bl [3, 4]) 3 = Inr (b # r) \<and> BLEN b = 3 \<and> cbytes (b # r) = [1, 2, 3, 4]"
proof -
  let ?bs = "mem2bl [1, 2] @ mem2bl [3, 4]"
  have wf: "\<forall>b\<in>set ?bs. bwf b"
    using mem2bl_ok by auto
  have c: "cbytes ?bs = [1, 2, 3, 4]"
    using mem2bl_ok by simp
  have l: "BLEN (hd ?bs) = 2" "?bs \<noteq> []"
    by (simp_all add: mem2bl.simps [of "[1, 2]"] bput_def allocb_def BLEN_def Maxatomic_def)
  have "blocklen ?bs = 4"
    using length_cbytes [OF wf] unfolding c by simp
  then show ?thesis
    using block_layout_correct [OF wf l(2), of 3, unfolded c] l(1) by auto
qed

text \<open>
  Property (functional).  The routines that copy or cut a chain: \<open>trimblock\<close> leaves the bytes asked for, or nothing when there are
  not enough, \<open>copyblock\<close> and \<open>adjustblock\<close> (of one block) copy or cut and pad with zeros, \<open>pullblock\<close> and \<open>bl2mem\<close> take bytes from the front and keep the rest.
\<close>

theorem block_cut_correct:
  assumes "\<forall>b\<in>set bs. bwf b" and "bs \<noteq> []"
  shows "(\<exists>r. trimblock bs off len = Inr r \<and> (\<forall>b\<in>set r. bwf b)
      \<and> cbytes r = (if off + len \<le> blocklen bs then take len (drop off (cbytes bs)) else []))
    \<and> (\<exists>b. adjustblock [hd bs] (int n) = Inr [b] \<and> bwf b \<and> bdata b = take n (bdata (hd bs)) @ replicate (n - BLEN (hd bs)) 0)
    \<and> bwf (copyblock bs n) \<and> bdata (copyblock bs n) = take n (cbytes bs) @ replicate (n - blocklen bs) 0
    \<and> (\<exists>r. pullblock bs n = (min n (blocklen bs), r) \<and> (\<forall>b\<in>set r. bwf b) \<and> cbytes r = drop n (cbytes bs))
    \<and> (\<exists>r. bl2mem bs n = (take n (cbytes bs), r) \<and> (\<forall>b\<in>set r. bwf b) \<and> cbytes r = drop n (cbytes bs))"
proof -
  have "\<exists>r. trimblock bs off len = Inr r \<and> (\<forall>b\<in>set r. bwf b)
      \<and> cbytes r = (if off + len \<le> blocklen bs then take len (drop off (cbytes bs)) else [])"
  proof (cases "off + len \<le> blocklen bs")
    case True
    then obtain r where r: "trim_front bs off = Inr r" "\<forall>b\<in>set r. bwf b" "r \<noteq> []" "cbytes r = drop off (cbytes bs)"
      using trim_front_ok [OF assms, of off] by auto
    then have "len \<le> blocklen r"
      using True length_cbytes [OF r(2)] length_cbytes [OF assms(1)] by simp
    then show ?thesis
      using trim_back_ok [OF r(2,3)] r(1,4) True by (auto simp: trimblock_def)
  qed (simp add: trimblock_def)
  moreover obtain k r where "pullblock bs n = (k, r)"
    by fastforce
  moreover obtain m s where "bl2mem bs n = (m, s)"
    by fastforce
  ultimately show ?thesis
    using copyblock_ok [OF assms(1)] pullblock_ok [OF assms(1), of n k r] bl2mem_ok [OF assms(1), of n m s]
      adjustblock_ok [of "hd bs" n] assms by simp
qed

theorem block_cut_correct_witness:
  "\<exists>r. trimblock (mem2bl [1, 2] @ mem2bl [3, 4]) 1 2 = Inr r \<and> cbytes r = [2, 3]"
proof -
  let ?bs = "mem2bl [1, 2] @ mem2bl [3, 4]"
  have wf: "\<forall>b\<in>set ?bs. bwf b" and c: "cbytes ?bs = [1, 2, 3, 4]"
    using mem2bl_ok by auto
  have "?bs \<noteq> []"
    using c by force
  moreover have "blocklen ?bs = 4"
    using length_cbytes [OF wf] unfolding c by simp
  ultimately show ?thesis
    using block_cut_correct [OF wf, of 1 2 0, unfolded c] by auto
qed

end
