(* ===== verification/Qio_Queue.thy ===== *)
theory Qio_Queue
  imports Qio_Block
begin

text \<open>
  The I/O queues of the hosted system (\<^verbatim>\<open>src/emu/port/qio.c\<close>).  A routine is a function on the queue; what it does
  under the queue's lock is one function, and it returns the calls it makes after the lock is released: \<open>Wakeup\<close> of the
  reader or the writer, the driver's \<open>kick\<close> and \<open>bypass\<close>.  A routine that may sleep is cut where it sleeps, and \<open>qread\<close>
  where it releases the lock to copy.  The theory defines the routines and shows that each keeps the counts of the
  queue right, and what it does to the bytes on the queue.  Lengths given by callers are not negative; \<open>iallocb\<close> does not fail.
\<close>

section \<open>Queues\<close>

text \<open>
  The flags \<open>Qstarve\<close>, \<open>Qmsg\<close>, \<open>Qclosed\<close>, \<open>Qflow\<close>, \<open>Qcoalesce\<close> and \<open>Qkick\<close> of \<open>state\<close> are fields; \<open>kick\<close> and
  \<open>bypass\<close> say whether the queue has such a routine, which belongs to the driver.
\<close>

record Queue =
  blocks :: "Block list"
  qlen :: int
  qdlen :: int
  limit :: int
  inilim :: int
  starve :: bool
  msg :: bool
  closed :: bool
  flow :: bool
  coalesce :: bool
  alwayskick :: bool
  noblock :: bool
  eof :: nat
  kick :: bool
  bypass :: bool
  err :: "byte list"

text \<open>\<open>kstrcpy\<close> keeps a string within \<open>ns\<close> bytes and cuts it at a character.\<close>

fun kback :: "byte list \<Rightarrow> nat \<Rightarrow> nat" where
  "kback s 0 = 0"
| "kback s (Suc ns) = (if s ! ns AND 0xC0 = 0x80 then kback s ns else ns)"

definition kstrcpy :: "byte list \<Rightarrow> nat \<Rightarrow> byte list" where
  "kstrcpy t ns =
     (if length t + 1 \<le> ns then t
      else if ns < 4 then take ns t
      else take (kback t (ns - 4)) t @ [0x2E, 0x2E, 0x2E])"

definition ERRMAX :: nat where
  "ERRMAX = 128"

definition Ehungup :: "byte list" where
  "Ehungup = map of_char ''i/o on hungup channel''"

text \<open>The calls a routine makes after it has released the queue.\<close>

datatype qcall = Kick | WakeupR | WakeupW | Bypass Block

definition kicks :: "Queue \<Rightarrow> qcall list" where
  "kicks q = (if kick q then [Kick] else [])"

text \<open>C division by two.\<close>

definition lowwater :: "int \<Rightarrow> int" where
  "lowwater l = (if l < 0 then - ((- l) div 2) else l div 2)"

definition qopen :: "int \<Rightarrow> bool \<Rightarrow> bool \<Rightarrow> bool \<Rightarrow> bool \<Rightarrow> Queue" where
  "qopen lim m co ak ki =
     \<lparr>blocks = [], qlen = 0, qdlen = 0, limit = lim, inilim = lim, starve = True, msg = m, closed = False, flow = False,
      coalesce = co, alwayskick = ak, noblock = False, eof = 0, kick = ki, bypass = False, err = []\<rparr>"

definition qbypass :: Queue where
  "qbypass = (qopen 0 False False False False)\<lparr>starve := False, bypass := True\<rparr>"

definition qaddlist :: "Block list \<Rightarrow> Queue \<Rightarrow> Queue" where
  "qaddlist bs q = q\<lparr>blocks := blocks q @ bs, qlen := qlen q + int (blockalloclen bs), qdlen := qdlen q + int (blocklen bs)\<rparr>"

text \<open>The reaction to \<open>Qstarve\<close>, and the restart of flow controlled writers.\<close>

definition unstarve :: "Queue \<Rightarrow> Queue \<times> bool" where
  "unstarve q = (if starve q then (q\<lparr>starve := False\<rparr>, True) else (q, False))"

definition restart :: "int \<Rightarrow> Queue \<Rightarrow> Queue \<times> bool" where
  "restart low q = (if flow q \<and> qlen q < low then (q\<lparr>flow := False\<rparr>, True) else (q, False))"

definition wakes :: "qcall \<Rightarrow> Queue \<times> bool \<Rightarrow> Queue \<times> qcall list" where
  "wakes c r = (fst r, if snd r then [c] else [])"

definition qwakeup_unlock :: "Queue \<Rightarrow> Queue \<times> qcall list" where
  "qwakeup_unlock q = (case restart (lowwater (limit q)) q of (q, w) \<Rightarrow> (q, if w then kicks q @ [WakeupW] else []))"

definition qremove :: "Queue \<Rightarrow> Block option \<times> Queue" where
  "qremove q =
     (case blocks q of
        [] \<Rightarrow> (None, q)
      | b # bs \<Rightarrow> (Some b, q\<lparr>blocks := bs, qdlen := qdlen q - int (BLEN b), qlen := qlen q - int (BALLOC b)\<rparr>))"

definition qputback :: "Block \<Rightarrow> Queue \<Rightarrow> Queue" where
  "qputback b q = q\<lparr>blocks := b # blocks q, qlen := qlen q + int (BALLOC b), qdlen := qdlen q + int (BLEN b)\<rparr>"

definition qget :: "Queue \<Rightarrow> Block option \<times> Queue \<times> qcall list" where
  "qget q =
     (case blocks q of
        [] \<Rightarrow> (None, q\<lparr>starve := True\<rparr>, [])
      | b # bs \<Rightarrow>
          (Some b, wakes WakeupW (restart (lowwater (limit q))
             (q\<lparr>blocks := bs, qlen := qlen q - int (BALLOC b), qdlen := qdlen q - int (BLEN b)\<rparr>))))"

text \<open>The loop of \<open>qdiscard\<close> gives the bytes dropped, what \<open>len\<close> goes down by, and the rest.\<close>

fun discard_loop :: "Block list \<Rightarrow> nat \<Rightarrow> nat \<times> nat \<times> Block list" where
  "discard_loop [] len = (0, 0, [])"
| "discard_loop (b # bs) len =
     (if len = 0 then (0, 0, b # bs)
      else if BLEN b \<le> len then
        (case discard_loop bs (len - BLEN b) of (n, a, r) \<Rightarrow> (BLEN b + n, BALLOC b + a, r))
      else (len, 0, b\<lparr>brp := brp b + len\<rparr> # bs))"

definition qdiscard :: "nat \<Rightarrow> Queue \<Rightarrow> nat \<times> Queue \<times> qcall list" where
  "qdiscard len q =
     (case discard_loop (blocks q) len of
        (n, a, r) \<Rightarrow>
          (n, wakes WakeupW (restart (limit q) (q\<lparr>blocks := r, qlen := qlen q - int a, qdlen := qdlen q - int n\<rparr>))))"

fun skip_empty :: "Block list \<Rightarrow> nat \<times> Block list" where
  "skip_empty [] = (0, [])"
| "skip_empty (b # bs) =
     (if BLEN b > 0 then (0, b # bs) else (case skip_empty bs of (a, r) \<Rightarrow> (BALLOC b + a, r)))"

text \<open>\<open>None\<close> is the result -1.\<close>

definition qconsume :: "nat \<Rightarrow> Queue \<Rightarrow> byte list option \<times> Queue \<times> qcall list" where
  "qconsume len q =
     (case skip_empty (blocks q) of
        (a, []) \<Rightarrow> (None, q\<lparr>blocks := [], qlen := qlen q - int a, starve := True\<rparr>, [])
      | (a, b # bs) \<Rightarrow>
          let n = BLEN b; len = (if n < len then n else len);
              p = take len (bdata b); b' = b\<lparr>brp := brp b + len\<rparr>;
              q = q\<lparr>qlen := qlen q - int a, qdlen := qdlen q - int len\<rparr>;
              q = (if msg q \<or> len = n
                then q\<lparr>blocks := bs, qlen := qlen q - int (BALLOC b'), qdlen := qdlen q - int (BLEN b')\<rparr>
                else q\<lparr>blocks := b' # bs\<rparr>)
          in (Some p, wakes WakeupW (restart (lowwater (limit q)) q)))"

definition flow_at :: "int \<Rightarrow> Queue \<Rightarrow> Queue" where
  "flow_at l q = (if qlen q \<ge> l then q\<lparr>flow := True\<rparr> else q)"

definition qpass :: "Block list \<Rightarrow> Queue \<Rightarrow> int \<times> Queue \<times> qcall list" where
  "qpass bs q =
     (if qlen q \<ge> limit q then (-1, q, [])
      else if closed q then (int (blocklen bs), q, [])
      else (int (blockalloclen bs), wakes WakeupR (unstarve (flow_at (lowwater (limit q)) (qaddlist bs q)))))"

definition qpassnolim :: "Block list \<Rightarrow> Queue \<Rightarrow> int \<times> Queue \<times> qcall list" where
  "qpassnolim bs q =
     (if closed q then (int (BALLOC (hd bs)), q, [])
      else (int (blockalloclen bs), wakes WakeupR (unstarve (flow_at (lowwater (limit q)) (qaddlist bs q)))))"

definition qproduce :: "byte list \<Rightarrow> Queue \<Rightarrow> int \<times> Queue \<times> qcall list" where
  "qproduce p q =
     (if closed q then (-1, q, [])
      else if qlen q \<ge> limit q then (-1, q\<lparr>flow := True\<rparr>, [])
      else
        (case wakes WakeupR (unstarve (qaddlist [bput p (allocb (length p))] q)) of
           (q, w) \<Rightarrow> (int (length p), flow_at (limit q) q, w)))"

text \<open>\<open>qcopy\<close>: go to the offset (the bytes of the block from there, and the blocks after it), then copy.\<close>

fun qseek :: "Block list \<Rightarrow> nat \<Rightarrow> (byte list \<times> Block list) option" where
  "qseek [] offset = None"
| "qseek (b # bs) offset = (if BLEN b > offset then Some (drop offset (bdata b), bs) else qseek bs (offset - BLEN b))"

fun qcopy_loop :: "Block \<Rightarrow> byte list \<Rightarrow> Block list \<Rightarrow> nat \<Rightarrow> Block" where
  "qcopy_loop nb p [] left = (if left = 0 then nb else bput (take left p) nb)"
| "qcopy_loop nb p (b # bs) left =
     (if left = 0 then nb else qcopy_loop (bput (take left p) nb) (bdata b) bs (left - length (take left p)))"

definition qcopy :: "nat \<Rightarrow> nat \<Rightarrow> Queue \<Rightarrow> Block" where
  "qcopy len offset q =
     (case qseek (blocks q) offset of None \<Rightarrow> allocb len | Some (p, bs) \<Rightarrow> qcopy_loop (allocb len) p bs len)"

section \<open>Reading\<close>

definition notempty :: "Queue \<Rightarrow> bool" where
  "notempty q \<longleftrightarrow> closed q \<or> blocks q \<noteq> []"

text \<open>A round of \<open>qwait\<close>: there is a block (1), the queue is closed (0), it is closed and was read before or has an
  error (-1), or the caller is about to sleep.\<close>

datatype qw = Ready | Eof | Hungup | Sleeps

definition qwait :: "Queue \<Rightarrow> qw \<times> Queue" where
  "qwait q =
     (if blocks q \<noteq> [] then (Ready, q)
      else if closed q then
        let q = q\<lparr>eof := eof q + 1\<rparr> in
        if eof q > 3 then (Hungup, q)
        else if err q \<noteq> [] \<and> err q \<noteq> Ehungup then (Hungup, q)
        else (Eof, q)
      else (Sleeps, q\<lparr>starve := True\<rparr>))"

datatype 'a rres = Returned 'a | AtEof | Raised "byte list" | Asleep

definition qbread :: "nat \<Rightarrow> Queue \<Rightarrow> Block rres \<times> Queue \<times> qcall list" where
  "qbread len q =
     (case qwait q of
        (Eof, q) \<Rightarrow> (AtEof, q, [])
      | (Hungup, q) \<Rightarrow> (Raised (err q), q, [])
      | (Sleeps, q) \<Rightarrow> (Asleep, q, [])
      | (Ready, q) \<Rightarrow>
          (case qremove q of
             (None, q) \<Rightarrow> (Asleep, q, [])
           | (Some b, q) \<Rightarrow>
               let n = BLEN b;
                   (nb, q) = (if n > len then
                     (b\<lparr>bwp := brp b + len\<rparr>,
                      if msg q then q else qputback (bput (drop len (bdata b)) (allocb (n - len))) q)
                     else (b, q))
               in (Returned nb, qwakeup_unlock q)))"

text \<open>The blocks that a coalescing read takes after the first, which has \<open>n\<close> bytes: those that fit.\<close>

fun fit :: "nat \<Rightarrow> nat \<Rightarrow> Block list \<Rightarrow> nat" where
  "fit len n [] = 0"
| "fit len n (b # bs) = (if n + BLEN b > len then 0 else Suc (fit len (n + BLEN b) bs))"

fun qtake :: "nat \<Rightarrow> Queue \<Rightarrow> Block list \<times> Queue" where
  "qtake 0 q = ([], q)"
| "qtake (Suc k) q =
     (case qremove q of (None, q) \<Rightarrow> ([], q) | (Some b, q) \<Rightarrow> (case qtake k q of (bs, q) \<Rightarrow> (b # bs, q)))"

text \<open>\<open>qread\<close> up to the \<open>unlock\<close> before the copy to the caller, and from the \<open>lock\<close> after it.\<close>

function qread_first :: "nat \<Rightarrow> Queue \<Rightarrow> Block list rres \<times> Queue" where
  "qread_first len q =
     (case qwait q of
        (Eof, q) \<Rightarrow> (AtEof, q)
      | (Hungup, q) \<Rightarrow> (Raised (err q), q)
      | (Sleeps, q) \<Rightarrow> (Asleep, q)
      | (Ready, q) \<Rightarrow>
          if coalesce q then
            (case blocks q of
               [] \<Rightarrow> (Asleep, q)
             | b # bs \<Rightarrow>
                 if BLEN b = 0 then qread_first len (snd (qremove q))
                 else (case qtake (Suc (fit len (BLEN b) bs)) q of (first, q) \<Rightarrow> (Returned first, q)))
          else (case qtake 1 q of (first, q) \<Rightarrow> (Returned first, q)))"
  by pat_completeness auto
termination
  by (relation "measure (\<lambda>(len, q). length (blocks q))")
    (auto simp: qwait_def qremove_def Let_def split: if_splits list.splits)

declare qread_first.simps [simp del]

definition qread_finish :: "nat \<Rightarrow> Block list \<Rightarrow> Queue \<Rightarrow> byte list \<times> Queue \<times> qcall list" where
  "qread_finish len first q =
     (case bl2mem first len of
        (m, r) \<Rightarrow>
          (m, qwakeup_unlock (case r of [] \<Rightarrow> q | b # _ \<Rightarrow> if msg q then q else qputback b q)))"

section \<open>Writing\<close>

definition qnotfull :: "Queue \<Rightarrow> bool" where
  "qnotfull q \<longleftrightarrow> qlen q < limit q \<or> closed q"

text \<open>\<open>qbwrite\<close> up to its last loop.  The result says whether the block was queued, with the calls to make, or what was
  raised.\<close>

datatype wres = Queued | Dropped | Bypassed | WRaised "byte list"

definition qbwrite :: "Block \<Rightarrow> Queue \<Rightarrow> wres \<times> Queue \<times> qcall list" where
  "qbwrite b q =
     (if bypass q then (Bypassed, q, [Bypass b])
      else if closed q then (WRaised (err q), q, [])
      else if qlen q \<ge> limit q \<and> noblock q then (Dropped, q, [])
      else
        (case unstarve (qaddlist [b] q) of
           (q, w) \<Rightarrow> (Queued, q, (if w \<or> alwayskick q then kicks q else []) @ (if w then [WakeupR] else []))))"

text \<open>A round of the last loop: the writer goes on, or is about to sleep.\<close>

definition qbwrite_wait :: "Queue \<Rightarrow> bool \<times> Queue" where
  "qbwrite_wait q = (if noblock q \<or> qnotfull q then (True, q) else (False, q\<lparr>flow := True\<rparr>))"

text \<open>A round of \<open>qwrite\<close>: the block for the bytes \<open>p\<close> that are left, and the bytes left after it.\<close>

definition qwrite_put :: "byte list \<Rightarrow> Queue \<Rightarrow> wres \<times> (Queue \<times> qcall list) \<times> byte list" where
  "qwrite_put p q =
     (let n = (if length p > Maxatomic then Maxatomic else length p); b = bput (take n p) (allocb n)
      in case qbwrite b q of (r, q, w) \<Rightarrow> (r, (q, w), drop n p))"

definition qwrite_more :: "byte list \<Rightarrow> Queue \<Rightarrow> bool" where
  "qwrite_more rest q \<longleftrightarrow> rest \<noteq> [] \<and> \<not> msg q"

text \<open>\<open>qiwrite\<close>: the bytes left, \<open>dowakeup\<close>; the result is \<open>sofar\<close>.\<close>

function qiwrite_loop :: "byte list \<Rightarrow> bool \<Rightarrow> Queue \<Rightarrow> nat \<times> Queue \<times> qcall list" where
  "qiwrite_loop p dowakeup q =
     (let n = (if length p > Maxatomic then Maxatomic else length p);
          b = bput (take n p) (allocb n); rest = drop n p;
          (q, w) = unstarve (qaddlist [b] q); dowakeup = (dowakeup \<or> w);
          cs = (if dowakeup then kicks q @ [WakeupR] else [])
      in if qwrite_more rest q
         then (case qiwrite_loop rest dowakeup q of (k, q, cs') \<Rightarrow> (n + k, q, cs @ cs'))
         else (n, q, cs))"
  by pat_completeness auto
termination
  by (relation "measure (\<lambda>(p, d, q). length p)") (auto simp: Maxatomic_def qwrite_more_def Let_def split: if_splits)

declare qiwrite_loop.simps [simp del]

definition qiwrite :: "byte list \<Rightarrow> Queue \<Rightarrow> nat \<times> Queue \<times> qcall list" where
  "qiwrite p q = qiwrite_loop p False q"

section \<open>Closing and controls\<close>

definition qclose :: "Queue \<Rightarrow> Queue \<times> qcall list" where
  "qclose q =
     (q\<lparr>closed := True, flow := False, starve := False, err := Ehungup, blocks := [], qlen := 0, qdlen := 0, noblock := False\<rparr>,
      [WakeupR, WakeupW])"

definition qhangup :: "byte list \<Rightarrow> Queue \<Rightarrow> Queue \<times> qcall list" where
  "qhangup m q = (q\<lparr>closed := True, err := (if m = [] then Ehungup else kstrcpy m ERRMAX)\<rparr>, [WakeupR, WakeupW])"

definition qreopen :: "Queue \<Rightarrow> Queue" where
  "qreopen q = q\<lparr>closed := False, starve := True, eof := 0, limit := inilim q\<rparr>"

definition qflush :: "Queue \<Rightarrow> Queue \<times> qcall list" where
  "qflush q = (q\<lparr>blocks := [], qlen := 0, qdlen := 0\<rparr>, [WakeupW])"

definition qsetlimit :: "int \<Rightarrow> Queue \<Rightarrow> Queue" where
  "qsetlimit l q = q\<lparr>limit := l\<rparr>"

definition qnoblock :: "bool \<Rightarrow> Queue \<Rightarrow> Queue" where
  "qnoblock on q = q\<lparr>noblock := on\<rparr>"

definition qwindow :: "Queue \<Rightarrow> int" where
  "qwindow q = (let l = limit q - qlen q in if l < 0 then 0 else l)"

definition qcanread :: "Queue \<Rightarrow> bool" where
  "qcanread q \<longleftrightarrow> blocks q \<noteq> []"

definition qfull :: "Queue \<Rightarrow> bool" where
  "qfull q \<longleftrightarrow> flow q"

definition pullupqueue :: "nat \<Rightarrow> Queue \<Rightarrow> berr + Queue" where
  "pullupqueue n q =
     (case blocks q of
        [] \<Rightarrow> Inl Nilref
      | b # bs \<Rightarrow> if BLEN b \<ge> n then Inr q
          else (case pullupblock (blocks q) n of Inl e \<Rightarrow> Inl e | Inr bs \<Rightarrow> Inr (q\<lparr>blocks := bs\<rparr>)))"

section \<open>The invariant of a queue, and the bytes it holds\<close>

definition qwf :: "Queue \<Rightarrow> bool" where
  "qwf q \<longleftrightarrow> qlen q = int (blockalloclen (blocks q)) \<and> qdlen q = int (blocklen (blocks q)) \<and> (\<forall>b\<in>set (blocks q). bwf b)"

definition qbytes :: "Queue \<Rightarrow> byte list" where
  "qbytes q = cbytes (blocks q)"

lemma blocklen_append [simp]: "blocklen (as @ bs) = blocklen as + blocklen bs" "blockalloclen (as @ bs) = blockalloclen as + blockalloclen bs"
  by (induction as) simp_all

lemma bput_alloc:
  "bwf (bput p (allocb (length p)))" "bdata (bput p (allocb (length p))) = p" "BLEN (bput p (allocb (length p))) = length p"
  "BALLOC (bput p (allocb (length p))) = length p"
  using bput_ok [of "allocb (length p)" p] by (simp_all add: BALLOC_def)

lemma BALLOC_brp [simp]: "BALLOC (b\<lparr>brp := n\<rparr>) = BALLOC b"
  by (simp add: BALLOC_def)

lemma lowwater_le: "0 \<le> l \<Longrightarrow> lowwater l \<le> l" "0 \<le> l \<Longrightarrow> 0 \<le> lowwater l" "2 \<le> l \<Longrightarrow> 0 < lowwater l"
  by (simp_all add: lowwater_def)

lemma qaddlist_wf: "\<lbrakk>qwf q; \<forall>b\<in>set bs. bwf b\<rbrakk> \<Longrightarrow> qwf (qaddlist bs q)" "qbytes (qaddlist bs q) = qbytes q @ cbytes bs"
  by (auto simp: qwf_def qbytes_def qaddlist_def)

lemma same_blocks:
  "\<lbrakk>qwf q; blocks q' = blocks q; qlen q' = qlen q; qdlen q' = qdlen q\<rbrakk> \<Longrightarrow> qwf q'"
  "blocks q' = blocks q \<Longrightarrow> qbytes q' = qbytes q"
  by (simp_all add: qwf_def qbytes_def)

text \<open>The routines that only change flags.\<close>

lemma unstarve_fields [simp]:
  "blocks (fst (unstarve q)) = blocks q" "qlen (fst (unstarve q)) = qlen q" "qdlen (fst (unstarve q)) = qdlen q"
  "limit (fst (unstarve q)) = limit q" "inilim (fst (unstarve q)) = inilim q" "msg (fst (unstarve q)) = msg q" "closed (fst (unstarve q)) = closed q"
  "flow (fst (unstarve q)) = flow q" "noblock (fst (unstarve q)) = noblock q" "bypass (fst (unstarve q)) = bypass q"
  "snd (unstarve q) = starve q" "\<not> starve (fst (unstarve q))"
  by (simp_all add: unstarve_def)

lemma restart_fields [simp]:
  "blocks (fst (restart l q)) = blocks q" "qlen (fst (restart l q)) = qlen q" "qdlen (fst (restart l q)) = qdlen q"
  "limit (fst (restart l q)) = limit q" "inilim (fst (restart l q)) = inilim q" "msg (fst (restart l q)) = msg q" "closed (fst (restart l q)) = closed q"
  "starve (fst (restart l q)) = starve q" "noblock (fst (restart l q)) = noblock q" "bypass (fst (restart l q)) = bypass q"
  "snd (restart l q) = (flow q \<and> qlen q < l)" "flow (fst (restart l q)) = (flow q \<and> l \<le> qlen q)"
  by (auto simp: restart_def)

lemma flow_at_fields [simp]:
  "blocks (flow_at l q) = blocks q" "qlen (flow_at l q) = qlen q" "qdlen (flow_at l q) = qdlen q" "limit (flow_at l q) = limit q"
  "inilim (flow_at l q) = inilim q" "msg (flow_at l q) = msg q" "closed (flow_at l q) = closed q" "starve (flow_at l q) = starve q"
  "noblock (flow_at l q) = noblock q" "bypass (flow_at l q) = bypass q" "flow (flow_at l q) = (flow q \<or> l \<le> qlen q)"
  by (auto simp: flow_at_def)

lemma qaddlist_fields [simp]:
  "blocks (qaddlist bs q) = blocks q @ bs" "qlen (qaddlist bs q) = qlen q + int (blockalloclen bs)" "limit (qaddlist bs q) = limit q"
  "inilim (qaddlist bs q) = inilim q" "msg (qaddlist bs q) = msg q" "closed (qaddlist bs q) = closed q" "starve (qaddlist bs q) = starve q"
  "noblock (qaddlist bs q) = noblock q" "bypass (qaddlist bs q) = bypass q" "flow (qaddlist bs q) = flow q"
  by (simp_all add: qaddlist_def)

lemma qputback_fields [simp]:
  "blocks (qputback b q) = b # blocks q" "qlen (qputback b q) = qlen q + int (BALLOC b)" "limit (qputback b q) = limit q"
  "inilim (qputback b q) = inilim q" "msg (qputback b q) = msg q" "closed (qputback b q) = closed q" "starve (qputback b q) = starve q"
  "noblock (qputback b q) = noblock q" "bypass (qputback b q) = bypass q" "flow (qputback b q) = flow q"
  by (simp_all add: qputback_def)

lemma fst_wakes [simp]: "fst (wakes c r) = fst r" "snd (wakes c r) = (if snd r then [c] else [])"
  by (simp_all add: wakes_def)

lemma qwakeup_unlock_eq:
  "fst (qwakeup_unlock q) = fst (restart (lowwater (limit q)) q)"
  "WakeupW \<in> set (snd (qwakeup_unlock q)) \<longleftrightarrow> flow q \<and> qlen q < lowwater (limit q)"
  "WakeupR \<notin> set (snd (qwakeup_unlock q))"
  by (auto simp: qwakeup_unlock_def kicks_def split: prod.splits dest: arg_cong [where f = snd])

lemma flag_wf [simp]:
  "qwf (fst (unstarve q)) = qwf q" "qwf (fst (restart l q)) = qwf q" "qwf (flow_at l q) = qwf q" "qwf (fst (qwakeup_unlock q)) = qwf q"
  "qbytes (fst (unstarve q)) = qbytes q" "qbytes (fst (restart l q)) = qbytes q" "qbytes (flow_at l q) = qbytes q"
  "qbytes (fst (qwakeup_unlock q)) = qbytes q"
  by (simp_all add: qwf_def qbytes_def qwakeup_unlock_eq)

lemma qputback_wf: "\<lbrakk>qwf q; bwf b\<rbrakk> \<Longrightarrow> qwf (qputback b q)" "qbytes (qputback b q) = bdata b @ qbytes q"
  by (auto simp: qwf_def qbytes_def qputback_def)

lemma qremove_wf:
  "\<lbrakk>qwf q; qremove q = (Some b, q')\<rbrakk> \<Longrightarrow> qwf q' \<and> bwf b \<and> qbytes q = bdata b @ qbytes q'"
  by (auto simp: qwf_def qbytes_def qremove_def split: list.splits)

lemma qget_wf:
  "\<lbrakk>qwf q; qget q = (r, q', w)\<rbrakk> \<Longrightarrow> qwf q' \<and> qbytes q = (case r of None \<Rightarrow> [] | Some b \<Rightarrow> bdata b) @ qbytes q'"
  by (auto simp: qget_def wakes_def qwf_def qbytes_def split: list.splits)

lemma discard_loop_ok:
  "\<lbrakk>\<forall>b\<in>set bs. bwf b; discard_loop bs len = (n, a, r)\<rbrakk>
    \<Longrightarrow> n = min len (blocklen bs) \<and> (\<forall>b\<in>set r. bwf b) \<and> blockalloclen bs = a + blockalloclen r \<and> blocklen r = blocklen bs - n
      \<and> cbytes r = drop n (cbytes bs)"
proof (induction bs arbitrary: len n a r)
  case (Cons b bs)
  have b: "bwf b" "\<forall>b\<in>set bs. bwf b"
    using Cons.prems(1) by simp_all
  show ?case
  proof (cases "len = 0 \<or> len < BLEN b")
    case True
    then show ?thesis
      using Cons.prems(2) brp_forward [OF b(1), of len] b by (auto split: if_splits)
  next
    case False
    obtain n' a' r' where e: "discard_loop bs (len - BLEN b) = (n', a', r')"
      by (metis prod_cases3)
    then have "n = BLEN b + n'" "a = BALLOC b + a'" "r = r'"
      using False Cons.prems(2) by auto
    then show ?thesis
      using Cons.IH [OF b(2) e] False b by (auto simp: min_def)
  qed
qed simp

lemma qdiscard_wf:
  assumes "qwf q" "qdiscard len q = (n, q', w)"
  shows "qwf q' \<and> n = min len (blocklen (blocks q)) \<and> qbytes q' = drop n (qbytes q)"
proof -
  obtain n' a r where e: "discard_loop (blocks q) len = (n', a, r)"
    by (metis prod_cases3)
  have "\<forall>b\<in>set (blocks q). bwf b"
    using assms(1) by (simp add: qwf_def)
  note d = discard_loop_ok [OF this e]
  have q': "n = n'" "q' = fst (restart (limit q) (q\<lparr>blocks := r, qlen := qlen q - int a, qdlen := qdlen q - int n'\<rparr>))"
    using assms(2) by (auto simp: qdiscard_def e wakes_def)
  then show ?thesis
    using d assms(1) by (auto simp: qwf_def qbytes_def)
qed

lemma skip_empty_ok:
  "\<lbrakk>\<forall>b\<in>set bs. bwf b; skip_empty bs = (a, r)\<rbrakk>
    \<Longrightarrow> (\<forall>b\<in>set r. bwf b) \<and> blockalloclen bs = a + blockalloclen r \<and> blocklen bs = blocklen r \<and> cbytes bs = cbytes r
      \<and> (\<forall>b s. r = b # s \<longrightarrow> 0 < BLEN b)"
proof (induction bs arbitrary: a r)
  case (Cons b bs)
  have b: "bwf b" "\<forall>b\<in>set bs. bwf b"
    using Cons.prems(1) by simp_all
  obtain a' r' where e: "skip_empty bs = (a', r')"
    by fastforce
  show ?case
  proof (cases "BLEN b = 0")
    case True
    then have "bdata b = []"
      using b by (metis length_bdata length_0_conv)
    then show ?thesis
      using Cons.IH [OF b(2) e] Cons.prems(2) True e by auto
  qed (use Cons.prems in auto)
qed simp

lemma qconsume_wf:
  assumes "qwf q" "qconsume len q = (r, q', w)"
  shows "qwf q'" "\<not> msg q \<Longrightarrow> qbytes q = (case r of None \<Rightarrow> [] | Some p \<Rightarrow> p) @ qbytes q'"
    "r = None \<longleftrightarrow> qbytes q = []"
proof -
  obtain a bs where e: "skip_empty (blocks q) = (a, bs)"
    by fastforce
  have "\<forall>b\<in>set (blocks q). bwf b"
    using assms(1) by (simp add: qwf_def)
  note s = skip_empty_ok [OF this e]
  have "qwf q' \<and> (\<not> msg q \<longrightarrow> qbytes q = (case r of None \<Rightarrow> [] | Some p \<Rightarrow> p) @ qbytes q')
    \<and> (r = None \<longleftrightarrow> qbytes q = [])"
  proof (cases bs)
    case Nil
    then show ?thesis
      using assms s by (auto simp: qconsume_def e qwf_def qbytes_def)
  next
    case (Cons b r')
    define l where "l = (if BLEN b < len then BLEN b else len)"
    have b: "bwf b" "0 < BLEN b" "l \<le> BLEN b"
      using s Cons by (simp_all add: l_def)
    note f = brp_forward [OF b(1,3)]
    have lb: "length (bdata b) = BLEN b"
      using b(1) by simp
    then have "bdata b \<noteq> []"
      using b(2) by force
    then have ne: "qbytes q \<noteq> []" "take l (bdata b) = take len (bdata b)"
      using lb s Cons by (auto simp: qbytes_def l_def)
    define q1 where "q1 = q\<lparr>qlen := qlen q - int a, qdlen := qdlen q - int l\<rparr>"
    define q2 where "q2 = (if msg q \<or> l = BLEN b
        then q1\<lparr>blocks := r', qlen := qlen q1 - int (BALLOC b), qdlen := qdlen q1 - int (BLEN (b\<lparr>brp := brp b + l\<rparr>))\<rparr>
        else q1\<lparr>blocks := b\<lparr>brp := brp b + l\<rparr> # r'\<rparr>)"
    have r: "r = Some (take l (bdata b))" and q': "q' = fst (restart (lowwater (limit q2)) q2)"
      using assms(2) Cons e by (auto simp: qconsume_def Let_def l_def [symmetric] q1_def q2_def wakes_def)
    have "qwf q2" "\<not> msg q \<Longrightarrow> qbytes q = take l (bdata b) @ qbytes q2"
      using assms(1) s Cons b f by (auto simp: qwf_def qbytes_def q2_def q1_def)
    then show ?thesis
      unfolding r q' using ne by simp
  qed
  then show "qwf q'" "\<not> msg q \<Longrightarrow> qbytes q = (case r of None \<Rightarrow> [] | Some p \<Rightarrow> p) @ qbytes q'"
    "r = None \<longleftrightarrow> qbytes q = []"
    by simp_all
qed

lemma qpass_wf:
  assumes "qwf q" "\<forall>b\<in>set bs. bwf b" "qpass bs q = (n, q', w)"
  shows "qwf q' \<and> qbytes q' = (if qlen q < limit q \<and> \<not> closed q then qbytes q @ cbytes bs else qbytes q)"
  using assms qaddlist_wf by (auto simp: qpass_def wakes_def split: if_splits)

lemma qpassnolim_wf:
  assumes "qwf q" "\<forall>b\<in>set bs. bwf b" "qpassnolim bs q = (n, q', w)"
  shows "qwf q' \<and> qbytes q' = (if closed q then qbytes q else qbytes q @ cbytes bs)"
  using assms qaddlist_wf by (auto simp: qpassnolim_def wakes_def split: if_splits)

lemma qproduce_wf:
  assumes "qwf q" "qproduce p q = (n, q', w)"
  shows "qwf q' \<and> (if qlen q < limit q \<and> \<not> closed q then n = int (length p) \<and> qbytes q' = qbytes q @ p else n = -1 \<and> qbytes q' = qbytes q)"
proof (cases "qlen q < limit q \<and> \<not> closed q")
  case True
  then show ?thesis
    using assms qaddlist_wf(1) [of q "[bput p (allocb (length p))]"] qaddlist_wf(2) [of "[bput p (allocb (length p))]" q] by (auto simp: qproduce_def wakes_def bput_alloc)
next
  case False
  then show ?thesis
    using assms by (auto simp: qproduce_def qwf_def qbytes_def split: if_splits)
qed

lemma qseek_ok: "\<forall>b\<in>set bs. bwf b \<Longrightarrow>
    (case qseek bs off of None \<Rightarrow> drop off (cbytes bs) = [] | Some (p, r) \<Rightarrow> (\<forall>b\<in>set r. bwf b) \<and> drop off (cbytes bs) = p @ cbytes r)"
proof (induction bs arbitrary: off)
  case (Cons b bs)
  show ?case
    using Cons.IH [of "off - BLEN b"] Cons.prems by (auto split: option.splits)
qed simp

lemma qcopy_loop_ok:
  "\<lbrakk>bwf nb; \<forall>b\<in>set bs. bwf b; bwp nb + left \<le> blim nb\<rbrakk>
    \<Longrightarrow> bwf (qcopy_loop nb p bs left) \<and> bdata (qcopy_loop nb p bs left) = bdata nb @ take left (p @ cbytes bs)"
proof (induction bs arbitrary: nb p left)
  case Nil
  then show ?case
    by (auto simp: bput_ok)
next
  case (Cons b bs)
  have "bwp nb + length (take left p) \<le> blim nb"
    using Cons.prems(3) by simp
  note p = bput_ok [OF Cons.prems(1) this]
  show ?case
    using Cons.IH [OF p(1), of "left - length (take left p)" "bdata b"] Cons.prems p by (auto simp: min_def)
qed

lemma qcopy_ok: "qwf q \<Longrightarrow> bwf (qcopy len off q) \<and> bdata (qcopy len off q) = take len (drop off (qbytes q))"
  using qseek_ok [of "blocks q" off] qcopy_loop_ok [of "allocb len"]
  by (auto simp: qcopy_def qwf_def qbytes_def split: option.splits)

lemma qtake_wf:
  "\<lbrakk>qwf q; qtake k q = (bs, q')\<rbrakk>
    \<Longrightarrow> qwf q' \<and> bs = take k (blocks q) \<and> blocks q' = drop k (blocks q)
      \<and> q' = q\<lparr>blocks := blocks q', qlen := qlen q', qdlen := qdlen q'\<rparr>"
proof (induction k arbitrary: q bs q')
  case (Suc k)
  show ?case
  proof (cases "blocks q")
    case Nil
    then show ?thesis
      using Suc.prems by (simp add: qremove_def)
  next
    case (Cons b r)
    define q1 where "q1 = q\<lparr>blocks := r, qdlen := qdlen q - int (BLEN b), qlen := qlen q - int (BALLOC b)\<rparr>"
    have q1: "qremove q = (Some b, q1)"
      by (simp add: qremove_def Cons q1_def)
    obtain bs' where "qtake k q1 = (bs', q')" "bs = b # bs'"
      using Suc.prems(2) by (auto simp: q1 split: prod.splits)
    then show ?thesis
      using Suc.IH [of q1 bs' q'] qremove_wf [OF Suc.prems(1) q1] Cons by (auto simp: q1_def)
  qed
qed simp

text \<open>The blocks a read takes: it copies all of them, or they are one block.\<close>

lemma fit_ok: "n \<le> len \<Longrightarrow> n + blocklen (take (fit len n bs) bs) \<le> len"
proof (induction bs arbitrary: n)
  case (Cons b bs)
  then show ?case
    using Cons.IH [of "n + BLEN b"] by (simp add: add.assoc)
qed simp

lemma fit_big: "len < n \<Longrightarrow> fit len n bs = 0"
  by (cases bs) auto

definition copyable :: "nat \<Rightarrow> Block list \<Rightarrow> bool" where
  "copyable len bs \<longleftrightarrow> (\<forall>b\<in>set bs. bwf b) \<and> (length bs = 1 \<or> blocklen bs \<le> len)"

lemma bl2mem_short: "\<lbrakk>\<forall>b\<in>set bs. bwf b; blocklen bs \<le> len\<rbrakk> \<Longrightarrow> snd (bl2mem bs len) = []"
  by (induction bs arbitrary: len) (auto simp: case_prod_unfold le_diff_conv2)

lemma copyable_left: "copyable len bs \<Longrightarrow> snd (bl2mem bs len) = [] \<or> (\<exists>b. snd (bl2mem bs len) = [b\<lparr>brp := brp b + len\<rparr>] \<and> bs = [b])"
  by (cases "blocklen bs \<le> len") (auto simp: copyable_def bl2mem_short length_Suc_conv)

text \<open>What the reading half of \<open>qread\<close> leaves: its blocks come from the front, and the other fields stay.\<close>

definition same_control :: "Queue \<Rightarrow> Queue \<Rightarrow> bool" where
  "same_control q q' \<longleftrightarrow> limit q' = limit q \<and> inilim q' = inilim q \<and> msg q' = msg q \<and> closed q' = closed q \<and> flow q' = flow q
     \<and> bypass q' = bypass q"

definition read_ok :: "nat \<Rightarrow> Queue \<Rightarrow> Block list rres \<Rightarrow> Queue \<Rightarrow> bool" where
  "read_ok len q r q' \<longleftrightarrow> qwf q' \<and> same_control q q' \<and> qlen q' \<le> qlen q
     \<and> (case r of
          Returned bs \<Rightarrow> copyable len bs \<and> qbytes q = cbytes bs @ qbytes q' \<and> starve q' = starve q
            \<and> qlen q' + int (blockalloclen bs) \<le> qlen q
            \<and> ((\<forall>b\<in>set (blocks q). BLEN b = 0 \<longrightarrow> BALLOC b = 0) \<longrightarrow> qlen q' + int (blockalloclen bs) = qlen q)
        | Asleep \<Rightarrow> qbytes q = [] \<and> blocks q' = [] \<and> \<not> closed q' \<and> starve q'
        | _ \<Rightarrow> qbytes q = [] \<and> blocks q' = [] \<and> closed q')"

lemma qread_first_wf: "\<lbrakk>qwf q; qread_first len q = (r, q')\<rbrakk> \<Longrightarrow> read_ok len q r q'"
proof (induction len q arbitrary: r q' rule: qread_first.induct)
  case (1 len q)
  show ?case
  proof (cases "blocks q")
    case Nil
    then show ?thesis
      using 1(2,3) by (subst (asm) qread_first.simps)
        (auto simp: qwait_def Let_def qwf_def qbytes_def same_control_def read_ok_def split: if_splits)
  next
    case (Cons b bs)
    have rd: "qwait q = (Ready, q)"
      using Cons by (simp add: qwait_def)
    have b: "bwf b"
      using 1(2) Cons by (simp add: qwf_def)
    show ?thesis
    proof (cases "coalesce q \<and> BLEN b = 0")
      case True
      define q1 where "q1 = snd (qremove q)"
      have q1: "qremove q = (Some b, q1)"
        by (simp add: qremove_def Cons q1_def)
      have w: "qwf q1" "qbytes q = qbytes q1" "same_control q q1" "qlen q1 \<le> qlen q" "starve q1 = starve q"
        "blocks q = b # blocks q1" "qlen q1 = qlen q - int (BALLOC b)" "BLEN b = 0"
        using qremove_wf [OF 1(2) q1] True b Cons q1 by (auto simp: qremove_def same_control_def dest: length_bdata)
      have e: "qread_first len q1 = (r, q')"
        using 1(3) True Cons by (subst (asm) qread_first.simps) (simp add: rd q1_def)
      have "read_ok len q1 r q'"
        using 1(1) [OF rd [symmetric] refl _ Cons] True w(1) e by (simp add: q1_def)
      then show ?thesis
        using w by (cases r) (auto simp: same_control_def read_ok_def)
    next
      case False
      define k where "k = (if coalesce q then fit len (BLEN b) bs else 0)"
      obtain first where t: "qtake (Suc k) q = (first, q')" "r = Returned first"
        using 1(3) False Cons by (subst (asm) qread_first.simps) (auto simp: rd k_def split: prod.splits if_splits)
      note w = qtake_wf [OF 1(2) t(1)]
      have f: "first = b # take k bs" "blocks q' = drop k bs" "qwf q'"
        using w Cons by simp_all
      have "k = 0 \<or> BLEN b + blocklen (take k bs) \<le> len"
        using fit_ok [of "BLEN b" len bs] fit_big [of len "BLEN b" bs] by (cases "len < BLEN b") (auto simp: k_def)
      then have c: "copyable len first"
        using 1(2) Cons by (auto simp: copyable_def f qwf_def dest: in_set_takeD)
      have sp: "blockalloclen bs = blockalloclen (take k bs) + blockalloclen (drop k bs)" "cbytes bs = cbytes (take k bs) @ cbytes (drop k bs)"
        by (metis append_take_drop_id blocklen_append(2)) (metis append_take_drop_id cbytes_simps(3))
      have qf: "q' = q\<lparr>blocks := blocks q', qlen := qlen q', qdlen := qdlen q'\<rparr>"
        using w by blast
      have "limit q' = limit q \<and> inilim q' = inilim q \<and> msg q' = msg q \<and> closed q' = closed q \<and> flow q' = flow q
        \<and> bypass q' = bypass q \<and> starve q' = starve q"
        by (intro conjI) (subst qf, simp)+
      moreover have "qbytes q = cbytes first @ qbytes q'"
        unfolding qbytes_def Cons f by (simp only: cbytes_simps append_assoc sp(2) [symmetric])
      moreover have "qlen q' + int (blockalloclen first) = qlen q"
        using f(3) 1(2) sp(1) unfolding qwf_def Cons f(1,2) by simp
      ultimately show ?thesis
        using c f(3) unfolding read_ok_def t(2) same_control_def by simp
    qed
  qed
qed

lemma same_control_refl [simp]: "same_control q q"
  by (simp add: same_control_def)

lemma qread_finish_wf:
  assumes q: "qwf q" and c: "copyable len first" and e: "qread_finish len first q = (m, q', w)"
  shows "qwf q' \<and> m = take len (cbytes first) \<and> (\<not> msg q \<longrightarrow> m @ qbytes q' = cbytes first @ qbytes q)
    \<and> (\<exists>q1. (q', w) = qwakeup_unlock q1 \<and> same_control q q1 \<and> starve q1 = starve q \<and> qlen q1 \<le> qlen q + int (blockalloclen first))"
proof -
  obtain r where r: "bl2mem first len = (m, r)"
    using e by (auto simp: qread_finish_def split: prod.splits)
  have wf: "\<forall>b\<in>set first. bwf b"
    using c by (simp add: copyable_def)
  note m = bl2mem_ok [OF wf r]
  define q1 where "q1 = (case r of [] \<Rightarrow> q | b # _ \<Rightarrow> if msg q then q else qputback b q)"
  have w: "(q', w) = qwakeup_unlock q1"
    using e r by (simp add: qread_finish_def q1_def)
  have "qwf q1 \<and> same_control q q1 \<and> starve q1 = starve q \<and> qlen q1 \<le> qlen q + int (blockalloclen first)
    \<and> (\<not> msg q \<longrightarrow> qbytes q1 = cbytes r @ qbytes q)"
  proof (cases "msg q \<or> r = []")
    case True
    then show ?thesis
      using q by (cases r) (auto simp: q1_def)
  next
    case False
    then obtain b where b: "r = [b\<lparr>brp := brp b + len\<rparr>]" "first = [b]"
      using copyable_left [OF c] r by auto
    then show ?thesis
      using False q m qputback_wf(1) [OF q, of "b\<lparr>brp := brp b + len\<rparr>"]
      by (simp add: q1_def qputback_wf(2) same_control_def)
  qed
  moreover have "fst (qwakeup_unlock q1) = q'"
    using w by (metis fst_conv)
  ultimately show ?thesis
    using m w flag_wf(4) [of q1] flag_wf(8) [of q1]
    by (metis append.assoc append_take_drop_id)
qed

lemma qbread_wf:
  assumes q: "qwf q" and e: "qbread len q = (r, q', w)"
  shows "qwf q' \<and> (case r of
      Returned b \<Rightarrow> bwf b \<and> blocks q \<noteq> [] \<and> bdata b = take len (bdata (hd (blocks q))) \<and> (\<not> msg q \<longrightarrow> qbytes q = bdata b @ qbytes q')
        \<and> (\<exists>q1. (q', w) = qwakeup_unlock q1 \<and> same_control q q1 \<and> starve q1 = starve q \<and> qlen q1 \<le> qlen q)
    | Asleep \<Rightarrow> w = [] \<and> q' = q\<lparr>starve := True\<rparr> \<and> blocks q = [] \<and> \<not> closed q
    | _ \<Rightarrow> w = [] \<and> same_control q q' \<and> blocks q = [] \<and> blocks q' = [] \<and> closed q')"
proof (cases "blocks q")
  case Nil
  then show ?thesis
    using q e by (auto simp: qbread_def qwait_def Let_def qwf_def same_control_def split: if_splits)
next
  case (Cons b bs)
  define q0 where "q0 = q\<lparr>blocks := bs, qdlen := qdlen q - int (BLEN b), qlen := qlen q - int (BALLOC b)\<rparr>"
  have r0: "qremove q = (Some b, q0)"
    by (simp add: qremove_def Cons q0_def)
  note w0 = qremove_wf [OF q r0]
  define nb where "nb = (if BLEN b > len then b\<lparr>bwp := brp b + len\<rparr> else b)"
  define b1 where "b1 = bput (drop len (bdata b)) (allocb (BLEN b - len))"
  define q1 where "q1 = (if BLEN b > len \<and> \<not> msg q then qputback b1 q0 else q0)"
  have f: "r = Returned nb" "(q', w) = qwakeup_unlock q1"
    using e Cons r0 by (auto simp: qbread_def qwait_def nb_def b1_def q1_def q0_def Let_def split: if_splits)
  have lb: "length (drop len (bdata b)) = BLEN b - len" "BLEN b \<le> BALLOC b"
    using w0 by (auto simp: bwf_def BLEN_def BALLOC_def)
  note b1 = bput_alloc [of "drop len (bdata b)", unfolded lb(1), folded b1_def]
  have "bwf nb \<and> bdata nb = take len (bdata b)"
  proof (cases "BLEN b > len")
    case True
    have "bwp b - (BLEN b - len) = brp b + len"
      using True w0 unfolding bwf_def BLEN_def by linarith
    then show ?thesis
      using bwp_back [of b len] w0 True by (simp add: nb_def)
  qed (use w0 in \<open>simp add: nb_def\<close>)
  moreover have "qwf q1 \<and> (\<not> msg q \<longrightarrow> qbytes q = take len (bdata b) @ qbytes q1)"
    using w0 b1 qputback_wf(1) [of q0 b1] by (auto simp: q1_def qputback_wf(2))
  moreover have "same_control q q1 \<and> starve q1 = starve q \<and> qlen q1 \<le> qlen q"
    using b1 lb(2) by (auto simp: q1_def q0_def same_control_def)
  moreover have "fst (qwakeup_unlock q1) = q'"
    using f(2) by (metis fst_conv)
  ultimately show ?thesis
    using f Cons flag_wf(4) [of q1] flag_wf(8) [of q1] by auto
qed

lemma qbwrite_wf:
  assumes "qwf q" "bwf b" "qbwrite b q = (r, q', w)"
  shows "qwf q' \<and> same_control q q' \<and> (case r of
      Queued \<Rightarrow> qbytes q' = qbytes q @ bdata b \<and> \<not> starve q' \<and> (starve q \<longrightarrow> WakeupR \<in> set w) \<and> qlen q' = qlen q + int (BALLOC b) \<and> \<not> closed q
    | _ \<Rightarrow> q' = q)"
  using assms qaddlist_wf(1) [of q "[b]"] qaddlist_wf(2) [of "[b]" q]
  by (auto simp: qbwrite_def case_prod_unfold same_control_def split: if_splits)

lemma qwrite_put_eq:
  assumes "qwrite_put p q = (r, (q', w), rest)"
  shows "\<exists>b. bwf b \<and> bdata b = take Maxatomic p \<and> BALLOC b = min Maxatomic (length p) \<and> qbwrite b q = (r, q', w) \<and> rest = drop Maxatomic p"
proof -
  let ?b = "bput (take Maxatomic p) (allocb (length (take Maxatomic p)))"
  have "qbwrite ?b q = (r, q', w)" "rest = drop Maxatomic p"
    using assms by (auto simp: qwrite_put_def min_def Let_def split: if_splits prod.splits)
  then show ?thesis
    using bput_alloc [of "take Maxatomic p"] by (auto simp: min.commute)
qed

lemma qiwrite_loop_wf:
  "\<lbrakk>qwf q; qiwrite_loop p d q = (n, q', w)\<rbrakk>
    \<Longrightarrow> qwf q' \<and> n = (if msg q then min Maxatomic (length p) else length p) \<and> qbytes q' = qbytes q @ take n p
      \<and> \<not> starve q' \<and> (d \<or> starve q \<longrightarrow> WakeupR \<in> set w)"
proof (induction p d q arbitrary: n q' w rule: qiwrite_loop.induct)
  case (1 p d q)
  define k where "k = (if length p > Maxatomic then Maxatomic else length p)"
  define b where "b = bput (take k p) (allocb k)"
  define q1 where "q1 = fst (unstarve (qaddlist [b] q))"
  define cs where "cs = (if d \<or> starve q then kicks q1 @ [WakeupR] else [])"
  have k: "length (take k p) = k" "k \<le> length p" "k = min Maxatomic (length p)"
    by (simp_all add: k_def)
  note b = bput_alloc [of "take k p", unfolded k(1), folded b_def]
  have u: "unstarve (qaddlist [b] q) = (q1, starve q)"
    by (simp add: q1_def unstarve_def)
  have q1: "qwf q1" "qbytes q1 = qbytes q @ take k p" "\<not> starve q1" "msg q1 = msg q"
    using 1(2) b qaddlist_wf(1) [of q "[b]"] qaddlist_wf(2) [of "[b]" q] by (simp_all add: q1_def)
  have e: "qiwrite_loop p d q = (if qwrite_more (drop k p) q1
      then (case qiwrite_loop (drop k p) (d \<or> starve q) q1 of (j, q, cs') \<Rightarrow> (k + j, q, cs @ cs')) else (k, q1, cs))"
    by (subst qiwrite_loop.simps) (simp add: k_def [symmetric] b_def [symmetric] u Let_def cs_def)
  show ?case
  proof (cases "qwrite_more (drop k p) q1")
    case True
    obtain j q2 cs' where i: "qiwrite_loop (drop k p) (d \<or> starve q) q1 = (j, q2, cs')"
      by (metis prod_cases3)
    have "qwf q2 \<and> j = (if msg q1 then min Maxatomic (length (drop k p)) else length (drop k p))
       \<and> qbytes q2 = qbytes q1 @ take j (drop k p) \<and> \<not> starve q2 \<and> ((d \<or> starve q) \<or> starve q1 \<longrightarrow> WakeupR \<in> set cs')"
      using 1(1) [OF k_def b_def refl u [symmetric] refl refl cs_def True] q1(1) i by blast
    moreover have "\<not> msg q"
      using True q1(4) by (simp add: qwrite_more_def)
    ultimately show ?thesis
      using 1(3) i True q1 k unfolding e by (auto simp: take_add)
  next
    case False
    then have "msg q \<or> k = length p"
      using k(2) q1(4) by (auto simp: qwrite_more_def)
    then show ?thesis
      using 1(3) False q1 k unfolding e by (auto simp: cs_def)
  qed
qed

text \<open>
  Claim C39 (type).  Every routine but \<open>pullupqueue\<close> keeps a queue well formed, and \<open>pullupqueue\<close> does not
  (\<open>pullupqueue_len\<close> below): \<open>len\<close> is the space of the blocks on the queue, \<open>dlen\<close> their
  data, and the offsets of every block lie inside its buffer.  \<open>qread\<close> takes blocks that its second half can put back:
  one block, or blocks that fit in the read.
\<close>

theorem queue_type:
  assumes q: "qwf q" and b: "bwf b" and bs: "\<forall>b\<in>set bs. bwf b"
  shows "qwf (qopen l m co ak ki) \<and> qwf qbypass \<and> qwf (fst (snd (qget q))) \<and> qwf (fst (snd (qdiscard n q)))
    \<and> qwf (fst (snd (qconsume n q))) \<and> qwf (fst (snd (qpass bs q))) \<and> qwf (fst (snd (qpassnolim bs q)))
    \<and> qwf (fst (snd (qproduce p q))) \<and> qwf (fst (snd (qbread n q))) \<and> qwf (snd (qread_first n q))
    \<and> (\<forall>first q'. fst (qread_first n q) = Returned first \<longrightarrow> qwf q' \<longrightarrow> qwf (fst (snd (qread_finish n first q'))))
    \<and> qwf (fst (snd (qbwrite b q))) \<and> qwf (fst (fst (snd (qwrite_put p q)))) \<and> qwf (fst (snd (qiwrite p q)))
    \<and> qwf (fst (qclose q)) \<and> qwf (fst (qhangup s q)) \<and> qwf (qreopen q) \<and> qwf (fst (qflush q)) \<and> qwf (qsetlimit i q) \<and> qwf (qnoblock on q)"
proof -
  have "qwf (qopen l m co ak ki)" "qwf qbypass" "qwf (fst (qclose q))" "qwf (fst (qflush q))"
    by (simp_all add: qwf_def qopen_def qbypass_def qclose_def qflush_def)
  moreover have "qwf (fst (qhangup s q))" "qwf (qreopen q)" "qwf (qsetlimit i q)" "qwf (qnoblock on q)"
    using q by (simp_all add: qwf_def qhangup_def qreopen_def qsetlimit_def qnoblock_def)
  moreover have "qwf (fst (snd (qget q)))" "qwf (fst (snd (qdiscard n q)))" "qwf (fst (snd (qconsume n q)))"
    using qget_wf [OF q] qdiscard_wf [OF q] qconsume_wf(1) [OF q] by (metis prod.collapse)+
  moreover have "qwf (fst (snd (qpass bs q)))" "qwf (fst (snd (qpassnolim bs q)))" "qwf (fst (snd (qproduce p q)))"
    using qpass_wf [OF q bs] qpassnolim_wf [OF q bs] qproduce_wf [OF q] by (metis prod.collapse)+
  moreover have "qwf (fst (snd (qbread n q)))" "qwf (fst (snd (qbwrite b q)))" "qwf (fst (snd (qiwrite p q)))"
    using qbread_wf [OF q] qbwrite_wf [OF q b] qiwrite_loop_wf [OF q] unfolding qiwrite_def by (metis prod.collapse)+
  moreover have "qwf (fst (fst (snd (qwrite_put p q))))"
    using qwrite_put_eq [of p q] qbwrite_wf [OF q] by (metis prod.collapse)
  moreover have r: "read_ok n q (fst (qread_first n q)) (snd (qread_first n q))"
    using qread_first_wf [OF q] by simp
  moreover have "qwf (fst (snd (qread_finish n first q')))" if "fst (qread_first n q) = Returned first" "qwf q'" for first q'
  proof -
    have "copyable n first"
      using r that(1) by (simp add: read_ok_def)
    then show ?thesis
      using qread_finish_wf [OF that(2)] by (metis prod.collapse)
  qed
  ultimately show ?thesis
    by (simp add: read_ok_def)
qed

lemma qopen_wf: "qwf (qopen l m co ak ki)"
  by (simp add: qwf_def qopen_def)

theorem queue_type_witness:
  "qwf (fst (snd (qproduce [1, 2, 3] (qopen 8 False False False False)))) \<and> qwf (fst (snd (qget (qopen 8 False False False False))))"
  using queue_type [OF qopen_wf allocb_ok(1) [of 0], of "[]" 8 False False False False 8 False False False False] by auto

text \<open>
  Property (functional).  The routines that do not wait, by the bytes on the queue: \<open>qget\<close>, \<open>qdiscard\<close> and \<open>qconsume\<close> take them from the
  front, \<open>qproduce\<close>, \<open>qpass\<close> and \<open>qpassnolim\<close> add at the end or, on a full or closed queue, nothing; \<open>qiwrite\<close>
  always adds; \<open>qcopy\<close> reads at an offset and changes nothing.
\<close>

theorem queue_nowait_correct:
  assumes q: "qwf q" and bs: "\<forall>b\<in>set bs. bwf b"
  shows "qbytes q = (case fst (qget q) of None \<Rightarrow> [] | Some b \<Rightarrow> bdata b) @ qbytes (fst (snd (qget q)))
    \<and> fst (qdiscard n q) = min n (length (qbytes q)) \<and> qbytes (fst (snd (qdiscard n q))) = drop n (qbytes q)
    \<and> (fst (qconsume n q) = None \<longleftrightarrow> qbytes q = [])
    \<and> (\<not> msg q \<longrightarrow> qbytes q = (case fst (qconsume n q) of None \<Rightarrow> [] | Some p \<Rightarrow> p) @ qbytes (fst (snd (qconsume n q))))
    \<and> qbytes (fst (snd (qproduce p q))) = (if qlen q < limit q \<and> \<not> closed q then qbytes q @ p else qbytes q)
    \<and> qbytes (fst (snd (qpass bs q))) = (if qlen q < limit q \<and> \<not> closed q then qbytes q @ cbytes bs else qbytes q)
    \<and> qbytes (fst (snd (qpassnolim bs q))) = (if closed q then qbytes q else qbytes q @ cbytes bs)
    \<and> fst (qiwrite p q) = (if msg q then min Maxatomic (length p) else length p)
    \<and> qbytes (fst (snd (qiwrite p q))) = qbytes q @ take (fst (qiwrite p q)) p
    \<and> bdata (qcopy n off q) = take n (drop off (qbytes q))"
proof -
  have len: "length (qbytes q) = blocklen (blocks q)"
    using q length_cbytes by (auto simp: qwf_def qbytes_def)
  have "qbytes q = (case fst (qget q) of None \<Rightarrow> [] | Some b \<Rightarrow> bdata b) @ qbytes (fst (snd (qget q)))"
    using qget_wf [OF q] by (metis prod.collapse)
  moreover have "fst (qdiscard n q) = min n (length (qbytes q)) \<and> qbytes (fst (snd (qdiscard n q))) = drop n (qbytes q)"
    using qdiscard_wf [OF q, of n "fst (qdiscard n q)" "fst (snd (qdiscard n q))" "snd (snd (qdiscard n q))"] len by (auto simp: min_def)
  moreover have "fst (qconsume n q) = None \<longleftrightarrow> qbytes q = []"
    "\<not> msg q \<longrightarrow> qbytes q = (case fst (qconsume n q) of None \<Rightarrow> [] | Some p \<Rightarrow> p) @ qbytes (fst (snd (qconsume n q)))"
    using qconsume_wf(2,3) [OF q] by (metis prod.collapse)+
  moreover have "qbytes (fst (snd (qproduce p q))) = (if qlen q < limit q \<and> \<not> closed q then qbytes q @ p else qbytes q)"
    using qproduce_wf [OF q] by (metis prod.collapse)
  moreover have "qbytes (fst (snd (qpass bs q))) = (if qlen q < limit q \<and> \<not> closed q then qbytes q @ cbytes bs else qbytes q)"
    "qbytes (fst (snd (qpassnolim bs q))) = (if closed q then qbytes q else qbytes q @ cbytes bs)"
    using qpass_wf [OF q bs] qpassnolim_wf [OF q bs] by (metis prod.collapse)+
  moreover have "fst (qiwrite p q) = (if msg q then min Maxatomic (length p) else length p)
    \<and> qbytes (fst (snd (qiwrite p q))) = qbytes q @ take (fst (qiwrite p q)) p"
    using qiwrite_loop_wf [OF q, of p False] unfolding qiwrite_def by (metis prod.collapse)
  ultimately show ?thesis
    using qcopy_ok [OF q] by blast
qed

theorem queue_nowait_correct_witness:
  "qbytes (fst (snd (qproduce [1, 2] (qopen 8 False False False False)))) = [1, 2]"
  using queue_nowait_correct [OF qopen_wf, of "[]" 8 False False False False 0 "[1, 2]"] by (auto simp: qopen_def qbytes_def)

text \<open>\<open>pullupqueue\<close> may put a block in front, and \<open>len\<close> and \<open>dlen\<close> do not follow.\<close>

lemma pullupqueue_len:
  "let q = fst (snd (qproduce [2, 3] (fst (snd (qproduce [1] (qopen 8 False False False False))))));
       q' = projr (pullupqueue 2 q)
   in qwf q \<and> qbytes q' = qbytes q \<and> \<not> qwf q'"
  by (simp add: Let_def qwf_def qopen_def qproduce_def wakes_def unstarve_def qaddlist_def flow_at_def bput_def allocb_def pullupqueue_def
      pullupblock_def BLEN_def BALLOC_def bdata_def qbytes_def cbytes_def bwf_def)

end
