(* ===== verification/Qio_Sys.thy ===== *)
theory Qio_Sys
  imports Qio_Queue
begin

text \<open>
  A queue in use (\<^verbatim>\<open>src/emu/port/qio.c\<close>, with \<open>Sleep\<close> and \<open>Wakeup\<close> of \<^verbatim>\<open>src/emu/port/proc.c\<close>): a step relation in
  which a reader, a writer and the drivers interleave at the points where the queue's lock is free.  The interface
  \<open>step_system\<close> is interpreted for it, with an invariant of three parts: the bytes are in order, a sleeping
  reader will be woken, a sleeping writer will be woken.
\<close>

section \<open>Readers, writers and interrupts\<close>

text \<open>
  A queue with the processes that use it.  \<open>rlock\<close> and \<open>wlock\<close> let one process at a time into the reading and the
  writing routines, so there is one reader and one writer; a step is what a process does under the queue's lock,
  one call of \<open>Sleep\<close>, or one call that follows an \<open>unlock\<close> (those are collected in \<open>pend\<close>, and may be delayed).
  The reader is outside; before \<open>qwait\<close>; past it and about to call \<open>Sleep\<close>; asleep; or copying the blocks that it has
  taken.  The writer is outside; has bytes to queue; is at the loop that ends \<open>qbwrite\<close> with the bytes it has left;
  about to call \<open>Sleep\<close> there; or asleep.  \<open>inp\<close> and \<open>outp\<close> are the bytes queued and the bytes delivered so far.
\<close>

datatype rreq = Read nat | Bread nat

datatype rpc = RIdle | RWait rreq | RSleepy rreq | RAsleep rreq | RCopy nat "Block list"

datatype wpc = WIdle | WPut "byte list" | WLoop "byte list" | WSleepy "byte list" | WAsleep "byte list"

record qsys =
  sq :: Queue
  rd :: rpc
  wr :: wpc
  pend :: "qcall list"
  inp :: "byte list"
  outp :: "byte list"

text \<open>\<open>Sleep\<close> goes to sleep unless the condition holds; \<open>Wakeup\<close> wakes the sleeper, if there is one.\<close>

definition rd_sleep :: "qsys \<Rightarrow> qsys" where
  "rd_sleep s = (case rd s of RSleepy req \<Rightarrow> s\<lparr>rd := if notempty (sq s) then RWait req else RAsleep req\<rparr> | _ \<Rightarrow> s)"

definition wr_sleep :: "qsys \<Rightarrow> qsys" where
  "wr_sleep s = (case wr s of WSleepy rest \<Rightarrow> s\<lparr>wr := if qnotfull (sq s) then WLoop rest else WAsleep rest\<rparr> | _ \<Rightarrow> s)"

definition Wakeup :: "qcall \<Rightarrow> qsys \<Rightarrow> qsys" where
  "Wakeup c s =
     (case c of
        WakeupR \<Rightarrow> (case rd s of RAsleep req \<Rightarrow> s\<lparr>rd := RWait req\<rparr> | _ \<Rightarrow> s)
      | WakeupW \<Rightarrow> (case wr s of WAsleep rest \<Rightarrow> s\<lparr>wr := WLoop rest\<rparr> | _ \<Rightarrow> s)
      | _ \<Rightarrow> s)"

definition rd_lock :: "qsys \<Rightarrow> qsys" where
  "rd_lock s =
     (case rd s of
        RWait (Read len) \<Rightarrow>
          (case qread_first len (sq s) of
             (Returned first, q) \<Rightarrow> s\<lparr>sq := q, rd := RCopy len first\<rparr>
           | (Asleep, q) \<Rightarrow> s\<lparr>sq := q, rd := RSleepy (Read len)\<rparr>
           | (_, q) \<Rightarrow> s\<lparr>sq := q, rd := RIdle\<rparr>)
      | RWait (Bread len) \<Rightarrow>
          (case qbread len (sq s) of
             (Returned b, q, w) \<Rightarrow> s\<lparr>sq := q, rd := RIdle, pend := pend s @ w, outp := outp s @ bdata b\<rparr>
           | (Asleep, q, w) \<Rightarrow> s\<lparr>sq := q, rd := RSleepy (Bread len)\<rparr>
           | (_, q, w) \<Rightarrow> s\<lparr>sq := q, rd := RIdle\<rparr>)
      | _ \<Rightarrow> s)"

definition rd_finish :: "qsys \<Rightarrow> qsys" where
  "rd_finish s =
     (case rd s of
        RCopy len first \<Rightarrow>
          (case qread_finish len first (sq s) of
             (m, q, w) \<Rightarrow> s\<lparr>sq := q, rd := RIdle, pend := pend s @ w, outp := outp s @ m\<rparr>)
      | _ \<Rightarrow> s)"

definition wr_next :: "byte list \<Rightarrow> Queue \<Rightarrow> wpc" where
  "wr_next rest q = (if qwrite_more rest q then WPut rest else WIdle)"

definition wr_put :: "qsys \<Rightarrow> qsys" where
  "wr_put s =
     (case wr s of
        WPut p \<Rightarrow>
          (case qwrite_put p (sq s) of
             (Queued, (q, w), rest) \<Rightarrow> s\<lparr>sq := q, wr := WLoop rest, pend := pend s @ w, inp := inp s @ take Maxatomic p\<rparr>
           | (WRaised _, (q, w), rest) \<Rightarrow> s\<lparr>sq := q, wr := WIdle, pend := pend s @ w\<rparr>
           | (_, (q, w), rest) \<Rightarrow> s\<lparr>sq := q, wr := wr_next rest q, pend := pend s @ w\<rparr>)
      | _ \<Rightarrow> s)"

definition wr_block :: "Block \<Rightarrow> qsys \<Rightarrow> qsys" where
  "wr_block b s =
     (case qbwrite b (sq s) of
        (Queued, q, w) \<Rightarrow> s\<lparr>sq := q, wr := WLoop [], pend := pend s @ w, inp := inp s @ bdata b\<rparr>
      | (_, q, w) \<Rightarrow> s\<lparr>sq := q, wr := WIdle, pend := pend s @ w\<rparr>)"

definition wr_loop :: "qsys \<Rightarrow> qsys" where
  "wr_loop s =
     (case wr s of
        WLoop rest \<Rightarrow>
          (case qbwrite_wait (sq s) of
             (True, q) \<Rightarrow> s\<lparr>sq := q, wr := wr_next rest q\<rparr>
           | (False, q) \<Rightarrow> s\<lparr>sq := q, wr := WSleepy rest\<rparr>)
      | _ \<Rightarrow> s)"

text \<open>Consumers and producers that do not wait, and control.  Bytes thrown away by \<open>qclose\<close> and \<open>qflush\<close> leave \<open>inp\<close>.\<close>

text \<open>A block that holds data or no space.\<close>

definition solid :: "Block \<Rightarrow> bool" where
  "solid b \<longleftrightarrow> 0 < BLEN b \<or> BALLOC b = 0"

definition copying :: "qsys \<Rightarrow> Block list" where
  "copying s = (case rd s of RCopy len first \<Rightarrow> first | _ \<Rightarrow> [])"

definition do_get :: "qsys \<Rightarrow> qsys" where
  "do_get s =
     (case qget (sq s) of
        (r, q, w) \<Rightarrow> s\<lparr>sq := q, pend := pend s @ w, outp := outp s @ (case r of None \<Rightarrow> [] | Some b \<Rightarrow> bdata b)\<rparr>)"

definition do_discard :: "nat \<Rightarrow> qsys \<Rightarrow> qsys" where
  "do_discard n s =
     (case qdiscard n (sq s) of
        (k, q, w) \<Rightarrow> s\<lparr>sq := q, pend := pend s @ w, outp := outp s @ take k (qbytes (sq s))\<rparr>)"

definition do_consume :: "nat \<Rightarrow> qsys \<Rightarrow> qsys" where
  "do_consume n s =
     (case qconsume n (sq s) of
        (r, q, w) \<Rightarrow> s\<lparr>sq := q, pend := pend s @ w, outp := outp s @ (case r of None \<Rightarrow> [] | Some p \<Rightarrow> p)\<rparr>)"

definition do_produce :: "byte list \<Rightarrow> qsys \<Rightarrow> qsys" where
  "do_produce p s =
     (case qproduce p (sq s) of
        (n, q, w) \<Rightarrow> s\<lparr>sq := q, pend := pend s @ w, inp := inp s @ (if n = -1 then [] else p)\<rparr>)"

definition do_iwrite :: "bool \<Rightarrow> byte list \<Rightarrow> qsys \<Rightarrow> qsys" where
  "do_iwrite dowakeup p s =
     (case qiwrite_loop p dowakeup (sq s) of
        (n, q, w) \<Rightarrow> s\<lparr>sq := q, pend := pend s @ w, inp := inp s @ take n p\<rparr>)"

definition do_pass :: "Block list \<Rightarrow> qsys \<Rightarrow> qsys" where
  "do_pass bs s =
     (case qpass bs (sq s) of
        (n, q, w) \<Rightarrow>
          s\<lparr>sq := q, pend := pend s @ w, inp := inp s @ (if qlen (sq s) < limit (sq s) \<and> \<not> closed (sq s) then cbytes bs else [])\<rparr>)"

definition do_passnolim :: "Block list \<Rightarrow> qsys \<Rightarrow> qsys" where
  "do_passnolim bs s =
     (case qpassnolim bs (sq s) of
        (n, q, w) \<Rightarrow> s\<lparr>sq := q, pend := pend s @ w, inp := inp s @ (if closed (sq s) then [] else cbytes bs)\<rparr>)"

definition do_close :: "qsys \<Rightarrow> qsys" where
  "do_close s = (case qclose (sq s) of (q, w) \<Rightarrow> s\<lparr>sq := q, pend := pend s @ w, inp := outp s @ cbytes (copying s)\<rparr>)"

definition do_flush :: "qsys \<Rightarrow> qsys" where
  "do_flush s = (case qflush (sq s) of (q, w) \<Rightarrow> s\<lparr>sq := q, pend := pend s @ w, inp := outp s @ cbytes (copying s)\<rparr>)"

definition do_hangup :: "byte list \<Rightarrow> qsys \<Rightarrow> qsys" where
  "do_hangup m s = (case qhangup m (sq s) of (q, w) \<Rightarrow> s\<lparr>sq := q, pend := pend s @ w\<rparr>)"

text \<open>
  The steps.  A driver consumes from a queue, or flushes it, while no process is reading, and adds to it while no process
  is writing; no block without data but with space is queued; \<open>qreopen\<close> is called between uses.  \<open>iwrite\<close> is one turn of the loop of \<open>qiwrite\<close>,
  with \<open>dowakeup\<close> as the turns before left it, since the lock is free between the turns.  A process that is about to sleep or asleep may be interrupted:
  \<open>Sleep\<close> raises \<open>Eintr\<close>.
\<close>

inductive qstep :: "qsys \<Rightarrow> qsys \<Rightarrow> bool" where
  rd_start: "rd s = RIdle \<Longrightarrow> qstep s (s\<lparr>rd := RWait req\<rparr>)"
| rd_lock: "qstep s (rd_lock s)"
| rd_sleep: "qstep s (rd_sleep s)"
| rd_finish: "qstep s (rd_finish s)"
| rd_intr: "rd s = RSleepy req \<or> rd s = RAsleep req \<Longrightarrow> qstep s (s\<lparr>rd := RIdle\<rparr>)"
| wr_start: "wr s = WIdle \<Longrightarrow> qstep s (s\<lparr>wr := WPut p\<rparr>)"
| wr_put: "qstep s (wr_put s)"
| wr_block: "\<lbrakk>wr s = WIdle; bwf b; solid b\<rbrakk> \<Longrightarrow> qstep s (wr_block b s)"
| wr_loop: "qstep s (wr_loop s)"
| wr_sleep: "qstep s (wr_sleep s)"
| wr_intr: "wr s = WSleepy rest \<or> wr s = WAsleep rest \<Longrightarrow> qstep s (s\<lparr>wr := WIdle\<rparr>)"
| get: "rd s = RIdle \<Longrightarrow> qstep s (do_get s)"
| discard: "rd s = RIdle \<Longrightarrow> qstep s (do_discard n s)"
| consume: "rd s = RIdle \<Longrightarrow> qstep s (do_consume n s)"
| flush: "rd s = RIdle \<Longrightarrow> qstep s (do_flush s)"
| produce: "wr s = WIdle \<Longrightarrow> qstep s (do_produce p s)"
| iwrite: "\<lbrakk>wr s = WIdle; length p \<le> Maxatomic\<rbrakk> \<Longrightarrow> qstep s (do_iwrite dowakeup p s)"
| pass: "\<lbrakk>wr s = WIdle; bs \<noteq> []; \<forall>b\<in>set bs. bwf b \<and> solid b\<rbrakk> \<Longrightarrow> qstep s (do_pass bs s)"
| passnolim: "\<lbrakk>wr s = WIdle; bs \<noteq> []; \<forall>b\<in>set bs. bwf b \<and> solid b\<rbrakk> \<Longrightarrow> qstep s (do_passnolim bs s)"
| close: "qstep s (do_close s)"
| hangup: "qstep s (do_hangup m s)"
| reopen: "\<lbrakk>rd s = RIdle; wr s = WIdle\<rbrakk> \<Longrightarrow> qstep s (s\<lparr>sq := qreopen (sq s)\<rparr>)"
| noblock: "qstep s (s\<lparr>sq := qnoblock on (sq s)\<rparr>)"
| call: "pend s = xs @ c # ys \<Longrightarrow> qstep s (Wakeup c (s\<lparr>pend := xs @ ys\<rparr>))"

definition qsys0 :: "Queue \<Rightarrow> qsys" where
  "qsys0 q = \<lparr>sq = q, rd = RIdle, wr = WIdle, pend = [], inp = [], outp = []\<rparr>"

definition qinit :: "qsys \<Rightarrow> bool" where
  "qinit s \<longleftrightarrow> (\<exists>lim m co ak ki. 0 < lim \<and> s = qsys0 (qopen lim m co ak ki))"

section \<open>The invariant\<close>

definition stream_ok :: "qsys \<Rightarrow> bool" where
  "stream_ok s \<longleftrightarrow> qwf (sq s) \<and> \<not> bypass (sq s) \<and> 0 < limit (sq s) \<and> limit (sq s) = inilim (sq s)
     \<and> (case rd s of RCopy len first \<Rightarrow> copyable len first | _ \<Rightarrow> True)
     \<and> (\<forall>b\<in>set (blocks (sq s)) \<union> set (copying s). solid b)
     \<and> (\<not> msg (sq s) \<longrightarrow> outp s @ cbytes (copying s) @ qbytes (sq s) = inp s)"

definition reader_ok :: "qsys \<Rightarrow> bool" where
  "reader_ok s \<longleftrightarrow>
     (case rd s of
        RSleepy _ \<Rightarrow> starve (sq s) \<or> blocks (sq s) \<noteq> [] \<or> closed (sq s)
      | RAsleep _ \<Rightarrow> WakeupR \<in> set (pend s) \<or> (starve (sq s) \<and> blocks (sq s) = [] \<and> \<not> closed (sq s))
      | _ \<Rightarrow> True)"

definition writer_ok :: "qsys \<Rightarrow> bool" where
  "writer_ok s \<longleftrightarrow>
     (let l = qlen (sq s) + int (blockalloclen (copying s)) in
      case wr s of
        WSleepy _ \<Rightarrow> closed (sq s) \<or> flow (sq s) \<or> l < limit (sq s)
      | WAsleep _ \<Rightarrow> WakeupW \<in> set (pend s) \<or> (\<not> closed (sq s) \<and> flow (sq s) \<and> lowwater (limit (sq s)) \<le> l)
      | _ \<Rightarrow> True)"

definition qinv :: "qsys \<Rightarrow> bool" where
  "qinv s \<longleftrightarrow> stream_ok s \<and> reader_ok s \<and> writer_ok s"

text \<open>Blocks that stay solid, and the space of a queue without data.\<close>

lemma solid_empty: "\<lbrakk>\<forall>b\<in>set bs. bwf b \<and> solid b; cbytes bs = []\<rbrakk> \<Longrightarrow> blockalloclen bs = 0"
proof (induction bs)
  case (Cons b bs)
  then have "BLEN b = 0"
    using length_bdata [of b] by simp
  then show ?case
    using Cons by (simp add: solid_def)
qed simp

lemma discard_loop_solid:
  "\<lbrakk>\<forall>b\<in>set bs. bwf b \<and> solid b; discard_loop bs n = (k, a, r)\<rbrakk> \<Longrightarrow> \<forall>b\<in>set r. solid b"
proof (induction bs arbitrary: n k a r)
  case (Cons b bs)
  show ?case
  proof (cases "n = 0 \<or> n < BLEN b")
    case True
    then show ?thesis
      using Cons.prems brp_forward [of b n] by (auto simp: solid_def split: if_splits)
  next
    case False
    then show ?thesis
      using Cons.prems Cons.IH [of "n - BLEN b"] by (auto split: prod.splits)
  qed
qed simp

lemma skip_empty_solid:
  "\<lbrakk>\<forall>b\<in>set bs. bwf b \<and> solid b; skip_empty bs = (a, r)\<rbrakk> \<Longrightarrow> a = 0 \<and> set r \<subseteq> set bs"
proof (induction bs arbitrary: a r)
  case (Cons b bs)
  then show ?case
    by (fastforce simp: solid_def split: if_splits prod.splits)
qed simp

lemma qtake_set: "qtake k q = (bs, q') \<Longrightarrow> set bs \<union> set (blocks q') \<subseteq> set (blocks q)"
proof (induction k arbitrary: q bs q')
  case (Suc k)
  show ?case
  proof (cases "blocks q")
    case Nil
    then show ?thesis
      using Suc.prems by (simp add: qremove_def)
  next
    case (Cons b r)
    define q1 where "q1 = q\<lparr>blocks := r, qdlen := qdlen q - int (BLEN b), qlen := qlen q - int (BALLOC b)\<rparr>"
    have q1: "qremove q = (Some b, q1)"
      by (simp add: qremove_def Cons q1_def)
    obtain bs' where "qtake k q1 = (bs', q')" "bs = b # bs'"
      using Suc.prems by (auto simp: q1 split: prod.splits)
    then show ?thesis
      using Suc.IH [of q1 bs' q'] Cons by (auto simp: q1_def)
  qed
qed simp

lemma qread_first_set:
  "qread_first len q = (r, q') \<Longrightarrow> set (blocks q') \<subseteq> set (blocks q) \<and> (\<forall>bs. r = Returned bs \<longrightarrow> set bs \<subseteq> set (blocks q))"
proof (induction len q arbitrary: r q' rule: qread_first.induct)
  case (1 len q)
  show ?case
  proof (cases "blocks q")
    case Nil
    then show ?thesis
      using 1(2) by (subst (asm) qread_first.simps) (auto simp: qwait_def Let_def split: if_splits)
  next
    case (Cons b bs)
    have rd: "qwait q = (Ready, q)"
      using Cons by (simp add: qwait_def)
    show ?thesis
    proof (cases "coalesce q \<and> BLEN b = 0")
      case True
      have "qread_first len (snd (qremove q)) = (r, q')"
        using 1(2) True Cons by (subst (asm) qread_first.simps) (simp add: rd)
      then have "set (blocks q') \<subseteq> set (blocks (snd (qremove q)))
          \<and> (\<forall>bs. r = Returned bs \<longrightarrow> set bs \<subseteq> set (blocks (snd (qremove q))))"
        using 1(1) [OF rd [symmetric] refl _ Cons] True by simp
      then show ?thesis
        by (auto simp: qremove_def Cons)
    next
      case False
      define k where "k = (if coalesce q then fit len (BLEN b) bs else 0)"
      obtain first where "qtake (Suc k) q = (first, q')" "r = Returned first"
        using 1(2) False Cons by (subst (asm) qread_first.simps) (auto simp: rd k_def split: prod.splits if_splits)
      then show ?thesis
        using qtake_set [of "Suc k" q first q'] by blast
    qed
  qed
qed

text \<open>What taking bytes out does to flow control; \<open>l\<close> is the space before.\<close>

definition drained :: "int \<Rightarrow> Queue \<Rightarrow> Queue \<Rightarrow> qcall list \<Rightarrow> bool" where
  "drained l q q' w \<longleftrightarrow> qwf q' \<and> (\<forall>b\<in>set (blocks q'). solid b) \<and> limit q' = limit q \<and> inilim q' = inilim q \<and> msg q' = msg q
     \<and> closed q' = closed q \<and> bypass q' = bypass q \<and> qlen q' \<le> l
     \<and> (flow q \<longrightarrow> flow q' \<and> (lowwater (limit q) \<le> qlen q' \<or> qlen q' = l) \<or> WakeupW \<in> set w \<and> qlen q' < limit q)"

lemma restart_drained:
  assumes "qwf qa" "\<forall>b\<in>set (blocks qa). solid b" "same_control q qa" "qlen qa \<le> l" "0 < limit q" "low = lowwater (limit q) \<or> low = limit q"
    and "q' = fst (restart low qa)" "flow qa \<and> qlen qa < low \<longrightarrow> WakeupW \<in> set w"
  shows "drained l q q' w"
  using assms lowwater_le(1) [of "limit q"] by (auto simp: drained_def same_control_def)

lemma drained_same:
  assumes "qwf q'" "\<forall>b\<in>set (blocks q'). solid b" "same_control q q'" "qlen q' = l"
  shows "drained l q q' w"
  using assms by (auto simp: drained_def same_control_def)

lemma qget_drained:
  assumes "qwf q" "\<forall>b\<in>set (blocks q). solid b" "0 < limit q" "qget q = (r, q', w)"
  shows "drained (qlen q) q q' w"
proof (cases "blocks q")
  case Nil
  then show ?thesis
    using assms by (intro drained_same) (auto simp: qget_def qwf_def same_control_def)
next
  case (Cons b bs)
  show ?thesis
  proof (rule restart_drained [where qa = "q\<lparr>blocks := bs, qlen := qlen q - int (BALLOC b), qdlen := qdlen q - int (BLEN b)\<rparr>"
        and low = "lowwater (limit q)"])
  qed (use assms Cons in \<open>auto simp: qget_def qwf_def same_control_def wakes_def\<close>)
qed

lemma qdiscard_drained:
  assumes "qwf q" "\<forall>b\<in>set (blocks q). solid b" "0 < limit q" "qdiscard n q = (k, q', w)"
  shows "drained (qlen q) q q' w"
proof -
  obtain k' a r where e: "discard_loop (blocks q) n = (k', a, r)"
    by (metis prod_cases3)
  have b: "\<forall>b\<in>set (blocks q). bwf b \<and> solid b"
    using assms(1,2) by (simp add: qwf_def)
  have d: "blockalloclen (blocks q) = a + blockalloclen r" "blocklen r = blocklen (blocks q) - k'" "k' \<le> blocklen (blocks q)" "\<forall>b\<in>set r. bwf b"
    using discard_loop_ok [OF _ e] b by auto
  show ?thesis
  proof (rule restart_drained [where qa = "q\<lparr>blocks := r, qlen := qlen q - int a, qdlen := qdlen q - int k'\<rparr>" and low = "limit q"])
    show "\<forall>b\<in>set (blocks (q\<lparr>blocks := r, qlen := qlen q - int a, qdlen := qdlen q - int k'\<rparr>)). solid b"
      using discard_loop_solid [OF b e] by simp
  qed (use assms d e in \<open>auto simp: qdiscard_def qwf_def same_control_def wakes_def\<close>)
qed

lemma qconsume_drained:
  assumes "qwf q" "\<forall>b\<in>set (blocks q). solid b" "0 < limit q" "qconsume n q = (r, q', w)"
  shows "drained (qlen q) q q' w"
proof -
  obtain a bs where e: "skip_empty (blocks q) = (a, bs)"
    by fastforce
  have b: "\<forall>b\<in>set (blocks q). bwf b \<and> solid b"
    using assms(1,2) by (simp add: qwf_def)
  have wf: "qwf q'"
    using qconsume_wf(1) [OF assms(1,4)] .
  note s = skip_empty_solid [OF b e] skip_empty_ok [OF _ e]
  show ?thesis
  proof (cases bs)
    case Nil
    then show ?thesis
      using assms(4) e s(1) wf by (intro drained_same) (auto simp: qconsume_def same_control_def)
  next
    case (Cons c r')
    define l where "l = (if BLEN c < n then BLEN c else n)"
    define q1 where "q1 = q\<lparr>qlen := qlen q - int a, qdlen := qdlen q - int l\<rparr>"
    define q2 where "q2 = (if msg q \<or> l = BLEN c
        then q1\<lparr>blocks := r', qlen := qlen q1 - int (BALLOC c), qdlen := qdlen q1 - int (BLEN (c\<lparr>brp := brp c + l\<rparr>))\<rparr>
        else q1\<lparr>blocks := c\<lparr>brp := brp c + l\<rparr> # r'\<rparr>)"
    have q': "q' = fst (restart (lowwater (limit q)) q2)" "w = (if flow q2 \<and> qlen q2 < lowwater (limit q) then [WakeupW] else [])"
      using assms(4) Cons e by (auto simp: qconsume_def Let_def l_def [symmetric] q1_def q2_def wakes_def)
    have sub: "set r' \<subseteq> set (blocks q)" "c \<in> set (blocks q)"
      using s(1) Cons by auto
    have sol: "\<forall>b\<in>set (blocks q2). solid b"
      using sub b brp_forward [of c l] by (auto simp: q2_def q1_def solid_def l_def split: if_splits)
    show ?thesis
      by (rule restart_drained [where qa = q2 and low = "lowwater (limit q)"])
        (use wf q' sol assms(3) in \<open>auto simp: q2_def q1_def same_control_def\<close>)
  qed
qed

lemma bl2mem_solid:
  "\<lbrakk>\<forall>b\<in>set bs. bwf b \<and> solid b; bl2mem bs n = (m, r)\<rbrakk> \<Longrightarrow> \<forall>b\<in>set r. solid b"
proof (induction bs arbitrary: n m r)
  case (Cons b bs)
  show ?case
  proof (cases "BLEN b > n")
    case True
    then show ?thesis
      using Cons.prems brp_forward [of b n] by (auto simp: solid_def)
  next
    case False
    then show ?thesis
      using Cons.prems Cons.IH [of "n - BLEN b"] by (auto split: prod.splits)
  qed
qed simp

lemma unlock_drained:
  assumes "(q', w) = qwakeup_unlock qa" "qwf qa" "\<forall>b\<in>set (blocks qa). solid b" "same_control q qa" "qlen qa \<le> l" "0 < limit q"
  shows "drained l q q' w"
proof (rule restart_drained [where qa = qa and low = "lowwater (limit q)"])
  have "limit qa = limit q"
    using assms(4) by (simp add: same_control_def)
  then show "q' = fst (restart (lowwater (limit q)) qa)" "flow qa \<and> qlen qa < lowwater (limit q) \<longrightarrow> WakeupW \<in> set w"
    using qwakeup_unlock_eq(1,2) [of qa] unfolding assms(1) [symmetric] by simp_all
qed (use assms in auto)

lemma qread_finish_drained:
  assumes q: "qwf q" "\<forall>b\<in>set (blocks q). solid b" "0 < limit q" and c: "copyable len first" "\<forall>b\<in>set first. solid b"
    and e: "qread_finish len first q = (m, q', w)"
  shows "drained (qlen q + int (blockalloclen first)) q q' w"
proof -
  obtain qa where qa: "(q', w) = qwakeup_unlock qa" "same_control q qa" "qlen qa \<le> qlen q + int (blockalloclen first)"
    using qread_finish_wf [OF q(1) c(1) e] by blast
  obtain r where r: "bl2mem first len = (m, r)"
    using e by (auto simp: qread_finish_def split: prod.splits)
  have b: "blocks q' = blocks qa" "qwf qa"
    using qa(1) qwakeup_unlock_eq(1) [of qa] qread_finish_wf [OF q(1) c(1) e] flag_wf(4) [of qa]
    unfolding qa(1) [symmetric] by simp_all
  have "set (blocks q') \<subseteq> set (blocks q) \<union> set r"
    using e r by (auto simp: qread_finish_def qwakeup_unlock_def case_prod_unfold split: list.splits if_splits)
  then have "\<forall>b\<in>set (blocks qa). solid b"
    using bl2mem_solid [OF _ r] c q(2) unfolding b(1) copyable_def by blast
  then show ?thesis
    using unlock_drained [OF qa(1) b(2) _ qa(2,3) q(3)] by blast
qed

lemma qbread_drained:
  assumes q: "qwf q" "\<forall>b\<in>set (blocks q). solid b" "0 < limit q" and e: "qbread len q = (r, q', w)"
  shows "drained (qlen q) q q' w"
proof (cases "blocks q")
  case Nil
  have "qwf q'"
    using qbread_wf [OF q(1) e] by blast
  then show ?thesis
    using e Nil q(1) by (intro drained_same) (auto simp: qbread_def qwait_def Let_def qwf_def same_control_def split: if_splits)
next
  case (Cons b bs)
  obtain nb where r: "r = Returned nb"
    using e Cons by (auto simp: qbread_def qwait_def qremove_def Let_def split: if_splits)
  obtain qa where qa: "(q', w) = qwakeup_unlock qa" "same_control q qa" "qlen qa \<le> qlen q"
    using qbread_wf [OF q(1) e] unfolding r by auto
  have b: "blocks q' = blocks qa" "qwf qa"
    using qa(1) qwakeup_unlock_eq(1) [of qa] qbread_wf [OF q(1) e] flag_wf(4) [of qa]
    unfolding qa(1) [symmetric] by simp_all
  let ?b = "bput (drop len (bdata b)) (allocb (BLEN b - len))"
  have "blocks q' = bs \<or> (BLEN b > len \<and> blocks q' = ?b # bs)"
    using e Cons by (auto simp: qbread_def qwait_def qremove_def qwakeup_unlock_def case_prod_unfold Let_def split: if_splits)
  moreover have "solid ?b" if "BLEN b > len"
    using that bput_ok(6) [of "allocb (BLEN b - len)" "drop len (bdata b)"] q(1) Cons by (simp add: solid_def qwf_def)
  ultimately have "\<forall>b\<in>set (blocks qa). solid b"
    using q(2) Cons unfolding b(1) by auto
  then show ?thesis
    using unlock_drained [OF qa(1) b(2) _ qa(2,3) q(3)] by blast
qed

text \<open>The three parts of the invariant over a step that takes bytes out and one that adds some.\<close>

lemma drained_writer:
  assumes "writer_ok s" "drained (qlen (sq s) + int (blockalloclen (copying s))) (sq s) q' w" "0 < limit (sq s)"
    and "wr t = wr s" "sq t = q'" "pend t = pend s @ w" "copying t = []"
  shows "writer_ok t"
  using assms lowwater_le(1) [of "limit (sq s)"] by (cases "wr s") (auto simp: writer_ok_def drained_def Let_def)

definition fed :: "Queue \<Rightarrow> Queue \<Rightarrow> qcall list \<Rightarrow> bool" where
  "fed q q' w \<longleftrightarrow> closed q' = closed q
     \<and> (blocks q' = blocks q \<and> starve q' = starve q \<or> blocks q' \<noteq> [] \<and> (starve q \<longrightarrow> WakeupR \<in> set w))"

lemma fed_reader: "\<lbrakk>reader_ok s; fed (sq s) (sq t) w; rd t = rd s; pend t = pend s @ w\<rbrakk> \<Longrightarrow> reader_ok t"
  by (cases "rd s") (auto simp: reader_ok_def fed_def)

lemma stream_okD:
  assumes "stream_ok s"
  shows "qwf (sq s)" "\<not> bypass (sq s)" "0 < limit (sq s)" "limit (sq s) = inilim (sq s)"
    "\<forall>b\<in>set (blocks (sq s)). solid b" "\<forall>b\<in>set (copying s). solid b"
    "\<not> msg (sq s) \<Longrightarrow> outp s @ cbytes (copying s) @ qbytes (sq s) = inp s"
  using assms by (auto simp: stream_ok_def)

lemma drained_stream:
  assumes "stream_ok s" "drained l (sq s) (sq t) w" "\<not> msg (sq s) \<Longrightarrow> outp t @ cbytes (copying t) @ qbytes (sq t) = inp t"
    and "copying t = []" "case rd t of RCopy len first \<Rightarrow> False | _ \<Rightarrow> True"
  shows "stream_ok t"
  using assms unfolding stream_ok_def drained_def by (cases "rd t") auto

lemma drained_inv:
  assumes s: "qinv s" and d: "drained (qlen (sq s) + int (blockalloclen (copying s))) (sq s) q' w"
    and o: "\<not> msg (sq s) \<Longrightarrow> out @ qbytes q' = cbytes (copying s) @ qbytes (sq s)"
  shows "qinv (s\<lparr>sq := q', rd := RIdle, pend := pend s @ w, outp := outp s @ out\<rparr>)"
proof -
  let ?t = "s\<lparr>sq := q', rd := RIdle, pend := pend s @ w, outp := outp s @ out\<rparr>"
  have st: "stream_ok s" "writer_ok s"
    using s by (simp_all add: qinv_def)
  have "stream_ok ?t"
    using d o stream_okD(7) [OF st(1)] by (intro drained_stream [OF st(1), where l = "qlen (sq s) + int (blockalloclen (copying s))" and w = w])
      (auto simp: copying_def)
  moreover have "writer_ok ?t"
    using drained_writer [OF st(2) d stream_okD(3) [OF st(1)], of ?t] by (simp add: copying_def)
  ultimately show ?thesis
    by (simp add: qinv_def reader_ok_def)
qed

lemma solid_qlen: "\<lbrakk>qwf q; \<forall>b\<in>set (blocks q). solid b; qbytes q = []\<rbrakk> \<Longrightarrow> qlen q = 0"
  using solid_empty [of "blocks q"] by (auto simp: qwf_def qbytes_def)

lemma rd_lock_read_inv:
  assumes s: "qinv s" and r: "rd s = RWait (Read len)"
  shows "qinv (rd_lock s)"
proof -
  have st: "stream_ok s" "writer_ok s" and c: "copying s = []"
    using s r by (simp_all add: qinv_def copying_def)
  note q = stream_okD [OF st(1)]
  obtain res q' where e: "qread_first len (sq s) = (res, q')"
    by fastforce
  note ok = qread_first_wf [OF q(1) e]
  have sub: "set (blocks q') \<subseteq> set (blocks (sq s))"
    using qread_first_set [OF e] by blast
  show ?thesis
  proof (cases "\<exists>first. res = Returned first")
    case True
    then obtain first where f: "res = Returned first"
      by blast
    have fs: "set first \<subseteq> set (blocks (sq s))"
      using qread_first_set [OF e] f by blast
    have fok: "copyable len first" "qbytes (sq s) = cbytes first @ qbytes q'" "qlen q' + int (blockalloclen first) = qlen (sq s)"
      "qwf q'" "same_control (sq s) q'"
      using ok q(5) unfolding read_ok_def f solid_def by auto
    have t: "rd_lock s = s\<lparr>sq := q', rd := RCopy len first\<rparr>"
      by (simp add: rd_lock_def r e f)
    have "stream_ok (rd_lock s)"
      using fok q c fs sub unfolding t stream_ok_def by (auto simp: copying_def same_control_def)
    moreover have "writer_ok (rd_lock s)"
      using st(2) fok c unfolding t writer_ok_def by (auto simp: copying_def same_control_def Let_def split: wpc.splits)
    ultimately show ?thesis
      by (simp add: qinv_def reader_ok_def t)
  next
    case False
    then have em: "qbytes (sq s) = []" "blocks q' = []" "qwf q'" "same_control (sq s) q'" "res = Asleep \<longrightarrow> starve q'"
      using ok unfolding read_ok_def by (cases res; simp)+
    have "qlen (sq s) = 0" "qlen q' = 0"
      using solid_qlen [OF q(1,5) em(1)] em(2,3) by (simp_all add: qwf_def)
    then have d: "drained (qlen (sq s) + int (blockalloclen (copying s))) (sq s) q' []"
      using em by (intro drained_same) (simp_all add: c)
    obtain rd' where t: "rd_lock s = s\<lparr>sq := q', rd := rd'\<rparr>" "rd' = RIdle \<or> (rd' = RSleepy (Read len) \<and> starve q')"
      using False e r em(5) by (cases res) (auto simp: rd_lock_def)
    have "stream_ok (rd_lock s)"
      using em q c t by (auto simp: stream_ok_def copying_def same_control_def qbytes_def)
    moreover have "writer_ok (rd_lock s)"
      using drained_writer [OF st(2) d q(3), of "rd_lock s"] t by (auto simp: copying_def)
    moreover have "reader_ok (rd_lock s)"
      using t by (auto simp: reader_ok_def)
    ultimately show ?thesis
      by (simp add: qinv_def)
  qed
qed

lemma rd_lock_bread_inv:
  assumes s: "qinv s" and r: "rd s = RWait (Bread len)"
  shows "qinv (rd_lock s)"
proof -
  have st: "stream_ok s" "writer_ok s" and c: "copying s = []"
    using s r by (simp_all add: qinv_def copying_def)
  note q = stream_okD [OF st(1)]
  obtain res q' w where e: "qbread len (sq s) = (res, q', w)"
    by (metis prod_cases3)
  note ok = qbread_wf [OF q(1) e]
  have d: "drained (qlen (sq s) + int (blockalloclen (copying s))) (sq s) q' w"
    using qbread_drained [OF q(1,5,3) e] c by simp
  show ?thesis
  proof (cases res)
    case (Returned b)
    then show ?thesis
      using drained_inv [OF s d, of "bdata b"] ok c by (simp add: rd_lock_def r e)
  next
    case Asleep
    then have q': "q' = (sq s)\<lparr>starve := True\<rparr>" "w = []"
      using ok by simp_all
    have t: "rd_lock s = s\<lparr>sq := q', rd := RSleepy (Bread len)\<rparr>"
      by (simp add: rd_lock_def r e Asleep)
    have "stream_ok (rd_lock s)"
      using q c ok unfolding t stream_ok_def q' by (auto simp: copying_def qbytes_def)
    moreover have "writer_ok (rd_lock s)"
      using drained_writer [OF st(2) d q(3), of "rd_lock s"] t q'(2) by (auto simp: copying_def)
    ultimately show ?thesis
      by (simp add: qinv_def reader_ok_def t q')
  qed (use drained_inv [OF s d, of "[]"] ok c in \<open>simp_all add: rd_lock_def r e qbytes_def\<close>)
qed

lemma rd_lock_inv: "qinv s \<Longrightarrow> qinv (rd_lock s)"
proof (cases "rd s")
  case (RWait req)
  assume "qinv s"
  then show ?thesis
    using rd_lock_read_inv rd_lock_bread_inv RWait by (cases req) simp_all
qed (simp_all add: rd_lock_def)

lemma rd_finish_inv:
  assumes s: "qinv s"
  shows "qinv (rd_finish s)"
proof (cases "rd s")
  case (RCopy len first)
  have st: "stream_ok s"
    using s by (simp add: qinv_def)
  note q = stream_okD [OF st]
  have c: "copyable len first" "copying s = first"
    using st RCopy by (simp_all add: stream_ok_def copying_def)
  obtain m q' w where e: "qread_finish len first (sq s) = (m, q', w)"
    by (metis prod_cases3)
  have "drained (qlen (sq s) + int (blockalloclen (copying s))) (sq s) q' w"
    using qread_finish_drained [OF q(1,5,3) c(1) _ e] q(6) c(2) by simp
  moreover have "m @ qbytes q' = cbytes (copying s) @ qbytes (sq s)" if "\<not> msg (sq s)"
    using qread_finish_wf [OF q(1) c(1) e] that c(2) by blast
  ultimately show ?thesis
    using drained_inv [OF s, of q' w m] RCopy e by (simp add: rd_finish_def)
qed (use s in \<open>simp_all add: rd_finish_def\<close>)

lemma consumer_inv:
  assumes s: "qinv s" and r: "rd s = RIdle"
  shows "qinv (do_get s)" "qinv (do_discard n s)" "qinv (do_consume n s)"
proof -
  have st: "stream_ok s" and c: "copying s = []"
    using s r by (simp_all add: qinv_def copying_def)
  note q = stream_okD [OF st]
  obtain g q1 w1 k q2 w2 p q3 w3 where e: "qget (sq s) = (g, q1, w1)" "qdiscard n (sq s) = (k, q2, w2)" "qconsume n (sq s) = (p, q3, w3)"
    by (metis prod_cases3)
  have d: "drained (qlen (sq s) + int (blockalloclen (copying s))) (sq s) q1 w1" "drained (qlen (sq s) + int (blockalloclen (copying s))) (sq s) q2 w2"
    "drained (qlen (sq s) + int (blockalloclen (copying s))) (sq s) q3 w3"
    using qget_drained [OF q(1,5,3) e(1)] qdiscard_drained [OF q(1,5,3) e(2)] qconsume_drained [OF q(1,5,3) e(3)] c by simp_all
  have sr: "s\<lparr>sq := qa, rd := RIdle, pend := wa, outp := oa\<rparr> = s\<lparr>sq := qa, pend := wa, outp := oa\<rparr>" for qa wa oa
    using r by (cases s) simp
  have "k = min n (length (qbytes (sq s)))" "qbytes q2 = drop n (qbytes (sq s))"
    using qdiscard_wf [OF q(1) e(2)] q(1) length_cbytes [of "blocks (sq s)"] by (auto simp: qwf_def qbytes_def min_def)
  then have "take k (qbytes (sq s)) @ qbytes q2 = qbytes (sq s)"
    by (simp add: min_def)
  then show "qinv (do_discard n s)"
    using drained_inv [OF s d(2), of "take k (qbytes (sq s))"] c by (simp add: do_discard_def e(2) sr)
  show "qinv (do_get s)"
    using drained_inv [OF s d(1), of "case g of None \<Rightarrow> [] | Some b \<Rightarrow> bdata b"] qget_wf [OF q(1) e(1)] c by (simp add: do_get_def e(1) sr)
  show "qinv (do_consume n s)"
    using drained_inv [OF s d(3), of "case p of None \<Rightarrow> [] | Some b \<Rightarrow> b"] qconsume_wf(2) [OF q(1) e(3)] c by (simp add: do_consume_def e(3) sr)
qed

lemma fed_inv:
  assumes s: "qinv s" and q': "qwf q'" "\<forall>b\<in>set (blocks q'). solid b" "fed (sq s) q' w" "limit q' = limit (sq s)" "inilim q' = inilim (sq s)"
      "msg q' = msg (sq s)" "bypass q' = bypass (sq s)" "qbytes q' = qbytes (sq s) @ d"
    and v: "case v of WSleepy _ \<Rightarrow> False | WAsleep _ \<Rightarrow> False | _ \<Rightarrow> True"
  shows "qinv (s\<lparr>sq := q', wr := v, pend := pend s @ w, inp := inp s @ d\<rparr>)"
proof -
  let ?t = "s\<lparr>sq := q', wr := v, pend := pend s @ w, inp := inp s @ d\<rparr>"
  have st: "stream_ok s" "reader_ok s"
    using s by (simp_all add: qinv_def)
  have "copying ?t = copying s"
    by (simp add: copying_def)
  then have "stream_ok ?t"
    using st(1) q' by (auto simp: stream_ok_def)
  moreover have "reader_ok ?t"
    using fed_reader [OF st(2), of ?t w] q'(3) by simp
  ultimately show ?thesis
    using v by (cases v) (simp_all add: qinv_def writer_ok_def)
qed

lemma qbwrite_fed:
  assumes "qwf q" "\<forall>b\<in>set (blocks q). solid b" "bwf b" "solid b" "qbwrite b q = (r, q', w)"
  shows "qwf q'" "\<forall>b\<in>set (blocks q'). solid b" "fed q q' w" "limit q' = limit q" "inilim q' = inilim q" "msg q' = msg q" "bypass q' = bypass q"
    "qbytes q' = qbytes q @ (if r = Queued then bdata b else [])"
proof -
  have c: "same_control q q'"
    using qbwrite_wf [OF assms(1,3,5)] by blast
  show "qwf q'" "qbytes q' = qbytes q @ (if r = Queued then bdata b else [])"
    using qbwrite_wf [OF assms(1,3,5)] by (cases r; simp)+
  show "limit q' = limit q" "inilim q' = inilim q" "msg q' = msg q" "bypass q' = bypass q"
    using c by (simp_all add: same_control_def)
  show "\<forall>b\<in>set (blocks q'). solid b" "fed q q' w"
    using assms by (auto simp: qbwrite_def fed_def case_prod_unfold split: if_splits)
qed

lemma wr_block_inv:
  assumes s: "qinv s" and b: "bwf b" "solid b"
  shows "qinv (wr_block b s)"
proof -
  obtain r q' w where e: "qbwrite b (sq s) = (r, q', w)"
    by (metis prod_cases3)
  have st: "stream_ok s"
    using s by (simp add: qinv_def)
  note f = qbwrite_fed [OF stream_okD(1,5) [OF st] b e]
  have "qinv (s\<lparr>sq := q', wr := if r = Queued then WLoop [] else WIdle, pend := pend s @ w, inp := inp s @ (if r = Queued then bdata b else [])\<rparr>)"
    by (rule fed_inv [OF s f]) simp
  then show ?thesis
    by (cases r) (simp_all add: wr_block_def e)
qed

lemma wr_put_inv:
  assumes s: "qinv s"
  shows "qinv (wr_put s)"
proof (cases "wr s")
  case (WPut p)
  obtain r q' w rest where e: "qwrite_put p (sq s) = (r, (q', w), rest)"
    by (metis prod.collapse)
  obtain b where b: "bwf b" "bdata b = take Maxatomic p" "BALLOC b = min Maxatomic (length p)" "qbwrite b (sq s) = (r, q', w)"
    using qwrite_put_eq [OF e] by blast
  have "BLEN b = BALLOC b"
    using length_bdata [OF b(1)] b(2,3) by (simp add: min.commute)
  then have sb: "solid b"
    by (auto simp: solid_def)
  have st: "stream_ok s"
    using s by (simp add: qinv_def)
  note f = qbwrite_fed [OF stream_okD(1,5) [OF st] b(1) sb b(4)]
  define v where "v = (case r of Queued \<Rightarrow> WLoop rest | WRaised _ \<Rightarrow> WIdle | _ \<Rightarrow> wr_next rest q')"
  have "qinv (s\<lparr>sq := q', wr := v, pend := pend s @ w, inp := inp s @ (if r = Queued then bdata b else [])\<rparr>)"
    by (rule fed_inv [OF s f]) (cases r; simp add: v_def wr_next_def)
  then show ?thesis
    using WPut b(2) by (cases r) (simp_all add: wr_put_def e v_def)
qed (use s in \<open>simp_all add: wr_put_def\<close>)

lemma producer_inv:
  assumes s: "qinv s" and wi: "wr s = WIdle" and bs: "bs \<noteq> []" "\<forall>b\<in>set bs. bwf b \<and> solid b"
  shows "qinv (do_produce p s)" "qinv (do_pass bs s)" "qinv (do_passnolim bs s)"
proof -
  have st: "stream_ok s"
    using s by (simp add: qinv_def)
  note q = stream_okD [OF st]
  have wf: "\<forall>b\<in>set bs. bwf b"
    using bs by blast
  obtain n1 q1 w1 n2 q2 w2 n3 q3 w3 where e: "qproduce p (sq s) = (n1, q1, w1)" "qpass bs (sq s) = (n2, q2, w2)" "qpassnolim bs (sq s) = (n3, q3, w3)"
    by (metis prod_cases3)
  have sr: "s\<lparr>sq := qa, wr := WIdle, pend := wa, inp := oa\<rparr> = s\<lparr>sq := qa, pend := wa, inp := oa\<rparr>" for qa wa oa
    using wi by (cases s) simp
  have nw: "case WIdle of WSleepy _ \<Rightarrow> False | WAsleep _ \<Rightarrow> False | _ \<Rightarrow> True"
    by simp
  have sp: "solid (bput p (allocb (length p)))"
    by (auto simp: solid_def bput_alloc)
  have "qinv (s\<lparr>sq := q1, wr := WIdle, pend := pend s @ w1, inp := inp s @ (if n1 = -1 then [] else p)\<rparr>)"
    by (rule fed_inv [OF s _ _ _ _ _ _ _ _ nw])
      (use qproduce_wf [OF q(1) e(1)] e(1) q(5) sp in \<open>auto simp: qproduce_def wakes_def fed_def case_prod_unfold split: if_splits\<close>)
  then show "qinv (do_produce p s)"
    by (simp add: do_produce_def e(1) sr)
  have "qinv (s\<lparr>sq := q2, wr := WIdle, pend := pend s @ w2, inp := inp s @ (if qlen (sq s) < limit (sq s) \<and> \<not> closed (sq s) then cbytes bs else [])\<rparr>)"
    by (rule fed_inv [OF s _ _ _ _ _ _ _ _ nw])
      (use qpass_wf [OF q(1) wf e(2)] e(2) q(5) bs in \<open>auto simp: qpass_def wakes_def fed_def split: if_splits\<close>)
  then show "qinv (do_pass bs s)"
    by (simp add: do_pass_def e(2) sr)
  have "qinv (s\<lparr>sq := q3, wr := WIdle, pend := pend s @ w3, inp := inp s @ (if closed (sq s) then [] else cbytes bs)\<rparr>)"
    by (rule fed_inv [OF s _ _ _ _ _ _ _ _ nw])
      (use qpassnolim_wf [OF q(1) wf e(3)] e(3) q(5) bs in \<open>auto simp: qpassnolim_def wakes_def fed_def split: if_splits\<close>)
  then show "qinv (do_passnolim bs s)"
    by (simp add: do_passnolim_def e(3) sr)
qed

lemma iwrite_inv:
  assumes s: "qinv s" and wi: "wr s = WIdle" and p: "length p \<le> Maxatomic"
  shows "qinv (do_iwrite d p s)"
proof -
  have st: "stream_ok s"
    using s by (simp add: qinv_def)
  note q = stream_okD [OF st]
  let ?b = "bput p (allocb (length p))"
  define q' w where "q' = fst (unstarve (qaddlist [?b] (sq s)))"
    and "w = (if d \<or> starve (sq s) then kicks q' @ [WakeupR] else [])"
  have e: "qiwrite_loop p d (sq s) = (length p, q', w)"
    using p by (subst qiwrite_loop.simps) (simp add: qwrite_more_def unstarve_def q'_def w_def Let_def)
  have sp: "solid ?b"
    by (auto simp: solid_def bput_alloc)
  have nw: "case WIdle of WSleepy _ \<Rightarrow> False | WAsleep _ \<Rightarrow> False | _ \<Rightarrow> True"
    by simp
  have "qinv (s\<lparr>sq := q', wr := WIdle, pend := pend s @ w, inp := inp s @ p\<rparr>)"
    by (rule fed_inv [OF s _ _ _ _ _ _ _ _ nw])
      (use qiwrite_loop_wf [OF q(1) e] q(5) sp in \<open>auto simp: q'_def w_def fed_def unstarve_def qaddlist_def\<close>)
  moreover have "s\<lparr>sq := q', wr := WIdle, pend := pend s @ w, inp := inp s @ p\<rparr> = s\<lparr>sq := q', pend := pend s @ w, inp := inp s @ p\<rparr>"
    using wi by (cases s) simp
  ultimately show ?thesis
    by (simp add: do_iwrite_def e)
qed

lemma reader_step:
  assumes s: "qinv s" and c: "copying s = []" "copying (s\<lparr>rd := v\<rparr>) = []" and r: "case v of RCopy _ _ \<Rightarrow> False | _ \<Rightarrow> True" "reader_ok (s\<lparr>rd := v\<rparr>)"
  shows "qinv (s\<lparr>rd := v\<rparr>)"
proof -
  have "stream_ok (s\<lparr>rd := v\<rparr>)"
    using s c r(1) by (cases v) (simp_all add: qinv_def stream_ok_def)
  moreover have "writer_ok (s\<lparr>rd := v\<rparr>)"
    using s c by (cases "wr s") (simp_all add: qinv_def writer_ok_def)
  ultimately show ?thesis
    using r(2) by (simp add: qinv_def)
qed

lemma reader_move:
  assumes s: "qinv s"
  shows "rd s = RIdle \<Longrightarrow> qinv (s\<lparr>rd := RWait req\<rparr>)" "rd s = RSleepy req \<or> rd s = RAsleep req \<Longrightarrow> qinv (s\<lparr>rd := RIdle\<rparr>)" "qinv (rd_sleep s)"
proof -
  show "rd s = RIdle \<Longrightarrow> qinv (s\<lparr>rd := RWait req\<rparr>)" "rd s = RSleepy req \<or> rd s = RAsleep req \<Longrightarrow> qinv (s\<lparr>rd := RIdle\<rparr>)"
    by (rule reader_step [OF s]; auto simp: copying_def reader_ok_def)+
  show "qinv (rd_sleep s)"
  proof (cases "rd s")
    case (RSleepy r)
    define v where "v = (if notempty (sq s) then RWait r else RAsleep r)"
    have "reader_ok (s\<lparr>rd := v\<rparr>)"
      using s RSleepy by (auto simp: qinv_def reader_ok_def v_def notempty_def)
    then have "qinv (s\<lparr>rd := v\<rparr>)"
      by (intro reader_step [OF s]) (simp_all add: copying_def RSleepy v_def)
    then show ?thesis
      by (simp add: rd_sleep_def RSleepy v_def)
  qed (use s in \<open>simp_all add: rd_sleep_def\<close>)
qed

text \<open>What the parts of the invariant depend on.\<close>

lemma copying_cong: "rd t = rd s \<Longrightarrow> copying t = copying s"
  by (simp add: copying_def)

lemma stream_cong:
  assumes "stream_ok s" "rd t = rd s" "outp t = outp s" "inp t = inp s" "blocks (sq t) = blocks (sq s)" "qlen (sq t) = qlen (sq s)"
    "qdlen (sq t) = qdlen (sq s)" "limit (sq t) = limit (sq s)" "inilim (sq t) = inilim (sq s)" "msg (sq t) = msg (sq s)" "bypass (sq t) = bypass (sq s)"
  shows "stream_ok t"
  using assms copying_cong [OF assms(2)] by (simp add: stream_ok_def qwf_def qbytes_def)

lemma reader_cong:
  assumes "reader_ok s" "rd t = rd s" "set (pend s) \<subseteq> set (pend t)" "blocks (sq t) = blocks (sq s)" "starve (sq t) = starve (sq s)" "closed (sq t) = closed (sq s)"
  shows "reader_ok t"
  using assms by (cases "rd s") (auto simp: reader_ok_def)

lemma writer_cong:
  assumes "writer_ok s" "rd t = rd s" "wr t = wr s" "set (pend s) \<subseteq> set (pend t)" "qlen (sq t) = qlen (sq s)" "limit (sq t) = limit (sq s)"
    "closed (sq t) = closed (sq s)" "flow (sq t) = flow (sq s)"
  shows "writer_ok t"
  using assms copying_cong [OF assms(2)] by (cases "wr s") (auto simp: writer_ok_def)

lemma writer_awake: "(\<And>r. wr t \<noteq> WSleepy r) \<Longrightarrow> (\<And>r. wr t \<noteq> WAsleep r) \<Longrightarrow> writer_ok t"
  unfolding writer_ok_def by (cases "wr t") (auto simp: Let_def)

lemma writer_move:
  assumes "qinv s" and "case v of WSleepy _ \<Rightarrow> False | WAsleep _ \<Rightarrow> False | _ \<Rightarrow> True"
  shows "qinv (s\<lparr>wr := v\<rparr>)"
  using assms stream_cong [of s "s\<lparr>wr := v\<rparr>"] reader_cong [of s "s\<lparr>wr := v\<rparr>"] writer_awake [of "s\<lparr>wr := v\<rparr>"]
  by (cases v) (simp_all add: qinv_def)

lemma wr_loop_inv:
  assumes s: "qinv s"
  shows "qinv (wr_loop s)"
proof (cases "wr s")
  case (WLoop rest)
  obtain go q where e: "qbwrite_wait (sq s) = (go, q)"
    by fastforce
  then have q: "q = (if go then sq s else (sq s)\<lparr>flow := True\<rparr>)"
    by (auto simp: qbwrite_wait_def split: if_splits)
  have t: "wr_loop s = s\<lparr>sq := q, wr := if go then wr_next rest q else WSleepy rest\<rparr>"
    using e WLoop by (auto simp: wr_loop_def)
  have "stream_ok (wr_loop s)" "reader_ok (wr_loop s)"
    using s stream_cong [of s "wr_loop s"] reader_cong [of s "wr_loop s"] by (simp_all add: t qinv_def q)
  moreover have "writer_ok (wr_loop s)"
    by (auto simp: t writer_ok_def q wr_next_def)
  ultimately show ?thesis
    by (simp add: qinv_def)
qed (use s in \<open>simp_all add: wr_loop_def\<close>)

lemma wr_sleep_inv:
  assumes s: "qinv s"
  shows "qinv (wr_sleep s)"
proof (cases "wr s")
  case (WSleepy rest)
  define v where "v = (if qnotfull (sq s) then WLoop rest else WAsleep rest)"
  have t: "wr_sleep s = s\<lparr>wr := v\<rparr>"
    by (simp add: wr_sleep_def WSleepy v_def)
  have c: "copying (s\<lparr>wr := v\<rparr>) = copying s"
    by (simp add: copying_def)
  have "lowwater (limit (sq s)) \<le> limit (sq s)"
    using s lowwater_le(1) [of "limit (sq s)"] by (simp add: qinv_def stream_ok_def)
  then have "writer_ok (wr_sleep s)"
    using s WSleepy unfolding t qinv_def by (auto simp: writer_ok_def c v_def qnotfull_def Let_def)
  then show ?thesis
    using s stream_cong [of s "s\<lparr>wr := v\<rparr>"] reader_cong [of s "s\<lparr>wr := v\<rparr>"] by (simp add: t qinv_def)
qed (use s in \<open>simp_all add: wr_sleep_def\<close>)

lemma reader_woken: "\<lbrakk>WakeupR \<in> set (pend t); closed (sq t)\<rbrakk> \<Longrightarrow> reader_ok t"
  by (cases "rd t") (simp_all add: reader_ok_def)

lemma writer_woken: "\<lbrakk>WakeupW \<in> set (pend t); closed (sq t) \<or> qlen (sq t) + int (blockalloclen (copying t)) < limit (sq t)\<rbrakk> \<Longrightarrow> writer_ok t"
  by (cases "wr t") (auto simp: writer_ok_def Let_def)

lemma control_inv:
  assumes s: "qinv s"
  shows "qinv (do_close s)" "qinv (do_hangup m s)" "qinv (s\<lparr>sq := qnoblock on (sq s)\<rparr>)"
    "rd s = RIdle \<Longrightarrow> qinv (do_flush s)" "rd s = RIdle \<Longrightarrow> wr s = WIdle \<Longrightarrow> qinv (s\<lparr>sq := qreopen (sq s)\<rparr>)"
proof -
  have st: "stream_ok s" "reader_ok s" "writer_ok s"
    using s by (simp_all add: qinv_def)
  have c: "copying (s\<lparr>sq := q, pend := w, inp := i\<rparr>) = copying s" for q w i
    by (simp add: copying_def)
  have "stream_ok (do_close s)"
    using st(1) by (auto simp: stream_ok_def do_close_def qclose_def c qwf_def qbytes_def)
  then show "qinv (do_close s)"
    by (simp add: qinv_def reader_woken writer_woken do_close_def qclose_def)
  have "stream_ok (do_hangup m s)"
    using stream_cong [OF st(1), of "do_hangup m s"] by (simp add: do_hangup_def qhangup_def)
  then show "qinv (do_hangup m s)"
    by (simp add: qinv_def reader_woken writer_woken do_hangup_def qhangup_def)
  show "qinv (s\<lparr>sq := qnoblock on (sq s)\<rparr>)"
    using stream_cong [OF st(1), of "s\<lparr>sq := qnoblock on (sq s)\<rparr>"] reader_cong [OF st(2), of "s\<lparr>sq := qnoblock on (sq s)\<rparr>"]
      writer_cong [OF st(3), of "s\<lparr>sq := qnoblock on (sq s)\<rparr>"] by (simp add: qinv_def qnoblock_def)
  show "qinv (do_flush s)" if r: "rd s = RIdle"
  proof -
    have "stream_ok (do_flush s)"
      using st(1) r by (auto simp: stream_ok_def do_flush_def qflush_def c qwf_def qbytes_def)
    moreover have "writer_ok (do_flush s)"
      using st(1) r by (intro writer_woken) (simp_all add: stream_ok_def do_flush_def qflush_def c copying_def [of s])
    ultimately show ?thesis
      using r by (simp add: qinv_def reader_ok_def do_flush_def qflush_def)
  qed
  show "qinv (s\<lparr>sq := qreopen (sq s)\<rparr>)" if "rd s = RIdle" "wr s = WIdle"
  proof -
    have "stream_ok (s\<lparr>sq := qreopen (sq s)\<rparr>)"
      using stream_okD(4) [OF st(1)] by (intro stream_cong [OF st(1)]) (simp_all add: qreopen_def)
    then show ?thesis
      using that by (simp add: qinv_def reader_ok_def writer_ok_def)
  qed
qed

lemma Wakeup_inv:
  assumes s: "qinv s" and p: "pend s = xs @ c # ys"
  shows "qinv (Wakeup c (s\<lparr>pend := xs @ ys\<rparr>))"
proof -
  let ?t = "Wakeup c (s\<lparr>pend := xs @ ys\<rparr>)"
  have st: "stream_ok s" "reader_ok s" "writer_ok s"
    using s by (simp_all add: qinv_def)
  have c: "copying ?t = copying s"
    by (cases c; cases "rd s"; cases "wr s") (simp_all add: Wakeup_def copying_def)
  have f: "sq ?t = sq s" "outp ?t = outp s" "inp ?t = inp s" "pend ?t = xs @ ys"
    by (cases c; cases "rd s"; cases "wr s"; simp add: Wakeup_def)+
  have "stream_ok ?t"
    using st(1) unfolding stream_ok_def c f
    by (cases c; cases "rd s"; cases "wr s") (simp_all add: Wakeup_def)
  moreover have "reader_ok ?t"
    using st(2) p unfolding reader_ok_def f
    by (cases c; cases "rd s"; cases "wr s") (simp_all add: Wakeup_def)
  moreover have "writer_ok ?t"
    using st(3) p unfolding writer_ok_def f c
    by (cases c; cases "rd s"; cases "wr s") (simp_all add: Wakeup_def)
  ultimately show ?thesis
    by (simp add: qinv_def)
qed

interpretation queue_sys: step_system qinit qstep qinv
proof unfold_locales
  fix s assume "qinit s"
  then show "qinv s"
    by (auto simp: qinit_def qsys0_def qinv_def stream_ok_def reader_ok_def writer_ok_def copying_def qopen_wf)
      (auto simp: qopen_def qbytes_def)
next
  fix s t assume s: "qinv s" and "qstep s t"
  from this(2) show "qinv t"
  proof cases
    case (produce p)
    then show ?thesis
      using producer_inv(1) [OF s produce(2), of "[allocb 0]"] by (simp add: solid_def BALLOC_def)
  next
    case (call xs c ys)
    then show ?thesis
      using Wakeup_inv [OF s call(2)] by simp
  qed (use s rd_lock_inv rd_finish_inv reader_move writer_move wr_put_inv wr_block_inv wr_loop_inv wr_sleep_inv
      consumer_inv iwrite_inv producer_inv(2,3) [OF s] control_inv in simp_all)
qed

text \<open>
  Claim C37 (safety).  Bytes come out of a queue that is not message oriented in the order in which they were put in, none lost
  and none twice: in every state that \<open>qstep\<close> reaches, the bytes delivered, those that \<open>qread\<close> is copying
  and those on the queue are, in this order, the bytes queued, less what \<open>qclose\<close> and \<open>qflush\<close> have dropped.
  \<open>qlen\<close> reports the bytes on the queue.  This holds for users of the queue who keep to the steps: drivers take and flush only while no
  process is reading, and add only while no process is writing; a \<open>qget\<close> while \<open>qread\<close> copies could overtake it.
\<close>

theorem queue_fifo:
  assumes "qinit s" and "qstep\<^sup>*\<^sup>* s t" and "\<not> msg (sq t)"
  shows "outp t @ cbytes (copying t) @ qbytes (sq t) = inp t \<and> qdlen (sq t) = int (length (qbytes (sq t)))"
proof -
  have "stream_ok t"
    using queue_sys.reachable_inv [OF assms(1,2)] by (simp add: qinv_def)
  then show ?thesis
    using stream_okD(1,7) [of t] assms(3) length_cbytes [of "blocks (sq t)"] by (auto simp: qwf_def qbytes_def)
qed

lemma qsys0_init: "0 < lim \<Longrightarrow> qinit (qsys0 (qopen lim m co ak ki))"
  unfolding qinit_def by blast

theorem queue_fifo_witness:
  "let s = do_produce [1, 2, 3] (qsys0 (qopen 8 False False False False)); t = rd_lock (s\<lparr>rd := RWait (Read 2)\<rparr>)
   in rd t \<noteq> RIdle \<and> outp t @ cbytes (copying t) @ qbytes (sq t) = [1, 2, 3]"
proof -
  define s0 where "s0 = qsys0 (qopen 8 False False False False)"
  define s where "s = do_produce [1, 2, 3] s0"
  define t where "t = rd_lock (s\<lparr>rd := RWait (Read 2)\<rparr>)"
  note defs = do_produce_def qproduce_def qsys0_def qopen_def unstarve_def wakes_def qaddlist_def flow_at_def bput_def allocb_def
  have s: "wr s0 = WIdle" "rd s = RIdle" "inp s = [1, 2, 3]" "\<not> msg (sq s)" "blocks (sq s) \<noteq> []" "\<not> coalesce (sq s)"
    by (simp_all add: s_def s0_def defs)
  have "qstep s0 s" "qstep s (s\<lparr>rd := RWait (Read 2)\<rparr>)" "qstep (s\<lparr>rd := RWait (Read 2)\<rparr>) t"
    using qstep.produce [OF s(1)] qstep.rd_start [OF s(2)] qstep.rd_lock unfolding s_def t_def by blast+
  then have r: "qstep\<^sup>*\<^sup>* s0 t"
    by (meson converse_rtranclp_into_rtranclp rtranclp.rtrancl_refl)
  have t: "rd t \<noteq> RIdle" "inp t = inp s" "\<not> msg (sq t)"
    using s by (auto simp: t_def rd_lock_def qread_first.simps [of 2 "sq s"] qwait_def qremove_def split: list.splits)
  have i: "qinit s0"
    unfolding s0_def by (rule qsys0_init) simp
  show ?thesis
    using queue_fifo [OF i r t(3)] t s(3) by (simp add: Let_def t_def s_def s0_def)
qed



section \<open>At the edges\<close>

text \<open>
  With a limit of one byte nothing is less than half of it: a writer that fills the queue stays asleep when the queue has
  been read empty.
\<close>

lemma limit_one_stuck:
  "\<exists>s t. s = qsys0 (qopen 1 False False False False) \<and> qstep\<^sup>*\<^sup>* s t
    \<and> wr t = WAsleep [] \<and> blocks (sq t) = [] \<and> rd t = RIdle \<and> pend t = [] \<and> outp t = [7]"
proof -
  define s0 where "s0 = qsys0 (qopen 1 False False False False)"
  define s1 where "s1 = wr_sleep (wr_loop (wr_put (s0\<lparr>wr := WPut [7]\<rparr>)))"
  define s2 where "s2 = Wakeup WakeupR (s1\<lparr>pend := []\<rparr>)"
  define t where "t = rd_lock (s2\<lparr>rd := RWait (Bread 1)\<rparr>)"
  note defs = t_def s2_def s1_def s0_def qsys0_def qopen_def wr_sleep_def wr_loop_def wr_put_def qwrite_put_def Maxatomic_def qbwrite_def qaddlist_def
    unstarve_def bput_def allocb_def BLEN_def BALLOC_def kicks_def qbwrite_wait_def qnotfull_def Wakeup_def rd_lock_def qbread_def qwait_def qremove_def
    qwakeup_unlock_def restart_def lowwater_def bdata_def
  have p: "pend s1 = [] @ WakeupR # []" "wr s0 = WIdle" "rd s2 = RIdle"
    by (simp_all add: defs)
  have "qstep\<^sup>*\<^sup>* s0 s1"
    unfolding s1_def by (rule converse_rtranclp_into_rtranclp, rule qstep.wr_start [OF p(2)], rule converse_rtranclp_into_rtranclp, rule qstep.wr_put,
        rule converse_rtranclp_into_rtranclp, rule qstep.wr_loop, rule r_into_rtranclp, rule qstep.wr_sleep)
  also have "qstep s1 s2"
    using qstep.call [OF p(1)] by (simp add: s2_def)
  also have "qstep\<^sup>*\<^sup>* s2 t"
    unfolding t_def by (rule converse_rtranclp_into_rtranclp, rule qstep.rd_start [OF p(3)], rule r_into_rtranclp, rule qstep.rd_lock)
  finally have "qstep\<^sup>*\<^sup>* s0 t" .
  moreover have "wr t = WAsleep []" "blocks (sq t) = []" "rd t = RIdle" "pend t = []" "outp t = [7]"
    by (simp_all add: defs)
  ultimately show ?thesis
    unfolding s0_def by blast
qed

text \<open>
  \<open>qflush\<close> while a reader is between \<open>qwait\<close> and \<open>Sleep\<close>: bytes arrive, which clears \<open>Qstarve\<close>, and are flushed; the reader
  sleeps, and the bytes that arrive next do not wake it.
\<close>

lemma flush_lost_wakeup:
  "let s = rd_lock ((qsys0 (qopen 8 False False False False))\<lparr>rd := RWait (Bread 1)\<rparr>);
       s = do_flush (do_produce [1] s); s = Wakeup WakeupR (s\<lparr>pend := []\<rparr>);
       t = do_produce [2] (rd_sleep s)
   in rd t = RAsleep (Bread 1) \<and> qbytes (sq t) = [2] \<and> pend t = []"
  by (simp add: Let_def qsys0_def qopen_def rd_lock_def qbread_def qwait_def do_produce_def qproduce_def wakes_def unstarve_def qaddlist_def flow_at_def
      bput_def allocb_def BLEN_def BALLOC_def do_flush_def qflush_def Wakeup_def rd_sleep_def notempty_def qbytes_def bdata_def)

text \<open>\<open>qconsume\<close> drops blocks without data, and does not restart the writer when nothing is left.\<close>

lemma consume_no_restart:
  "let q = (snd (qbwrite_wait (fst (snd (qbwrite (allocb 8) (qopen 8 False False False False))))))
   in flow q \<and> qconsume 1 q = (None, q\<lparr>blocks := [], qlen := 0, starve := True\<rparr>, []) \<and> 0 < lowwater (limit q)"
  by (simp add: Let_def qopen_def qbwrite_def qaddlist_def unstarve_def allocb_def BLEN_def BALLOC_def qbwrite_wait_def qnotfull_def qconsume_def lowwater_def)

text \<open>\<open>qwrite\<close> to a message queue stops after the first 32K, and returns the length it was given.\<close>

lemma qwrite_msg_cut:
  assumes "wr s = WPut p" "msg (sq s)" "\<not> bypass (sq s)" "\<not> closed (sq s)" "\<not> noblock (sq s)"
  shows "inp (wr_put s) = inp s @ take Maxatomic p \<and> (\<forall>rest. wr_next rest (sq (wr_put s)) = WIdle)"
proof -
  obtain r q' w rest where e: "qwrite_put p (sq s) = (r, (q', w), rest)"
    by (metis prod.collapse)
  then have "r = Queued" "msg q'"
    using assms by (auto simp: qwrite_put_def qbwrite_def unstarve_def Let_def split: if_splits)
  then show ?thesis
    using assms(1) e by (simp add: wr_put_def wr_next_def qwrite_more_def)
qed

text \<open>\<open>qpass\<close> returns the space of the blocks when it queues them, and their data when it does not.\<close>

lemma qpass_results:
  "fst (qpass [allocb 4] (qopen 8 False False False False)) = 4"
  "fst (qpass [allocb 4] (fst (qhangup [] (qopen 8 False False False False)))) = 0"
  by (simp_all add: qpass_def qopen_def qhangup_def BALLOC_def)

end
