(* ===== verification/Mp_Vec.thy ===== *)
theory Mp_Vec
  imports Inferno_Base
begin

text \<open>
  Vectors of digits of the multiple precision library (\<^verbatim>\<open>src/libmp/port\<close>): \<^verbatim>\<open>mpvecadd.c\<close>, \<^verbatim>\<open>mpvecsub.c\<close>,
  \<^verbatim>\<open>mpveccmp.c\<close>, \<^verbatim>\<open>mpvecdigmuladd.c\<close> and the vector part of \<^verbatim>\<open>mpmul.c\<close>.  A pointer and a length are a list
  of digits, least significant first; a routine that writes a vector returns it.  Every routine reads
  an element before it writes the element of the same index, so a destination that is one of the
  sources gives the same digits.
\<close>

type_synonym mpdigit = "32 word"

text \<open>The number that a vector of digits stands for.\<close>

primrec mpval :: "mpdigit list \<Rightarrow> int" where
  "mpval [] = 0"
| "mpval (d # ds) = uint d + 2 ^ 32 * mpval ds"

section \<open>Addition, subtraction, comparison\<close>

fun mpvecadd_loop :: "mpdigit \<Rightarrow> mpdigit list \<Rightarrow> mpdigit list \<Rightarrow> mpdigit list" where
  "mpvecadd_loop carry [] b = [carry]"
| "mpvecadd_loop carry (x # a) (y # b) =
     (let x = x + carry;
          carry = (if x < carry then 1 else 0);
          x = x + y;
          carry = (if x < y then carry + 1 else carry)
      in x # mpvecadd_loop carry a b)"
| "mpvecadd_loop carry (x # a) [] =
     (let x = x + carry;
          carry = (if x < carry then 1 else 0)
      in x # mpvecadd_loop carry a [])"

definition mpvecadd :: "mpdigit list \<Rightarrow> mpdigit list \<Rightarrow> mpdigit list" where
  "mpvecadd a b = mpvecadd_loop 0 a b"

fun mpvecsub_loop :: "mpdigit \<Rightarrow> mpdigit list \<Rightarrow> mpdigit list \<Rightarrow> mpdigit list" where
  "mpvecsub_loop borrow [] b = []"
| "mpvecsub_loop borrow (x # a) (y # b) =
     (let y = y + borrow;
          borrow = (if y < borrow then 1 else 0);
          borrow = (if x < y then borrow + 1 else borrow)
      in (x - y) # mpvecsub_loop borrow a b)"
| "mpvecsub_loop borrow (x # a) [] =
     (let y = x - borrow;
          borrow = (if y > x then 1 else 0)
      in y # mpvecsub_loop borrow a [])"

definition mpvecsub :: "mpdigit list \<Rightarrow> mpdigit list \<Rightarrow> mpdigit list" where
  "mpvecsub a b = mpvecsub_loop 0 a b"

text \<open>The three loops of \<open>mpveccmp\<close>.\<close>

fun cmp_excess :: "mpdigit list \<Rightarrow> nat \<Rightarrow> nat \<Rightarrow> bool" where
  "cmp_excess a alen blen =
     (if alen > blen then (if a ! (alen - 1) \<noteq> 0 then True else cmp_excess a (alen - 1) blen) else False)"

declare cmp_excess.simps [simp del]

fun cmp_low :: "mpdigit list \<Rightarrow> mpdigit list \<Rightarrow> nat \<Rightarrow> int" where
  "cmp_low a b 0 = 0"
| "cmp_low a b (Suc n) =
     (let x = a ! n - b ! n in
      if x = 0 then cmp_low a b n
      else if x > a ! n then -1 else 1)"

definition mpveccmp :: "mpdigit list \<Rightarrow> mpdigit list \<Rightarrow> int" where
  "mpveccmp a b =
     (let alen = length a; blen = length b in
      if cmp_excess a alen blen then 1
      else if cmp_excess b blen alen then -1
      else cmp_low a b (min alen blen))"

section \<open>Multiplication by a digit\<close>

definition LO :: "mpdigit \<Rightarrow> mpdigit" where
  "LO x = x AND (push_bit 16 1 - 1)"

definition HI :: "mpdigit \<Rightarrow> mpdigit" where
  "HI x = drop_bit 16 x"

definition mpdigmul :: "mpdigit \<Rightarrow> mpdigit \<Rightarrow> mpdigit \<times> mpdigit" where
  "mpdigmul a b =
     (let ah = HI a; al = LO a; bh = HI b; bl = LO b;
          p1 = ah * bl; p2 = bh * al; p3 = bl * al; p4 = ah * bh;
          carry = 0;
          x = push_bit 16 p1; p3 = p3 + x; carry = (if p3 < x then carry + 1 else carry);
          x = push_bit 16 p2; p3 = p3 + x; carry = (if p3 < x then carry + 1 else carry);
          p4 = p4 + (carry + HI p1 + HI p2)
      in (p3, p4))"

text \<open>\<open>p\<close> has one digit more than \<open>b\<close>; that digit is written, not added to.\<close>

fun digmuladd_loop :: "mpdigit \<Rightarrow> mpdigit \<Rightarrow> mpdigit list \<Rightarrow> mpdigit \<Rightarrow> mpdigit list \<Rightarrow> mpdigit list" where
  "digmuladd_loop carry part1 (bd # b) m (y # p) =
     (let x = part1 + carry;
          carry = (if x < carry then 1 else 0);
          (part0, part1) = mpdigmul bd m;
          x = x + part0;
          carry = (if x < part0 then carry + 1 else carry);
          x = x + y;
          carry = (if x < y then carry + 1 else carry)
      in x # digmuladd_loop carry part1 b m p)"
| "digmuladd_loop carry part1 [] m (y # p) = (part1 + carry) # p"
| "digmuladd_loop carry part1 b m [] = []"

definition mpvecdigmuladd :: "mpdigit list \<Rightarrow> mpdigit \<Rightarrow> mpdigit list \<Rightarrow> mpdigit list" where
  "mpvecdigmuladd b m p = digmuladd_loop 0 0 b m p"

fun digmulsub_loop :: "mpdigit \<Rightarrow> mpdigit \<Rightarrow> mpdigit list \<Rightarrow> mpdigit \<Rightarrow> mpdigit list \<Rightarrow> mpdigit list \<times> int" where
  "digmulsub_loop borrow part1 (bd # b) m (x # p) =
     (let y = x - borrow;
          borrow = (if y > x then 1 else 0);
          x = part1;
          (part0, part1) = mpdigmul bd m;
          x = x + part0;
          borrow = (if x < part0 then borrow + 1 else borrow);
          x = y - x;
          borrow = (if x > y then borrow + 1 else borrow);
          (r, sg) = digmulsub_loop borrow part1 b m p
      in (x # r, sg))"
| "digmulsub_loop borrow part1 [] m (x # p) =
     (let y = x - borrow - part1 in (y # p, if y > x then -1 else 1))"
| "digmulsub_loop borrow part1 b m [] = ([], 1)"

definition mpvecdigmulsub :: "mpdigit list \<Rightarrow> mpdigit \<Rightarrow> mpdigit list \<Rightarrow> mpdigit list \<times> int" where
  "mpvecdigmulsub b m p = digmulsub_loop 0 0 b m p"

section \<open>Carries and borrows\<close>

lemma word_add_carry:
  fixes x c :: mpdigit
  shows "uint (x + c) + 2 ^ 32 * (if x + c < c then 1 else 0) = uint x + uint c"
  using uint_lt2p [of x] uint_lt2p [of c] uint_ge_0 [of x] uint_ge_0 [of c]
  by (auto simp: word_less_def uint_plus_if')

lemma word_sub_borrow:
  fixes x y :: mpdigit
  shows "uint (x - y) = uint x - uint y + 2 ^ 32 * (if x < y then 1 else 0)"
  using uint_lt2p [of x] uint_lt2p [of y] uint_ge_0 [of x] uint_ge_0 [of y]
  by (auto simp: word_less_def uint_sub_if')

lemma word_sub_greater:
  fixes x y :: mpdigit
  shows "x - y > x \<longleftrightarrow> x < y"
  using uint_lt2p [of x] uint_lt2p [of y] uint_ge_0 [of x] uint_ge_0 [of y]
  by (auto simp: word_less_def uint_sub_if')

lemma digit_lt: "uint (x :: mpdigit) < 4294967296"
  using uint_lt2p [of x] by simp

lemma mpval_nonneg [simp]: "0 \<le> mpval a"
  by (induction a) auto

lemma mpval_bound: "mpval a < 2 ^ (32 * length a)"
proof (induction a)
  case (Cons d a)
  have "uint d + 2 ^ 32 * mpval a \<le> uint d + 2 ^ 32 * (2 ^ (32 * length a) - 1)"
    using Cons.IH by simp
  moreover have "uint d < 2 ^ 32"
    using uint_lt2p [of d] by simp
  ultimately have "uint d + 2 ^ 32 * mpval a < 2 ^ 32 * 2 ^ (32 * length a)"
    by (simp add: algebra_simps)
  then show ?case
    by (simp add: power_add)
qed simp

lemma mpval_append: "mpval (a @ b) = mpval a + 2 ^ (32 * length a) * mpval b"
  by (induction a) (auto simp: algebra_simps power_add)

lemma mpval_replicate_0 [simp]: "mpval (replicate n 0) = 0"
  by (induction n) auto

section \<open>mpvecadd, mpvecsub, mpveccmp\<close>

lemma length_mpvecadd_loop: "length b \<le> length a \<Longrightarrow> length (mpvecadd_loop c a b) = Suc (length a)"
  by (induction c a b rule: mpvecadd_loop.induct) (auto simp: Let_def)

lemma mpvecadd_loop_val:
  "length b \<le> length a \<Longrightarrow> uint carry \<le> 1 \<Longrightarrow> mpval (mpvecadd_loop carry a b) = mpval a + mpval b + uint carry"
proof (induction carry a b rule: mpvecadd_loop.induct)
  case (2 carry x a y b)
  define sm where "sm = x + carry"
  define t where "t = sm + y"
  define c :: int where "c = (if sm < carry then 1 else 0) + (if t < y then 1 else 0)"
  define d :: mpdigit where "d = (if t < y then (if sm < carry then 1 else 0) + 1 else (if sm < carry then 1 else 0))"
  have e: "uint t + 2 ^ 32 * c = uint x + uint carry + uint y"
    using word_add_carry [of x carry] word_add_carry [of sm y] unfolding c_def t_def sm_def
    by (simp add: algebra_simps)
  have "c \<le> 1"
    using e [simplified] digit_lt [of x] digit_lt [of y] 2(3) uint_ge_0 [of t] by linarith
  moreover have d: "uint d = c"
    unfolding d_def c_def by simp
  ultimately have "mpval (mpvecadd_loop d a b) = mpval a + mpval b + c"
    using 2 unfolding d_def t_def sm_def by (simp add: Let_def)
  moreover have "mpvecadd_loop carry (x # a) (y # b) = t # mpvecadd_loop d a b"
    by (simp add: Let_def d_def t_def sm_def)
  ultimately show ?case
    using e by simp
next
  case (3 carry x a)
  define c :: mpdigit where "c = (if x + carry < carry then 1 else 0)"
  have "mpval (mpvecadd_loop c a []) = mpval a + uint c"
    using 3 by (auto simp: c_def)
  moreover have "mpvecadd_loop carry (x # a) [] = (x + carry) # mpvecadd_loop c a []"
    by (simp add: Let_def c_def)
  moreover have "uint (x + carry) + 2 ^ 32 * uint c = uint x + uint carry"
    using word_add_carry [of x carry] by (auto simp: c_def split: if_splits)
  ultimately show ?case
    by simp
qed auto

lemma mpvecadd_val: "length b \<le> length a \<Longrightarrow> mpval (mpvecadd a b) = mpval a + mpval b"
  by (simp add: mpvecadd_def mpvecadd_loop_val)

lemma length_mpvecadd [simp]: "length b \<le> length a \<Longrightarrow> length (mpvecadd a b) = Suc (length a)"
  by (simp add: mpvecadd_def length_mpvecadd_loop)

lemma length_mpvecsub_loop [simp]: "length (mpvecsub_loop c a b) = length a"
  by (induction c a b rule: mpvecsub_loop.induct) (auto simp: Let_def)

lemma mpvecsub_loop_val:
  "length b \<le> length a \<Longrightarrow> uint borrow \<le> 1
    \<Longrightarrow> \<exists>k. mpval (mpvecsub_loop borrow a b) = mpval a - mpval b - uint borrow + 2 ^ (32 * length a) * k"
proof (induction a arbitrary: b borrow)
  case Nil
  then show ?case
    by (auto intro: exI [of _ "uint borrow"])
next
  case (Cons x a)
  show ?case
  proof (cases b)
    case Nil
    define c :: mpdigit where "c = (if x - borrow > x then 1 else 0)"
    have c1: "uint c \<le> 1"
      by (simp add: c_def)
    obtain k where "mpval (mpvecsub_loop c a []) = mpval a - uint c + 2 ^ (32 * length a) * k"
      using Cons.IH [of "[]" c] c1 by auto
    moreover have "mpvecsub_loop borrow (x # a) [] = (x - borrow) # mpvecsub_loop c a []"
      by (simp add: Let_def c_def)
    moreover have "uint (x - borrow) = uint x - uint borrow + 2 ^ 32 * uint c"
      using word_sub_borrow [of x borrow] by (auto simp: c_def word_sub_greater split: if_splits)
    ultimately have "mpval (mpvecsub_loop borrow (x # a) []) =
        mpval (x # a) - mpval [] - uint borrow + 2 ^ (32 * length (x # a)) * k"
      by (simp add: algebra_simps power_add)
    then show ?thesis using Nil by blast
  next
    case bb: (Cons y b')
    define sm where "sm = y + borrow"
    define c :: int where "c = (if sm < borrow then 1 else 0) + (if x < sm then 1 else 0)"
    define d :: mpdigit where "d = (if x < sm then (if sm < borrow then 1 else 0) + 1 else (if sm < borrow then 1 else 0))"
    have e: "uint (x - sm) = uint x - uint y - uint borrow + 2 ^ 32 * c"
      using word_add_carry [of y borrow] word_sub_borrow [of x sm] unfolding c_def sm_def
      by (simp add: algebra_simps)
    have "c \<le> 1"
      using e [simplified] digit_lt [of "x - sm"] digit_lt [of y] Cons.prems(2) uint_ge_0 [of x] by linarith
    moreover have d: "uint d = c"
      unfolding d_def c_def by simp
    ultimately obtain k where "mpval (mpvecsub_loop d a b') = mpval a - mpval b' - c + 2 ^ (32 * length a) * k"
      using Cons.IH [of b' d] Cons.prems(1) bb by auto
    moreover have "mpvecsub_loop borrow (x # a) (y # b') = (x - sm) # mpvecsub_loop d a b'"
      by (simp add: Let_def d_def sm_def)
    ultimately have "mpval (mpvecsub_loop borrow (x # a) (y # b')) =
        mpval (x # a) - mpval (y # b') - uint borrow + 2 ^ (32 * length (x # a)) * k"
      using e by (simp add: algebra_simps power_add)
    then show ?thesis using bb by blast
  qed
qed

lemma mpvecsub_mod:
  assumes "length b \<le> length a"
  shows "mpval (mpvecsub a b) = (mpval a - mpval b) mod 2 ^ (32 * length a)"
proof -
  obtain k where k: "mpval (mpvecsub a b) = mpval a - mpval b + 2 ^ (32 * length a) * k"
    using mpvecsub_loop_val [of b a 0] assms by (auto simp: mpvecsub_def)
  have "mpval (mpvecsub a b) mod 2 ^ (32 * length a) = (mpval a - mpval b) mod 2 ^ (32 * length a)"
    unfolding k by simp
  moreover have "mpval (mpvecsub a b) < 2 ^ (32 * length a)"
    using mpval_bound [of "mpvecsub a b"] by (simp add: mpvecsub_def)
  ultimately show ?thesis
    by simp
qed

lemma mpvecsub_val:
  assumes "length b \<le> length a" "mpval b \<le> mpval a"
  shows "mpval (mpvecsub a b) = mpval a - mpval b"
proof -
  have "mpval a - mpval b < 2 ^ (32 * length a)"
    using mpval_bound [of a] mpval_nonneg [of b] by linarith
  then show ?thesis
    using assms by (simp add: mpvecsub_mod)
qed


text \<open>Comparison looks at the digits from the most significant one down.\<close>

lemma cmp_excess_iff: "alen \<le> length a \<Longrightarrow> cmp_excess a alen blen \<longleftrightarrow> (\<exists>i. blen \<le> i \<and> i < alen \<and> a ! i \<noteq> 0)"
proof (induction a alen blen rule: cmp_excess.induct)
  case (1 a alen blen)
  have "(\<exists>i. blen \<le> i \<and> i < alen \<and> a ! i \<noteq> 0) \<longleftrightarrow> a ! (alen - 1) \<noteq> 0 \<or> (\<exists>i. blen \<le> i \<and> i < alen - 1 \<and> a ! i \<noteq> 0)"
    if "blen < alen"
    using that by (metis (no_types, lifting) Suc_diff_1 diff_less gr0I less_Suc_eq less_imp_diff_less less_nat_zero_code
        less_or_eq_imp_le linorder_not_less not_less_eq_eq zero_less_one)
  then show ?case
    using 1 by (subst cmp_excess.simps) auto
qed

lemma mpval_zero_iff: "mpval a = 0 \<longleftrightarrow> (\<forall>d\<in>set a. d = 0)"
proof (induction a)
  case (Cons d a)
  have "uint d + 2 ^ 32 * mpval a = 0 \<longleftrightarrow> uint d = 0 \<and> mpval a = 0"
    by (simp add: add_nonneg_eq_0_iff)
  then show ?case
    using Cons by (auto simp: uint_0_iff)
qed simp

lemma mpval_take_Suc: "n < length a \<Longrightarrow> mpval (take (Suc n) a) = mpval (take n a) + 2 ^ (32 * n) * uint (a ! n)"
  by (simp add: take_Suc_conv_app_nth mpval_append)

lemma mpval_take_bound: "mpval (take n a) < 2 ^ (32 * n)"
proof -
  have "mpval (take n a) < 2 ^ (32 * length (take n a))"
    by (rule mpval_bound)
  also have "\<dots> \<le> 2 ^ (32 * n)"
    by (rule power_increasing) auto
  finally show ?thesis .
qed

lemma cmp_low_sgn:
  "\<lbrakk>n \<le> length a; n \<le> length b\<rbrakk> \<Longrightarrow> cmp_low a b n = sgn (mpval (take n a) - mpval (take n b))"
proof (induction n)
  case (Suc n)
  let ?p = "2 ^ (32 * n) :: int"
  have t: "mpval (take (Suc n) a) = mpval (take n a) + ?p * uint (a ! n)"
    "mpval (take (Suc n) b) = mpval (take n b) + ?p * uint (b ! n)"
    using Suc.prems by (simp_all add: mpval_take_Suc)
  have bd: "mpval (take n a) < ?p" "mpval (take n b) < ?p" "0 \<le> mpval (take n a)" "0 \<le> mpval (take n b)"
    by (simp_all add: mpval_take_bound)
  consider "a ! n = b ! n" | "uint (a ! n) < uint (b ! n)" | "uint (b ! n) < uint (a ! n)"
    by (metis linorder_neqE_linordered_idom word_uint_eq_iff)
  then show ?case
  proof cases
    case 1
    then show ?thesis
      using Suc t by simp
  next
    case 2
    then have "?p * uint (a ! n) + ?p \<le> ?p * uint (b ! n)"
      using mult_left_mono [of "uint (a ! n) + 1" "uint (b ! n)" ?p] by (simp add: algebra_simps)
    then have "mpval (take (Suc n) a) < mpval (take (Suc n) b)"
      using t bd by linarith
    moreover have "a ! n - b ! n \<noteq> 0" "a ! n - b ! n > a ! n \<longleftrightarrow> True"
      using 2 word_less_def [of "a ! n" "b ! n"] by (auto simp: word_sub_greater)
    ultimately show ?thesis
      by simp
  next
    case 3
    then have "?p * uint (b ! n) + ?p \<le> ?p * uint (a ! n)"
      using mult_left_mono [of "uint (b ! n) + 1" "uint (a ! n)" ?p] by (simp add: algebra_simps)
    then have "mpval (take (Suc n) b) < mpval (take (Suc n) a)"
      using t bd by linarith
    moreover have "a ! n - b ! n \<noteq> 0" "a ! n - b ! n > a ! n \<longleftrightarrow> False"
      using 3 word_less_def [of "a ! n" "b ! n"] by (auto simp: word_sub_greater)
    ultimately show ?thesis
      by simp
  qed
qed simp

lemma set_drop_nth: "set (drop n x) = {x ! i |i. n \<le> i \<and> i < length x}"
proof -
  have "\<exists>j. d = x ! j \<and> n \<le> j \<and> j < length x" if "i < length x - n" "drop n x ! i = d" for i d
    using that by (intro exI [of _ "n + i"]) auto
  moreover have "\<exists>j. j < length x - n \<and> drop n x ! j = x ! i" if "n \<le> i" "i < length x" for i
    using that by (intro exI [of _ "i - n"]) auto
  ultimately show ?thesis
    by (auto simp: in_set_conv_nth)
qed

lemma mpveccmp_sgn: "mpveccmp a b = sgn (mpval a - mpval b)"
proof -
  have split: "mpval x = mpval (take n x) + 2 ^ (32 * n) * mpval (drop n x)" if "n \<le> length x" for x n
    using mpval_append [of "take n x" "drop n x"] that by simp
  have ex: "cmp_excess x (length x) n \<longleftrightarrow> mpval (drop n x) > 0" for x n
  proof -
    have "cmp_excess x (length x) n \<longleftrightarrow> (\<exists>i. n \<le> i \<and> i < length x \<and> x ! i \<noteq> 0)"
      by (simp add: cmp_excess_iff)
    also have "\<dots> \<longleftrightarrow> (\<exists>d\<in>set (drop n x). d \<noteq> 0)"
      unfolding set_drop_nth by blast
    also have "\<dots> \<longleftrightarrow> mpval (drop n x) \<noteq> 0"
      by (simp add: mpval_zero_iff)
    finally show ?thesis
      using mpval_nonneg [of "drop n x"] by linarith
  qed
  let ?n = "min (length a) (length b)"
  have low: "cmp_low a b ?n = sgn (mpval (take ?n a) - mpval (take ?n b))"
    by (rule cmp_low_sgn) simp_all
  have bd: "mpval (take ?n a) < 2 ^ (32 * ?n)" "mpval (take ?n b) < 2 ^ (32 * ?n)"
    by (rule mpval_take_bound)+
  have big: "2 ^ (32 * ?n) \<le> mpval x" if "0 < mpval (drop ?n x)" "?n \<le> length x" for x
  proof -
    have "2 ^ (32 * ?n) * 1 \<le> 2 ^ (32 * ?n) * mpval (drop ?n x)"
      using that(1) by (intro mult_left_mono) auto
    then show ?thesis
      using split [OF that(2)] mpval_nonneg [of "take ?n x"] by linarith
  qed
  show ?thesis
  proof (cases "length b \<le> length a")
    case True
    then have n: "?n = length b" "\<not> cmp_excess b (length b) (length a)"
      by (auto simp: cmp_excess.simps)
    show ?thesis
    proof (cases "cmp_excess a (length a) (length b)")
      case ex1: True
      then have "mpval b < mpval a"
        using big [of a] ex bd n True by auto
      then show ?thesis
        using ex1 by (simp add: mpveccmp_def)
    next
      case False
      then have "mpval a = mpval (take (length b) a)"
        using ex [of a "length b"] split [of "length b" a] True mpval_nonneg [of "drop (length b) a"] by simp
      then show ?thesis
        using False n low by (simp add: mpveccmp_def)
    qed
  next
    case False
    then have n: "?n = length a" "\<not> cmp_excess a (length a) (length b)"
      by (auto simp: cmp_excess.simps)
    show ?thesis
    proof (cases "cmp_excess b (length b) (length a)")
      case ex1: True
      then have "mpval a < mpval b"
        using big [of b] ex bd n False by auto
      then show ?thesis
        using ex1 n by (simp add: mpveccmp_def)
    next
      case noex: False
      then have "mpval b = mpval (take (length a) b)"
        using ex [of b "length a"] split [of "length a" b] False mpval_nonneg [of "drop (length a) b"] by simp
      then show ?thesis
        using noex n low by (simp add: mpveccmp_def)
    qed
  qed
qed

section \<open>mpdigmul, mpvecdigmuladd, mpvecdigmulsub\<close>

lemma uint_HI: "uint (HI x) = uint x div 65536"
  by (simp add: HI_def drop_bit_eq_div uint_div)

lemma uint_LO: "uint (LO x) = uint x mod 65536"
proof -
  have "LO x = take_bit 16 x"
    unfolding LO_def take_bit_eq_mask mask_eq_exp_minus_1 push_bit_eq_mult by simp
  then show ?thesis
    by (simp add: take_bit_eq_mod uint_mod)
qed

lemma uint_half_shift: "uint (push_bit 16 (p :: mpdigit)) = 65536 * (uint p mod 65536)"
proof -
  have "uint (push_bit 16 p) = uint p * 65536 mod 4294967296"
    by (simp add: push_bit_eq_mult uint_word_ariths)
  also have "\<dots> = 65536 * (uint p mod 65536)"
    using mod_mult_mult1 [of 65536 "uint p" 65536] by (simp add: mult.commute)
  finally show ?thesis .
qed

lemma uint_mult_small:
  fixes x y :: mpdigit
  assumes "uint x < 65536" "uint y < 65536"
  shows "uint (x * y) = uint x * uint y"
proof -
  have "uint x * uint y \<le> 65535 * 65535"
    using assms by (intro mult_mono) auto
  then show ?thesis
    by (simp add: uint_word_ariths)
qed

lemma mpdigmul_val:
  assumes "mpdigmul a b = (p0, q0)"
  shows "uint p0 + 4294967296 * uint q0 = uint a * uint b"
proof -
  define ah al bh bl where "ah = uint a div 65536" and "al = uint a mod 65536"
    and "bh = uint b div 65536" and "bl = uint b mod 65536"
  have ab: "uint a = 65536 * ah + al" "uint b = 65536 * bh + bl"
    by (simp_all add: ah_def al_def bh_def bl_def)
  have lt: "0 \<le> ah" "ah < 65536" "0 \<le> al" "al < 65536" "0 \<le> bh" "bh < 65536" "0 \<le> bl" "bl < 65536"
    using digit_lt [of a] digit_lt [of b] by (simp_all add: ah_def al_def bh_def bl_def pos_imp_zdiv_nonneg_iff)
  define p1 p2 p3 p4 where "p1 = HI a * LO b" and "p2 = HI b * LO a" and "p3 = LO b * LO a" and "p4 = HI a * HI b"
  have u: "uint p1 = ah * bl" "uint p2 = bh * al" "uint p3 = bl * al" "uint p4 = ah * bh"
    using lt unfolding p1_def p2_def p3_def p4_def
    by (simp_all add: uint_mult_small uint_HI uint_LO ah_def al_def bh_def bl_def)
  define x1 x2 where "x1 = push_bit 16 p1" and "x2 = push_bit 16 p2"
  have x: "uint x1 = 65536 * (uint p1 mod 65536)" "uint x2 = 65536 * (uint p2 mod 65536)"
    by (simp_all add: x1_def x2_def uint_half_shift)
  define s1 where "s1 = p3 + x1"
  define s2 where "s2 = s1 + x2"
  define c where "c = (if s1 < x1 then 1 else 0 :: int) + (if s2 < x2 then 1 else 0)"
  define cw :: mpdigit where "cw = (if s2 < x2 then (if s1 < x1 then 0 + 1 else 0) + 1 else (if s1 < x1 then 0 + 1 else 0))"
  have cw: "uint cw = c"
    by (simp add: cw_def c_def)
  have sm: "uint s2 + 4294967296 * c = uint p3 + uint x1 + uint x2"
    using word_add_carry [of p3 x1] word_add_carry [of s1 x2] unfolding c_def s2_def s1_def
    by (simp add: algebra_simps)
  have res: "p0 = s2" "q0 = p4 + (cw + HI p1 + HI p2)"
    using assms unfolding mpdigmul_def Let_def
    by (auto simp: cw_def s2_def s1_def x1_def x2_def p1_def p2_def p3_def p4_def)
  define hi where "hi = uint p4 + c + uint p1 div 65536 + uint p2 div 65536"
  have tot: "uint s2 + 4294967296 * hi = uint a * uint b"
  proof -
    define d1 m1 d2 m2 where "d1 = uint p1 div 65536" and "m1 = uint p1 mod 65536"
      and "d2 = uint p2 div 65536" and "m2 = uint p2 mod 65536"
    have "uint p1 = 65536 * d1 + m1" "uint p2 = 65536 * d2 + m2"
      by (simp_all add: d1_def m1_def d2_def m2_def)
    then have "uint s2 + 4294967296 * hi = uint p3 + 65536 * uint p1 + 65536 * uint p2 + 4294967296 * uint p4"
      using sm unfolding hi_def x d1_def [symmetric] m1_def [symmetric] d2_def [symmetric] m2_def [symmetric]
      by (simp add: algebra_simps)
    then show ?thesis
      unfolding ab u by (simp add: algebra_simps)
  qed
  have "uint a * uint b \<le> 4294967295 * 4294967295"
    using digit_lt [of a] digit_lt [of b] by (intro mult_mono) auto
  then have "hi < 4294967296"
    using tot uint_ge_0 [of s2] by linarith
  moreover have "0 \<le> hi"
    using tot digit_lt [of s2] mult_nonneg_nonneg [OF uint_ge_0 [of a] uint_ge_0 [of b]] by linarith
  moreover have "uint q0 = hi mod 4294967296"
    unfolding res hi_def using cw by (simp add: uint_word_ariths uint_HI mod_simps add.assoc)
  ultimately have "uint q0 = hi"
    by simp
  then show ?thesis
    using tot res by simp
qed


text \<open>The pending high digit and carry of the loop never exceed one digit.\<close>

lemma digmuladd_loop_val:
  "\<lbrakk>length p = Suc (length b); uint part1 + uint carry < 4294967296\<rbrakk>
   \<Longrightarrow> mpval (digmuladd_loop carry part1 b m p)
     = uint part1 + uint carry + uint m * mpval b + mpval (take (length b) p)
     \<and> length (digmuladd_loop carry part1 b m p) = length p"
proof (induction b arbitrary: carry part1 p)
  case Nil
  then show ?case
    by (cases p) (auto simp: uint_word_ariths)
next
  case (Cons bd b)
  obtain y q where p: "p = y # q"
    using Cons.prems(1) by (cases p) auto
  obtain p0 p1 where pp: "mpdigmul bd m = (p0, p1)"
    by force
  define x1 x2 x3 where "x1 = part1 + carry" and "x2 = x1 + p0" and "x3 = x2 + y"
  define c :: int where "c = (if x2 < p0 then 1 else 0) + (if x3 < y then 1 else 0)"
  define cw :: mpdigit where "cw = (if x3 < y then (if x2 < p0 then 0 + 1 else 0) + 1 else (if x2 < p0 then 0 + 1 else 0))"
  have x1: "uint x1 = uint part1 + uint carry" "\<not> x1 < carry"
    using Cons.prems(2) unfolding x1_def by (simp_all add: uint_word_ariths word_less_def)
  have cw: "uint cw = c"
    by (simp add: cw_def c_def)
  have step: "digmuladd_loop carry part1 (bd # b) m p = x3 # digmuladd_loop cw p1 b m q"
    using x1(2) by (simp add: p pp Let_def cw_def x3_def x2_def x1_def)
  have sm: "uint x3 + 4294967296 * c = uint part1 + uint carry + uint p0 + uint y"
    using word_add_carry [of x1 p0] word_add_carry [of x2 y] x1(1) unfolding c_def x3_def x2_def
    by (simp add: algebra_simps)
  have mul: "uint p0 + 4294967296 * uint p1 = uint bd * uint m"
    by (rule mpdigmul_val [OF pp])
  have "uint bd * uint m \<le> 4294967295 * 4294967295"
    using digit_lt [of bd] digit_lt [of m] by (intro mult_mono) auto
  then have "uint p1 + uint cw < 4294967296"
    using sm mul Cons.prems(2) digit_lt [of y] uint_ge_0 [of x3] unfolding cw by linarith
  then have "mpval (digmuladd_loop cw p1 b m q) = uint p1 + c + uint m * mpval b + mpval (take (length b) q)
      \<and> length (digmuladd_loop cw p1 b m q) = length q"
    using Cons.IH [of q p1 cw] Cons.prems(1) p cw by simp
  then show ?case
    unfolding step using sm mul p by (simp add: algebra_simps)
qed

lemma mpvecdigmuladd_val:
  assumes "length p = Suc (length b)"
  shows "mpval (mpvecdigmuladd b m p) = uint m * mpval b + mpval (take (length b) p)"
    and "length (mpvecdigmuladd b m p) = length p"
  using digmuladd_loop_val [OF assms, of 0 0 m] by (simp_all add: mpvecdigmuladd_def)

lemma digmulsub_loop_val:
  "\<lbrakk>length p = Suc (length b); uint part1 + uint borrow < 4294967296\<rbrakk>
   \<Longrightarrow> \<exists>r k. digmulsub_loop borrow part1 b m p = (r, if k = 0 then 1 else -1) \<and> length r = length p \<and> 0 \<le> k
     \<and> mpval r = mpval p - uint m * mpval b - uint part1 - uint borrow + 2 ^ (32 * length p) * k"
proof (induction b arbitrary: borrow part1 p)
  case Nil
  then obtain x where p: "p = [x]"
    by (cases p) auto
  define k where "k = (part1 + borrow)"
  have k: "uint k = uint part1 + uint borrow"
    using Nil.prems(2) unfolding k_def by (simp add: uint_word_ariths)
  have y: "x - borrow - part1 = x - k"
    by (simp add: k_def)
  show ?case
    using word_sub_borrow [of x k] word_sub_greater [of x k] k unfolding p
    by (cases "x < k") (auto simp: Let_def y intro: exI [of _ 0] exI [of _ 1])
next
  case (Cons bd b)
  obtain x q where p: "p = x # q"
    using Cons.prems(1) by (cases p) auto
  obtain p0 p1 where pp: "mpdigmul bd m = (p0, p1)"
    by force
  define y z w where "y = x - borrow" and "z = part1 + p0" and "w = y - z"
  define c :: int where "c = (if y > x then 1 else 0) + (if z < p0 then 1 else 0) + (if w > y then 1 else 0)"
  define c1 :: mpdigit where "c1 = (if z < p0 then (if y > x then 1 else 0) + 1 else (if y > x then 1 else 0))"
  define cw :: mpdigit where "cw = (if w > y then c1 + 1 else c1)"
  have cw: "uint cw = c"
    by (simp add: cw_def c1_def c_def)
  have step: "digmulsub_loop borrow part1 (bd # b) m p =
      (case digmulsub_loop cw p1 b m q of (r, sg) \<Rightarrow> (w # r, sg))"
    by (simp add: p pp Let_def cw_def c1_def w_def z_def y_def)
  have sm: "uint w = uint x - uint borrow - uint part1 - uint p0 + 4294967296 * c"
    using word_sub_borrow [of x borrow] word_sub_greater [of x borrow] word_add_carry [of part1 p0]
      word_sub_borrow [of y z] word_sub_greater [of y z]
    unfolding c_def w_def z_def y_def by (simp add: algebra_simps)
  have mul: "uint p0 + 4294967296 * uint p1 = uint bd * uint m"
    by (rule mpdigmul_val [OF pp])
  have "uint bd * uint m \<le> 4294967295 * 4294967295"
    using digit_lt [of bd] digit_lt [of m] by (intro mult_mono) auto
  then have "uint p1 + uint cw < 4294967296"
    using sm mul Cons.prems(2) digit_lt [of w] uint_ge_0 [of x] unfolding cw by linarith
  then obtain r k where "digmulsub_loop cw p1 b m q = (r, if k = 0 then 1 else -1)" "length r = length q" "0 \<le> k"
    "mpval r = mpval q - uint m * mpval b - uint p1 - c + 2 ^ (32 * length q) * k"
    using Cons.IH [of q p1 cw] Cons.prems(1) p cw by auto
  then show ?case
    unfolding step using sm mul p
    by (intro exI [of _ "w # r"] exI [of _ k]) (simp add: algebra_simps power_add)
qed

text \<open>
  The sign that \<open>mpvecdigmulsub\<close> returns says whether the subtraction borrowed out of the top digit;
  then the vector has the difference modulo the size of the vector.
\<close>

lemma mpvecdigmulsub_val:
  assumes p: "length p = Suc (length b)"
  shows "\<exists>r. mpvecdigmulsub b m p = (r, if uint m * mpval b \<le> mpval p then 1 else -1) \<and> length r = length p
     \<and> mpval r = (mpval p - uint m * mpval b) mod 2 ^ (32 * length p)"
proof -
  let ?B = "2 ^ (32 * length p) :: int"
  obtain r k where r: "mpvecdigmulsub b m p = (r, if k = 0 then 1 else -1)" "length r = length p" "0 \<le> k"
    "mpval r = mpval p - uint m * mpval b + ?B * k"
    using digmulsub_loop_val [OF p, of 0 0 m] by (auto simp: mpvecdigmulsub_def)
  have bd: "mpval r < ?B" "mpval p < ?B"
    using mpval_bound [of r] mpval_bound [of p] r(2) by simp_all
  have "k = 0 \<longleftrightarrow> uint m * mpval b \<le> mpval p"
  proof
    assume "k = 0"
    then show "uint m * mpval b \<le> mpval p"
      using r(4) mpval_nonneg [of r] by simp
  next
    assume le: "uint m * mpval b \<le> mpval p"
    show "k = 0"
    proof (rule ccontr)
      assume "k \<noteq> 0"
      then have "?B * 1 \<le> ?B * k"
        using r(3) by (intro mult_left_mono) auto
      then show False
        using r(4) bd(1) le by linarith
    qed
  qed
  moreover have "mpval r = (mpval p - uint m * mpval b) mod ?B"
  proof -
    have "mpval r mod ?B = (mpval p - uint m * mpval b) mod ?B"
      unfolding r(4) by simp
    then show ?thesis
      using bd(1) by simp
  qed
  ultimately show ?thesis
    using r(1,2) by auto
qed

end
