(* ===== verification/Mp_Mul.thy ===== *)
theory Mp_Mul
  imports Mp_Vec
begin

text \<open>
  Multiplication of vectors (\<^verbatim>\<open>src/libmp/port/mpmul.c\<close>): the schoolbook loop and Karatsuba's algorithm,
  which recurs on halves.  The scratch memory \<open>t\<close> of \<open>mpkaratsuba\<close> is its parts, vectors of zeros at first.
\<close>

text \<open>\<open>for(i = 0; i < blen; i++)\<close>: \<open>p\<close> is the vector from index \<open>i\<close> on.\<close>

fun mul_loop :: "mpdigit list \<Rightarrow> mpdigit list \<Rightarrow> mpdigit list \<Rightarrow> mpdigit list" where
  "mul_loop a [] p = p"
| "mul_loop a (d # b) p =
     (let k = length a + 1;
          p = (if d \<noteq> 0 then mpvecdigmuladd a d (take k p) @ drop k p else p)
      in case p of [] \<Rightarrow> [] | x # p \<Rightarrow> x # mul_loop a b p)"

definition zeros :: "nat \<Rightarrow> mpdigit list" where
  "zeros n = replicate n 0"

text \<open>\<open>mpvecsub\<close> and \<open>mpvecadd\<close> on \<open>res+off\<close>, in place; the digit after \<open>res[reslen-1]\<close> takes the carry.\<close>

definition add_at :: "nat \<Rightarrow> mpdigit list \<Rightarrow> mpdigit list \<Rightarrow> mpdigit list" where
  "add_at off x res = take off res @ mpvecadd (butlast (drop off res)) x"

definition sub_at :: "nat \<Rightarrow> mpdigit list \<Rightarrow> mpdigit list \<Rightarrow> mpdigit list" where
  "sub_at off x res = take off res @ mpvecsub (butlast (drop off res)) x @ [last res]"

definition pad :: "nat \<Rightarrow> mpdigit list \<Rightarrow> mpdigit list" where
  "pad n x = x @ zeros (n - length x)"

definition KARATSUBAMIN :: nat where
  "KARATSUBAMIN = 32"

text \<open>The sign of \<open>u1-u0\<close> and its magnitude in the zeroed vector, and those of \<open>v0-v1\<close>.\<close>

definition kdiff_u :: "mpdigit list \<Rightarrow> mpdigit list \<Rightarrow> int \<times> mpdigit list" where
  "kdiff_u u0 u1 =
     (if mpveccmp u1 u0 < 0 then (-1, pad (length u0) (mpvecsub u0 u1))
      else (1, pad (length u0) (mpvecsub u1 (take (length u1) u0))))"

definition kdiff_v :: "mpdigit list \<Rightarrow> mpdigit list \<Rightarrow> int \<times> mpdigit list" where
  "kdiff_v v0 v1 =
     (if mpveccmp v0 v1 < 0 then (-1, pad (length v0) (mpvecsub v1 (take (length v1) v0)))
      else (1, pad (length v0) (mpvecsub v0 v1)))"

definition half :: "mpdigit list \<Rightarrow> nat" where
  "half a = (let n = length a div 2 in if length a mod 2 = 1 then n + 1 else n)"

definition ksum :: "nat \<Rightarrow> nat \<Rightarrow> nat \<Rightarrow> nat \<Rightarrow> int \<Rightarrow> mpdigit list \<Rightarrow> mpdigit list \<Rightarrow> mpdigit list \<Rightarrow> mpdigit list" where
  "ksum n l0 l1 v1len sign u0v0 u1v1 diffprod =
     (let res = zeros (4 * n + 2);
          res = add_at 0 (take l0 u0v0) res;
          res = add_at n (take l0 u0v0) res;
          res = (if v1len > 0 then add_at (2 * n) (take l1 u1v1) (add_at n (take l1 u1v1) res) else res)
      in if sign < 0 then sub_at n (take l0 diffprod) res else add_at n (take l0 diffprod) res)"

text \<open>\<open>mpkaratsuba\<close> after its three multiplications.\<close>

definition mpkaratsuba ::
    "mpdigit list \<Rightarrow> mpdigit list \<Rightarrow> mpdigit list \<Rightarrow> mpdigit list \<Rightarrow> mpdigit list \<Rightarrow> mpdigit list \<Rightarrow> mpdigit list" where
  "mpkaratsuba a b diffprod u1v1 u0v0 p =
     (let n = half a;
          u0 = take n a; u1 = drop n a; v0 = take n b; v1 = drop n b;
          sign = fst (kdiff_u u0 u1) * fst (kdiff_v v0 v1);
          res = ksum n (length u0 + length v0) (length u1 + length v1) (length v1) sign u0v0 u1v1 diffprod;
          l = length a + length b
      in take l res @ drop l p)"

lemma length_zeros [simp]: "length (zeros n) = n"
  by (simp add: zeros_def)

lemma length_pad [simp]: "length x \<le> n \<Longrightarrow> length (pad n x) = n"
  by (simp add: pad_def)

lemma length_mpvecsub [simp]: "length (mpvecsub a b) = length a"
  by (simp add: mpvecsub_def)

lemma length_kdiff:
  "length u1 \<le> length u0 \<Longrightarrow> length (snd (kdiff_u u0 u1)) = length u0"
  "length v1 \<le> length v0 \<Longrightarrow> length (snd (kdiff_v v0 v1)) = length v0"
  by (auto simp: kdiff_u_def kdiff_v_def)

lemma half_bounds: "half a \<le> length a" "length a \<le> 2 * half a" "1 < length a \<Longrightarrow> half a < length a"
  by (auto simp: half_def Let_def) presburger+

function mpvecmul :: "mpdigit list \<Rightarrow> mpdigit list \<Rightarrow> mpdigit list \<Rightarrow> mpdigit list" where
  "mpvecmul a b p =
     (if length a < length b then mpvecmul b a p
      else if length b = 0 then zeros (length a) @ drop (length a) p
      else if length a \<ge> KARATSUBAMIN \<and> length b > 1 then
        let n = half a;
            u0 = take n a; u1 = drop n a; v0 = take n b; v1 = drop n b
        in mpkaratsuba a b
             (mpvecmul (snd (kdiff_u u0 u1)) (snd (kdiff_v v0 v1)) (zeros (2 * n + 1)))
             (if length v1 > 0 then mpvecmul u1 v1 (zeros (2 * n + 1)) else zeros (2 * n + 1))
             (mpvecmul u0 v0 (zeros (2 * n + 1))) p
      else mul_loop a b p)"
  by pat_completeness auto

termination
proof (relation "measure (\<lambda>(a, b, p). 2 * (length a + length b) + (if length a < length b then 1 else 0))", goal_cases)
  case (3 a b p n u0 u1 v0 v1)
  then have "length (snd (kdiff_u u0 u1)) = length u0" "length (snd (kdiff_v v0 v1)) = length v0" "n < length a"
    using half_bounds [of a] length_kdiff(1) [of u1 u0] length_kdiff(2) [of v1 v0] by (auto simp: KARATSUBAMIN_def)
  then show ?case
    using 3 by (auto split: if_splits)
next
  case (4 a b p n u0 u1 v0 v1)
  then have "0 < n"
    using half_bounds [of a] by (auto simp: KARATSUBAMIN_def)
  then show ?case
    using 4 by (auto simp: KARATSUBAMIN_def)
next
  case (5 a b p n u0 u1 v0 v1)
  then have "n < length a"
    using half_bounds [of a] by (auto simp: KARATSUBAMIN_def)
  then show ?case
    using 5 by (auto split: if_splits)
qed auto

declare mpvecmul.simps [simp del]

lemma mpval_zeros [simp]: "mpval (zeros n) = 0"
  by (simp add: zeros_def)

lemma mpval_pad [simp]: "mpval (pad n x) = mpval x"
  by (simp add: pad_def mpval_append)

lemma mpval_split: "n \<le> length x \<Longrightarrow> mpval x = mpval (take n x) + 2 ^ (32 * n) * mpval (drop n x)"
  using mpval_append [of "take n x" "drop n x"] by simp

lemma mpval_take_small:
  assumes "mpval x < 2 ^ (32 * n)"
  shows "mpval (take n x) = mpval x"
proof (cases "n \<le> length x")
  case True
  have "mpval (drop n x) = 0"
  proof (rule ccontr)
    assume "mpval (drop n x) \<noteq> 0"
    then have "2 ^ (32 * n) * 1 \<le> 2 ^ (32 * n) * mpval (drop n x)"
      using mpval_nonneg [of "drop n x"] by (intro mult_left_mono) (simp_all only: le_less, auto)
    then show False
      using assms mpval_split [OF True] mpval_nonneg [of "take n x"] by linarith
  qed
  then show ?thesis
    using mpval_split [OF True] by simp
qed simp

lemma mpval_mult_bound: "mpval a * mpval b < 2 ^ (32 * (length a + length b))"
proof -
  have "mpval a * mpval b \<le> mpval a * 2 ^ (32 * length b)"
    using mpval_bound [of b] by (intro mult_left_mono) auto
  also have "\<dots> < 2 ^ (32 * length a) * 2 ^ (32 * length b)"
    using mpval_bound [of a] by simp
  finally show ?thesis
    by (simp add: power_add distrib_left)
qed

text \<open>The schoolbook loop: the digits of \<open>p\<close> above those of \<open>a\<close> are zero when a digit of \<open>b\<close> comes up.\<close>

lemma mul_loop_val:
  "\<lbrakk>length a + length b \<le> length p; \<forall>i<length p. length a \<le> i \<longrightarrow> p ! i = 0\<rbrakk>
   \<Longrightarrow> mpval (mul_loop a b p) = mpval p + mpval a * mpval b \<and> length (mul_loop a b p) = length p"
proof (induction b arbitrary: p)
  case (Cons d b)
  let ?k = "length a + 1"
  define q where "q = (if d \<noteq> 0 then mpvecdigmuladd a d (take ?k p) @ drop ?k p else p)"
  have z: "p ! length a = 0" "mpval (drop (length a) p) = 0"
    using Cons.prems by (auto simp: mpval_zero_iff set_drop_nth)
  have lq: "length q = length p"
    using Cons.prems(1) by (auto simp: q_def mpvecdigmuladd_val)
  have vp: "mpval p = mpval (take (length a) p)"
    using mpval_split [of "length a" p] z(2) Cons.prems(1) by simp
  have "mpval (drop ?k p) = 0"
    using Cons.prems(2) by (auto simp: mpval_zero_iff set_drop_nth)
  then have vq: "mpval q = mpval p + uint d * mpval a"
    using Cons.prems(1) vp by (auto simp: q_def mpval_append mpvecdigmuladd_val min_def)
  obtain x q' where q': "q = x # q'"
    using lq Cons.prems(1) by (cases q) auto
  have zq: "q' ! i = 0" if "i < length q'" "length a \<le> i" for i
  proof -
    have "q ! Suc i = p ! Suc i"
      using that Cons.prems(1) by (simp add: q_def nth_append mpvecdigmuladd_val)
    then show ?thesis
      using q' that lq Cons.prems(2) by auto
  qed
  have "mpval (mul_loop a b q') = mpval q' + mpval a * mpval b \<and> length (mul_loop a b q') = length q'"
    using Cons.prems(1) lq q' zq by (intro Cons.IH) auto
  moreover have "mul_loop a (d # b) p = x # mul_loop a b q'"
    by (simp only: mul_loop.simps Let_def q_def [symmetric] q' list.case)
  moreover have "uint x + 2 ^ 32 * mpval q' = mpval q"
    by (simp add: q')
  ultimately show ?case
    using vq lq q' by (simp add: algebra_simps)
qed simp

lemma add_at_val:
  assumes len: "length res = Suc l" "off \<le> l" "length x \<le> l - off" and small: "mpval res < 2 ^ (32 * l)"
  shows "mpval (add_at off x res) = mpval res + 2 ^ (32 * off) * mpval x" "length (add_at off x res) = length res"
proof -
  have "mpval (take l res) = mpval res"
    by (rule mpval_take_small [OF small])
  moreover have "butlast (drop off res) = drop off (take l res)"
    using len by (simp add: butlast_conv_take drop_take)
  moreover have "mpval (take l res) = mpval (take off res) + 2 ^ (32 * off) * mpval (drop off (take l res))"
    using mpval_split [of off "take l res"] len by (simp add: min_def)
  ultimately show "mpval (add_at off x res) = mpval res + 2 ^ (32 * off) * mpval x"
    using len by (simp add: add_at_def mpval_append mpvecadd_val algebra_simps)
  show "length (add_at off x res) = length res"
    using len by (simp add: add_at_def)
qed

lemma sub_at_val:
  assumes len: "length res = Suc l" "off \<le> l" "length x \<le> l - off" and small: "mpval res < 2 ^ (32 * l)"
    and le: "2 ^ (32 * off) * mpval x \<le> mpval res"
  shows "mpval (sub_at off x res) = mpval res - 2 ^ (32 * off) * mpval x" "length (sub_at off x res) = length res"
proof -
  let ?m = "drop off (take l res)"
  have t: "mpval (take l res) = mpval res"
    by (rule mpval_take_small [OF small])
  have "mpval res = mpval (take l res) + 2 ^ (32 * l) * uint (res ! l)"
    using mpval_take_Suc [of l res] len by simp
  then have last0: "res ! l = 0"
    using t by (simp add: uint_0_iff)
  have b: "butlast (drop off res) = ?m" "last res = 0"
    using len last0 by (auto simp: butlast_conv_take drop_take last_conv_nth simp flip: length_greater_0_conv)
  have s: "mpval (take l res) = mpval (take off res) + 2 ^ (32 * off) * mpval ?m"
    using mpval_split [of off "take l res"] len by (simp add: min_def)
  have "mpval x \<le> mpval ?m"
  proof (rule ccontr)
    assume "\<not> mpval x \<le> mpval ?m"
    then have "2 ^ (32 * off) * (mpval ?m + 1) \<le> 2 ^ (32 * off) * mpval x"
      by (intro mult_left_mono) auto
    then show False
      using le t s mpval_take_bound [of off res] by (simp add: algebra_simps)
  qed
  then have "mpval (mpvecsub ?m x) = mpval ?m - mpval x"
    using len by (intro mpvecsub_val) auto
  then show "mpval (sub_at off x res) = mpval res - 2 ^ (32 * off) * mpval x"
    using len b s t by (simp add: sub_at_def mpval_append right_diff_distrib)
  show "length (sub_at off x res) = length res"
    using len b by (simp add: sub_at_def)
qed

lemma kdiff_u_val:
  assumes "length u1 \<le> length u0"
  shows "fst (kdiff_u u0 u1) * mpval (snd (kdiff_u u0 u1)) = mpval u1 - mpval u0" "fst (kdiff_u u0 u1) \<in> {1, -1}"
proof -
  have "mpval (mpvecsub u1 (take (length u1) u0)) = mpval u1 - mpval u0" if "mpval u0 \<le> mpval u1"
  proof -
    have "mpval (take (length u1) u0) = mpval u0"
      using that mpval_bound [of u1] by (intro mpval_take_small) simp
    then show ?thesis
      using that by (simp add: mpvecsub_val)
  qed
  then show "fst (kdiff_u u0 u1) * mpval (snd (kdiff_u u0 u1)) = mpval u1 - mpval u0" "fst (kdiff_u u0 u1) \<in> {1, -1}"
    using assms by (auto simp: kdiff_u_def mpveccmp_sgn mpvecsub_val sgn_less)
qed

lemma kdiff_v_val:
  assumes "length v1 \<le> length v0"
  shows "fst (kdiff_v v0 v1) * mpval (snd (kdiff_v v0 v1)) = mpval v0 - mpval v1" "fst (kdiff_v v0 v1) \<in> {1, -1}"
proof -
  have "mpval (mpvecsub v1 (take (length v1) v0)) = mpval v1 - mpval v0" if "mpval v0 \<le> mpval v1"
  proof -
    have "mpval (take (length v1) v0) = mpval v0"
      using that mpval_bound [of v1] by (intro mpval_take_small) simp
    then show ?thesis
      using that by (simp add: mpvecsub_val)
  qed
  then show "fst (kdiff_v v0 v1) * mpval (snd (kdiff_v v0 v1)) = mpval v0 - mpval v1" "fst (kdiff_v v0 v1) \<in> {1, -1}"
    using assms by (auto simp: kdiff_v_def mpveccmp_sgn mpvecsub_val sgn_less)
qed


lemma ksum_val:
  assumes n: "length u0v0 = 2 * n + 1" "length u1v1 = 2 * n + 1" "length diffprod = 2 * n + 1"
    and l: "l0 \<le> 2 * n" "l1 \<le> 2 * n" "v1len = 0 \<longrightarrow> P1 = 0"
    and v: "mpval (take l0 u0v0) = P0" "mpval (take l1 u1v1) = P1" "mpval (take l0 diffprod) = D"
    and b: "P0 \<le> X * X" "P1 \<le> X * X" "D \<le> X * X" and X: "X = 2 ^ (32 * n)"
    and sg: "sign \<in> {1, -1}" and nn: "0 \<le> P0 * (1 + X) + P1 * (X + X * X) + sign * D * X"
  shows "mpval (ksum n l0 l1 v1len sign u0v0 u1v1 diffprod) = P0 * (1 + X) + P1 * (X + X * X) + sign * D * X"
    and "length (ksum n l0 l1 v1len sign u0v0 u1v1 diffprod) = 4 * n + 2"
proof -
  have X1: "1 \<le> X" "0 \<le> P0" "0 \<le> P1" "0 \<le> D"
    using v by (auto simp: X)
  define Q where "Q = X * X * X * X"
  have x2: "1 \<le> X * X"
    using mult_mono [of 1 X 1 X] X1(1) by simp
  have XX: "X * X \<le> Q" "X * X * X \<le> Q"
    using X1(1) x2 mult_left_mono [of 1 X "X * X * X"] mult_left_mono [of 1 X "X * X"] by (auto simp: Q_def)
  have PX: "P0 * X \<le> X * X * X" "P1 * X \<le> X * X * X" "D * X \<le> X * X * X" "P1 * (X * X) \<le> Q"
    using X1 b mult_right_mono [of P0 "X * X" X] mult_right_mono [of P1 "X * X" X] mult_right_mono [of D "X * X" X]
      mult_right_mono [of P1 "X * X" "X * X"] by (simp_all add: Q_def algebra_simps)
  have pos: "0 \<le> P0 * X" "0 \<le> P1 * X" "0 \<le> D * X" "0 \<le> P1 * (X * X)" "1 \<le> Q"
    using X1 XX x2 by auto
  have big: "2 ^ (32 * (4 * n + 1)) = 4294967296 * Q"
  proof -
    have "(2 :: int) ^ (32 * (4 * n + 1)) = 2 ^ (32 * n + 32 * n + 32 * n + 32 * n + 32)"
      by (rule arg_cong [where f = "power 2"]) simp
    then show ?thesis
      by (simp only: power_add X Q_def) simp
  qed
  have P: "2 ^ (32 * 0) = (1 :: int)" "2 ^ (32 * n) = X" "2 ^ (32 * (2 * n)) = X * X"
    by (simp_all add: X power_add [symmetric])
  have small: "P0 < 2 ^ (32 * (4 * n + 1))" "P0 + P0 * X < 2 ^ (32 * (4 * n + 1))"
    "P0 + P0 * X + P1 * X < 2 ^ (32 * (4 * n + 1))" "P0 + P0 * X + P1 * X + P1 * (X * X) < 2 ^ (32 * (4 * n + 1))"
    unfolding big using XX PX b pos by linarith+
  define r1 where "r1 = add_at 0 (take l0 u0v0) (zeros (4 * n + 2))"
  have r1: "mpval r1 = P0" "length r1 = 4 * n + 2"
    using add_at_val [of "zeros (4 * n + 2)" "4 * n + 1" 0 "take l0 u0v0"] l v n by (simp_all add: r1_def)
  define r2 where "r2 = add_at n (take l0 u0v0) r1"
  have r2: "mpval r2 = P0 + P0 * X" "length r2 = 4 * n + 2"
    using add_at_val [of r1 "4 * n + 1" n "take l0 u0v0"] small(1) r1 l v n P
    by (simp_all add: r2_def min_def mult.commute)
  define r3 where "r3 = add_at n (take l1 u1v1) r2"
  have r3: "mpval r3 = P0 + P0 * X + P1 * X" "length r3 = 4 * n + 2"
    using add_at_val [of r2 "4 * n + 1" n "take l1 u1v1"] small(2) r2 l v n P
    by (simp_all add: r3_def min_def mult.commute)
  define r4 where "r4 = add_at (2 * n) (take l1 u1v1) r3"
  have r4: "mpval r4 = P0 + P0 * X + P1 * X + P1 * (X * X)" "length r4 = 4 * n + 2"
    using add_at_val [of r3 "4 * n + 1" "2 * n" "take l1 u1v1"] small(3) r3 l v n P
    by (simp_all add: r4_def min_def mult.commute)
  define r5 where "r5 = (if v1len > 0 then r4 else r2)"
  have r5: "mpval r5 = P0 * (1 + X) + P1 * (X + X * X)" "length r5 = 4 * n + 2"
    using r4 r2 l(3) by (auto simp: r5_def algebra_simps)
  have k: "ksum n l0 l1 v1len sign u0v0 u1v1 diffprod =
      (if sign < 0 then sub_at n (take l0 diffprod) r5 else add_at n (take l0 diffprod) r5)"
    by (simp add: ksum_def Let_def r5_def r4_def r3_def r2_def r1_def)
  have s5: "mpval r5 < 2 ^ (32 * (4 * n + 1))"
    using r5(1) small(4) by (simp add: algebra_simps)
  show "mpval (ksum n l0 l1 v1len sign u0v0 u1v1 diffprod) = P0 * (1 + X) + P1 * (X + X * X) + sign * D * X"
    using sg nn r5 s5 l v n P k add_at_val(1) [of r5 "4 * n + 1" n "take l0 diffprod"]
      sub_at_val(1) [of r5 "4 * n + 1" n "take l0 diffprod"]
    by (auto simp: min_def mult.commute)
  show "length (ksum n l0 l1 v1len sign u0v0 u1v1 diffprod) = 4 * n + 2"
    using sg nn r5 s5 l v n P k add_at_val(2) [of r5 "4 * n + 1" n "take l0 diffprod"]
      sub_at_val(2) [of r5 "4 * n + 1" n "take l0 diffprod"]
    by (auto simp: min_def mult.commute)
qed


lemma karatsuba_identity:
  fixes U0 :: int
  shows "U0 * V0 * (1 + X) + U1 * V1 * (X + X * X) + (U1 - U0) * (V0 - V1) * X = (U0 + X * U1) * (V0 + X * V1)"
  by (simp add: algebra_simps)

lemma mpval_le_bound: "length x \<le> n \<Longrightarrow> mpval x \<le> 2 ^ (32 * n)"
proof -
  assume "length x \<le> n"
  then have "(2 :: int) ^ (32 * length x) \<le> 2 ^ (32 * n)"
    by (intro power_increasing) auto
  then show ?thesis
    using mpval_bound [of x] by linarith
qed

lemma mult_le_square: "\<lbrakk>length x \<le> n; length y \<le> n\<rbrakk> \<Longrightarrow> mpval x * mpval y \<le> 2 ^ (32 * n) * 2 ^ (32 * n)"
  by (intro mult_mono mpval_le_bound) auto

lemma mpkaratsuba_val:
  assumes len: "length b \<le> length a" "KARATSUBAMIN \<le> length a" "length a + length b \<le> length p" and z: "mpval p = 0"
    and n: "n = half a" and u: "u0 = take n a" "u1 = drop n a" "v0 = take n b" "v1 = drop n b"
    and d: "mpval diffprod = mpval (snd (kdiff_u u0 u1)) * mpval (snd (kdiff_v v0 v1))" "length diffprod = 2 * n + 1"
    and p1: "mpval u1v1 = mpval u1 * mpval v1" "length u1v1 = 2 * n + 1"
    and p0: "mpval u0v0 = mpval u0 * mpval v0" "length u0v0 = 2 * n + 1"
  shows "mpval (mpkaratsuba a b diffprod u1v1 u0v0 p) = mpval a * mpval b"
    and "length (mpkaratsuba a b diffprod u1v1 u0v0 p) = length p"
proof -
  have h: "n \<le> length a" "length a \<le> 2 * n"
    using half_bounds [of a] n by simp_all
  have ul: "length u0 = n" "length u1 \<le> n" "length v0 \<le> n" "length v1 \<le> n" "length u1 \<le> length u0" "length v1 \<le> length v0"
    using h len u by auto
  define du dv where "du = kdiff_u u0 u1" and "dv = kdiff_v v0 v1"
  have du: "fst du * mpval (snd du) = mpval u1 - mpval u0" "fst du \<in> {1, -1}" "length (snd du) = length u0"
    using kdiff_u_val [OF ul(5)] length_kdiff(1) [OF ul(5)] by (simp_all add: du_def)
  have dv: "fst dv * mpval (snd dv) = mpval v0 - mpval v1" "fst dv \<in> {1, -1}" "length (snd dv) = length v0"
    using kdiff_v_val [OF ul(6)] length_kdiff(2) [OF ul(6)] by (simp_all add: dv_def)
  define X :: int where "X = 2 ^ (32 * n)"
  have va: "mpval a = mpval u0 + X * mpval u1"
    using mpval_split [of n a] h by (simp add: u X_def)
  have vb: "mpval b = mpval v0 + X * mpval v1"
    using mpval_append [of v0 v1] by (cases "n \<le> length b") (simp_all add: u X_def)
  have sgn_d: "fst du * fst dv * (mpval (snd du) * mpval (snd dv)) = (mpval u1 - mpval u0) * (mpval v0 - mpval v1)"
    using du(1) dv(1) by (metis mult.assoc mult.left_commute)
  define tot where "tot = mpval u0 * mpval v0 * (1 + X) + mpval u1 * mpval v1 * (X + X * X)
    + fst du * fst dv * (mpval (snd du) * mpval (snd dv)) * X"
  have tot: "tot = mpval a * mpval b"
    unfolding tot_def sgn_d va vb by (rule karatsuba_identity)
  let ?l0 = "length u0 + length v0" and ?l1 = "length u1 + length v1"
  have tk: "mpval (take ?l0 u0v0) = mpval u0 * mpval v0" "mpval (take ?l1 u1v1) = mpval u1 * mpval v1"
    "mpval (take ?l0 diffprod) = mpval (snd du) * mpval (snd dv)"
    using mpval_mult_bound [of u0 v0] mpval_mult_bound [of u1 v1] mpval_mult_bound [of "snd du" "snd dv"]
      p0(1) p1(1) d(1) du(3) dv(3) by (simp_all add: mpval_take_small du_def dv_def)
  define res where "res = ksum n ?l0 ?l1 (length v1) (fst du * fst dv) u0v0 u1v1 diffprod"
  have ks: "mpval res = tot" "length res = 4 * n + 2"
    unfolding res_def tot_def
    using ul tot mpval_nonneg [of a] mpval_nonneg [of b] du(2,3) dv(2,3)
    by (intro ksum_val [OF p0(2) p1(2) d(2) _ _ _ tk _ _ _ X_def];
        auto simp: X_def tot_def mult_le_square)+
  let ?l = "length a + length b"
  have k: "mpkaratsuba a b diffprod u1v1 u0v0 p = take ?l res @ drop ?l p"
    by (simp add: mpkaratsuba_def Let_def res_def du_def dv_def u n)
  have "mpval (drop ?l p) = 0"
    using z len(3) mpval_zero_iff [of p] by (auto simp: mpval_zero_iff dest: in_set_dropD)
  then show "mpval (mpkaratsuba a b diffprod u1v1 u0v0 p) = mpval a * mpval b"
    using ks(1) tot mpval_mult_bound [of a b] unfolding k by (simp add: mpval_append mpval_take_small)
  show "length (mpkaratsuba a b diffprod u1v1 u0v0 p) = length p"
    using ks(2) h len unfolding k by simp
qed

lemma mpvecmul_val:
  "\<lbrakk>mpval p = 0; length a + length b \<le> length p\<rbrakk>
   \<Longrightarrow> mpval (mpvecmul a b p) = mpval a * mpval b \<and> length (mpvecmul a b p) = length p"
proof (induction a b p rule: mpvecmul.induct)
  case (1 a b p)
  show ?case
  proof (cases "length a < length b")
    case True
    then show ?thesis
      using 1(1) 1(5,6) by (subst (1 2) mpvecmul.simps) (simp add: mult.commute)
  next
    case le: False
    show ?thesis
    proof (cases "length b = 0")
      case True
      have "mpval (drop (length a) p) = 0"
        using 1(5) mpval_zero_iff [of p] by (auto simp: mpval_zero_iff dest: in_set_dropD)
      then show ?thesis
        using True le 1(6) by (subst (1 2) mpvecmul.simps) (simp add: mpval_append)
    next
      case b0: False
      show ?thesis
      proof (cases "length a \<ge> KARATSUBAMIN \<and> length b > 1")
        case False
        have "mpval (mul_loop a b p) = mpval p + mpval a * mpval b \<and> length (mul_loop a b p) = length p"
          using 1(5,6) mpval_zero_iff [of p] by (intro mul_loop_val) auto
        then show ?thesis
          using le b0 False 1(5) by (subst (1 2) mpvecmul.simps) auto
      next
        case k: True
        define n where "n = half a"
        define u0 u1 v0 v1 where u: "u0 = take n a" "u1 = drop n a" "v0 = take n b" "v1 = drop n b"
        define dp where "dp = mpvecmul (snd (kdiff_u u0 u1)) (snd (kdiff_v v0 v1)) (zeros (2 * n + 1))"
        define p1 where "p1 = (if length v1 > 0 then mpvecmul u1 v1 (zeros (2 * n + 1)) else zeros (2 * n + 1))"
        define p0 where "p0 = mpvecmul u0 v0 (zeros (2 * n + 1))"
        have h: "n \<le> length a" "length a \<le> 2 * n"
          using half_bounds [of a] n_def by simp_all
        have ul: "length u0 = n" "length u1 \<le> n" "length v0 \<le> n" "length v1 \<le> n"
          "length (snd (kdiff_u u0 u1)) = length u0" "length (snd (kdiff_v v0 v1)) = length v0"
          using h le u length_kdiff(1) [of u1 u0] length_kdiff(2) [of v1 v0] by auto
        have dp: "mpval dp = mpval (snd (kdiff_u u0 u1)) * mpval (snd (kdiff_v v0 v1)) \<and> length dp = 2 * n + 1"
          using 1(2) [OF le b0 k n_def u] ul by (simp add: dp_def)
        have p1: "mpval p1 = mpval u1 * mpval v1 \<and> length p1 = 2 * n + 1"
          using 1(3) [OF le b0 k n_def u] ul by (auto simp: p1_def)
        have p0: "mpval p0 = mpval u0 * mpval v0 \<and> length p0 = 2 * n + 1"
          using 1(4) [OF le b0 k n_def u] ul by (simp add: p0_def)
        have "mpvecmul a b p = mpkaratsuba a b dp p1 p0 p"
          using le b0 k by (subst mpvecmul.simps) (simp add: Let_def dp_def p1_def p0_def u n_def)
        then show ?thesis
          using mpkaratsuba_val [OF _ _ 1(6,5) n_def u, of dp p1 p0] le k dp p1 p0 by simp
      qed
    qed
  qed
qed

text \<open>
  Claim C27 (equivalence).  \<open>mpvecmul\<close>, which uses Karatsuba's method on long vectors and the schoolbook loop on short ones,
  computes the product, for vectors of any two lengths: into a cleared vector with room for it, it
  stores the digits of the product and leaves the rest.
\<close>

theorem mpvecmul_product:
  assumes "mpval p = 0" and "length a + length b \<le> length p"
  shows "mpval (mpvecmul a b p) = mpval a * mpval b \<and> length (mpvecmul a b p) = length p"
  by (rule mpvecmul_val [OF assms])

theorem mpvecmul_product_witness:
  "mpval (mpvecmul (replicate 40 7) (replicate 33 9) (zeros 80)) = mpval (replicate 40 7) * mpval (replicate 33 9)"
  using mpvecmul_product [of "zeros 80" "replicate 40 7" "replicate 33 9"] by simp

end
