(* ===== verification/Mp_Int.thy ===== *)
theory Mp_Int
  imports Mp_Mul
begin

text \<open>
  Signed numbers of the multiple precision library: \<^verbatim>\<open>mpaux.c\<close>, \<^verbatim>\<open>mpadd.c\<close>, \<^verbatim>\<open>mpsub.c\<close>, \<^verbatim>\<open>mpcmp.c\<close>,
  \<^verbatim>\<open>mpmul.c\<close>, \<^verbatim>\<open>mpleft.c\<close>, \<^verbatim>\<open>mpright.c\<close> and a part of \<^verbatim>\<open>mplogic.c\<close> of \<^verbatim>\<open>src/libmp/port\<close>.  A number is an
  object in a store, a function from addresses, and an operation takes addresses, any of which may be
  equal: \<^verbatim>\<open>src/include/mp.h\<close> lets the result be one of the operands.  Sizes are natural numbers: numbers
  of 2^31 bits and more, whose sizes overflow an \<open>int\<close>, are outside the model, and allocation succeeds.
\<close>

section \<open>Numbers and their storage\<close>

datatype mpflag = MPstatic | MPnorm | MPtimesafe | MPfield

record mpint =
  msign :: int
  msize :: nat
  mtop :: nat
  digs :: "mpdigit list"
  mflags :: "mpflag set"

type_synonym mpstore = "nat \<Rightarrow> mpint"

definition Dbits :: nat where
  "Dbits = 32"

definition DIGITS :: "nat \<Rightarrow> nat" where
  "DIGITS x = (Dbits - 1 + x) div Dbits"

definition mpmindigits :: nat where
  "mpmindigits = 33"

definition mpzero :: mpint where
  "mpzero = \<lparr>msign = 1, msize = 1, mtop = 0, digs = [0], mflags = {MPstatic, MPnorm}\<rparr>"

definition mpone :: mpint where
  "mpone = \<lparr>msign = 1, msize = 1, mtop = 1, digs = [1], mflags = {MPstatic, MPnorm}\<rparr>"

definition mptwo :: mpint where
  "mptwo = \<lparr>msign = 1, msize = 1, mtop = 1, digs = [2], mflags = {MPstatic, MPnorm}\<rparr>"

definition mpnew :: "nat \<Rightarrow> mpint" where
  "mpnew n =
     (let n = DIGITS n; n = (if n < mpmindigits then mpmindigits else n)
      in \<lparr>msign = 1, msize = n, mtop = 0, digs = zeros n, mflags = {MPnorm}\<rparr>)"

text \<open>\<open>mpbits\<close>: both ways of growing the vector keep the digits below \<open>top\<close>, and those up to \<open>n\<close> are cleared.\<close>

definition mpbits :: "mpint \<Rightarrow> nat \<Rightarrow> mpint" where
  "mpbits b m =
     (let n = DIGITS m in
      if msize b \<ge> n \<and> mtop b \<ge> n then b
      else
        let b = (if msize b \<ge> n then b
                 else b\<lparr>digs := take (mtop b) (digs b) @ zeros (n - mtop b), msize := n\<rparr>)
        in b\<lparr>digs := take (mtop b) (digs b) @ zeros (n - mtop b) @ drop n (digs b),
             mtop := n, mflags := mflags b - {MPnorm}\<rparr>)"

fun norm_top :: "mpdigit list \<Rightarrow> nat \<Rightarrow> nat" where
  "norm_top p 0 = 0"
| "norm_top p (Suc i) = (if p ! i \<noteq> 0 then Suc i else norm_top p i)"

text \<open>\<open>assert(b->sign == 1)\<close> of the time-safe case is the value \<open>None\<close>.\<close>

definition mpnorm :: "mpint \<Rightarrow> mpint option" where
  "mpnorm b =
     (if MPtimesafe \<in> mflags b then
        if msign b = 1 then Some (b\<lparr>mflags := mflags b - {MPnorm}\<rparr>) else None
      else
        let b = b\<lparr>mtop := norm_top (digs b) (mtop b)\<rparr>;
            b = (if mtop b = 0 then b\<lparr>msign := 1\<rparr> else b)
        in Some (b\<lparr>mflags := mflags b \<union> {MPnorm}\<rparr>))"

definition mpassign :: "mpint \<Rightarrow> mpint \<Rightarrow> mpint" where
  "mpassign old new =
     (let new = mpbits (new\<lparr>mtop := 0\<rparr>) (Dbits * mtop old) in
      new\<lparr>msign := msign old, mtop := mtop old,
          mflags := (mflags new - {MPnorm}) \<union> (mflags old - {MPstatic, MPfield}),
          digs := take (mtop old) (digs old) @ drop (mtop old) (digs new)\<rparr>)"

definition mpassign_at :: "nat \<Rightarrow> nat \<Rightarrow> mpstore \<Rightarrow> mpstore" where
  "mpassign_at old new st = (if old = new then st else st(new := mpassign (st old) (st new)))"

definition mpcopy :: "mpint \<Rightarrow> mpint" where
  "mpcopy old =
     (let new = mpnew (Dbits * msize old) in
      new\<lparr>msign := msign old, mtop := mtop old, mflags := mflags old - {MPstatic, MPfield},
          digs := take (mtop old) (digs old) @ drop (mtop old) (digs new)\<rparr>)"

text \<open>A vector routine writes to the digits of a number.\<close>

definition mpwrite :: "mpdigit list \<Rightarrow> mpint \<Rightarrow> mpint" where
  "mpwrite v b = b\<lparr>digs := v @ drop (length v) (digs b)\<rparr>"

abbreviation vec :: "mpint \<Rightarrow> mpdigit list" where
  "vec b \<equiv> take (mtop b) (digs b)"

section \<open>Comparison, addition, subtraction, multiplication\<close>

definition mpmagcmp :: "mpint \<Rightarrow> mpint \<Rightarrow> int" where
  "mpmagcmp b1 b2 =
     (let i = int (mtop b1) - int (mtop b2) in if i \<noteq> 0 then i else mpveccmp (vec b1) (vec b2))"

definition mpcmp :: "mpint \<Rightarrow> mpint \<Rightarrow> int" where
  "mpcmp b1 b2 =
     (if msign b1 \<noteq> msign b2 then msign b1 - msign b2
      else if msign b1 < 0 then mpmagcmp b2 b1 else mpmagcmp b1 b2)"

definition mpmagadd :: "nat \<Rightarrow> nat \<Rightarrow> nat \<Rightarrow> mpstore \<Rightarrow> mpstore option" where
  "mpmagadd b1 b2 sm st =
     (let (b1, b2) = (if mtop (st b2) > mtop (st b1) then (b2, b1) else (b1, b2));
          n = mtop (st b1); m = mtop (st b2)
      in if n = 0 then Some (st(sm := mpassign mpzero (st sm)))
         else if m = 0 then Some (mpassign_at b1 sm st)
         else
           let st = st(sm := (mpbits (st sm) ((n + 1) * Dbits))\<lparr>mtop := n + 1\<rparr>);
               v = mpvecadd (take n (digs (st b1))) (take m (digs (st b2)))
           in (case mpnorm ((mpwrite v (st sm))\<lparr>msign := 1\<rparr>) of
                 None \<Rightarrow> None | Some b \<Rightarrow> Some (st(sm := b))))"

definition mpmagsub :: "nat \<Rightarrow> nat \<Rightarrow> nat \<Rightarrow> mpstore \<Rightarrow> mpstore option" where
  "mpmagsub b1 b2 diff st =
     (let (b1, b2, sign) = (if mpmagcmp (st b1) (st b2) < 0 then (b2, b1, -1) else (b1, b2, 1));
          n = mtop (st b1); m = mtop (st b2)
      in if m = 0 then
           let st = mpassign_at b1 diff st in Some (st(diff := (st diff)\<lparr>msign := sign\<rparr>))
         else
           let st = st(diff := mpbits (st diff) (n * Dbits));
               v = mpvecsub (take n (digs (st b1))) (take m (digs (st b2)))
           in (case mpnorm ((mpwrite v (st diff))\<lparr>msign := sign, mtop := n\<rparr>) of
                 None \<Rightarrow> None | Some b \<Rightarrow> Some (st(diff := b))))"

definition mpadd :: "nat \<Rightarrow> nat \<Rightarrow> nat \<Rightarrow> mpstore \<Rightarrow> mpstore option" where
  "mpadd b1 b2 sm st =
     (if msign (st b1) \<noteq> msign (st b2) then
        if msign (st b1) < 0 then mpmagsub b2 b1 sm st else mpmagsub b1 b2 sm st
      else
        let sign = msign (st b1) in
        case mpmagadd b1 b2 sm st of
          None \<Rightarrow> None
        | Some st \<Rightarrow> Some (if mtop (st sm) \<noteq> 0 then st(sm := (st sm)\<lparr>msign := sign\<rparr>) else st))"

definition mpsub :: "nat \<Rightarrow> nat \<Rightarrow> nat \<Rightarrow> mpstore \<Rightarrow> mpstore option" where
  "mpsub b1 b2 diff st =
     (let sign = msign (st b1) in
      if msign (st b1) \<noteq> msign (st b2) then
        case mpmagadd b1 b2 diff st of
          None \<Rightarrow> None
        | Some st \<Rightarrow> Some (st(diff := (st diff)\<lparr>msign := sign\<rparr>))
      else
        case mpmagsub b1 b2 diff st of
          None \<Rightarrow> None
        | Some st \<Rightarrow>
            Some (if mtop (st diff) \<noteq> 0 then st(diff := (st diff)\<lparr>msign := msign (st diff) * sign\<rparr>) else st))"

definition mpmul_into :: "mpint \<Rightarrow> mpint \<Rightarrow> mpint \<Rightarrow> mpint option" where
  "mpmul_into b1 b2 pr =
     (let k = mtop b1 + mtop b2 + 1;
          pr = mpbits (pr\<lparr>mtop := 0\<rparr>) (k * Dbits);
          v = mpvecmul (vec b1) (vec b2) (take k (digs pr))
      in mpnorm ((mpwrite v pr)\<lparr>mtop := k, msign := msign b1 * msign b2\<rparr>))"

definition mpmul :: "nat \<Rightarrow> nat \<Rightarrow> nat \<Rightarrow> mpstore \<Rightarrow> mpstore option" where
  "mpmul b1 b2 pr st =
     (if pr = b1 \<or> pr = b2 then
        (case mpmul_into (st b1) (st b2) (mpnew 0) of
           None \<Rightarrow> None | Some t \<Rightarrow> Some (st(pr := mpassign t (st pr))))
      else
        (case mpmul_into (st b1) (st b2) (st pr) of
           None \<Rightarrow> None | Some t \<Rightarrow> Some (st(pr := t))))"

section \<open>Well-formed numbers and their values\<close>

text \<open>
  \<open>mpwf\<close>: the vector has \<open>size\<close> digits, \<open>top\<close> of them in use; the number is not marked time-safe.  \<open>mpok\<close>: the
  digit below \<open>top\<close> is not zero.  \<open>mpcan\<close>: zero has the sign 1.
\<close>

definition mpwf :: "mpint \<Rightarrow> bool" where
  "mpwf b \<longleftrightarrow> length (digs b) = msize b \<and> mtop b \<le> msize b \<and> (msign b = 1 \<or> msign b = -1) \<and> MPtimesafe \<notin> mflags b"

definition mpok :: "mpint \<Rightarrow> bool" where
  "mpok b \<longleftrightarrow> mpwf b \<and> (mtop b = 0 \<or> digs b ! (mtop b - 1) \<noteq> 0)"

lemma mpok_wf: "mpok b \<Longrightarrow> mpwf b"
  by (simp add: mpok_def)

definition mpcan :: "mpint \<Rightarrow> bool" where
  "mpcan b \<longleftrightarrow> (mtop b = 0 \<longrightarrow> msign b = 1)"

definition mmag :: "mpint \<Rightarrow> int" where
  "mmag b = mpval (vec b)"

definition mval :: "mpint \<Rightarrow> int" where
  "mval b = msign b * mmag b"

lemma DIGITS_mult [simp]: "DIGITS (k * Dbits) = k" "DIGITS (Dbits * k) = k"
  by (simp_all add: DIGITS_def Dbits_def)

lemma norm_top_le: "norm_top p n \<le> n"
  by (induction n) auto

lemma norm_top_last: "norm_top p n = 0 \<or> p ! (norm_top p n - 1) \<noteq> 0"
  by (induction n) auto

lemma norm_top_val: "n \<le> length p \<Longrightarrow> mpval (take (norm_top p n) p) = mpval (take n p)"
  by (induction n) (auto simp: mpval_take_Suc)

lemma norm_top_self: "n = 0 \<or> p ! (n - 1) \<noteq> 0 \<Longrightarrow> norm_top p n = n"
  by (cases n) auto

lemma mpnorm_ok:
  assumes "mpwf b"
  shows "\<exists>b'. mpnorm b = Some b' \<and> mpok b' \<and> mpcan b' \<and> mmag b' = mmag b
    \<and> (mtop b' \<noteq> 0 \<longrightarrow> msign b' = msign b)"
  using assms norm_top_le [of "digs b" "mtop b"] norm_top_last [of "digs b" "mtop b"] norm_top_val [of "mtop b" "digs b"]
  by (auto simp: mpnorm_def mpok_def mpwf_def mpcan_def mmag_def Let_def)

lemma mpbits_fields:
  assumes "mpwf b"
  shows "mpwf (mpbits b m)" "msign (mpbits b m) = msign b" "DIGITS m \<le> mtop (mpbits b m)"
    "DIGITS m \<le> msize (mpbits b m)" "length (digs (mpbits b m)) = msize (mpbits b m)" "mtop b \<le> mtop (mpbits b m)"
  using assms by (auto simp: mpbits_def mpwf_def Let_def)

lemma mpbits_digits: "mpwf b \<Longrightarrow> k \<le> mtop (mpbits b (k * Dbits))" "mpwf b \<Longrightarrow> k \<le> msize (mpbits b (k * Dbits))"
  using mpbits_fields(3,4) [of b "k * Dbits"] by simp_all

lemma mpbits_take:
  assumes "mpwf b" "k \<le> mtop b"
  shows "take k (digs (mpbits b m)) = take k (digs b)"
  using assms by (auto simp: mpbits_def mpwf_def Let_def)

lemma mpbits_zero:
  assumes "mpwf b"
  shows "mpval (take k (digs (mpbits (b\<lparr>mtop := 0\<rparr>) (k * Dbits)))) = 0"
  using assms by (auto simp: mpbits_def mpwf_def Let_def)

lemma mpwf_upd [simp]:
  "mpwf (b\<lparr>msign := v\<rparr>) \<longleftrightarrow> length (digs b) = msize b \<and> mtop b \<le> msize b \<and> (v = 1 \<or> v = -1) \<and> MPtimesafe \<notin> mflags b"
  "mpwf (b\<lparr>mtop := k\<rparr>) \<longleftrightarrow> length (digs b) = msize b \<and> k \<le> msize b \<and> (msign b = 1 \<or> msign b = -1) \<and> MPtimesafe \<notin> mflags b"
  by (auto simp: mpwf_def)

lemma mpassign_ok:
  assumes "mpok old" "mpwf new"
  shows "mpok (mpassign old new)" "mtop (mpassign old new) = mtop old" "msign (mpassign old new) = msign old"
    "mmag (mpassign old new) = mmag old"
proof -
  have new0: "mpwf (new\<lparr>mtop := 0\<rparr>)"
    using assms by (auto simp: mpwf_def)
  note f = mpbits_fields [OF new0, of "Dbits * mtop old"]
  show "mpok (mpassign old new)"
    using assms f by (auto simp: mpassign_def mpok_def mpwf_def Let_def nth_append)
  show "mtop (mpassign old new) = mtop old" "msign (mpassign old new) = msign old" "mmag (mpassign old new) = mmag old"
    using assms by (simp_all add: mpassign_def mmag_def Let_def mpok_def mpwf_def)
qed

lemma mpwf_write:
  assumes "mpwf b" "length v \<le> msize b"
  shows "mpwf (mpwrite v b)" "take (length v) (digs (mpwrite v b)) = v" "mtop (mpwrite v b) = mtop b"
    "msize (mpwrite v b) = msize b" "msign (mpwrite v b) = msign b" "mflags (mpwrite v b) = mflags b"
    "length (digs (mpwrite v b)) = msize b"
  using assms by (auto simp: mpwrite_def mpwf_def)

lemma mpok_consts: "mpok mpzero" "mpok mpone" "mpcan mpzero" "mpcan mpone" "mval mpzero = 0" "mval mpone = 1"
  "mmag mpzero = 0" "mtop mpzero = 0" "msign mpzero = 1"
  by (auto simp: mpok_def mpwf_def mpcan_def mval_def mmag_def mpzero_def mpone_def)

lemma mmag_zero_iff: "mpok b \<Longrightarrow> mmag b = 0 \<longleftrightarrow> mtop b = 0"
proof -
  assume ok: "mpok b"
  have "mmag b \<noteq> 0" if "mtop b \<noteq> 0"
  proof -
    have "digs b ! (mtop b - 1) \<in> set (vec b)" "digs b ! (mtop b - 1) \<noteq> 0"
      using ok that by (auto simp: mpok_def mpwf_def in_set_conv_nth intro!: exI [of _ "mtop b - 1"])
    then show ?thesis
      unfolding mmag_def mpval_zero_iff by blast
  qed
  then show ?thesis
    by (auto simp: mmag_def)
qed

lemma mmag_nonneg [simp]: "0 \<le> mmag b"
  by (simp add: mmag_def)

lemma mpmagadd_ok:
  assumes ok: "mpok (st b1)" "mpok (st b2)" "mpwf (st sm)"
  shows "\<exists>b. mpmagadd b1 b2 sm st = Some (st(sm := b)) \<and> mpok b \<and> mmag b = mmag (st b1) + mmag (st b2)
    \<and> (mtop b = 0 \<longrightarrow> msign b = 1)"
proof -
  define c1 c2 where "c1 = (if mtop (st b2) > mtop (st b1) then b2 else b1)"
    and "c2 = (if mtop (st b2) > mtop (st b1) then b1 else b2)"
  define n m where "n = mtop (st c1)" and "m = mtop (st c2)"
  have c: "mpok (st c1)" "mpok (st c2)" "m \<le> n" "mmag (st b1) + mmag (st b2) = mmag (st c1) + mmag (st c2)"
    using ok by (auto simp: c1_def c2_def n_def m_def)
  have e: "mpmagadd b1 b2 sm st =
     (if n = 0 then Some (st(sm := mpassign mpzero (st sm)))
      else if m = 0 then Some (mpassign_at c1 sm st)
      else
        let st = st(sm := (mpbits (st sm) ((n + 1) * Dbits))\<lparr>mtop := n + 1\<rparr>);
            v = mpvecadd (take n (digs (st c1))) (take m (digs (st c2)))
        in (case mpnorm ((mpwrite v (st sm))\<lparr>msign := 1\<rparr>) of
              None \<Rightarrow> None | Some b \<Rightarrow> Some (st(sm := b))))"
    unfolding n_def m_def c1_def c2_def
    by (cases "mtop (st b2) > mtop (st b1)") (simp_all only: mpmagadd_def Let_def if_True if_False prod.case simp_thms)
  show ?thesis
  proof (cases "n = 0 \<or> m = 0")
    case True
    then have z: "m = 0" "mmag (st c2) = 0"
      using c(2,3) mmag_zero_iff by (auto simp: m_def)
    show ?thesis
    proof (cases "n = 0")
      case True
      then show ?thesis
        using e c(1,4) z mpassign_ok [OF mpok_consts(1) ok(3)] mmag_zero_iff [OF c(1)]
        by (auto simp: n_def mpok_consts)
    next
      case False
      then show ?thesis
        using e c(1,4) z mpassign_ok [OF c(1) ok(3)] False
        by (auto simp: mpassign_at_def n_def intro!: exI [of _ "if c1 = sm then st sm else mpassign (st c1) (st sm)"])
    qed
  next
    case False
    define s1 where "s1 = st(sm := (mpbits (st sm) ((n + 1) * Dbits))\<lparr>mtop := n + 1\<rparr>)"
    have f: "mpwf (s1 sm)" "mtop (s1 sm) = n + 1" "n + 1 \<le> msize (s1 sm)" "length (digs (s1 sm)) = msize (s1 sm)"
      "MPtimesafe \<notin> mflags (s1 sm)"
      using mpbits_fields(1) [OF ok(3), of "(n + 1) * Dbits"] mpbits_digits [OF ok(3), of "n + 1"]
      by (auto simp: s1_def mpwf_def)
    have tk: "take n (digs (s1 c1)) = vec (st c1)" "take m (digs (s1 c2)) = vec (st c2)"
      using mpbits_take [OF ok(3)] by (auto simp: s1_def n_def m_def)
    define v where "v = mpvecadd (vec (st c1)) (vec (st c2))"
    have lv: "length (vec (st c1)) = n" "length (vec (st c2)) = m"
      using c by (auto simp: mpok_def mpwf_def n_def m_def)
    have v: "length v = n + 1" "mpval v = mmag (st c1) + mmag (st c2)"
      using lv c(3) by (simp_all add: v_def mpvecadd_val mmag_def)
    define w where "w = (mpwrite v (s1 sm))\<lparr>msign := 1\<rparr>"
    note wr = mpwf_write [OF f(1), of v]
    have w: "mpwf w" "mmag w = mpval v"
      using wr f v by (simp_all add: w_def mmag_def)
    obtain b where b: "mpnorm w = Some b" "mpok b" "mpcan b" "mmag b = mmag w"
      using mpnorm_ok [OF w(1)] by blast
    have "mpmagadd b1 b2 sm st = Some (s1(sm := b))"
      using False unfolding e Let_def s1_def [symmetric] tk v_def [symmetric] w_def [symmetric] b(1) by simp
    then show ?thesis
      using b w(2) v(2) c(4) by (auto simp: s1_def mpcan_def)
  qed
qed

lemma mmag_bound:
  assumes "mpok b"
  shows "mmag b < 2 ^ (32 * mtop b)" "mtop b \<noteq> 0 \<Longrightarrow> 2 ^ (32 * (mtop b - 1)) \<le> mmag b"
proof -
  show "mmag b < 2 ^ (32 * mtop b)"
    by (simp add: mmag_def mpval_take_bound)
  assume "mtop b \<noteq> 0"
  then obtain k where k: "mtop b = Suc k"
    using not0_implies_Suc by blast
  have "mmag b = mpval (take k (digs b)) + 2 ^ (32 * k) * uint (digs b ! k)" "digs b ! k \<noteq> 0"
    using assms k by (auto simp: mmag_def mpok_def mpwf_def mpval_take_Suc)
  moreover have "1 \<le> uint (digs b ! k)"
    using calculation(2) uint_ge_0 [of "digs b ! k"] uint_0_iff [of "digs b ! k"] by linarith
  then have "2 ^ (32 * k) * 1 \<le> 2 ^ (32 * k) * uint (digs b ! k)"
    by (intro mult_left_mono) auto
  ultimately show "2 ^ (32 * (mtop b - 1)) \<le> mmag b"
    unfolding k diff_Suc_1 using mpval_nonneg [of "take k (digs b)"] by linarith
qed

lemma mmag_less_top:
  assumes "mpok b1" "mpok b2" "mtop b1 < mtop b2"
  shows "mmag b1 < mmag b2"
proof -
  have "(2 :: int) ^ (32 * mtop b1) \<le> 2 ^ (32 * (mtop b2 - 1))"
    using assms(3) by (intro power_increasing) auto
  then show ?thesis
    using mmag_bound(1) [OF assms(1)] mmag_bound(2) [OF assms(2)] assms(3) by linarith
qed

lemma mpmagcmp_sgn:
  assumes "mpok b1" "mpok b2"
  shows "sgn (mpmagcmp b1 b2) = sgn (mmag b1 - mmag b2)"
proof -
  consider "mtop b1 < mtop b2" | "mtop b2 < mtop b1" | "mtop b1 = mtop b2"
    by linarith
  then show ?thesis
    using mmag_less_top [of b1 b2] mmag_less_top [of b2 b1] assms
    by cases (auto simp: mpmagcmp_def mpveccmp_sgn mmag_def)
qed

lemma mpcmp_sgn:
  assumes ok: "mpok b1" "mpok b2" and can: "mpcan b1" "mpcan b2"
  shows "sgn (mpcmp b1 b2) = sgn (mval b1 - mval b2)"
proof -
  have s: "msign b1 = 1 \<or> msign b1 = -1" "msign b2 = 1 \<or> msign b2 = -1"
    using ok by (auto simp: mpok_def mpwf_def)
  have z: "msign b = -1 \<Longrightarrow> 0 < mmag b" if "mpok b" "mpcan b" for b
    using that mmag_zero_iff [of b] mmag_nonneg [of b] by (auto simp: mpcan_def simp del: mmag_nonneg)
  show ?thesis
    using s z [OF ok(1) can(1)] z [OF ok(2) can(2)] mpmagcmp_sgn [OF ok(1,2)] mpmagcmp_sgn [OF ok(2,1)]
      mmag_nonneg [of b1] mmag_nonneg [of b2]
    by (auto simp: mpcmp_def mval_def simp del: mmag_nonneg)
qed

lemma mpmagsub_ok:
  assumes ok: "mpok (st b1)" "mpok (st b2)" "mpwf (st df)"
  shows "\<exists>b. mpmagsub b1 b2 df st = Some (st(df := b)) \<and> mpok b \<and> mpcan b \<and> mval b = mmag (st b1) - mmag (st b2)"
proof -
  define lt where "lt \<longleftrightarrow> mpmagcmp (st b1) (st b2) < 0"
  define c1 c2 sg where "c1 = (if lt then b2 else b1)" and "c2 = (if lt then b1 else b2)" and "sg = (if lt then -1 else 1 :: int)"
  define n m where "n = mtop (st c1)" and "m = mtop (st c2)"
  have lt: "lt \<longleftrightarrow> mmag (st b1) < mmag (st b2)"
    using mpmagcmp_sgn [OF ok(1,2)] unfolding lt_def by (metis diff_less_0_iff_less sgn_less)
  have c: "mpok (st c1)" "mpok (st c2)" "mmag (st c2) \<le> mmag (st c1)"
    "mmag (st b1) - mmag (st b2) = sg * (mmag (st c1) - mmag (st c2))"
    using ok lt by (auto simp: c1_def c2_def sg_def)
  have mn: "m \<le> n"
    using c(3) mmag_less_top [OF c(1,2)] by (fastforce simp: n_def m_def)
  have e: "mpmagsub b1 b2 df st =
     (if m = 0 then
        let st = mpassign_at c1 df st in Some (st(df := (st df)\<lparr>msign := sg\<rparr>))
      else
        let st = st(df := mpbits (st df) (n * Dbits));
            v = mpvecsub (take n (digs (st c1))) (take m (digs (st c2)))
        in (case mpnorm ((mpwrite v (st df))\<lparr>msign := sg, mtop := n\<rparr>) of
              None \<Rightarrow> None | Some b \<Rightarrow> Some (st(df := b))))"
    unfolding n_def m_def c1_def c2_def sg_def mpmagsub_def lt_def [symmetric]
    by (cases lt) (simp_all only: Let_def if_True if_False prod.case simp_thms)
  have sg: "sg = 1 \<or> sg = -1"
    by (simp add: sg_def)
  show ?thesis
  proof (cases "m = 0")
    case True
    then have z: "mmag (st c2) = 0"
      using c(2) mmag_zero_iff by (simp add: m_def)
    have sgz: "mmag (st c1) = 0 \<Longrightarrow> sg = 1"
      using lt z by (auto simp: sg_def c1_def c2_def)
    define b where "b = (if c1 = df then st df else mpassign (st c1) (st df))\<lparr>msign := sg\<rparr>"
    have b: "mpok b" "mmag b = mmag (st c1)" "mtop b = mtop (st c1)" "msign b = sg"
      using mpassign_ok [OF c(1) ok(3)] c(1) sg by (auto simp: b_def mpok_def mpwf_def mmag_def)
    have "mpmagsub b1 b2 df st = Some (st(df := b))"
      unfolding e using True by (simp add: Let_def mpassign_at_def b_def)
    moreover have "mpcan b"
      using b(3,4) sgz mmag_zero_iff [OF c(1)] by (simp add: mpcan_def)
    ultimately show ?thesis
      using b c(4) z by (auto simp: mval_def)
  next
    case False
    define s1 where "s1 = st(df := mpbits (st df) (n * Dbits))"
    have f: "mpwf (s1 df)" "n \<le> msize (s1 df)"
      using mpbits_fields(1) [OF ok(3), of "n * Dbits"] mpbits_digits [OF ok(3), of n]
      by (auto simp: s1_def)
    have tk: "take n (digs (s1 c1)) = vec (st c1)" "take m (digs (s1 c2)) = vec (st c2)"
      using mpbits_take [OF ok(3)] by (auto simp: s1_def n_def m_def)
    define v where "v = mpvecsub (vec (st c1)) (vec (st c2))"
    have lv: "length (vec (st c1)) = n" "length (vec (st c2)) = m"
      using c by (auto simp: mpok_def mpwf_def n_def m_def)
    have v: "length v = n" "mpval v = mmag (st c1) - mmag (st c2)"
      using lv mn c(3) by (simp_all add: v_def mpvecsub_val mmag_def)
    define w where "w = (mpwrite v (s1 df))\<lparr>msign := sg, mtop := n\<rparr>"
    note wr = mpwf_write [OF f(1), of v]
    have w: "mpwf w" "mmag w = mpval v" "msign w = sg"
      using wr f v sg by (auto simp: w_def mmag_def mpwf_def)
    obtain b where b: "mpnorm w = Some b" "mpok b" "mpcan b" "mmag b = mmag w" "mtop b \<noteq> 0 \<longrightarrow> msign b = msign w"
      using mpnorm_ok [OF w(1)] by blast
    have "mpmagsub b1 b2 df st = Some (s1(df := b))"
      using False unfolding e Let_def s1_def [symmetric] tk v_def [symmetric] w_def [symmetric] b(1) by simp
    moreover have "mval b = sg * mpval v"
      using b(4,5) w mmag_zero_iff [OF b(2)] by (auto simp: mval_def)
    ultimately show ?thesis
      using b w(2) v(2) c(4) by (auto simp: s1_def)
  qed
qed

text \<open>The interface of a binary operation on numbers in the store: it computes \<open>f\<close> on the values, for any
  three addresses, writes its destination only and keeps numbers normalized.\<close>

locale mp_binop =
  fixes oper :: "nat \<Rightarrow> nat \<Rightarrow> nat \<Rightarrow> mpstore \<Rightarrow> mpstore option" and f :: "int \<Rightarrow> int \<Rightarrow> int"
  assumes oper_ok: "\<lbrakk>mpok (st b1); mpok (st b2); mpwf (st r)\<rbrakk>
      \<Longrightarrow> \<exists>b. oper b1 b2 r st = Some (st(r := b)) \<and> mpok b \<and> mval b = f (mval (st b1)) (mval (st b2))
        \<and> (mpcan (st b1) \<and> mpcan (st b2) \<longrightarrow> mpcan b)"
begin

text \<open>The forms that the callers use: in place on the first or the second operand, and on one number
  with itself.\<close>

lemma oper_first:
  "\<lbrakk>mpok (st r); mpok (st x)\<rbrakk>
    \<Longrightarrow> \<exists>b. oper r x r st = Some (st(r := b)) \<and> mpok b \<and> mval b = f (mval (st r)) (mval (st x))"
  using oper_ok [of st r x r] by (auto simp: mpok_def)

lemma oper_second:
  "\<lbrakk>mpok (st r); mpok (st x)\<rbrakk>
    \<Longrightarrow> \<exists>b. oper x r r st = Some (st(r := b)) \<and> mpok b \<and> mval b = f (mval (st x)) (mval (st r))"
  using oper_ok [of st x r r] by (auto simp: mpok_def)

lemma oper_same:
  "mpok (st r) \<Longrightarrow> \<exists>b. oper r r r st = Some (st(r := b)) \<and> mpok b \<and> mval b = f (mval (st r)) (mval (st r))"
  by (rule oper_first)

end

lemma mpadd_ok:
  assumes ok: "mpok (st b1)" "mpok (st b2)" "mpwf (st sm)"
  shows "\<exists>b. mpadd b1 b2 sm st = Some (st(sm := b)) \<and> mpok b \<and> mval b = mval (st b1) + mval (st b2)
        \<and> (mpcan (st b1) \<and> mpcan (st b2) \<longrightarrow> mpcan b)"
proof -
  have s: "msign (st b1) = 1 \<or> msign (st b1) = -1" "msign (st b2) = 1 \<or> msign (st b2) = -1"
    using ok by (auto simp: mpok_def mpwf_def)
  show ?thesis
  proof (cases "msign (st b1) = msign (st b2)")
    case False
    show ?thesis
    proof (cases "msign (st b1) < 0")
      case True
      then have "msign (st b1) = -1" "msign (st b2) = 1"
        using s False by auto
      then show ?thesis
        using mpmagsub_ok [OF ok(2,1,3)] by (auto simp: mpadd_def mval_def [of "st b1"] mval_def [of "st b2"])
    next
      case nonneg: False
      then have "msign (st b1) = 1" "msign (st b2) = -1"
        using s False by auto
      then show ?thesis
        using mpmagsub_ok [OF ok(1,2,3)] by (auto simp: mpadd_def mval_def [of "st b1"] mval_def [of "st b2"])
    qed
  next
    case True
    obtain b where b: "mpmagadd b1 b2 sm st = Some (st(sm := b))" "mpok b" "mmag b = mmag (st b1) + mmag (st b2)"
      "mtop b = 0 \<longrightarrow> msign b = 1"
      using mpmagadd_ok [OF ok] by (elim exE conjE)
    define c where "c = (if mtop b \<noteq> 0 then b\<lparr>msign := msign (st b1)\<rparr> else b)"
    have c: "mpok c" "mpcan c" "mmag c = mmag b" "mtop b \<noteq> 0 \<longrightarrow> msign c = msign (st b1)"
      using b(2,4) s by (auto simp: c_def mpok_def mpwf_def mpcan_def mmag_def)
    moreover have "mval c = mval (st b1) + mval (st b2)"
    proof (cases "mtop b = 0")
      case True
      then have "mmag b = 0" "mmag (st b1) = 0" "mmag (st b2) = 0"
        using b(3) mmag_zero_iff [OF b(2)] mmag_nonneg [of "st b1"] mmag_nonneg [of "st b2"] by linarith+
      then show ?thesis
        using c(3) by (simp add: mval_def)
    next
      case False
      then show ?thesis
        using c(3,4) b(3) \<open>msign (st b1) = msign (st b2)\<close> by (simp add: mval_def distrib_left)
    qed
    moreover have "mpadd b1 b2 sm st = Some (st(sm := c))"
      using True b(1) by (simp add: mpadd_def c_def Let_def)
    ultimately show ?thesis by blast
  qed
qed

lemma mpsub_ok:
  assumes ok: "mpok (st b1)" "mpok (st b2)" "mpwf (st df)"
  shows "\<exists>b. mpsub b1 b2 df st = Some (st(df := b)) \<and> mpok b \<and> mval b = mval (st b1) - mval (st b2)
        \<and> (mpcan (st b1) \<and> mpcan (st b2) \<longrightarrow> mpcan b)"
proof -
  have s: "msign (st b1) = 1 \<or> msign (st b1) = -1" "msign (st b2) = 1 \<or> msign (st b2) = -1"
    using ok by (auto simp: mpok_def mpwf_def)
  show ?thesis
  proof (cases "msign (st b1) = msign (st b2)")
    case False
    obtain b where b: "mpmagadd b1 b2 df st = Some (st(df := b))" "mpok b" "mmag b = mmag (st b1) + mmag (st b2)"
      using mpmagadd_ok [OF ok] by blast
    define c where "c = b\<lparr>msign := msign (st b1)\<rparr>"
    have c: "mpok c" "mmag c = mmag b" "msign c = msign (st b1)" "mtop c = mtop b"
      using b(2) s by (auto simp: c_def mpok_def mpwf_def mmag_def)
    moreover have "mval c = mval (st b1) - mval (st b2)"
      using c b(3) False s by (auto simp: mval_def)
    moreover have "mpsub b1 b2 df st = Some (st(df := c))"
      using False b(1) by (simp add: mpsub_def c_def Let_def)
    moreover have "mpcan c" if "mpcan (st b1)" "mpcan (st b2)"
    proof -
      have "mtop (st b1) \<noteq> 0 \<or> mtop (st b2) \<noteq> 0"
        using that False by (auto simp: mpcan_def)
      then have "mmag b \<noteq> 0"
        using b(3) mmag_zero_iff [OF ok(1)] mmag_zero_iff [OF ok(2)] mmag_nonneg [of "st b1"] mmag_nonneg [of "st b2"]
        by linarith
      then show ?thesis
        using c(4) mmag_zero_iff [OF b(2)] by (simp add: mpcan_def)
    qed
    ultimately show ?thesis by blast
  next
    case True
    obtain b where b: "mpmagsub b1 b2 df st = Some (st(df := b))" "mpok b" "mpcan b" "mval b = mmag (st b1) - mmag (st b2)"
      using mpmagsub_ok [OF ok] by blast
    define c where "c = (if mtop b \<noteq> 0 then b\<lparr>msign := msign b * msign (st b1)\<rparr> else b)"
    have "msign b = 1 \<or> msign b = -1"
      using b(2) by (auto simp: mpok_def mpwf_def)
    then have c: "mpok c" "mpcan c" "mmag c = mmag b" "mtop b \<noteq> 0 \<longrightarrow> msign c = msign b * msign (st b1)"
      using b(2,3) s by (auto simp: c_def mpok_def mpwf_def mpcan_def mmag_def)
    moreover have "mval c = mval (st b1) - mval (st b2)"
    proof (cases "mtop b = 0")
      case True
      then show ?thesis
        using b(4) c mmag_zero_iff [OF b(2)] \<open>msign (st b1) = msign (st b2)\<close> by (simp add: mval_def)
    next
      case False
      then have "mval c = msign (st b1) * mval b"
        using c(3,4) by (simp add: mval_def)
      then show ?thesis
        using b(4) True by (simp add: mval_def right_diff_distrib)
    qed
    moreover have "mpsub b1 b2 df st = Some (st(df := c))"
      using True b(1) by (simp add: mpsub_def c_def Let_def)
    ultimately show ?thesis by blast
  qed
qed

interpretation mp_add: mp_binop mpadd "(+)"
  by unfold_locales (rule mpadd_ok)

interpretation mp_sub: mp_binop mpsub "(-)"
  by unfold_locales (rule mpsub_ok)

lemma mpmul_into_ok:
  assumes ok: "mpok b1" "mpok b2" "mpwf r"
  shows "\<exists>b. mpmul_into b1 b2 r = Some b \<and> mpok b \<and> mpcan b \<and> mval b = mval b1 * mval b2"
proof -
  define k where "k = mtop b1 + mtop b2 + 1"
  define r1 where "r1 = mpbits (r\<lparr>mtop := 0\<rparr>) (k * Dbits)"
  have r0: "mpwf (r\<lparr>mtop := 0\<rparr>)"
    using ok(3) by (auto simp: mpwf_def)
  have r1: "mpwf r1" "k \<le> msize r1" "length (digs r1) = msize r1"
    using mpbits_fields(1,5) [OF r0, of "k * Dbits"] mpbits_digits(2) [OF r0, of k] by (simp_all add: r1_def)
  define v where "v = mpvecmul (vec b1) (vec b2) (take k (digs r1))"
  have lv: "length (vec b1) = mtop b1" "length (vec b2) = mtop b2"
    using ok by (auto simp: mpok_def mpwf_def)
  have "mpval (take k (digs r1)) = 0"
    unfolding r1_def by (rule mpbits_zero [OF ok(3)])
  then have v: "length v = k" "mpval v = mmag b1 * mmag b2"
    using mpvecmul_val [of "take k (digs r1)" "vec b1" "vec b2"] lv r1 by (simp_all add: v_def k_def mmag_def)
  define w where "w = (mpwrite v r1)\<lparr>mtop := k, msign := msign b1 * msign b2\<rparr>"
  have sg: "msign b1 = 1 \<or> msign b1 = -1" "msign b2 = 1 \<or> msign b2 = -1"
    using ok by (auto simp: mpok_def mpwf_def)
  have "length v \<le> msize r1"
    using v(1) r1(2) by simp
  note wr = mpwf_write [OF r1(1) this]
  have w: "mmag w = mpval v" "msign w = msign b1 * msign b2"
    using wr(2) v(1) by (simp_all add: w_def mmag_def)
  have "msign b1 * msign b2 = 1 \<or> msign b1 * msign b2 = -1"
    using sg by auto
  then have wf: "mpwf w"
    using wr(1,4,7) r1(2) unfolding w_def mpwf_def by simp
  obtain b where b: "mpnorm w = Some b" "mpok b" "mpcan b" "mmag b = mmag w" "mtop b \<noteq> 0 \<longrightarrow> msign b = msign w"
    using mpnorm_ok [OF wf] by (elim exE conjE)
  have "mpmul_into b1 b2 r = Some b"
    unfolding mpmul_into_def Let_def k_def [symmetric] r1_def [symmetric] v_def [symmetric] w_def [symmetric] by (rule b(1))
  moreover have "mval b = mval b1 * mval b2"
  proof (cases "mtop b = 0")
    case True
    then have "mmag b = 0"
      using mmag_zero_iff [OF b(2)] by simp
    then show ?thesis
      using b(4) w v by (auto simp: mval_def)
  next
    case False
    then show ?thesis
      using b(4,5) w v by (simp add: mval_def)
  qed
  ultimately show ?thesis
    using b by blast
qed

lemma mpnew_wf: "mpwf (mpnew n)"
  by (simp add: mpnew_def mpwf_def Let_def)

lemma mpmul_ok:
  assumes ok: "mpok (st b1)" "mpok (st b2)" "mpwf (st r)"
  shows "\<exists>b. mpmul b1 b2 r st = Some (st(r := b)) \<and> mpok b \<and> mval b = mval (st b1) * mval (st b2)
    \<and> (mpcan (st b1) \<and> mpcan (st b2) \<longrightarrow> mpcan b)"
proof (cases "r = b1 \<or> r = b2")
  case True
  obtain t where t: "mpmul_into (st b1) (st b2) (mpnew 0) = Some t" "mpok t" "mpcan t" "mval t = mval (st b1) * mval (st b2)"
    using mpmul_into_ok [OF ok(1,2) mpnew_wf] by blast
  have "mpmul b1 b2 r st = Some (st(r := mpassign t (st r)))"
    using True t(1) by (simp add: mpmul_def)
  then show ?thesis
    using mpassign_ok [OF t(2) ok(3)] t by (auto simp: mval_def mpcan_def)
next
  case False
  then show ?thesis
    using mpmul_into_ok [OF ok] by (auto simp: mpmul_def)
qed

interpretation mp_mul: mp_binop mpmul "(*)"
  by unfold_locales (rule mpmul_ok)

text \<open>
  Claim C28 (functional).  Addition, subtraction and multiplication of signed numbers, whichever of the three addresses are
  equal: on normalized operands the operation ends without a failed assertion, changes its destination
  only, and leaves there the normalized number whose value is the sum, the difference or the product.
\<close>

theorem mp_arith_correct:
  assumes "mpok (st b1)" and "mpok (st b2)" and "mpwf (st r)" and "mpcan (st b1)" and "mpcan (st b2)"
    and "(oper, f) \<in> {(mpadd, (+)), (mpsub, (-)), (mpmul, (*))}"
  shows "\<exists>b. oper b1 b2 r st = Some (st(r := b)) \<and> mpok b \<and> mpcan b \<and> mval b = f (mval (st b1)) (mval (st b2))"
  using assms mp_add.oper_ok [OF assms(1-3)] mp_sub.oper_ok [OF assms(1-3)] mp_mul.oper_ok [OF assms(1-3)] by auto

theorem mp_arith_correct_witness:
  "let b = mpone\<lparr>msign := -1\<rparr> in
   \<exists>c. mpmul 0 0 0 (\<lambda>_. b) = Some ((\<lambda>_. b)(0 := c)) \<and> mpok c \<and> mpcan c \<and> mval c = 1"
proof -
  let ?b = "mpone\<lparr>msign := -1\<rparr>"
  have "mpok ?b" "mpwf ?b" "mpcan ?b" "mval ?b = -1"
    by (simp_all add: mpok_def mpwf_def mpcan_def mval_def mmag_def mpone_def)
  then show ?thesis
    using mp_arith_correct [of "\<lambda>_. ?b" 0 0 0 mpmul "(*)"] by (simp add: Let_def)
qed

text \<open>
  Property (functional).  \<open>mpcmp\<close> on normalized numbers has the sign of the difference of their values.
\<close>

theorem mpcmp_correct:
  assumes "mpok b1" and "mpok b2" and "mpcan b1" and "mpcan b2"
  shows "sgn (mpcmp b1 b2) = sgn (mval b1 - mval b2)"
  by (rule mpcmp_sgn [OF assms])

theorem mpcmp_correct_witness: "sgn (mpcmp mpzero mpone) = -1"
  using mpcmp_correct [OF mpok_consts(1-4)] by (simp add: mpok_consts)

end
