(* ===== verification/Mp_Shift.thy ===== *)
theory Mp_Shift
  imports Mp_Int
begin

text \<open>
  Shifts of multiple precision numbers (\<^verbatim>\<open>src/libmp/port/mpleft.c\<close>, \<^verbatim>\<open>mpright.c\<close>) and the operations of
  \<^verbatim>\<open>mplogic.c\<close> made of them and of addition and subtraction: \<open>mpnot\<close> and \<open>mpasr\<close>.
\<close>

section \<open>The loops over the digits\<close>

text \<open>\<open>mpleft\<close> goes down from the most significant digit; the list has that digit first.\<close>

fun shl_loop :: "nat \<Rightarrow> mpdigit \<Rightarrow> mpdigit list \<Rightarrow> mpdigit list" where
  "shl_loop l lst [] = [push_bit l lst]"
| "shl_loop l lst (this # ds) = (push_bit l lst OR drop_bit (Dbits - l) this) # shl_loop l this ds"

text \<open>\<open>mpright\<close> goes up; \<open>lst\<close> is the digit before those of the list.\<close>

fun shr_loop :: "nat \<Rightarrow> mpdigit \<Rightarrow> mpdigit list \<Rightarrow> mpdigit list" where
  "shr_loop r lst [] = [drop_bit r lst]"
| "shr_loop r lst (this # ds) = (push_bit (Dbits - r) this OR drop_bit r lst) # shr_loop r this ds"

section \<open>mpleft and mpright\<close>

definition mpleft_shift :: "nat \<Rightarrow> nat \<Rightarrow> nat \<Rightarrow> mpstore \<Rightarrow> mpstore" where
  "mpleft_shift b shift res st =
     (let otop = mtop (st b);
          st = st(res := (mpbits (st res) (otop * Dbits + shift))\<lparr>mtop := DIGITS (otop * Dbits + shift)\<rparr>);
          dd = shift div Dbits;
          l = shift - dd * Dbits;
          src = take otop (digs (st b));
          out = zeros dd @ (if l = 0 then src else rev (shl_loop l 0 (rev src)));
          r = mpwrite out (st res)
      in st(res := r\<lparr>mtop := norm_top (digs r) (mtop r)\<rparr>))"

definition mpright_shift :: "nat \<Rightarrow> nat \<Rightarrow> nat \<Rightarrow> mpstore \<Rightarrow> mpstore" where
  "mpright_shift b shift res st =
     (let st = (if res \<noteq> b then st(res := mpbits (st res) (mtop (st b) * Dbits - shift)) else st);
          dd = shift div Dbits;
          r = shift - dd * Dbits;
          src = vec (st b)
      in if dd \<ge> mtop (st b) then st(res := (st res)\<lparr>mtop := 0\<rparr>)
         else
           let out = (if r = 0 then drop dd src else shr_loop r (src ! dd) (drop (dd + 1) src));
               w = mpwrite out (st res);
               i = norm_top (digs w) (length out);
               w = w\<lparr>mtop := i\<rparr>
           in st(res := (if i = 0 then w\<lparr>msign := 1\<rparr> else w)))"

text \<open>A shift by a negative count is a shift the other way; the copy of the sign and the test for zero
  come first in both functions.\<close>

definition mpshift :: "(nat \<Rightarrow> nat \<Rightarrow> nat \<Rightarrow> mpstore \<Rightarrow> mpstore) \<Rightarrow> nat \<Rightarrow> nat \<Rightarrow> nat \<Rightarrow> mpstore \<Rightarrow> mpstore" where
  "mpshift sh b shift res st =
     (let st = st(res := (st res)\<lparr>msign := msign (st b)\<rparr>) in
      if mtop (st b) = 0 then st(res := (st res)\<lparr>mtop := 0\<rparr>)
      else sh b shift res st)"

definition mpleft :: "nat \<Rightarrow> int \<Rightarrow> nat \<Rightarrow> mpstore \<Rightarrow> mpstore" where
  "mpleft b shift res st =
     (if shift < 0 then mpshift (mpshift mpright_shift) b (nat (- shift)) res st
      else mpshift mpleft_shift b (nat shift) res st)"

definition mpright :: "nat \<Rightarrow> int \<Rightarrow> nat \<Rightarrow> mpstore \<Rightarrow> mpstore" where
  "mpright b shift res st =
     (if shift < 0 then mpshift (mpshift mpleft_shift) b (nat (- shift)) res st
      else mpshift mpright_shift b (nat shift) res st)"

section \<open>mpnot and mpasr\<close>

text \<open>The address of the constant \<open>mpone\<close>.\<close>

definition one_at :: nat where
  "one_at = 1"

definition mpnot :: "nat \<Rightarrow> nat \<Rightarrow> mpstore \<Rightarrow> mpstore option" where
  "mpnot b r st =
     (case mpadd b one_at r st of
        None \<Rightarrow> None
      | Some st \<Rightarrow> Some (if mtop (st r) \<noteq> 0 then st(r := (st r)\<lparr>msign := msign (st r) XOR (-2)\<rparr>) else st))"

definition mpasr :: "nat \<Rightarrow> int \<Rightarrow> nat \<Rightarrow> mpstore \<Rightarrow> mpstore option" where
  "mpasr b n r st =
     (if msign (st b) > 0 \<or> n \<le> 0 then Some (mpright b n r st)
      else (case mpadd b one_at r st of
          None \<Rightarrow> None
        | Some st \<Rightarrow> mpsub r one_at r (mpright r n r st)))"

section \<open>Correctness of the loops\<close>

lemma word_or_disjoint:
  fixes x y :: mpdigit
  assumes "l \<le> 32"
  shows "uint (push_bit l x OR drop_bit (32 - l) y) = uint (push_bit l x) + uint (drop_bit (32 - l) y)"
proof -
  have "uint (push_bit l x OR drop_bit (32 - l) y) = uint (push_bit l x) OR uint (drop_bit (32 - l) y)"
    by (rule unsigned_or_eq)
  also have "\<dots> = uint (push_bit l x) + uint (drop_bit (32 - l) y)"
  proof (rule disjunctive_add [symmetric])
    fix n
    show "\<not> bit (uint (push_bit l x)) n \<or> \<not> bit (uint (drop_bit (32 - l) y)) n"
      using assms bit_imp_le_length [of y "32 - l + n"] by (auto simp: bit_simps)
  qed
  finally show ?thesis .
qed

lemma uint_push: "uint (push_bit l (x :: mpdigit)) = uint x * 2 ^ l mod 2 ^ 32"
  unfolding unsigned_push_bit_eq by (simp add: push_bit_eq_mult take_bit_eq_mod)

lemma uint_drop: "uint (drop_bit r (x :: mpdigit)) = uint x div 2 ^ r"
  unfolding unsigned_drop_bit_eq using digit_lt [of x] by (simp add: drop_bit_eq_div take_bit_eq_mod)

lemma div_exp_shift: "l \<le> 32 \<Longrightarrow> x div 2 ^ (32 - l) = x * 2 ^ l div (2 ^ 32 :: int)"
proof -
  assume "l \<le> 32"
  then have "(2 :: int) ^ 32 = 2 ^ (32 - l) * 2 ^ l"
    by (simp flip: power_add)
  then show ?thesis
    by (metis div_mult_mult2 mult.commute power_not_zero zero_neq_numeral)
qed

lemma word_shl_split:
  fixes x :: mpdigit
  assumes "l \<le> 32"
  shows "uint (push_bit l x) + 2 ^ 32 * uint (drop_bit (32 - l) x) = 2 ^ l * uint x"
  unfolding uint_push uint_drop div_exp_shift [OF assms] by (simp add: mult.commute)

lemma shl_loop_val:
  assumes "l \<le> 32"
  shows "mpval (rev (shl_loop l lst ds)) = 2 ^ l * mpval (rev ds) + 2 ^ (32 * length ds) * uint (push_bit l lst)
    \<and> length (shl_loop l lst ds) = Suc (length ds)"
proof (induction ds arbitrary: lst)
  case (Cons this ds)
  have e: "uint (push_bit l lst OR drop_bit (32 - l) this) = uint (push_bit l lst) + uint (drop_bit (32 - l) this)"
    by (rule word_or_disjoint [OF assms])
  have "mpval (rev (shl_loop l lst (this # ds))) = 2 ^ l * mpval (rev ds) + 2 ^ (32 * length ds) * uint (push_bit l this)
      + 2 ^ (32 * Suc (length ds)) * (uint (push_bit l lst) + uint (drop_bit (32 - l) this))"
    using Cons [of this] e by (simp add: mpval_append Dbits_def)
  also have "\<dots> = 2 ^ l * mpval (rev ds) + 2 ^ (32 * length ds) * (uint (push_bit l this) + 2 ^ 32 * uint (drop_bit (32 - l) this))
      + 2 ^ (32 * Suc (length ds)) * uint (push_bit l lst)"
    by (simp add: algebra_simps power_add)
  also have "\<dots> = 2 ^ l * mpval (rev (this # ds)) + 2 ^ (32 * length (this # ds)) * uint (push_bit l lst)"
    unfolding word_shl_split [OF assms] by (simp add: mpval_append algebra_simps)
  finally show ?case
    using Cons by simp
qed (simp add: Dbits_def)

lemma uint_push_low:
  fixes x :: mpdigit
  assumes "r \<le> 32"
  shows "uint (push_bit (32 - r) x) = 2 ^ (32 - r) * (uint x mod 2 ^ r)"
proof -
  have "(2 :: int) ^ 32 = 2 ^ (32 - r) * 2 ^ r"
    using assms by (simp flip: power_add)
  then have "2 ^ (32 - r) * (uint x mod 2 ^ r) = uint x * 2 ^ (32 - r) mod 2 ^ 32"
    using mult_mod_right [of "2 ^ (32 - r) :: int" "uint x" "2 ^ r"] by (simp add: mult.commute)
  then show ?thesis
    by (simp add: uint_push)
qed

lemma div_digit:
  assumes "r \<le> 32"
  shows "(x + 2 ^ 32 * v) div 2 ^ r = x div 2 ^ r + 2 ^ (32 - r) * (v :: int)"
proof -
  have e1: "2 ^ 32 * v = 2 ^ r * (2 ^ (32 - r) * v)"
    using assms by (simp flip: power_add mult.assoc)
  have e2: "(x + 2 ^ r * (2 ^ (32 - r) * v)) div 2 ^ r = 2 ^ (32 - r) * v + x div 2 ^ r"
    by (rule div_mult_self2) simp
  show ?thesis
    unfolding e1 e2 by (rule add.commute)
qed

lemma mod_digit: "r \<le> 32 \<Longrightarrow> (x + 2 ^ 32 * v) mod 2 ^ r = x mod (2 ^ r :: int)"
proof -
  assume "r \<le> 32"
  then have "(2 :: int) ^ 32 = 2 ^ r * 2 ^ (32 - r)"
    by (simp flip: power_add)
  then show ?thesis
    by (metis mod_mult_self2 mult.assoc)
qed

lemma shr_loop_val:
  assumes "r \<le> 32"
  shows "mpval (shr_loop r lst ds) = mpval (lst # ds) div 2 ^ r \<and> length (shr_loop r lst ds) = Suc (length ds)"
proof (induction ds arbitrary: lst)
  case (Cons this ds)
  define v where "v = mpval (this # ds)"
  define q where "q = v div 2 ^ r"
  have vq: "v = 2 ^ r * q + uint this mod 2 ^ r"
    using mod_digit [OF assms, of "uint this" "mpval ds"] mult_div_mod_eq [of "2 ^ r" v]
    by (simp add: q_def v_def)
  have "32 - (32 - r) = r"
    using assms by simp
  then have "uint (push_bit (32 - r) this OR drop_bit r lst) = uint (push_bit (32 - r) this) + uint (drop_bit r lst)"
    using word_or_disjoint [of "32 - r" this lst] by simp
  then have "mpval (shr_loop r lst (this # ds)) = 2 ^ (32 - r) * (uint this mod 2 ^ r) + uint lst div 2 ^ r + 2 ^ 32 * q"
    using Cons [of this] by (simp add: uint_push_low [OF assms] uint_drop q_def v_def Dbits_def del: mpval.simps(2))
      (simp add: uint_push_low [OF assms] uint_drop)
  also have "\<dots> = uint lst div 2 ^ r + 2 ^ (32 - r) * v"
  proof -
    have "(2 :: int) ^ 32 = 2 ^ (32 - r) * 2 ^ r"
      using assms by (simp flip: power_add)
    then show ?thesis
      unfolding vq by (simp add: distrib_left)
  qed
  also have "\<dots> = mpval (lst # this # ds) div 2 ^ r"
    using div_digit [OF assms, of "uint lst" v] by (simp add: v_def)
  finally show ?case
    using Cons by simp
qed (simp add: uint_drop)

section \<open>Correctness of the shifts\<close>

lemma DIGITS_shift: "DIGITS (n * Dbits + shift) = n + shift div 32 + (if shift mod 32 = 0 then 0 else 1)"
proof -
  define q r where "q = shift div 32" and "r = shift mod 32"
  have s: "shift = 32 * q + r" "r < 32"
    by (simp_all add: q_def r_def)
  have "DIGITS (n * Dbits + shift) = (31 + r + 32 * (n + q)) div 32"
    by (simp add: DIGITS_def Dbits_def s(1) algebra_simps)
  also have "\<dots> = n + q + (31 + r) div 32"
    by (subst div_mult_self2) simp_all
  also have "(31 + r) div 32 = (if r = 0 then 0 else 1)"
    using s(2) by (auto simp: div_nat_eqI)
  finally show ?thesis
    by (simp add: q_def r_def)
qed

lemma DIGITS_shrink: "DIGITS (n * Dbits - shift) = n - shift div 32"
proof (cases "n * 32 \<le> shift")
  case True
  then have "n \<le> shift div 32"
    by (simp add: less_eq_div_iff_mult_less_eq)
  then show ?thesis
    using True by (simp add: DIGITS_def Dbits_def)
next
  case False
  define q r where "q = shift div 32" and "r = shift mod 32"
  have s: "shift = 32 * q + r" "r < 32"
    by (simp_all add: q_def r_def)
  then have "31 + (n * 32 - shift) = (31 - r) + 32 * (n - q)"
    using False by simp
  then have "DIGITS (n * Dbits - shift) = ((31 - r) + 32 * (n - q)) div 32"
    by (simp add: DIGITS_def Dbits_def)
  also have "\<dots> = n - q"
    by (subst div_mult_self2) simp_all
  finally show ?thesis
    by (simp add: q_def)
qed

lemma norm_write:
  assumes wf: "mpwf b" and len: "length v \<le> msize b"
  defines "w \<equiv> (mpwrite v b)\<lparr>mtop := norm_top (digs (mpwrite v b)) (length v)\<rparr>"
  shows "mpok w" "mmag w = mpval v" "msign w = msign b"
proof -
  note wr = mpwf_write [OF wf len]
  show "mpok w" "mmag w = mpval v" "msign w = msign b"
    using wr len norm_top_le [of "digs (mpwrite v b)" "length v"] norm_top_last [of "digs (mpwrite v b)" "length v"]
      norm_top_val [of "length v" "digs (mpwrite v b)"]
    by (auto simp: w_def mpok_def mpwf_def mmag_def)
qed

lemma mpleft_shift_ok:
  assumes b: "mpok (st b)" and r: "mpwf (st res)"
  shows "\<exists>w. mpleft_shift b shift res st = st(res := w) \<and> mpok w \<and> mmag w = mmag (st b) * 2 ^ shift
    \<and> msign w = msign (st res)"
proof -
  define n k dd l where "n = mtop (st b)" and "k = DIGITS (n * Dbits + shift)" and "dd = shift div Dbits"
    and "l = shift - dd * Dbits"
  have l: "l = shift mod 32" "l \<le> 32"
    by (simp_all add: l_def dd_def Dbits_def modulo_nat_def)
  have kk: "k = n + dd + (if l = 0 then 0 else 1)"
    unfolding k_def DIGITS_shift l(1) dd_def by (simp add: Dbits_def)
  define s1 where "s1 = st(res := (mpbits (st res) (n * Dbits + shift))\<lparr>mtop := k\<rparr>)"
  have f: "mpwf (s1 res)" "k \<le> msize (s1 res)" "msign (s1 res) = msign (st res)" "mtop (s1 res) = k"
    using mpbits_fields [OF r, of "n * Dbits + shift"] by (auto simp: s1_def k_def mpwf_def)
  define src where "src = vec (st b)"
  have src: "take n (digs (s1 b)) = src" "length src = n" "mpval src = mmag (st b)"
    using mpbits_take [OF r] b by (auto simp: s1_def n_def src_def mpok_def mpwf_def mmag_def)
  define out where "out = zeros dd @ (if l = 0 then src else rev (shl_loop l 0 (rev src)))"
  have out: "length out = k" "mpval out = mmag (st b) * 2 ^ shift"
  proof -
    have s: "shift = 32 * dd + l"
      by (simp add: l(1) dd_def Dbits_def)
    have "mpval out = 2 ^ (32 * dd) * (2 ^ l * mpval src)"
      using shl_loop_val [OF l(2), of 0 "rev src"] by (simp add: out_def mpval_append)
    then show "mpval out = mmag (st b) * 2 ^ shift"
      by (simp add: s power_add src(3) mult.commute)
    show "length out = k"
      using shl_loop_val [OF l(2), of 0 "rev src"] src(2) kk by (simp add: out_def)
  qed
  define w where "w = (mpwrite out (s1 res))\<lparr>mtop := norm_top (digs (mpwrite out (s1 res))) (length out)\<rparr>"
  have "length out \<le> msize (s1 res)"
    using out(1) f(2) by simp
  note ok = norm_write [OF f(1) this, folded w_def]
  have "mtop (mpwrite out (s1 res)) = length out"
    using f(4) out(1) by (simp add: mpwrite_def)
  then have "mpleft_shift b shift res st = s1(res := w)"
    by (simp only: mpleft_shift_def Let_def n_def [symmetric] k_def [symmetric] s1_def [symmetric] dd_def [symmetric]
        l_def [symmetric] src(1) out_def [symmetric] w_def)
  then show ?thesis
    using ok out(2) f(3) by (auto simp: s1_def)
qed

lemma mpright_shift_ok:
  assumes b: "mpwf (st b)" and r: "mpwf (st res)"
  shows "\<exists>w. mpright_shift b shift res st = st(res := w) \<and> mpok w \<and> mmag w = mmag (st b) div 2 ^ shift
    \<and> (if shift div Dbits \<ge> mtop (st b) then mtop w = 0 \<and> msign w = msign (st res)
       else mpcan w \<and> (mtop w \<noteq> 0 \<longrightarrow> msign w = msign (st res)))"
proof -
  define n dd q where "n = mtop (st b)" and "dd = shift div Dbits" and "q = shift - dd * Dbits"
  have q: "q = shift mod 32" "q \<le> 32" "shift = 32 * dd + q"
    by (simp_all add: q_def dd_def Dbits_def modulo_nat_def)
  define s1 where "s1 = (if res \<noteq> b then st(res := mpbits (st res) (n * Dbits - shift)) else st)"
  have f: "mpwf (s1 res)" "msign (s1 res) = msign (st res)" "s1 b = st b"
    using mpbits_fields(1,2) [OF r, of "n * Dbits - shift"] r by (auto simp: s1_def)
  have f4: "n - dd \<le> msize (s1 res)"
  proof (cases "res = b")
    case True
    then show ?thesis
      using b by (auto simp: s1_def n_def mpok_def mpwf_def)
  next
    case False
    then show ?thesis
      using mpbits_fields(4) [OF r, of "n * Dbits - shift"] unfolding DIGITS_shrink by (simp add: s1_def dd_def Dbits_def)
  qed
  define src where "src = take n (digs (st b))"
  have src: "length src = n" "mpval src = mmag (st b)"
    using b by (auto simp: n_def src_def mpok_def mpwf_def mmag_def)
  have drop: "mpval src div 2 ^ (32 * dd) = mpval (drop dd src)"
  proof (cases "dd \<le> n")
    case True
    then show ?thesis
      using mpval_split [of dd src] mpval_take_bound [of dd src] mpval_nonneg [of "take dd src"] src(1) by simp
  next
    case False
    have "mpval src < 2 ^ (32 * dd)"
    proof -
      have "(2 :: int) ^ (32 * n) \<le> 2 ^ (32 * dd)"
        using False by (intro power_increasing) auto
      then show ?thesis
        using mpval_bound [of src, unfolded src(1)] by linarith
    qed
    then show ?thesis
      using False src(1) by simp
  qed
  have val: "mmag (st b) div 2 ^ shift = mpval (drop dd src) div 2 ^ q"
    using drop src(2) by (simp add: q(3) power_add zdiv_zmult2_eq)
  show ?thesis
  proof (cases "dd \<ge> n")
    case True
    define w where "w = (s1 res)\<lparr>mtop := 0\<rparr>"
    have "mpright_shift b shift res st = s1(res := w)"
      using True
      by (simp only: mpright_shift_def Let_def n_def [symmetric] s1_def [symmetric] dd_def [symmetric] f(3) w_def if_True)
    moreover have "mpok w" "mmag w = 0" "msign w = msign (st res)"
      using f by (auto simp: w_def mpok_def mpwf_def mmag_def)
    moreover have "mmag (st b) div 2 ^ shift = 0"
      using val True src(1) by simp
    ultimately show ?thesis
      using True by (intro exI [of _ w]) (auto simp: s1_def w_def dd_def n_def)
  next
    case False
    define out where "out = (if q = 0 then drop dd src else shr_loop q (src ! dd) (drop (dd + 1) src))"
    have cons: "drop dd src = src ! dd # drop (dd + 1) src"
      using False src(1) by (simp add: Cons_nth_drop_Suc)
    have out: "length out = n - dd" "mpval out = mpval (drop dd src) div 2 ^ q"
      using shr_loop_val [OF q(2), of "src ! dd" "drop (dd + 1) src"] src(1) False
      by (auto simp: out_def cons simp del: mpval.simps)
    define w where "w = (mpwrite out (s1 res))\<lparr>mtop := norm_top (digs (mpwrite out (s1 res))) (length out)\<rparr>"
    have "length out \<le> msize (s1 res)"
      using out(1) f4 by simp
    note ok = norm_write [OF f(1) this, folded w_def]
    have topw: "mtop w = norm_top (digs (mpwrite out (s1 res))) (length out)"
      by (simp add: w_def)
    define w' where "w' = (if mtop w = 0 then w\<lparr>msign := 1\<rparr> else w)"
    have "mpright_shift b shift res st = s1(res := w')"
      using False
      by (simp only: mpright_shift_def Let_def n_def [symmetric] s1_def [symmetric] dd_def [symmetric] q_def [symmetric]
          f(3) src_def [symmetric] out_def [symmetric] w_def [symmetric] w'_def if_False topw)
    moreover have "mpok w'" "mmag w' = mmag w" "mpcan w'" "mtop w' \<noteq> 0 \<longrightarrow> msign w' = msign (st res)"
      using ok f(2) by (auto simp: w'_def mpok_def mpwf_def mmag_def mpcan_def)
    ultimately show ?thesis
      using False ok(2) out(2) val by (intro exI [of _ w']) (auto simp: s1_def dd_def n_def)
  qed
qed


text \<open>The copy of the sign, and the case of zero.\<close>

lemma mpshift_wf:
  assumes "mpok (st b)" "mpwf (st res)"
  defines "s1 \<equiv> st(res := (st res)\<lparr>msign := msign (st b)\<rparr>)"
  shows "mpok (s1 b)" "mpwf (s1 res)" "mmag (s1 b) = mmag (st b)" "mtop (s1 b) = mtop (st b)" "msign (s1 b) = msign (st b)"
    "msign (s1 res) = msign (st b)"
  using assms by (auto simp: s1_def mpok_def mpwf_def mmag_def)

lemma mpshift_zero:
  assumes "mpok (st b)" "mpwf (st res)" "mtop (st b) = 0"
  shows "\<exists>w. mpshift sh b shift res st = st(res := w) \<and> mpok w \<and> mmag w = 0 \<and> mtop w = 0 \<and> msign w = msign (st b)"
  using assms
  by (intro exI [of _ "(st res)\<lparr>msign := msign (st b), mtop := 0\<rparr>"])
    (auto simp: mpshift_def Let_def mpok_def mpwf_def mmag_def)

lemma mpleft_ok:
  assumes b: "mpok (st b)" and r: "mpwf (st res)"
  shows "\<exists>w. mpleft b (int shift) res st = st(res := w) \<and> mpok w \<and> mval w = mval (st b) * 2 ^ shift
    \<and> (mpcan (st b) \<longrightarrow> mpcan w)"
proof (cases "mtop (st b) = 0")
  case True
  then show ?thesis
    using mpshift_zero [OF b r True, of mpleft_shift shift] mmag_zero_iff [OF b]
    by (auto simp: mpleft_def mval_def mpcan_def)
next
  case False
  define s1 where "s1 = st(res := (st res)\<lparr>msign := msign (st b)\<rparr>)"
  note w1 = mpshift_wf [where st = st and b = b and res = res, OF b r, folded s1_def]
  obtain w where w: "mpleft_shift b shift res s1 = s1(res := w)" "mpok w" "mmag w = mmag (s1 b) * 2 ^ shift"
    "msign w = msign (s1 res)"
    using mpleft_shift_ok [of s1 b res shift] w1 by blast
  have "mpleft b (int shift) res st = s1(res := w)"
    using False w(1) w1(4) by (simp add: mpleft_def mpshift_def Let_def s1_def [symmetric])
  moreover have "mtop w \<noteq> 0"
    using w(3) w1(3) mmag_zero_iff [OF w(2)] mmag_zero_iff [OF b] False by auto
  ultimately show ?thesis
    using w w1 by (auto simp: s1_def mval_def mpcan_def)
qed

text \<open>Shifting right truncates the magnitude.  Only when every digit is shifted out and the number is
  negative is the result not canonical.\<close>

lemma mpright_ok:
  assumes b: "mpok (st b)" and r: "mpwf (st res)"
  shows "\<exists>w. mpright b (int shift) res st = st(res := w) \<and> mpok w \<and> mval w = msign (st b) * (mmag (st b) div 2 ^ shift)
    \<and> (mpcan (st b) \<and> (shift div Dbits < mtop (st b) \<or> 0 \<le> mval (st b)) \<longrightarrow> mpcan w)"
proof (cases "mtop (st b) = 0")
  case True
  then show ?thesis
    using mpshift_zero [OF b r True, of mpright_shift shift] mmag_zero_iff [OF b]
    by (auto simp: mpright_def mval_def mpcan_def)
next
  case False
  define s1 where "s1 = st(res := (st res)\<lparr>msign := msign (st b)\<rparr>)"
  note w1 = mpshift_wf [where st = st and b = b and res = res, OF b r, folded s1_def]
  obtain w where w: "mpright_shift b shift res s1 = s1(res := w)" "mpok w" "mmag w = mmag (s1 b) div 2 ^ shift"
    "if shift div Dbits \<ge> mtop (s1 b) then mtop w = 0 \<and> msign w = msign (s1 res)
       else mpcan w \<and> (mtop w \<noteq> 0 \<longrightarrow> msign w = msign (s1 res))"
    using mpright_shift_ok [OF mpok_wf [OF w1(1)] w1(2), of shift] by (elim exE conjE)
  have e: "mpright b (int shift) res st = s1(res := w)"
    using False w(1) w1(4) by (simp add: mpright_def mpshift_def Let_def s1_def [symmetric])
  have "mval w = msign (st b) * (mmag (st b) div 2 ^ shift)"
    using w(3,4) w1 mmag_zero_iff [OF w(2)] by (cases "mtop w = 0") (auto simp: mval_def split: if_splits)
  moreover have "mpcan w" if "shift div Dbits < mtop (st b) \<or> 0 \<le> mval (st b)"
  proof -
    have "msign (st b) = 1" if "0 \<le> mval (st b)"
    proof -
      have "0 < mmag (st b)"
        using False mmag_zero_iff [OF b] mmag_nonneg [of "st b"] by linarith
      then show ?thesis
        using that b by (auto simp: mval_def mpok_def mpwf_def)
    qed
    then show ?thesis
      using that w(4) w1(4,6) by (auto simp: mpcan_def split: if_splits)
  qed
  ultimately show ?thesis
    using e w(2) by (auto simp: s1_def)
qed

text \<open>
  Property (functional).  \<open>mpleft\<close> multiplies by a power of two and \<open>mpright\<close> divides by it, rounding towards zero, with
  the result in any number, the operand included; nothing else in the store changes.
\<close>

theorem mp_shift_correct:
  assumes "mpok (st b)" and "mpwf (st res)"
  shows "(\<exists>w. mpleft b (int shift) res st = st(res := w) \<and> mpok w \<and> mval w = mval (st b) * 2 ^ shift)
    \<and> (\<exists>w. mpright b (int shift) res st = st(res := w) \<and> mpok w \<and> mval w = sgn (mval (st b)) * (\<bar>mval (st b)\<bar> div 2 ^ shift))"
proof -
  have "msign (st b) * (mmag (st b) div 2 ^ shift) = sgn (mval (st b)) * (\<bar>mval (st b)\<bar> div 2 ^ shift)"
  proof (cases "mmag (st b) = 0")
    case False
    then have "0 < mmag (st b)"
      using mmag_nonneg [of "st b"] by linarith
    then show ?thesis
      using assms(1) by (auto simp: mval_def mpok_def mpwf_def sgn_mult abs_mult)
  qed (simp add: mval_def)
  then show ?thesis
    using mpleft_ok [OF assms, of shift] mpright_ok [OF assms, of shift] by metis
qed

theorem mp_shift_correct_witness:
  "\<exists>w. mpleft 0 40 0 (\<lambda>_. mpone) = (\<lambda>_. mpone)(0 := w) \<and> mval w = 1099511627776"
proof -
  have "mpok mpone" "mpwf mpone"
    using mpok_consts(2) by (auto simp: mpok_def)
  then show ?thesis
    using mp_shift_correct [of "\<lambda>_. mpone" 0 0 40] by (auto simp: mpok_consts)
qed

text \<open>
  Property (error).  When every digit of a negative number is shifted out, \<open>mpright\<close> returns before it resets the sign: the
  result is a zero with the sign -1, which \<open>mpcmp\<close> takes to be less than zero.
\<close>

theorem mpright_negative_zero:
  "let w = mpright 0 32 0 (\<lambda>_. mpone\<lparr>msign := -1\<rparr>) 0 in
   mtop w = 0 \<and> mval w = 0 \<and> msign w = -1 \<and> mpcmp w mpzero < 0"
  by (simp add: mpright_def mpshift_def mpright_shift_def mpone_def mpzero_def mval_def mmag_def mpcmp_def Let_def Dbits_def)

lemma div_minus_pos:
  fixes m k :: int
  assumes "0 < k"
  shows "(- m) div k = - ((m - 1) div k) - 1"
proof -
  define q r where "q = (m - 1) div k" and "r = (m - 1) mod k"
  have "m - 1 = k * q + r" "0 \<le> r" "r < k"
    using assms by (simp_all add: q_def r_def)
  then have "- m = k * (- q - 1) + (k - 1 - r)" "0 \<le> k - 1 - r" "k - 1 - r < k"
    by (simp_all add: algebra_simps)
  then show ?thesis
    unfolding q_def [symmetric] by (rule int_div_pos_eq)
qed

text \<open>
  Property (functional).  \<open>mpnot\<close> gives the number whose two's complement is the complement, and \<open>mpasr\<close> is the
  arithmetic shift, division rounding down, also where \<open>mpright\<close> leaves a zero with the wrong sign.
\<close>

theorem mpnot_mpasr_correct:
  assumes "mpok (st b)" and "mpwf (st r)" and "st one_at = mpone" and "r \<noteq> one_at" and "mpcan (st b)"
  shows "(\<exists>w. mpnot b r st = Some (st(r := w)) \<and> mpok w \<and> mval w = NOT (mval (st b)))
    \<and> (\<exists>w. mpasr b (int n) r st = Some (st(r := w)) \<and> mpok w \<and> mval w = mval (st b) div 2 ^ n)"
proof -
  have one: "mpok (st one_at)" "mval (st one_at) = 1"
    using assms(3) mpok_consts by simp_all
  obtain a where a: "mpadd b one_at r st = Some (st(r := a))" "mpok a" "mval a = mval (st b) + 1"
    using mp_add.oper_ok [OF assms(1) one(1) assms(2)] one(2) by auto
  have "\<exists>w. mpnot b r st = Some (st(r := w)) \<and> mpok w \<and> mval w = NOT (mval (st b))"
  proof -
    define w where "w = (if mtop a \<noteq> 0 then a\<lparr>msign := msign a XOR (-2)\<rparr> else a)"
    have s: "msign a = 1 \<or> msign a = -1"
      using a(2) by (auto simp: mpok_def mpwf_def)
    then have x: "msign a XOR (-2) = - msign a"
      by auto
    have "mpok w" "mval w = - mval a"
      using a(2) s x mmag_zero_iff [OF a(2)] by (auto simp: w_def mpok_def mpwf_def mval_def mmag_def)
    moreover have "mpnot b r st = Some (st(r := w))"
      using a(1) by (simp add: mpnot_def w_def)
    ultimately show ?thesis
      using a(3) by (intro exI [of _ w]) (simp add: not_int_def)
  qed
  moreover have "\<exists>w. mpasr b (int n) r st = Some (st(r := w)) \<and> mpok w \<and> mval w = mval (st b) div 2 ^ n"
  proof (cases "msign (st b) > 0 \<or> int n \<le> 0")
    case True
    obtain w where w: "mpright b (int n) r st = st(r := w)" "mpok w" "mval w = msign (st b) * (mmag (st b) div 2 ^ n)"
      using mpright_ok [OF assms(1,2), of n] by blast
    have "msign (st b) = 1 \<or> n = 0"
      using True assms(1) by (auto simp: mpok_def mpwf_def)
    then have "mval w = mval (st b) div 2 ^ n"
      using w(3) by (auto simp: mval_def)
    then show ?thesis
      using True w by (intro exI [of _ w]) (simp add: mpasr_def)
  next
    case False
    then have sb: "msign (st b) = -1"
      using assms(1) by (auto simp: mpok_def mpwf_def)
    have awf: "mpok ((st(r := a)) r)" "mpwf ((st(r := a)) r)"
      using a(2) by (auto simp: mpok_def)
    obtain w where w: "mpright r (int n) r (st(r := a)) = st(r := a, r := w)" "mpok w"
      "mval w = msign a * (mmag a div 2 ^ n)"
      using mpright_ok [where st = "st(r := a)" and b = r and res = r, OF awf, of n] by auto
    have "mpok ((st(r := w)) r)" "mpok ((st(r := w)) one_at)" "mval ((st(r := w)) one_at) = 1"
      using w(2) one assms(4) by auto
    then obtain c where c: "mpsub r one_at r (st(r := w)) = Some (st(r := w, r := c))" "mpok c" "mval c = mval w - 1"
      using mp_sub.oper_first [of "st(r := w)" r one_at] by auto
    have "mtop (st b) \<noteq> 0"
      using assms(5) sb by (auto simp: mpcan_def)
    then have pos: "0 < mmag (st b)"
      using mmag_zero_iff [OF assms(1)] mmag_nonneg [of "st b"] by linarith
    have "msign a * mmag a = 1 - mmag (st b)"
      using a(3) sb by (simp add: mval_def)
    then have "mmag a = mmag (st b) - 1" "mmag a = 0 \<or> msign a = -1"
      using pos a(2) mmag_nonneg [of a] by (auto simp: mpok_def mpwf_def simp del: mmag_nonneg)
    then have "mval w = - ((mmag (st b) - 1) div 2 ^ n)"
      using w(3) by auto
    then have "mval c = mval (st b) div 2 ^ n"
      using c(3) div_minus_pos [of "2 ^ n" "mmag (st b)"] sb by (simp add: mval_def)
    then show ?thesis
      using False a(1) w(1) c by (intro exI [of _ c]) (simp add: mpasr_def)
  qed
  ultimately show ?thesis
    by blast
qed

theorem mpnot_mpasr_correct_witness:
  "\<exists>w. mpasr 0 35 0 (\<lambda>x. if x = 1 then mpone else mpone\<lparr>msign := -1\<rparr>) =
      Some ((\<lambda>x. if x = 1 then mpone else mpone\<lparr>msign := -1\<rparr>)(0 := w)) \<and> mval w = -1"
proof -
  let ?st = "\<lambda>x :: nat. if x = 1 then mpone else mpone\<lparr>msign := -1\<rparr>"
  have "mpok (?st 0)" "mpwf (?st 0)" "?st one_at = mpone" "(0 :: nat) \<noteq> one_at" "mpcan (?st 0)" "mval (?st 0) = -1"
    by (simp_all add: mpok_def mpwf_def mpcan_def mval_def mmag_def mpone_def one_at_def)
  then show ?thesis
    using mpnot_mpasr_correct [of ?st 0 0 35] by auto
qed

end
