(* ===== verification/Mp_Conv.thy ===== *)
theory Mp_Conv
  imports Mp_Shift
begin

text \<open>
  Conversion between multiple precision numbers and byte strings or machine integers: \<^verbatim>\<open>letomp.c\<close>,
  \<^verbatim>\<open>betomp.c\<close>, \<^verbatim>\<open>mptolel.c\<close>, \<^verbatim>\<open>mptober.c\<close>, \<^verbatim>\<open>mptobe.c\<close>, \<^verbatim>\<open>mptoui.c\<close>, \<^verbatim>\<open>mptoi.c\<close>, \<^verbatim>\<open>mptouv.c\<close> and \<^verbatim>\<open>mptov.c\<close> of
  \<^verbatim>\<open>src/libmp/port\<close>.  A shift of a 32-bit value takes its count modulo 32, as the processor does.
\<close>

section \<open>From bytes\<close>

fun letomp_loop :: "nat \<Rightarrow> mpdigit \<Rightarrow> 8 word list \<Rightarrow> mpdigit list" where
  "letomp_loop i x [] = (if i > 0 then [x] else [])"
| "letomp_loop i x (c # cs) =
     (let x = x OR push_bit i (ucast c); i = i + 8 in
      if i = Dbits then x # letomp_loop 0 0 cs else letomp_loop i x cs)"

definition letomp :: "8 word list \<Rightarrow> mpint \<Rightarrow> mpint" where
  "letomp cs b =
     (let b = mpbits b (8 * length cs); v = letomp_loop 0 0 cs in (mpwrite v b)\<lparr>mtop := length v\<rparr>)"

text \<open>\<open>while(*p == 0 && n > 1)\<close>\<close>

fun skip_zeros :: "8 word list \<Rightarrow> 8 word list" where
  "skip_zeros (c # d # cs) = (if c = 0 then skip_zeros (d # cs) else c # d # cs)"
| "skip_zeros cs = cs"

text \<open>The loop of \<open>betomp\<close> stores the digits from the most significant one down.\<close>

fun betomp_loop :: "nat \<Rightarrow> mpdigit \<Rightarrow> 8 word list \<Rightarrow> mpdigit list" where
  "betomp_loop sh x [] = []"
| "betomp_loop sh x (c # cs) =
     (let x = x OR push_bit sh (ucast c) in
      if sh < 8 then x # betomp_loop (Dbits - 8) 0 cs else betomp_loop (sh - 8) x cs)"

definition betomp :: "8 word list \<Rightarrow> mpint \<Rightarrow> mpint" where
  "betomp cs b =
     (let cs = skip_zeros cs; n = length cs;
          b = (mpbits b (n * 8))\<lparr>mtop := DIGITS (n * 8)\<rparr>
      in mpwrite (rev (betomp_loop ((n - 1) * 8 mod Dbits) 0 cs)) b)"

section \<open>To bytes\<close>

fun put_bytes :: "nat \<Rightarrow> mpdigit \<Rightarrow> 8 word list" where
  "put_bytes 0 x = []"
| "put_bytes (Suc j) x = ucast x # put_bytes j (drop_bit 8 x)"

text \<open>The loops of \<open>mptolel\<close> and \<open>mptober\<close>; the first fills the buffer from its start, the second from its end.\<close>

fun put_digits :: "mpdigit list \<Rightarrow> nat \<Rightarrow> 8 word list" where
  "put_digits (x # ds) n =
     (if n \<ge> 4 then put_bytes 4 x @ put_digits ds (n - 4)
      else if n > 0 then put_bytes n x else [])"
| "put_digits [] n = []"

definition mptolel :: "mpint \<Rightarrow> nat \<Rightarrow> 8 word list" where
  "mptolel b n =
     (let m = mtop b * 4; k = (if m < n then m else n)
      in put_digits (vec b) k @ replicate (n - k) 0)"

definition mptober :: "mpint \<Rightarrow> nat \<Rightarrow> 8 word list" where
  "mptober b n =
     (let m = mtop b * 4; k = (if m < n then m else n)
      in replicate (n - k) 0 @ rev (put_digits (vec b) k))"

text \<open>\<open>mptobe\<close> into a buffer of \<open>n\<close> bytes: \<open>None\<close> is the result -1.  \<open>be_bytes\<close> are the bytes of the digits, the
  most significant first; \<open>emit\<close> is the body of the loop, with \<open>p\<close> the bytes written so far.\<close>

fun be_bytes :: "mpdigit list \<Rightarrow> 8 word list" where
  "be_bytes [] = []"
| "be_bytes (x # ds) =
     ucast (drop_bit 24 x) # ucast (drop_bit 16 x) # ucast (drop_bit 8 x) # ucast x # be_bytes ds"

fun emit :: "nat \<Rightarrow> bool \<Rightarrow> 8 word list \<Rightarrow> 8 word list \<Rightarrow> 8 word list option" where
  "emit n suppress p [] = Some p"
| "emit n suppress p (c # cs) =
     (if c = 0 \<and> suppress then emit n suppress p cs
      else if length p \<ge> n then None
      else emit n False (p @ [c]) cs)"

definition mptobe :: "mpint \<Rightarrow> nat \<Rightarrow> 8 word list option" where
  "mptobe b n =
     (if mtop b = 0 then (if n < 1 then None else Some [0])
      else (case emit n True [] (be_bytes (rev (vec b))) of
          None \<Rightarrow> None
        | Some p \<Rightarrow> if p = [] then (if 0 \<ge> n then None else Some [0]) else Some p))"

section \<open>Machine integers\<close>

definition uitomp :: "32 word \<Rightarrow> mpint \<Rightarrow> mpint" where
  "uitomp i b =
     (let b = mpassign mpzero b; b = (if i \<noteq> 0 then b\<lparr>mtop := 1\<rparr> else b) in mpwrite [i] b)"

definition mptoui :: "mpint \<Rightarrow> 32 word" where
  "mptoui b =
     (if msign b < 0 then 0 else if mtop b > 1 then -1 else digs b ! 0)"

definition itomp :: "32 word \<Rightarrow> mpint \<Rightarrow> mpint" where
  "itomp i b =
     (let b = mpassign mpzero b; b = (if i \<noteq> 0 then b\<lparr>mtop := 1\<rparr> else b) in
      if i <s 0 then mpwrite [- i] (b\<lparr>msign := -1\<rparr>) else mpwrite [i] b)"

text \<open>\<open>MAXINT\<close> and \<open>MININT\<close>, and \<open>MAXVLONG\<close> and \<open>MINVLONG\<close>, as unsigned numbers.\<close>

definition MAXINT :: "32 word" where
  "MAXINT = drop_bit 1 (-1)"

definition MAXVLONG :: "64 word" where
  "MAXVLONG = drop_bit 1 (-1)"

definition mptoi :: "mpint \<Rightarrow> 32 word" where
  "mptoi b =
     (if mtop b = 0 then 0
      else
        let x = digs b ! 0 in
        if msign b > 0 then (if mtop b > 1 \<or> x > MAXINT then MAXINT else x)
        else (if mtop b > 1 \<or> x > MAXINT + 1 then MAXINT + 1 else - x))"

definition VLDIGITS :: nat where
  "VLDIGITS = 2"

fun uv_digits :: "nat \<Rightarrow> 64 word \<Rightarrow> mpdigit list" where
  "uv_digits 0 v = []"
| "uv_digits (Suc k) v = (if v \<noteq> 0 then ucast v # uv_digits k (drop_bit 32 v) else [])"

definition uvtomp :: "64 word \<Rightarrow> mpint \<Rightarrow> mpint" where
  "uvtomp v b =
     (let b = mpassign mpzero (mpbits b (VLDIGITS * 4)) in
      if v = 0 then b
      else let ds = uv_digits VLDIGITS v in (mpwrite ds b)\<lparr>mtop := length ds\<rparr>)"

text \<open>\<open>mptouv\<close> widens a digit before it shifts it, \<open>mptov\<close> does not: there the shift is on 32 bits.\<close>

fun uv_join :: "nat \<Rightarrow> mpdigit list \<Rightarrow> 64 word \<Rightarrow> 64 word" where
  "uv_join k [] v = v"
| "uv_join k (x # ds) v = uv_join (k + 1) ds (v OR push_bit (k * 32) (ucast x))"

fun v_join :: "nat \<Rightarrow> mpdigit list \<Rightarrow> 64 word \<Rightarrow> 64 word" where
  "v_join k [] v = v"
| "v_join k (x # ds) v = v_join (k + 1) ds (v OR ucast (push_bit (k * 32 mod 32) x))"

definition mptouv :: "mpint \<Rightarrow> 64 word option" where
  "mptouv b =
     (if mtop b = 0 then Some 0
      else (case mpnorm b of
          None \<Rightarrow> None
        | Some b \<Rightarrow> Some (if mtop b > VLDIGITS then MAXVLONG else uv_join 0 (vec b) 0)))"

definition mptov :: "mpint \<Rightarrow> 64 word option" where
  "mptov b =
     (if mtop b = 0 then Some 0
      else (case mpnorm b of
          None \<Rightarrow> None
        | Some b \<Rightarrow>
            if mtop b > VLDIGITS then Some (if msign b > 0 then MAXVLONG else MAXVLONG + 1)
            else
              let v = v_join 0 (vec b) 0 in
              if msign b > 0 then Some (if v > MAXVLONG then MAXVLONG else v)
              else Some (if v > MAXVLONG + 1 then MAXVLONG + 1 else - v)))"

section \<open>Byte strings as numbers\<close>

text \<open>The number that a byte string stands for, least significant byte first.\<close>

primrec bval :: "8 word list \<Rightarrow> int" where
  "bval [] = 0"
| "bval (c # cs) = uint c + 256 * bval cs"

lemma bval_append: "bval (a @ b) = bval a + 2 ^ (8 * length a) * bval b"
  by (induction a) (auto simp: algebra_simps power_add)

lemma bval_replicate_0 [simp]: "bval (replicate n 0) = 0"
  by (induction n) auto

lemma byte_lt: "uint (c :: 8 word) < 256"
  using uint_lt2p [of c] by simp

lemma or_byte:
  fixes x :: mpdigit and c :: "8 word"
  assumes "i \<in> {0, 8, 16, 24}" "uint x < 2 ^ i \<or> uint x mod 2 ^ (i + 8) = 0"
  shows "uint (x OR push_bit i (ucast c)) = uint x + 2 ^ i * uint c"
proof -
  have u: "uint (push_bit i (ucast c :: mpdigit)) = 2 ^ i * uint c"
  proof -
    have "(2 :: int) ^ i \<le> 2 ^ 24"
      using assms(1) by (intro power_increasing) auto
    then have "uint c * 2 ^ i \<le> 255 * 2 ^ 24"
      using byte_lt [of c] by (intro mult_mono) auto
    then have "uint c * 2 ^ i < 4294967296"
      by simp
    moreover have "uint (ucast c :: mpdigit) = uint c"
      using byte_lt [of c] by (simp add: unsigned_ucast_eq take_bit_eq_mod)
    ultimately show ?thesis
      by (simp add: uint_push mult.commute)
  qed
  have "uint (x OR push_bit i (ucast c)) = uint x OR uint (push_bit i (ucast c :: mpdigit))"
    by (rule unsigned_or_eq)
  also have "\<dots> = uint x + uint (push_bit i (ucast c :: mpdigit))"
  proof (rule disjunctive_add [symmetric])
    fix n
    have "\<not> bit (uint x) n" if "i \<le> n" "n < i + 8"
    proof (cases "uint x < 2 ^ i")
      case True
      then have "take_bit i (uint x) = uint x"
        by (simp add: take_bit_int_eq_self_iff)
      then show ?thesis
        using that(1) by (metis bit_take_bit_iff not_less)
    next
      case False
      then have "take_bit (i + 8) (uint x) = 0"
        using assms(2) by (simp add: take_bit_eq_mod)
      then show ?thesis
        using that(2) by (metis bit_0_eq bit_take_bit_iff bot_apply bot_bool_def)
    qed
    moreover have "\<not> bit (uint (push_bit i (ucast c :: mpdigit))) n" if "n < i \<or> i + 8 \<le> n"
      using that bit_imp_le_length [of c "n - i"] by (auto simp: bit_simps)
    ultimately show "\<not> bit (uint x) n \<or> \<not> bit (uint (push_bit i (ucast c :: mpdigit))) n"
      by (meson linorder_not_less)
  qed
  finally show ?thesis
    by (simp add: u)
qed

lemma letomp_loop_val:
  "\<lbrakk>i \<in> {0, 8, 16, 24}; uint x < 2 ^ i\<rbrakk> \<Longrightarrow> mpval (letomp_loop i x cs) = uint x + 2 ^ i * bval cs"
proof (induction cs arbitrary: i x)
  case Nil
  have "uint x = 0" if "i = 0"
    using Nil.prems(2) that uint_ge_0 [of x] by (simp only: power_0)
  then show ?case
    by (cases "i = 0") simp_all
next
  case (Cons c cs)
  define y where "y = x OR push_bit i (ucast c)"
  have y: "uint y = uint x + 2 ^ i * uint c"
    unfolding y_def using Cons.prems by (intro or_byte) auto
  have lt: "uint y < 2 ^ (i + 8)"
  proof -
    have "2 ^ i * uint c \<le> 2 ^ i * 255"
      using byte_lt [of c] by (intro mult_left_mono) auto
    moreover have "(2 :: int) ^ (i + 8) = 2 ^ i * 256"
      by (simp add: power_add)
    ultimately show ?thesis
      using y Cons.prems(2) by linarith
  qed
  show ?case
  proof (cases "i = 24")
    case True
    then have "letomp_loop i x (c # cs) = y # letomp_loop 0 0 cs"
      by (simp add: Let_def Dbits_def y_def)
    then show ?thesis
      using Cons.IH [of 0 0] y True by (simp add: algebra_simps)
  next
    case False
    then have "i + 8 \<in> {0, 8, 16, 24}"
      using Cons.prems(1) by auto
    then have "mpval (letomp_loop (i + 8) y cs) = uint y + 2 ^ (i + 8) * bval cs"
      using lt by (rule Cons.IH)
    then show ?thesis
      using False y by (simp add: Let_def Dbits_def y_def [symmetric] algebra_simps power_add)
  qed
qed

lemma length_letomp_loop: "i \<in> {0, 8, 16, 24} \<Longrightarrow> length (letomp_loop i x cs) = (i + 8 * length cs + 31) div 32"
proof (induction cs arbitrary: i x)
  case (Cons c cs)
  show ?case
  proof (cases "i = 24")
    case True
    then show ?thesis
      using Cons.IH [of 0 0] by (simp add: Let_def Dbits_def)
  next
    case False
    then have "i + 8 \<in> {0, 8, 16, 24}"
      using Cons.prems(1) by auto
    then show ?thesis
      using Cons.IH [of "i + 8"] False by (simp add: Let_def Dbits_def add.commute)
  qed
qed auto

lemma length_betomp_loop:
  "\<lbrakk>k < 4; length cs mod 4 = (k + 1) mod 4\<rbrakk> \<Longrightarrow> length (betomp_loop (8 * k) x cs) = (length cs + 3) div 4"
proof (induction cs arbitrary: k x)
  case (Cons c cs)
  show ?case
  proof (cases k)
    case 0
    then have "length cs mod 4 = 0"
      using Cons.prems(2) by simp presburger
    then show ?thesis
      using 0 Cons.IH [of 3] by (simp add: Let_def Dbits_def) presburger
  next
    case (Suc k')
    then have "length cs mod 4 = (k' + 1) mod 4"
      using Cons.prems(2) by simp presburger
    moreover have "(length cs + 3) div 4 = (length cs + 4) div 4"
      using calculation Suc Cons.prems(1) by presburger
    ultimately show ?thesis
      using Suc Cons.IH [of k'] Cons.prems(1) by (simp add: Let_def)
  qed
qed simp

lemma betomp_loop_val:
  "\<lbrakk>k < 4; length cs mod 4 = (k + 1) mod 4; cs = [] \<longrightarrow> uint x = 0; uint x mod 2 ^ (8 * k + 8) = 0\<rbrakk>
   \<Longrightarrow> mpval (rev (betomp_loop (8 * k) x cs)) * 2 ^ (8 * k + 8) = bval (rev cs) * 2 ^ (8 * k + 8) + 2 ^ (8 * length cs) * uint x"
proof (induction cs arbitrary: k x)
  case (Cons c cs)
  define y where "y = x OR push_bit (8 * k) (ucast c)"
  have k: "8 * k \<in> {0, 8, 16, 24}"
    using Cons.prems(1) by (auto simp: numeral_eq_Suc less_Suc_eq)
  have y: "uint y = uint x + 2 ^ (8 * k) * uint c"
    unfolding y_def using Cons.prems(4) k by (intro or_byte) auto
  have app: "bval (rev (c # cs)) = bval (rev cs) + 2 ^ (8 * length cs) * uint c"
    by (simp add: bval_append)
  show ?case
  proof (cases k)
    case 0
    have m0: "length cs mod 4 = 0"
      using Cons.prems(2) 0 by simp presburger
    define ds where "ds = betomp_loop 24 0 cs"
    have "mpval (rev ds) * 2 ^ (8 * 3 + 8) = bval (rev cs) * 2 ^ (8 * 3 + 8)"
      using Cons.IH [of 3 0] m0 by (simp add: ds_def)
    then have ds: "mpval (rev ds) = bval (rev cs)"
      by simp
    have "length ds = (length cs + 3) div 4"
      using length_betomp_loop [of 3 cs 0] m0 by (simp add: ds_def)
    then have "32 * length ds = 8 * length cs"
      using m0 by presburger
    then have "mpval (rev (y # ds)) = mpval (rev ds) + 2 ^ (8 * length cs) * uint y"
      by (simp only: rev.simps mpval_append length_rev) simp
    moreover have "betomp_loop (8 * k) x (c # cs) = y # ds"
      using 0 by (simp add: Let_def Dbits_def ds_def y_def)
    ultimately show ?thesis
      using ds y 0 unfolding app by (simp add: algebra_simps power_add del: rev.simps)
  next
    case (Suc k')
    have m: "length cs mod 4 = (k' + 1) mod 4"
      using Cons.prems(2) Suc by simp presburger
    have ne: "cs \<noteq> []"
      using m Suc Cons.prems(1) by auto
    have "uint y mod 2 ^ (8 * k' + 8) = 0"
    proof -
      have "(2 :: int) ^ (8 * k' + 8) dvd 2 ^ (8 * k + 8)"
        using Suc by (intro le_imp_power_dvd) simp
      then have "2 ^ (8 * k' + 8) dvd uint x"
        using Cons.prems(4) by (meson dvd_trans mod_0_imp_dvd)
      moreover have "(2 :: int) ^ (8 * k' + 8) dvd 2 ^ (8 * k) * uint c"
        using Suc by (simp add: add.commute)
      ultimately show ?thesis
        unfolding y by auto
    qed
    then have "mpval (rev (betomp_loop (8 * k') y cs)) * 2 ^ (8 * k' + 8)
        = bval (rev cs) * 2 ^ (8 * k' + 8) + 2 ^ (8 * length cs) * uint y"
      using Cons.IH [of k' y] Cons.prems(1) Suc m ne by auto
    moreover have "betomp_loop (8 * k) x (c # cs) = betomp_loop (8 * k') y cs"
      using Suc by (simp add: Let_def y_def)
    moreover have "(2 :: int) ^ (8 * k + 8) = 2 ^ (8 * k' + 8) * 256" "(2 :: int) ^ (8 * k' + 8) = 2 ^ (8 * k)"
      "(2 :: int) ^ (8 * length (c # cs)) = 2 ^ (8 * length cs) * 256"
      using Suc by (simp_all add: power_add)
    ultimately show ?thesis
      unfolding app y by (simp add: algebra_simps)
  qed
qed simp

lemma skip_zeros_val: "bval (rev (skip_zeros cs)) = bval (rev cs)"
  by (induction cs rule: skip_zeros.induct) (simp_all add: bval_append)


section \<open>Writing bytes\<close>

lemma put_bytes_val: "length (put_bytes k x) = k \<and> bval (put_bytes k x) = uint x mod 2 ^ (8 * k)"
proof (induction k arbitrary: x)
  case (Suc k)
  have c: "uint (ucast x :: 8 word) = uint x mod 256"
    by (simp add: unsigned_ucast_eq take_bit_eq_mod)
  have d: "uint (drop_bit 8 x) = uint x div 256"
    using uint_drop [of 8 x] by simp
  have "bval (put_bytes (Suc k) x) = uint x mod 256 + 256 * (uint x div 256 mod 2 ^ (8 * k))"
    using Suc [of "drop_bit 8 x"] c d by simp
  also have "\<dots> = uint x mod (256 * 2 ^ (8 * k))"
    using zmod_zmult2_eq [of "2 ^ (8 * k)" "uint x" 256] by simp
  also have "256 * 2 ^ (8 * k) = (2 :: int) ^ (8 * Suc k)"
    by (simp add: power_add)
  finally show ?case
    using Suc [of "drop_bit 8 x"] by simp
qed simp

lemma mpval_mod: "(uint x + 2 ^ 32 * v) mod 2 ^ (32 + m) = uint (x :: mpdigit) + 2 ^ 32 * (v mod 2 ^ m)"
proof -
  have "(uint x + 2 ^ 32 * v) mod (2 ^ 32 * 2 ^ m) = 2 ^ 32 * ((uint x + 2 ^ 32 * v) div 2 ^ 32 mod 2 ^ m) + (uint x + 2 ^ 32 * v) mod 2 ^ 32"
    by (rule zmod_zmult2_eq) simp
  moreover have "(uint x + 2 ^ 32 * v) div 2 ^ 32 = v" "(uint x + 2 ^ 32 * v) mod 2 ^ 32 = uint x"
    using digit_lt [of x] by simp_all
  ultimately show ?thesis
    by (simp add: power_add)
qed

lemma put_digits_val:
  "n \<le> 4 * length ds \<Longrightarrow> length (put_digits ds n) = n \<and> bval (put_digits ds n) = mpval ds mod 2 ^ (8 * n)"
proof (induction ds n rule: put_digits.induct)
  case (1 x ds n)
  show ?case
  proof (cases "n \<ge> 4")
    case True
    define m where "m = n - 4"
    have n: "n = 4 + m"
      using True by (simp add: m_def)
    have b: "length (put_bytes 4 x) = 4" "bval (put_bytes 4 x) = uint x"
      using put_bytes_val [of 4 x] digit_lt [of x] by simp_all
    have "put_digits (x # ds) n = put_bytes 4 x @ put_digits ds m"
      using True by (simp add: m_def)
    moreover have "length (put_digits ds m) = m \<and> bval (put_digits ds m) = mpval ds mod 2 ^ (8 * m)"
      using 1 True by (simp add: m_def)
    moreover have "2 ^ (8 * n) = (2 :: int) ^ (32 + 8 * m)"
      by (simp add: n)
    ultimately show ?thesis
      using b mpval_mod [of x "mpval ds" "8 * m"] by (simp add: bval_append n)
  next
    case False
    then have "8 * n \<le> 32"
      by simp
    then have "uint x mod 2 ^ (8 * n) = mpval (x # ds) mod 2 ^ (8 * n)"
      using mod_digit [of "8 * n" "uint x" "mpval ds"] by simp
    then show ?thesis
      using False put_bytes_val [of n x] by auto
  qed
qed simp

lemma mptolel_val:
  assumes "mpwf b"
  shows "bval (mptolel b n) = mmag b mod 2 ^ (8 * n)" "length (mptolel b n) = n"
proof -
  define k where "k = (if mtop b * 4 < n then mtop b * 4 else n)"
  have l: "length (vec b) = mtop b"
    using assms by (simp add: mpwf_def)
  have k: "k \<le> 4 * length (vec b)" "k \<le> n"
    using l by (auto simp: k_def)
  have p: "length (put_digits (vec b) k) = k" "bval (put_digits (vec b) k) = mmag b mod 2 ^ (8 * k)"
    using put_digits_val [OF k(1)] by (simp_all add: mmag_def)
  have "mmag b mod 2 ^ (8 * k) = mmag b mod 2 ^ (8 * n)"
  proof (cases "mtop b * 4 < n")
    case True
    have "mmag b < 2 ^ (8 * k)"
      using mpval_take_bound [of "mtop b" "digs b"] True by (simp add: k_def mmag_def mult.assoc)
    moreover have "(2 :: int) ^ (8 * k) \<le> 2 ^ (8 * n)"
      using k(2) by (intro power_increasing) auto
    ultimately have "mmag b < 2 ^ (8 * k)" "mmag b < 2 ^ (8 * n)"
      by linarith+
    then show ?thesis
      by simp
  next
    case False
    then show ?thesis
      by (simp add: k_def)
  qed
  then show "bval (mptolel b n) = mmag b mod 2 ^ (8 * n)"
    using p by (simp add: mptolel_def Let_def k_def [symmetric] bval_append)
  show "length (mptolel b n) = n"
    using p k(2) by (simp add: mptolel_def Let_def k_def [symmetric])
qed

lemma mptober_rev: "mptober b n = rev (mptolel b n)"
  by (simp add: mptober_def mptolel_def Let_def)

lemma letomp_val:
  assumes "mpwf b"
  shows "mpwf (letomp cs b)" "mmag (letomp cs b) = bval cs" "msign (letomp cs b) = msign b"
proof -
  define v where "v = letomp_loop 0 0 cs"
  have v: "mpval v = bval cs" "length v = DIGITS (8 * length cs)"
    using letomp_loop_val [of 0 0 cs] length_letomp_loop [of 0 0 cs] by (simp_all add: v_def DIGITS_def Dbits_def add.commute)
  note f = mpbits_fields [OF assms, of "8 * length cs"]
  have "length v \<le> msize (mpbits b (8 * length cs))"
    using f(4) v(2) by simp
  note w = mpwf_write [OF f(1) this]
  show "mpwf (letomp cs b)" "mmag (letomp cs b) = bval cs" "msign (letomp cs b) = msign b"
    using w f v by (auto simp: letomp_def Let_def v_def [symmetric] mmag_def mpwf_def)
qed

lemma betomp_val:
  assumes "mpwf b"
  shows "mpwf (betomp cs b)" "mmag (betomp cs b) = bval (rev cs)" "msign (betomp cs b) = msign b"
proof -
  define ds n where "ds = skip_zeros cs" and "n = length ds"
  define k where "k = (n - 1) mod 4"
  have sh: "(n - 1) * 8 mod Dbits = 8 * k"
    using mult_mod_right [of 8 "n - 1" 4] by (simp add: k_def Dbits_def mult.commute)
  define v where "v = rev (betomp_loop (8 * k) 0 ds)"
  have v: "mpval v = bval (rev cs)" "length v = DIGITS (n * 8)"
  proof -
    have "mpval v = bval (rev ds) \<and> length v = (n + 3) div 4"
    proof (cases "n = 0")
      case True
      then show ?thesis
        by (simp add: v_def n_def)
    next
      case False
      then obtain m where "n = Suc m"
        using not0_implies_Suc by blast
      then have "k < 4" "length ds mod 4 = (k + 1) mod 4"
        by (simp_all add: k_def n_def [symmetric] mod_Suc_eq)
      then show ?thesis
        using betomp_loop_val [of k ds 0] length_betomp_loop [of k ds 0] False by (simp add: v_def n_def)
    qed
    then show "mpval v = bval (rev cs)" "length v = DIGITS (n * 8)"
      using skip_zeros_val [of cs] by (simp_all add: ds_def DIGITS_def Dbits_def)
  qed
  note f = mpbits_fields [OF assms, of "n * 8"]
  define c where "c = (mpbits b (n * 8))\<lparr>mtop := DIGITS (n * 8)\<rparr>"
  have c: "mpwf c" "msize c = msize (mpbits b (n * 8))" "mtop c = DIGITS (n * 8)" "msign c = msign b"
    using f by (auto simp: c_def mpwf_def)
  have "length v \<le> msize c"
    using f(4) c(2) v(2) by simp
  note w = mpwf_write [OF c(1) this]
  have e: "betomp cs b = mpwrite v c"
    unfolding betomp_def Let_def ds_def [symmetric] n_def [symmetric] sh v_def c_def ..
  show "mpwf (betomp cs b)" "mmag (betomp cs b) = bval (rev cs)" "msign (betomp cs b) = msign b"
    unfolding e using w c v by (auto simp: mmag_def)
qed

text \<open>
  Claim C29 (roundtrip).  A number written to \<open>n\<close> bytes with \<open>mptober\<close> or \<open>mptolel\<close> and read back with \<open>betomp\<close> or \<open>letomp\<close>
  has the same magnitude when \<open>n\<close> bytes are enough, and the magnitude modulo 256 to the power \<open>n\<close> otherwise.
\<close>

theorem mp_bytes_roundtrip:
  assumes "mpwf b" and "mpwf c"
  shows "length (mptober b n) = n \<and> mmag (betomp (mptober b n) c) = mmag b mod 2 ^ (8 * n)
    \<and> length (mptolel b n) = n \<and> mmag (letomp (mptolel b n) c) = mmag b mod 2 ^ (8 * n)
    \<and> (mmag b < 2 ^ (8 * n) \<longrightarrow> mmag (betomp (mptober b n) c) = mmag b \<and> mmag (letomp (mptolel b n) c) = mmag b)"
  using mptolel_val [OF assms(1)] letomp_val(2) [OF assms(2)] betomp_val(2) [OF assms(2)] by (simp add: mptober_rev)

theorem mp_bytes_roundtrip_witness:
  "mmag (betomp (mptober (uitomp 0x12345678 (mpnew 0)) 5) (mpnew 0)) = 0x12345678"
proof -
  have b: "mpwf (uitomp 0x12345678 (mpnew 0))" "mmag (uitomp 0x12345678 (mpnew 0)) = 0x12345678"
    by (simp_all add: uitomp_def mpassign_def mpzero_def mpnew_def mpbits_def mpwrite_def mpwf_def mmag_def
        DIGITS_def Dbits_def mpmindigits_def zeros_def Let_def)
  show ?thesis
    using mp_bytes_roundtrip [OF b(1) mpnew_wf [of 0], of 5] b(2) by simp
qed


section \<open>mptobe\<close>

lemma be_bytes_val: "bval (rev (be_bytes (rev ds))) = mpval ds" "length (be_bytes ds) = 4 * length ds"
proof -
  have d: "be_bytes (a @ [x]) = be_bytes a @ [ucast (drop_bit 24 x), ucast (drop_bit 16 x), ucast (drop_bit 8 x), ucast x]"
    for a and x :: mpdigit
    by (induction a) auto
  have p: "[ucast x, ucast (drop_bit 8 x), ucast (drop_bit 16 x), ucast (drop_bit 24 x)] = put_bytes 4 x" for x :: mpdigit
    by (simp add: numeral_eq_Suc)
  show "bval (rev (be_bytes (rev ds))) = mpval ds"
  proof (induction ds)
    case (Cons x ds)
    have "rev (be_bytes (rev (x # ds))) = put_bytes 4 x @ rev (be_bytes (rev ds))"
      unfolding p [symmetric] by (simp add: d)
    then show ?case
      using Cons put_bytes_val [of 4 x] digit_lt [of x] by (simp add: bval_append)
  qed simp
  show "length (be_bytes ds) = 4 * length ds"
    by (induction ds) auto
qed

lemma emit_run: "length p + length cs \<le> n \<Longrightarrow> emit n False p cs = Some (p @ cs)"
  by (induction cs arbitrary: p) auto

lemma emit_suppress:
  "length cs \<le> n \<Longrightarrow> emit n True [] cs = Some (dropWhile (\<lambda>c. c = 0) cs)"
proof (induction cs)
  case (Cons c cs)
  then show ?case
    using emit_run [of "[c]" cs n] by auto
qed simp

lemma bval_dropWhile: "bval (rev (dropWhile (\<lambda>c. c = 0) cs)) = bval (rev cs)"
  by (induction cs) (auto simp: bval_append)

text \<open>
  Property (roundtrip).  \<open>mptobe\<close> into the buffer it allocates, or any that is as large, succeeds; its bytes have no leading
  zero unless the number is zero, and \<open>betomp\<close> reads the magnitude back from them.
\<close>

theorem mptobe_betomp_roundtrip:
  assumes "mpwf b" and "mpwf c" and "(mtop b + 1) * 4 \<le> n"
  shows "\<exists>p. mptobe b n = Some p \<and> mmag (betomp p c) = mmag b \<and> (hd p = 0 \<longrightarrow> p = [0])"
proof -
  define q where "q = dropWhile (\<lambda>c. c = 0) (be_bytes (rev (vec b)))"
  have l: "length (vec b) = mtop b"
    using assms(1) by (simp add: mpwf_def)
  have "emit n True [] (be_bytes (rev (vec b))) = Some q"
    unfolding q_def using assms(3) l by (intro emit_suppress) (simp add: be_bytes_val)
  moreover have q: "bval (rev q) = mmag b"
    by (simp add: q_def bval_dropWhile be_bytes_val mmag_def)
  moreover have "q \<noteq> [] \<Longrightarrow> hd q \<noteq> 0"
    using hd_dropWhile [of "\<lambda>c. c = 0" "be_bytes (rev (vec b))"] by (simp add: q_def)
  moreover have "mtop b = 0 \<Longrightarrow> mmag b = 0"
    by (simp add: mmag_def)
  ultimately show ?thesis
    using betomp_val(2) [OF assms(2)] assms(3)
    by (cases "mtop b = 0 \<or> q = []") (auto simp: mptobe_def)
qed

theorem mptobe_betomp_roundtrip_witness:
  "\<exists>p. mptobe mpone 8 = Some p \<and> mmag (betomp p (mpnew 0)) = 1"
proof -
  have "mpwf mpone" "mmag mpone = 1"
    by (simp_all add: mpwf_def mmag_def mpone_def)
  then show ?thesis
    using mptobe_betomp_roundtrip [of mpone "mpnew 0" 8] mpnew_wf by (auto simp: mpone_def)
qed

text \<open>
  Property (error).  Numbers read from bytes are not normalized: \<open>betomp\<close> of one zero byte and \<open>letomp\<close> of a string that
  ends in zeros leave \<open>top\<close> above the last digit that is not zero, and \<open>mpcmp\<close>, which compares \<open>top\<close> first,
  takes them to be greater than the number they are equal to.
\<close>

theorem from_bytes_denormal:
  "mval (betomp [0] (mpnew 0)) = mval mpzero \<and> mpcmp (betomp [0] (mpnew 0)) mpzero > 0
    \<and> mval (letomp [1, 0, 0, 0, 0] (mpnew 0)) = mval mpone \<and> mpcmp (letomp [1, 0, 0, 0, 0] (mpnew 0)) mpone > 0"
  by (simp add: betomp_def letomp_def mpnew_def mpbits_def mpwrite_def mval_def mmag_def mpzero_def mpone_def mpcmp_def
      mpmagcmp_def DIGITS_def Dbits_def mpmindigits_def zeros_def Let_def)

text \<open>
  Property (error).  \<open>mptov\<close> shifts a digit before it widens it, so the second digit is not moved up: the number 2^32 becomes
  1, where \<open>mptouv\<close>, which casts first, gives 2^32.
\<close>

theorem mptov_loses_high_digit:
  "let b = uvtomp 0x100000000 (mpnew 0) in
   mval b = 0x100000000 \<and> mptouv b = Some 0x100000000 \<and> mptov b = Some 1"
  by code_simp

text \<open>
  Property (error).  \<open>mptoui\<close> reads the first digit also when \<open>top\<close> is 0, and \<open>mpright\<close> leaves the old digits there: 5 shifted
  right by 32 is zero and \<open>mptoui\<close> gives 5.
\<close>

theorem mptoui_stale_digit:
  "let w = mpright 0 32 0 (\<lambda>_. uitomp 5 (mpnew 0)) 0 in mval w = 0 \<and> mptoui w = 5"
  by (simp add: mpright_def mpshift_def mpright_shift_def uitomp_def mptoui_def mpassign_def mpzero_def mpnew_def mpbits_def
      mpwrite_def mval_def mmag_def DIGITS_def Dbits_def mpmindigits_def zeros_def Let_def)

end
