(* ===== verification/Mp_Div.thy ===== *)
theory Mp_Div
  imports Mp_Conv
begin

text \<open>
  Division of multiple precision numbers: \<^verbatim>\<open>mpdigdiv.c\<close>, \<^verbatim>\<open>mpdiv.c\<close> and \<^verbatim>\<open>mpmod.c\<close> of \<^verbatim>\<open>src/libmp/port\<close>.  The
  new numbers \<open>u\<close> and \<open>v\<close> of \<open>mpdiv\<close> are local values; the quotient and the remainder are addresses in the
  store, which may be those of the operands.  A call of \<open>sysfatal\<close>, a failed assertion and a loop that
  never ends are values of \<open>mperr\<close>.
\<close>

section \<open>Division of two digits by one\<close>

text \<open>The loop over \<open>i\<close> from \<open>Dbits-1\<close> down; the first argument after the divisor is \<open>i+1\<close>.\<close>

fun digdiv_loop :: "mpdigit \<Rightarrow> nat \<Rightarrow> mpdigit \<Rightarrow> mpdigit \<Rightarrow> mpdigit \<Rightarrow> mpdigit \<Rightarrow> mpdigit \<times> mpdigit" where
  "digdiv_loop divisor 0 x hi lo q = (q, lo)"
| "digdiv_loop divisor (Suc i) x hi lo q =
     (if hi > 0 then
        let x = drop_bit 1 x; y = push_bit i divisor in
        if x > hi \<or> x = hi \<and> y > lo then digdiv_loop divisor i x hi lo q
        else
          let hi = (if y > lo then hi - 1 else hi)
          in digdiv_loop divisor i x (hi - x) (lo - y) (q OR push_bit i 1)
      else (q, lo))"

definition mpdigdiv :: "mpdigit \<Rightarrow> mpdigit \<Rightarrow> mpdigit \<Rightarrow> mpdigit" where
  "mpdigdiv lo hi divisor =
     (if hi \<ge> divisor \<or> divisor = 0 then NOT 0
      else case digdiv_loop divisor Dbits divisor hi lo 0 of (q, lo) \<Rightarrow> q + lo div divisor)"

section \<open>Knuth's division\<close>

datatype mperr = Divide_by_zero | Negative | Failed_assert | Forever

text \<open>\<open>for(s = 0; (qd & mpdighi) == 0; s++) qd <<= 1\<close>: after 32 rounds \<open>qd\<close> is zero and the loop never ends.\<close>

definition mpdighi :: mpdigit where
  "mpdighi = push_bit (Dbits - 1) 1"

fun norm_shift :: "nat \<Rightarrow> mpdigit \<Rightarrow> nat option" where
  "norm_shift 0 qd = None"
| "norm_shift (Suc n) qd =
     (if qd AND mpdighi = 0 then map_option Suc (norm_shift n (push_bit 1 qd)) else Some 0)"

text \<open>D3a: \<open>v2\<close> are the two high digits of the divisor, \<open>u3\<close> the three high digits of the dividend.\<close>

function trial_loop :: "mpdigit list \<Rightarrow> mpdigit list \<Rightarrow> mpdigit \<Rightarrow> mpdigit" where
  "trial_loop v2 u3 qd =
     (if qd \<noteq> 0 \<and> mpveccmp (mpvecdigmuladd v2 qd (zeros 3)) u3 > 0 then trial_loop v2 u3 (qd - 1) else qd)"
  by pat_completeness auto
termination
  by (relation "measure (\<lambda>(v2, u3, qd). unat qd)") (auto simp: unat_minus_one unat_gt_0)

text \<open>\<open>putdigs p k w\<close>: the digits \<open>w\<close> written at index \<open>k\<close> of \<open>p\<close>.\<close>

definition putdigs :: "mpdigit list \<Rightarrow> nat \<Rightarrow> mpdigit list \<Rightarrow> mpdigit list" where
  "putdigs p k w = take k p @ w @ drop (k + length w) p"

text \<open>D3 and D3a: the trial digit, from the divisor \<open>v\<close> and the digits \<open>w\<close> of the dividend from \<open>up-vn\<close> to \<open>up\<close>.\<close>

definition trial :: "mpdigit list \<Rightarrow> mpdigit list \<Rightarrow> mpdigit" where
  "trial v w =
     (let vn = length v; qd = mpdigdiv (w ! (vn - 1)) (w ! vn) (v ! (vn - 1)) in
      if vn > 1 then trial_loop (drop (vn - 2) v) (drop (vn - 2) w) qd else qd)"

text \<open>One round of the loop: \<open>j\<close> is \<open>u->top\<close>, \<open>up\<close> points to digit \<open>j-1\<close>.  The sum of D6 has a digit more
  than the difference, stored above \<open>up\<close>.\<close>

definition div_round :: "mpdigit list \<Rightarrow> nat \<Rightarrow> mpdigit list \<Rightarrow> mpdigit \<times> mpdigit list" where
  "div_round v j p =
     (let vn = length v; up = j - 1; k = up - vn;
          qd = trial v (take (vn + 1) (drop k p));
          (w, sign) = mpvecdigmulsub v qd (take (vn + 1) (drop k p));
          p = putdigs p k w;
          (qd, p) = (if sign < 0 then (qd - 1, putdigs p k (mpvecadd (take (vn + 1) (drop k p)) v)) else (qd, p))
      in (qd, p[up := 0]))"

text \<open>The loop gives the digits of the quotient, least significant first, and the digits of \<open>u\<close>.\<close>

fun div_loop :: "mpdigit list \<Rightarrow> nat \<Rightarrow> mpdigit list \<Rightarrow> mpdigit list \<Rightarrow> mpdigit list \<times> mpdigit list" where
  "div_loop v 0 p qs = (qs, p)"
| "div_loop v (Suc n) p qs =
     (let (qd, p) = div_round v (length v + Suc n) p in div_loop v n p (qd # qs))"

text \<open>A number shifted into another object.\<close>

definition mpleft_to :: "mpint \<Rightarrow> nat \<Rightarrow> mpint \<Rightarrow> mpint" where
  "mpleft_to b s r = mpleft 0 (int s) 1 ((\<lambda>_. b)(1 := r)) 1"

definition mpright_to :: "mpint \<Rightarrow> nat \<Rightarrow> mpint \<Rightarrow> mpint" where
  "mpright_to b s r = mpright 0 (int s) 1 ((\<lambda>_. b)(1 := r)) 1"

text \<open>D1 and D1a: the shifted copies of the dividend and the divisor.\<close>

definition div_u :: "mpint \<Rightarrow> nat \<Rightarrow> bool \<Rightarrow> mpint" where
  "div_u dividend s keep =
     (let u = mpnew ((mtop dividend + 2) * Dbits + s)
      in if keep then mpassign dividend u else mpleft_to dividend s u)"

definition div_v :: "mpint \<Rightarrow> nat \<Rightarrow> bool \<Rightarrow> mpint" where
  "div_v divisor s keep = (if keep then divisor else mpleft_to divisor s (mpnew (mtop divisor * Dbits)))"

definition div_grow :: "mpint \<Rightarrow> mpint \<Rightarrow> mpint" where
  "div_grow u v =
     (if digs u ! (mtop u - 1) \<ge> digs v ! (mtop v - 1)
      then u\<lparr>digs := (digs u)[mtop u := 0], mtop := mtop u + 1\<rparr> else u)"

text \<open>The quotient and the remainder are addresses, or \<open>None\<close> for \<open>nil\<close>.\<close>

definition mpdiv :: "nat \<Rightarrow> nat \<Rightarrow> nat option \<Rightarrow> nat option \<Rightarrow> mpstore \<Rightarrow> mperr + mpstore" where
  "mpdiv dividend divisor quo remainder st =
     (if mtop (st divisor) = 0 then Inl Divide_by_zero
      else if mpmagcmp (st dividend) (st divisor) < 0 then
        let st = (case remainder of None \<Rightarrow> st | Some r \<Rightarrow> mpassign_at dividend r st)
        in Inr (case quo of None \<Rightarrow> st | Some q \<Rightarrow> st(q := mpassign mpzero (st q)))
      else
        (case norm_shift Dbits (digs (st divisor) ! (mtop (st divisor) - 1)) of
           None \<Rightarrow> Inl Forever
         | Some s \<Rightarrow>
             let keep = (s = 0 \<and> quo \<noteq> Some divisor \<and> remainder \<noteq> Some divisor);
                 v = div_v (st divisor) s keep;
                 u = div_grow (div_u (st dividend) s keep) v;
                 n = mtop u - mtop v;
                 st = (case quo of None \<Rightarrow> st | Some q \<Rightarrow> st(q := (mpbits (st q) (n * Dbits))\<lparr>mtop := n\<rparr>));
                 (qs, p) = div_loop (vec v) n (digs u) [];
                 u = u\<lparr>digs := p, mtop := mtop v\<rparr>;
                 sq = (case quo of
                     None \<Rightarrow> Some st
                   | Some q \<Rightarrow>
                       (case mpnorm (mpwrite qs (st q)) of
                          None \<Rightarrow> None
                        | Some b \<Rightarrow>
                            let st = st(q := b) in
                            Some (if msign (st dividend) \<noteq> msign (st divisor) then st(q := (st q)\<lparr>msign := -1\<rparr>) else st)))
             in (case sq of
                   None \<Rightarrow> Inl Failed_assert
                 | Some st \<Rightarrow>
                     (case remainder of
                        None \<Rightarrow> Inr st
                      | Some r \<Rightarrow>
                          let b = mpright_to u s (st r); st = st(r := b)
                          in Inr (st(r := (st r)\<lparr>msign := msign (st dividend)\<rparr>))))))"

definition mpmod :: "nat \<Rightarrow> nat \<Rightarrow> nat \<Rightarrow> mpstore \<Rightarrow> mperr + mpstore" where
  "mpmod b m remainder st =
     (case mpdiv b m None (Some remainder) st of
        Inl e \<Rightarrow> Inl e
      | Inr st \<Rightarrow>
          if msign (st remainder) < 0 then
            (case mpadd m remainder remainder st of None \<Rightarrow> Inl Failed_assert | Some st \<Rightarrow> Inr st)
          else Inr st)"

section \<open>Correctness of mpdigdiv\<close>

lemma uint_or_bit:
  fixes q :: mpdigit
  assumes "uint q mod 2 ^ Suc i = 0" "i < 32"
  shows "uint (q OR push_bit i 1) = uint q + 2 ^ i"
proof -
  obtain k where k: "uint q = push_bit (Suc i) k"
    using assms(1) by (auto simp: push_bit_eq_mult mult.commute elim!: dvdE)
  have p: "uint (push_bit i (1 :: mpdigit)) = 2 ^ i"
    unfolding unsigned_push_bit_eq using assms(2) by (simp add: take_bit_push_bit push_bit_eq_mult)
  have "uint (q OR push_bit i 1) = uint q OR 2 ^ i"
    unfolding unsigned_or_eq p ..
  also have "\<dots> = uint q + 2 ^ i"
    unfolding k by (rule disjunctive_add [symmetric]) (auto simp: bit_exp_iff bit_push_bit_iff simp del: push_bit_Suc)
  finally show ?thesis .
qed

lemma int_div_less_iff: "0 < d \<Longrightarrow> m div d < k \<longleftrightarrow> m < k * (d :: int)"
proof -
  assume d: "0 < d"
  define q where "q = m div d"
  have m: "m = d * q + m mod d" "0 \<le> m mod d" "m mod d < d"
    using d by (simp_all add: q_def)
  have "k * d \<le> m" if "k \<le> q"
    using mult_left_mono [OF that, of d] m d by (simp only: mult.commute [of k]) linarith
  moreover have "m < k * d" if "q + 1 \<le> k"
    using mult_left_mono [OF that, of d] m d by (simp only: mult.commute [of k] distrib_left mult_1_right) linarith
  ultimately show ?thesis
    unfolding q_def [symmetric] by (meson add1_zle_eq not_le)
qed

lemma digdiv_loop_val:
  fixes divisor :: mpdigit
  assumes d: "0 < divisor"
  shows "\<lbrakk>n \<le> 32; x = drop_bit (32 - n) divisor; 4294967296 * uint hi + uint lo < uint divisor * 2 ^ n; uint q mod 2 ^ n = 0;
      digdiv_loop divisor n x hi lo q = (q', lo')\<rbrakk>
    \<Longrightarrow> uint q' + uint lo' div uint divisor = uint q + (4294967296 * uint hi + uint lo) div uint divisor"
proof (induction n arbitrary: x hi lo q)
  case 0
  then have "4294967296 * uint hi < 4294967296"
    using digit_lt [of divisor] uint_ge_0 [of lo] unfolding power_0 mult_1_right by linarith
  then have "uint hi = 0"
    using uint_ge_0 [of hi] by linarith
  then show ?case
    using 0 by simp
next
  case (Suc i)
  have dpos: "0 < uint divisor"
    using d by (simp add: word_less_def)
  show ?case
  proof (cases "hi > 0")
    case False
    then have "hi = 0"
      by (simp add: word_gt_0)
    then show ?thesis
      using Suc.prems(5) by simp
  next
    case True
    define x1 y where "x1 = drop_bit 1 x" and "y = push_bit i divisor"
    have x1: "x1 = drop_bit (32 - i) divisor"
      using Suc.prems(1,2) by (simp add: x1_def Suc_diff_le flip: Suc_diff_Suc)
    have xy: "4294967296 * uint x1 + uint y = 2 ^ i * uint divisor"
      using word_shl_split [of i divisor] Suc.prems(1) by (simp add: x1 y_def)
    have q0: "uint q mod 2 ^ i = 0"
      using Suc.prems(4) by (auto simp: mod_0_imp_dvd intro: dvd_trans [of _ "2 ^ Suc i"])
    have lt: "4294967296 * uint hi + uint lo < 2 * (2 ^ i * uint divisor)"
      using Suc.prems(3) by (simp add: mult.commute)
    have i: "i \<le> 32" "i < 32"
      using Suc.prems(1) by simp_all
    note b = digit_lt [of y] digit_lt [of lo] uint_ge_0 [of y] uint_ge_0 [of lo]
    show ?thesis
    proof (cases "x1 > hi \<or> x1 = hi \<and> y > lo")
      case c: True
      have e: "digdiv_loop divisor i x1 hi lo q = (q', lo')"
        using Suc.prems(5) True c by (simp only: digdiv_loop.simps Let_def x1_def [symmetric] y_def [symmetric] if_True)
      have "4294967296 * uint hi + uint lo < 4294967296 * uint x1 + uint y"
        using c by (auto simp: word_less_def) (use b in linarith)
      then show ?thesis
        using Suc.IH [OF i(1) x1 _ q0 e] xy by (simp add: mult.commute)
    next
      case c: False
      define h where "h = (if y > lo then hi - 1 else hi)"
      have e: "digdiv_loop divisor i x1 (h - x1) (lo - y) (q OR push_bit i 1) = (q', lo')"
        using Suc.prems(5) True c by (simp only: digdiv_loop.simps Let_def x1_def [symmetric] y_def [symmetric] h_def [symmetric] if_True if_False)
      have hi0: "0 < uint hi"
        using True by (simp add: word_less_def)
      have le: "uint x1 \<le> uint hi" "y > lo \<longrightarrow> uint x1 < uint hi"
        using c by (auto simp: word_less_def word_le_def not_less order_le_less word_uint_eq_iff)
      have h: "uint h = uint hi - (if y > lo then 1 else 0)"
        using hi0 by (auto simp: h_def uint_sub_if' word_less_def)
      have hx: "uint (h - x1) = uint h - uint x1"
        using le h by (auto simp: uint_sub_if' word_less_def split: if_splits)
      have ly: "uint (lo - y) = uint lo - uint y + 4294967296 * (if y > lo then 1 else 0)"
        using word_sub_borrow [of lo y] by simp
      have new: "4294967296 * uint (h - x1) + uint (lo - y) = 4294967296 * uint hi + uint lo - 2 ^ i * uint divisor"
        unfolding hx ly h using xy by auto
      have q1: "uint (q OR push_bit i 1) = uint q + 2 ^ i"
        by (rule uint_or_bit [OF Suc.prems(4) i(2)])
      have n1: "uint (q OR push_bit i 1) mod 2 ^ i = 0"
        unfolding q1 using q0 by simp
      have n2: "4294967296 * uint (h - x1) + uint (lo - y) < uint divisor * 2 ^ i"
        unfolding new using lt by (simp add: mult.commute)
      note Suc.IH [OF i(1) x1 n2 n1 e, unfolded new q1]
      moreover have "(4294967296 * uint hi + uint lo - 2 ^ i * uint divisor) div uint divisor
          = (4294967296 * uint hi + uint lo) div uint divisor - 2 ^ i"
        using div_mult_self1 [of "uint divisor" "4294967296 * uint hi + uint lo" "- (2 ^ i)"] dpos by simp
      ultimately show ?thesis
        by simp
    qed
  qed
qed

lemma mpdigdiv_val:
  "uint (mpdigdiv lo hi divisor) =
    (if hi \<ge> divisor \<or> divisor = 0 then 4294967295 else (4294967296 * uint hi + uint lo) div uint divisor)"
proof (cases "hi \<ge> divisor \<or> divisor = 0")
  case True
  then show ?thesis
    by (auto simp: mpdigdiv_def unsigned_minus_1_eq_mask mask_eq_exp_minus_1)
next
  case False
  obtain q' lo' where e: "digdiv_loop divisor Dbits divisor hi lo 0 = (q', lo')"
    by fastforce
  have d: "0 < divisor" "uint hi + 1 \<le> uint divisor"
    using False by (auto simp: word_gt_0 word_le_def not_le)
  have N: "4294967296 * uint hi + uint lo < uint divisor * 2 ^ 32"
    using d(2) digit_lt [of lo] by simp
  have v: "uint q' + uint lo' div uint divisor = (4294967296 * uint hi + uint lo) div uint divisor"
    using digdiv_loop_val [OF d(1) _ _ N, where x = divisor and q = 0 and q' = q' and lo' = lo'] N e by (simp add: Dbits_def)
  have "(4294967296 * uint hi + uint lo) div uint divisor < 4294967296"
    using N d by (intro int_div_less_iff [THEN iffD2]) (auto simp: word_less_def mult.commute)
  then have "uint (q' + lo' div divisor) = uint q' + uint lo' div uint divisor"
    using v by (simp add: uint_plus_if' uint_div)
  then show ?thesis
    using False e v by (simp add: mpdigdiv_def)
qed

lemma mpdighi_bit: "qd AND mpdighi = 0 \<longleftrightarrow> uint qd < 2147483648"
proof -
  have "qd AND mpdighi = 0 \<longleftrightarrow> \<not> bit (uint qd) 31"
  proof -
    have e: "mpdighi = 2 ^ 31"
      by (simp add: mpdighi_def Dbits_def push_bit_eq_mult)
    have "qd AND mpdighi = 0 \<longleftrightarrow> \<not> bit qd 31"
      unfolding e and_exp_eq_0_iff_not_bit ..
    then show ?thesis
      by (simp add: bit_uint_iff)
  qed
  also have "\<dots> \<longleftrightarrow> even (uint qd div 2147483648)"
    by (simp add: bit_iff_odd)
  also have "\<dots> \<longleftrightarrow> uint qd < 2147483648"
  proof -
    have "uint qd div 2147483648 < 2" "0 \<le> uint qd div 2147483648"
      using digit_lt [of qd] by (simp_all add: int_div_less_iff pos_imp_zdiv_nonneg_iff)
    then have "uint qd div 2147483648 = 0 \<or> uint qd div 2147483648 = 1"
      by linarith
    then show ?thesis
      by (auto simp: div_eq_0_iff)
  qed
  finally show ?thesis .
qed

lemma norm_shift_some: "n \<le> 32 \<Longrightarrow> 2 ^ (32 - n) \<le> uint qd \<Longrightarrow> \<exists>s. norm_shift n qd = Some s"
proof (induction n arbitrary: qd)
  case 0
  then show ?case
    using digit_lt [of qd] by simp
next
  case (Suc n)
  show ?case
  proof (cases "qd AND mpdighi = 0")
    case True
    then have "uint (push_bit 1 qd) = 2 * uint qd"
      unfolding uint_push mpdighi_bit by simp
    moreover have "(2 :: int) ^ (32 - n) = 2 * 2 ^ (32 - Suc n)"
      using Suc.prems(1) by (simp add: Suc_diff_Suc flip: power_Suc)
    ultimately show ?thesis
      using Suc.IH [of "push_bit 1 qd"] Suc.prems True by auto
  qed simp
qed

declare trial_loop.simps [simp del]

lemma trial_loop_val:
  assumes "length v2 = 2" "length u3 = 3" "0 < mpval v2"
  shows "uint (trial_loop v2 u3 qd) = min (uint qd) (mpval u3 div mpval v2)"
  using assms
proof (induction v2 u3 qd rule: trial_loop.induct)
  case (1 v2 u3 qd)
  have t: "mpval (mpvecdigmuladd v2 qd (zeros 3)) = uint qd * mpval v2"
    using 1(2) by (simp add: mpvecdigmuladd_val zeros_def)
  have c: "mpveccmp (mpvecdigmuladd v2 qd (zeros 3)) u3 > 0 \<longleftrightarrow> mpval u3 div mpval v2 < uint qd"
    unfolding mpveccmp_sgn t using 1(4) by (auto simp: sgn_if int_div_less_iff)
  have nn: "0 \<le> mpval u3 div mpval v2"
    using 1(4) by (simp add: pos_imp_zdiv_nonneg_iff)
  show ?case
  proof (cases "qd \<noteq> 0 \<and> mpval u3 div mpval v2 < uint qd")
    case True
    then have "0 < uint qd"
      using nn by linarith
    then have "uint (qd - 1) = uint qd - 1"
      by (simp add: uint_sub_if')
    then show ?thesis
      using 1 True c by (subst trial_loop.simps) auto
  next
    case False
    then show ?thesis
      using c nn by (subst trial_loop.simps) auto
  qed
qed

section \<open>The trial digit\<close>

text \<open>\<open>P\<close> is a power of the base, \<open>vl\<close> and \<open>wl\<close> what lies below it in the divisor and the dividend.\<close>

lemma quot_le_high:
  fixes Q P V W vl wl vh wh :: int
  assumes "Q * V \<le> W" "V = vl + P * vh" "W = wl + P * wh" "0 \<le> vl" "0 \<le> wl" "wl < P" "0 \<le> Q"
  shows "Q * vh \<le> wh"
proof -
  have "0 \<le> Q * vl"
    using assms(4,7) by simp
  then have "P * (Q * vh) < P * (wh + 1)"
    using assms(1,6) unfolding assms(2,3) by (simp add: algebra_simps)
  moreover have "0 < P"
    using assms(5,6) by simp
  ultimately have "Q * vh < wh + 1"
    using mult_less_cancel_left_pos by blast
  then show ?thesis
    by simp
qed

lemma trial_upper:
  fixes q Q P V W vl wl vh wh B :: int
  assumes "q * vh \<le> wh" "V = vl + P * vh" "W = wl + P * wh" "0 \<le> wl" "vl < P" "0 < P" "W < (Q + 1) * V"
    and "0 \<le> Q" "Q + 1 \<le> vh"
  shows "q \<le> Q + 1"
proof -
  have "P * (q * vh) \<le> P * wh"
    using assms(1,6) by simp
  also have "\<dots> \<le> W"
    using assms(3,4) by simp
  also have "W < (Q + 1) * (P + P * vh)"
    using assms(7) mult_left_mono [of "vl + P * vh" "P + P * vh" "Q + 1"] assms(5,8) unfolding assms(2) by linarith
  also have "\<dots> = P * ((Q + 1) * (vh + 1))"
    by (simp add: algebra_simps)
  finally have "q * vh < (Q + 1) * (vh + 1)"
    using mult_less_cancel_left_pos [OF assms(6)] by blast
  also have "\<dots> \<le> (Q + 2) * vh"
    using assms(9) by (simp add: algebra_simps)
  finally have "q < Q + 2"
    using assms(8,9) by (simp add: mult_less_cancel_right)
  then show ?thesis
    by simp
qed

lemma mpval_last_two: "k + 2 = length a \<Longrightarrow> mpval (drop k a) = uint (a ! k) + 4294967296 * uint (a ! (k + 1))"
proof -
  assume "k + 2 = length a"
  then have "drop k a = [a ! k, a ! (k + 1)]"
    by (simp add: Cons_nth_drop_Suc [symmetric])
  then show ?thesis
    by simp
qed

lemma mpval_low: "k \<le> length a \<Longrightarrow> mpval a = mpval (take k a) + 2 ^ (32 * k) * mpval (drop k a)"
  using mpval_append [of "take k a" "drop k a"] by simp

lemma trial_bounds:
  assumes v: "v \<noteq> []" "last v \<noteq> 0" and w: "length w = length v + 1" and lt: "mpval w < mpval v * 4294967296"
  defines "Q \<equiv> mpval w div mpval v"
  shows "Q \<le> uint (trial v w)" "uint (trial v w) \<le> Q + 1"
proof -
  obtain n where n: "length v = Suc n"
    using v(1) by (cases v) auto
  have hi: "drop n v = [v ! n]" "v ! n \<noteq> 0"
    using n v by (auto simp: last_conv_nth Cons_nth_drop_Suc [symmetric])
  have v0: "0 < uint (v ! n)"
    using hi(2) uint_ge_0 [of "v ! n"] by (simp add: order_le_less uint_0_iff)
  have V: "mpval v = mpval (take n v) + 2 ^ (32 * n) * uint (v ! n)"
    using mpval_low [of n v] n hi(1) by simp
  have vpos: "0 < mpval v"
    unfolding V using v0 by (simp add: add_nonneg_pos)
  have Q: "0 \<le> Q" "Q * mpval v \<le> mpval w" "mpval w < (Q + 1) * mpval v" "Q < 4294967296"
    unfolding Q_def using vpos lt int_div_less_iff [OF vpos, of "mpval w"] int_div_less_iff [OF vpos, of "mpval w" "Q + 1"]
      int_div_less_iff [OF vpos, of "mpval w" Q]
    by (simp_all add: pos_imp_zdiv_nonneg_iff Q_def mult.commute)
  have W: "mpval w = mpval (take n w) + 2 ^ (32 * n) * (uint (w ! n) + 4294967296 * uint (w ! (n + 1)))"
    using mpval_low [of n w] mpval_last_two [of n w] n w by simp
  define N where "N = uint (w ! n) + 4294967296 * uint (w ! (n + 1))"
  have d1: "Q * uint (v ! n) \<le> N"
    using quot_le_high [OF Q(2) V W] mpval_take_bound [of n w] Q(1) by (simp add: N_def)
  define qd where "qd = mpdigdiv (w ! n) (w ! (n + 1)) (v ! n)"
  have qd: "uint qd = (if w ! (n + 1) \<ge> v ! n then 4294967295 else N div uint (v ! n))"
    using mpdigdiv_val hi(2) by (simp add: qd_def N_def add.commute)
  have le1: "Q \<le> uint qd"
    using Q(4) d1 int_div_less_iff [OF v0, of N Q] unfolding qd by (auto simp: not_less)
  have "Q \<le> uint (trial v w) \<and> uint (trial v w) \<le> Q + 1"
  proof (cases n)
    case 0
    have t: "trial v w = qd"
      using n 0 by (simp add: trial_def qd_def)
    have e: "mpval w = N" "mpval v = uint (v ! n)"
      using V W 0 by (simp_all add: N_def)
    have "uint (w ! (n + 1)) < uint (v ! n)"
      using lt uint_ge_0 [of "w ! n"] unfolding e unfolding N_def by linarith
    then have "uint qd = Q"
      unfolding qd Q_def e by (simp add: word_le_def)
    then show ?thesis
      by (simp add: t)
  next
    case (Suc k)
    define v2 u3 where "v2 = drop k v" and "u3 = drop k w"
    have t: "trial v w = trial_loop v2 u3 qd"
      using n Suc by (simp add: trial_def qd_def v2_def u3_def)
    have len: "length v2 = 2" "length u3 = 3"
      using n w Suc by (simp_all add: v2_def u3_def)
    have "mpval v2 = uint (v ! k) + 4294967296 * uint (v ! (k + 1))"
      unfolding v2_def using n Suc by (intro mpval_last_two) simp
    then have big: "4294967296 \<le> mpval v2"
      using v0 uint_ge_0 [of "v ! k"] unfolding Suc Suc_eq_plus1 by linarith
    have V2: "mpval v = mpval (take k v) + 2 ^ (32 * k) * mpval v2"
      and W3: "mpval w = mpval (take k w) + 2 ^ (32 * k) * mpval u3"
      unfolding v2_def u3_def using n w Suc by (intro mpval_low; simp)+
    have v2: "0 < mpval v2"
      using big by simp
    have d2: "Q * mpval v2 \<le> mpval u3"
      using quot_le_high [OF Q(2) V2 W3] mpval_take_bound [of k w] Q(1) by simp
    have val: "uint (trial v w) = min (uint qd) (mpval u3 div mpval v2)"
      unfolding t by (rule trial_loop_val [OF len v2])
    have "(mpval u3 div mpval v2) * mpval v2 \<le> mpval u3"
      using v2 int_div_less_iff [OF v2, of "mpval u3" "mpval u3 div mpval v2"] by simp
    then have "mpval u3 div mpval v2 \<le> Q + 1"
      using trial_upper [OF _ V2 W3 _ _ _ Q(3,1)] mpval_take_bound [of k v] Q(4) big by simp
    moreover have "Q \<le> mpval u3 div mpval v2"
      using d2 int_div_less_iff [OF v2, of "mpval u3" Q] by simp
    ultimately show ?thesis
      unfolding val using le1 by simp
  qed
  then show "Q \<le> uint (trial v w)" "uint (trial v w) \<le> Q + 1"
    by simp_all
qed


section \<open>One round\<close>

lemma mpval_carry_out:
  assumes "mpval s = r + 2 ^ (32 * n) * k" "0 \<le> r" "r < 2 ^ (32 * n)" "n \<le> length s"
  shows "mpval (take n s) = r"
proof -
  have "mpval (take n s) = mpval s mod 2 ^ (32 * n)"
    using mpval_low [OF assms(4)] mpval_take_bound [of n s] by simp
  then show ?thesis
    using assms(1-3) by simp
qed

lemma window_clear:
  assumes "length x = Suc n"
  shows "(lo @ x @ hi)[length lo + n := 0] = lo @ (take n x @ [0]) @ hi"
proof -
  have "x[n := 0] = take n x @ [0]"
    using assms by (simp add: upd_conv_take_nth_drop)
  then show ?thesis
    using assms by (simp add: list_update_append)
qed

lemma div_round_val:
  assumes v: "v \<noteq> []" "last v \<noteq> 0" and w: "length w = length v + 1" and hi: "hi \<noteq> []"
    and lt: "mpval w < mpval v * 4294967296"
  shows "\<exists>qd w' hi'. div_round v (length lo + length w) (lo @ w @ hi) = (qd, lo @ w' @ hi')
    \<and> length w' = length w \<and> length hi' = length hi \<and> uint qd = mpval w div mpval v
    \<and> mpval w' = mpval w mod mpval v \<and> last w' = 0"
proof -
  define qd where "qd = trial v w"
  define Q where "Q = mpval w div mpval v"
  note tb = trial_bounds [OF v w lt, folded qd_def Q_def]
  obtain w1 where w1: "mpvecdigmulsub v qd w = (w1, if uint qd * mpval v \<le> mpval w then 1 else -1)" "length w1 = length w"
     "mpval w1 = (mpval w - uint qd * mpval v) mod 2 ^ (32 * length w)"
    using mpvecdigmulsub_val [of w v qd] w by auto
  have win: "take (length w) (drop (length lo) (lo @ w @ hi)) = w" "take (length w) (drop (length lo) (lo @ w1 @ hi)) = w1"
    using w1(2) by simp_all
  have sp: "putdigs (lo @ w @ hi) (length lo) w1 = lo @ w1 @ hi"
    using w1(2) by (simp add: putdigs_def)
  obtain n where n: "length v = n" "length w = Suc n"
    using w by simp
  define R where "R = mpval w mod mpval v"
  have V: "0 < mpval v"
    using v mpval_zero_iff [of v] mpval_nonneg [of v] last_in_set [of v] by (auto simp: order_le_less)
  have R: "mpval w = Q * mpval v + R" "0 \<le> R" "R < mpval v"
    using V by (simp_all add: R_def Q_def)
  have Rb: "R < 2 ^ (32 * n)"
    using R(3) mpval_bound [of v] n by simp
  define M :: int where "M = 2 ^ (32 * length w)"
  have "(2 :: int) ^ (32 * n) \<le> M"
    unfolding M_def by (intro power_increasing) (use n in auto)
  then have M: "R < M" "mpval v < M"
    using Rb mpval_bound [of v, unfolded n(1)] by linarith+
  have up: "length lo + length w - 1 = length lo + n" "length lo + n - length v = length lo" "length v + 1 = length w"
    using n by simp_all
  have e: "div_round v (length lo + length w) (lo @ w @ hi) =
      (let (qd', p) = (if (if uint qd * mpval v \<le> mpval w then 1 else - 1) < (0 :: int)
         then (qd - 1, putdigs (lo @ w1 @ hi) (length lo) (mpvecadd w1 v)) else (qd, lo @ w1 @ hi))
       in (qd', p[length lo + n := 0]))"
    unfolding div_round_def Let_def up win qd_def [symmetric] w1(1) prod.case sp ..
  show ?thesis
  proof (cases "uint qd * mpval v \<le> mpval w")
    case True
    then have "uint qd \<le> Q"
      using int_div_less_iff [OF V, of "mpval w" "uint qd"] by (simp add: Q_def)
    then have q: "uint qd = Q"
      using tb by simp
    have "mpval w1 = R + 2 ^ (32 * n) * 0"
      using w1(3) q R M(1) unfolding M_def [symmetric] by simp
    then have "mpval (take n w1) = R"
      using mpval_carry_out [of w1 R n 0] R(2) Rb w1(2) n by simp
    moreover have "div_round v (length lo + length w) (lo @ w @ hi) = (qd, lo @ (take n w1 @ [0]) @ hi)"
      unfolding e using True window_clear [of w1 n lo hi] w1(2) n by simp
    ultimately show ?thesis
      using q w1(2) n by (intro exI [of _ qd] exI [of _ "take n w1 @ [0]"] exI [of _ hi] conjI) (auto simp: Q_def R_def mpval_append)
  next
    case False
    then have "Q < uint qd"
      using int_div_less_iff [OF V, of "mpval w" "uint qd"] by (simp add: Q_def not_le)
    then have q: "uint qd = Q + 1"
      using tb by simp
    then have q1: "uint (qd - 1) = Q"
      using V by (simp add: uint_sub_if' Q_def pos_imp_zdiv_nonneg_iff)
    define sm where "sm = mpvecadd w1 v"
    have len: "length sm = Suc (Suc n)"
      using w1(2) n by (simp add: sm_def)
    have "mpval w - uint qd * mpval v = R - mpval v"
      using R(1) q by (simp add: algebra_simps)
    then have "mpval w1 = (R - mpval v + M) mod M"
      using w1(3) unfolding M_def [symmetric] by simp
    also have "\<dots> = R - mpval v + M"
      using R(2,3) M by (intro mod_pos_pos_trivial) auto
    finally have "mpval sm = R + M"
      using n w1(2) by (simp add: sm_def mpvecadd_val)
    then have "mpval sm = R + 2 ^ (32 * n) * 4294967296"
      using n by (simp add: M_def power_add)
    then have tk: "mpval (take n sm) = R"
      using mpval_carry_out [of sm R n 4294967296] R(2) Rb len by simp
    have smx: "sm = take (Suc n) sm @ [sm ! Suc n]"
      using len take_Suc_conv_app_nth [of "Suc n" sm] by simp
    have sp2: "putdigs (lo @ w1 @ hi) (length lo) sm = lo @ take (Suc n) sm @ (sm ! Suc n # tl hi)"
    proof -
      have "putdigs (lo @ w1 @ hi) (length lo) sm = lo @ sm @ tl hi"
        using len w1(2) n hi by (cases hi) (auto simp: putdigs_def)
      then show ?thesis
        by (subst (asm) (2) smx) simp
    qed
    have "div_round v (length lo + length w) (lo @ w @ hi) = (qd - 1, lo @ (take n sm @ [0]) @ (sm ! Suc n # tl hi))"
      unfolding e sm_def [symmetric] sp2 using False window_clear [of "take (Suc n) sm" n lo "sm ! Suc n # tl hi"] len
      by (simp add: min_def)
    then show ?thesis
      using q1 tk len n hi
      by (intro exI [of _ "qd - 1"] exI [of _ "take n sm @ [0]"] exI [of _ "sm ! Suc n # tl hi"] conjI)
        (auto simp: Q_def R_def mpval_append)
  qed
qed


section \<open>The loop\<close>

lemma div_loop_val:
  assumes v: "v \<noteq> []" "last v \<noteq> 0"
  shows "\<lbrakk>length v + n < length p; mpval (take (length v + n) p) < mpval v * 2 ^ (32 * n)\<rbrakk>
    \<Longrightarrow> \<exists>ds p'. div_loop v n p qs = (ds @ qs, p') \<and> length ds = n \<and> length p' = length p
      \<and> mpval ds = mpval (take (length v + n) p) div mpval v
      \<and> mpval (take (length v) p') = mpval (take (length v + n) p) mod mpval v"
proof (induction n arbitrary: p qs)
  case 0
  then show ?case
    by (simp add: div_pos_pos_trivial)
next
  case (Suc n)
  define vn X where "vn = length v" and "X = mpval (take (vn + Suc n) p)"
  define lo w hi where "lo = take n p" and "w = take (vn + 1) (drop n p)" and "hi = drop (vn + Suc n) p"
  have len: "length lo = n" "length w = vn + 1" "hi \<noteq> []" "length hi = length p - (vn + Suc n)"
    using Suc.prems(1) by (auto simp: lo_def w_def hi_def vn_def)
  have tk: "take (vn + Suc n) p = lo @ w"
    using take_add [of n "vn + 1" p] by (simp add: lo_def w_def add.commute)
  then have p: "p = lo @ w @ hi"
    using append_take_drop_id [of "vn + Suc n" p] by (simp add: hi_def)
  define P :: int where "P = 2 ^ (32 * n)"
  have P: "0 < P" "(2 :: int) ^ (32 * Suc n) = P * 4294967296"
    by (simp_all add: P_def power_add)
  have X: "X = mpval lo + P * mpval w"
    unfolding X_def tk mpval_append len P_def ..
  have "P * mpval w < P * (mpval v * 4294967296)"
  proof -
    have "X < P * (mpval v * 4294967296)"
      using Suc.prems(2) unfolding P X_def vn_def by (simp only: ac_simps)
    then show ?thesis
      using X mpval_nonneg [of lo] by linarith
  qed
  then have lt: "mpval w < mpval v * 4294967296"
    using P(1) by simp
  obtain qd w' hi' where r: "div_round v (length lo + length w) (lo @ w @ hi) = (qd, lo @ w' @ hi')"
    "length w' = length w" "length hi' = length hi" "uint qd = mpval w div mpval v" "mpval w' = mpval w mod mpval v" "last w' = 0"
    using div_round_val [OF v _ len(3) lt, of lo] len(2) by (auto simp: vn_def)
  define p1 X1 where "p1 = lo @ w' @ hi'" and "X1 = mpval (take (vn + n) p1)"
  obtain ww where ww: "w' = ww @ [0]" "length ww = vn"
    using r(2,6) len(2) by (cases w' rule: rev_cases) auto
  have X1: "X1 = mpval lo + P * (mpval w mod mpval v)"
    using ww r(5) len(1) by (simp add: X1_def p1_def mpval_append P_def)
  have V: "0 < mpval v"
    using v mpval_zero_iff [of v] mpval_nonneg [of v] last_in_set [of v] by (auto simp: order_le_less)
  have XX: "X = mpval v * (P * uint qd) + X1"
  proof -
    have "mpval w = mpval v * uint qd + mpval w mod mpval v"
      unfolding r(4) by simp
    then have "P * mpval w = P * (mpval v * uint qd + mpval w mod mpval v)"
      by (rule arg_cong)
    then show ?thesis
      unfolding X X1 by (simp only: distrib_left ac_simps)
  qed
  have lo: "mpval lo < P"
    using mpval_bound [of lo] by (simp add: len P_def)
  have "P * (mpval w mod mpval v + 1) \<le> P * mpval v"
    using P(1) V by (simp add: zle_add1_eq_le add1_zle_eq)
  then have X1lt: "X1 < mpval v * P"
    using lo unfolding X1 by (simp add: algebra_simps)
  have l1: "length p1 = length p" "length v + n < length p1"
    using Suc.prems(1) r(2,3) p by (simp_all add: p1_def)
  obtain ds p' where d: "div_loop v n p1 (qd # qs) = (ds @ qd # qs, p')" "length ds = n" "length p' = length p1"
    "mpval ds = X1 div mpval v" "mpval (take vn p') = X1 mod mpval v"
    using Suc.IH [OF l1(2), of "qd # qs"] X1lt unfolding X1_def vn_def P_def by blast
  have "div_loop v (Suc n) p qs = ((ds @ [qd]) @ qs, p')"
    using r(1) d(1) len unfolding p by (simp add: p1_def vn_def Let_def add.commute)
  moreover have "mpval (ds @ [qd]) = X div mpval v"
    using d(2,4) V unfolding XX by (simp add: mpval_append P_def)
  moreover have "mpval (take vn p') = X mod mpval v"
    using d(5) unfolding XX by simp
  ultimately show ?case
    using d(2,3) l1 unfolding X_def vn_def by (intro exI conjI) auto
qed

section \<open>Shifted copies\<close>

lemma mmag_abs: "mpwf b \<Longrightarrow> mmag b = \<bar>mval b\<bar>"
  by (auto simp: mval_def mpwf_def abs_mult)

lemma mpbits_size: "msize b \<le> msize (mpbits b m)"
  by (auto simp: mpbits_def Let_def)

lemma mpleft_size: "msize (st res) \<le> msize (mpleft b (int k) res st res)"
  by (auto simp: mpleft_def mpshift_def mpleft_shift_def Let_def mpwrite_def intro: order_trans [OF _ mpbits_size])

lemma mpleft_to_ok:
  assumes "mpok b" "mpwf r"
  shows "mpok (mpleft_to b s r)" "mmag (mpleft_to b s r) = mmag b * 2 ^ s" "msize r \<le> msize (mpleft_to b s r)"
proof -
  let ?st = "(\<lambda>_. b)(1 := r) :: mpstore"
  obtain w where w: "mpleft 0 (int s) 1 ?st = ?st(1 := w)" "mpok w" "mval w = mval b * 2 ^ s"
    using mpleft_ok [of ?st 0 1 s] assms by auto
  then have e: "mpleft_to b s r = w"
    by (simp add: mpleft_to_def)
  show "mpok (mpleft_to b s r)" "msize r \<le> msize (mpleft_to b s r)"
    using w mpleft_size [of ?st 1 0 s] by (simp_all add: e mpleft_to_def)
  show "mmag (mpleft_to b s r) = mmag b * 2 ^ s"
    using w assms by (simp add: e mmag_abs mpok_wf abs_mult)
qed

lemma mpright_to_ok:
  assumes "mpwf b" "mpwf r"
  shows "mpok (mpright_to b s r)" "mmag (mpright_to b s r) = mmag b div 2 ^ s"
proof -
  define st :: mpstore where "st = (\<lambda>_. b)(1 := r\<lparr>msign := msign b\<rparr>)"
  have wf: "mpwf (st 0)" "mpwf (st 1)"
    using assms by (auto simp: st_def mpwf_def)
  obtain w where w: "mpright_shift 0 s 1 st = st(1 := w)" "mpok w" "mmag w = mmag b div 2 ^ s"
  proof -
    have "st 0 = b"
      by (simp add: st_def)
    then show ?thesis
      using that mpright_shift_ok [OF wf, of s] by (elim exE conjE) (simp only:)
  qed
  have e: "mpright_to b s r = (if mtop b = 0 then r\<lparr>msign := msign b, mtop := 0\<rparr> else w)"
    using w(1) by (simp add: mpright_to_def mpright_def mpshift_def Let_def st_def)
  show "mpok (mpright_to b s r)" "mmag (mpright_to b s r) = mmag b div 2 ^ s"
    using w(2,3) wf(2) by (auto simp: e st_def mpok_def mpwf_def mmag_def)
qed

lemma norm_shift_lt: "norm_shift n qd = Some s \<Longrightarrow> s < n"
  by (induction n arbitrary: qd s) (auto split: if_splits)

lemma mpnew_size: "DIGITS n \<le> msize (mpnew n)"
  by (simp add: mpnew_def Let_def)

lemma div_u_ok:
  assumes D: "mpok D" and s: "s < 32" "keep \<Longrightarrow> s = 0"
  shows "mpok (div_u D s keep)" "mmag (div_u D s keep) = mmag D * 2 ^ s" "mtop (div_u D s keep) + 1 < msize (div_u D s keep)"
proof -
  let ?n = "mpnew ((mtop D + 2) * Dbits + s)"
  have size: "mtop D + 2 + (if s = 0 then 0 else 1) \<le> msize ?n"
    using mpnew_size [of "(mtop D + 2) * Dbits + s"] s(1) unfolding DIGITS_shift by (simp split: if_splits)
  have "mpok (div_u D s keep) \<and> mmag (div_u D s keep) = mmag D * 2 ^ s \<and> mtop (div_u D s keep) + 1 < msize (div_u D s keep)"
  proof (cases keep)
    case True
    have "msize ?n \<le> msize (mpassign D ?n)"
      by (auto simp: mpassign_def Let_def intro: order_trans [OF _ mpbits_size])
    then show ?thesis
      using True s size mpassign_ok [OF D mpnew_wf] by (auto simp: div_u_def Let_def)
  next
    case False
    define u where "u = mpleft_to D s ?n"
    note u = mpleft_to_ok [OF D mpnew_wf [of "(mtop D + 2) * Dbits + s"], of s, folded u_def]
    have "mtop u \<le> mtop D + (if s = 0 then 0 else 1)"
    proof (rule ccontr)
      assume "\<not> mtop u \<le> mtop D + (if s = 0 then 0 else 1)"
      then have "32 * mtop D + s \<le> 32 * (mtop u - 1)" "mtop u \<noteq> 0"
        using s(1) by (auto split: if_splits)
      then have "(2 :: int) ^ (32 * mtop D + s) \<le> mmag u"
        using mmag_bound(2) [OF u(1)] power_increasing [of "32 * mtop D + s" "32 * (mtop u - 1)" "2 :: int"] by linarith
      then show False
        using mmag_bound(1) [OF D] u(2) by (simp add: power_add)
    qed
    then show ?thesis
      using False u size unfolding div_u_def Let_def u_def [symmetric] by (simp split: if_splits)
  qed
  then show "mpok (div_u D s keep)" "mmag (div_u D s keep) = mmag D * 2 ^ s" "mtop (div_u D s keep) + 1 < msize (div_u D s keep)"
    by blast+
qed

lemma div_v_ok:
  assumes d: "mpok d" and s: "keep \<Longrightarrow> s = 0"
  shows "mpok (div_v d s keep)" "mmag (div_v d s keep) = mmag d * 2 ^ s"
  using assms mpleft_to_ok [OF d mpnew_wf] by (auto simp: div_v_def)


lemma vec_last: "mpok b \<Longrightarrow> mtop b \<noteq> 0 \<Longrightarrow> vec b \<noteq> [] \<and> last (vec b) = digs b ! (mtop b - 1) \<and> last (vec b) \<noteq> 0 \<and> length (vec b) = mtop b"
proof -
  assume b: "mpok b" "mtop b \<noteq> 0"
  then have l: "length (vec b) = mtop b" "digs b ! (mtop b - 1) \<noteq> 0"
    by (auto simp: mpok_def mpwf_def)
  then have ne: "vec b \<noteq> []"
    using b(2) by force
  have "last (vec b) = digs b ! (mtop b - 1)"
    unfolding last_conv_nth [OF ne] l(1) using b(2) by simp
  then show ?thesis
    using l ne by simp
qed

lemma mmag_high:
  assumes "mpok b" "mtop b \<noteq> 0"
  shows "uint (digs b ! (mtop b - 1)) * 2 ^ (32 * (mtop b - 1)) \<le> mmag b"
    "mmag b < (uint (digs b ! (mtop b - 1)) + 1) * 2 ^ (32 * (mtop b - 1))"
proof -
  obtain k where k: "mtop b = Suc k"
    using assms(2) not0_implies_Suc by blast
  have "mmag b = mpval (take k (digs b)) + 2 ^ (32 * k) * uint (digs b ! k)"
    using assms(1) mpval_take_Suc [of k "digs b"] by (simp add: mmag_def k mpok_def mpwf_def)
  then show "uint (digs b ! (mtop b - 1)) * 2 ^ (32 * (mtop b - 1)) \<le> mmag b"
    "mmag b < (uint (digs b ! (mtop b - 1)) + 1) * 2 ^ (32 * (mtop b - 1))"
    using mpval_take_bound [of k "digs b"] by (simp_all add: k algebra_simps)
qed

lemma div_grow_ok:
  assumes u: "mpok u" "mtop u + 1 < msize u" and v: "mpok v" "mtop v \<noteq> 0" and le: "mmag v \<le> mmag u"
  defines "u' \<equiv> div_grow u v"
  shows "mpwf u'" "mmag u' = mmag u" "mtop v \<le> mtop u'" "mtop u' < msize u'"
    "mmag u' < mmag v * 2 ^ (32 * (mtop u' - mtop v))"
proof -
  have top: "mtop v \<le> mtop u"
    using mmag_less_top [OF u(1) v(1)] le by linarith
  define P :: int where "P = 2 ^ (32 * (mtop u - mtop v))"
  define x y where "x = uint (digs u ! (mtop u - 1))" and "y = uint (digs v ! (mtop v - 1))"
  have "2 ^ (32 * (mtop u - 1)) = 2 ^ (32 * (mtop v - 1)) * P"
    using top v(2) by (simp add: P_def flip: power_add add_mult_distrib2)
  then have hx: "mmag u < (x + 1) * (2 ^ (32 * (mtop v - 1)) * P)"
    using mmag_high(2) [OF u(1)] top v(2) by (simp add: x_def)
  have hy: "y * 2 ^ (32 * (mtop v - 1)) * P \<le> mmag v * P"
    using mmag_high(1) [OF v] by (simp add: y_def P_def)
  have "mpwf u' \<and> mmag u' = mmag u \<and> mtop v \<le> mtop u' \<and> mtop u' < msize u' \<and> mmag u' < mmag v * 2 ^ (32 * (mtop u' - mtop v))"
  proof (cases "digs u ! (mtop u - 1) \<ge> digs v ! (mtop v - 1)")
    case True
    have e: "u' = u\<lparr>digs := (digs u)[mtop u := 0], mtop := mtop u + 1\<rparr>"
      using True by (simp add: u'_def div_grow_def)
    have m: "mmag u' = mmag u"
      using u by (simp add: e mmag_def mpok_def mpwf_def take_Suc_conv_app_nth mpval_append)
    have "mmag u < 2 ^ (32 * mtop u)"
      by (rule mmag_bound(1) [OF u(1)])
    also have "\<dots> = 2 ^ (32 * (mtop v - 1)) * 2 ^ (32 * (mtop u + 1 - mtop v))"
      using top v(2) by (simp flip: power_add add_mult_distrib2)
    also have "\<dots> \<le> mmag v * 2 ^ (32 * (mtop u + 1 - mtop v))"
      using mmag_bound(2) [OF v] by simp
    finally show ?thesis
      using m u top by (auto simp: e mpok_def mpwf_def)
  next
    case False
    then have "x + 1 \<le> y"
      by (simp add: x_def y_def word_le_def not_le)
    then have "(x + 1) * (2 ^ (32 * (mtop v - 1)) * P) \<le> y * (2 ^ (32 * (mtop v - 1)) * P)"
      by (intro mult_right_mono) (simp_all add: P_def)
    then have "mmag u < mmag v * P"
      using hx hy unfolding mult.assoc by linarith
    then show ?thesis
      using False u top by (simp add: u'_def div_grow_def P_def mpok_wf)
  qed
  then show "mpwf u'" "mmag u' = mmag u" "mtop v \<le> mtop u'" "mtop u' < msize u'"
    "mmag u' < mmag v * 2 ^ (32 * (mtop u' - mtop v))"
    by blast+
qed

lemma div_core:
  assumes D: "mpok D" and d: "mpok d" "mtop d \<noteq> 0" and le: "mmag d \<le> mmag D" and s: "s < 32" "keep \<Longrightarrow> s = 0"
  defines "v \<equiv> div_v d s keep"
  defines "u \<equiv> div_grow (div_u D s keep) v"
  assumes loop: "div_loop (vec v) (mtop u - mtop v) (digs u) [] = (qs, p)"
  shows "length qs = mtop u - mtop v" "mpval qs = mmag D div mmag d"
    "mpwf (u\<lparr>digs := p, mtop := mtop v\<rparr>)" "mmag (u\<lparr>digs := p, mtop := mtop v\<rparr>) = (mmag D mod mmag d) * 2 ^ s"
proof -
  have v: "mpok v" "mmag v = mmag d * 2 ^ s"
    unfolding v_def using s(2) by (intro div_v_ok [OF d(1)]; blast)+
  have u0: "mpok (div_u D s keep)" "mmag (div_u D s keep) = mmag D * 2 ^ s" "mtop (div_u D s keep) + 1 < msize (div_u D s keep)"
    using s by (intro div_u_ok [OF D]; blast)+
  have vt: "mtop v \<noteq> 0"
    using mmag_zero_iff [OF d(1)] mmag_zero_iff [OF v(1)] v(2) d(2) by auto
  have "mmag v \<le> mmag (div_u D s keep)"
    using le v(2) u0(2) by simp
  note u = div_grow_ok [OF u0(1,3) v(1) vt this, folded u_def]
  note vl = vec_last [OF v(1) vt]
  have X: "mpval (take (length (vec v) + (mtop u - mtop v)) (digs u)) = mmag D * 2 ^ s"
    using u(2,3) u0(2) vl by (simp add: mmag_def)
  have V: "mpval (vec v) = mmag d * 2 ^ s" "0 < mmag d"
    using v(2) mmag_zero_iff [OF d(1)] d(2) mmag_nonneg [of d] by (simp_all add: mmag_def order_le_less)
  have lt: "mpval (take (length (vec v) + (mtop u - mtop v)) (digs u)) < mpval (vec v) * 2 ^ (32 * (mtop u - mtop v))"
    using u(2,5) u0(2) v(2) unfolding X V(1) by simp
  have len: "length (vec v) + (mtop u - mtop v) < length (digs u)"
    using u(1,3,4) vl by (simp add: mpwf_def)
  obtain ds p' where r: "div_loop (vec v) (mtop u - mtop v) (digs u) [] = (ds @ [], p')" "length ds = mtop u - mtop v"
    "length p' = length (digs u)" "mpval ds = mmag D * 2 ^ s div mpval (vec v)" "mpval (take (length (vec v)) p') = mmag D * 2 ^ s mod mpval (vec v)"
    using div_loop_val [of "vec v", OF _ _ len lt, of "[]"] vl unfolding X by (elim exE conjE) blast
  have e: "qs = ds" "p = p'"
    using r(1) loop by simp_all
  show "length qs = mtop u - mtop v" "mpval qs = mmag D div mmag d"
    using r(2,4) by (simp_all add: e V(1))
  show "mpwf (u\<lparr>digs := p, mtop := mtop v\<rparr>)"
    using u(1,3) r(3) by (auto simp: mpwf_def e)
  show "mmag (u\<lparr>digs := p, mtop := mtop v\<rparr>) = (mmag D mod mmag d) * 2 ^ s"
    using r(5) vl by (simp add: mmag_def [of "u\<lparr>digs := p', mtop := mtop v\<rparr>"] e V(1) mult_mod_left)
qed

section \<open>mpdiv\<close>

lemma mpleft_to_sign:
  assumes "mpok b" "mpwf r" "mmag b \<noteq> 0"
  shows "msign (mpleft_to b s r) = msign b"
proof -
  let ?st = "(\<lambda>_. b)(1 := r) :: mpstore"
  obtain w where w: "mpleft 0 (int s) 1 ?st = ?st(1 := w)" "mpok w" "mval w = mval b * 2 ^ s"
    using mpleft_ok [of ?st 0 1 s] assms by auto
  have m: "mmag w = mmag b * 2 ^ s" "0 < mmag b * 2 ^ s" "mpleft_to b s r = w"
    using w mpleft_to_ok(2) [OF assms(1,2), of s] assms(3) mmag_nonneg [of b] by (auto simp: mpleft_to_def order_le_less)
  have "(msign w - msign b) * (mmag b * 2 ^ s) = 0"
    using w(3) m(1) by (simp add: mval_def left_diff_distrib)
  then show ?thesis
    using m assms(3) by simp
qed

lemma div_u_sign: "mpok D \<Longrightarrow> mmag D \<noteq> 0 \<Longrightarrow> msign (div_u D s keep) = msign D"
  using mpleft_to_sign [OF _ mpnew_wf] mpassign_ok(3) [OF _ mpnew_wf] by (simp add: div_u_def Let_def)

lemma mpright_to_sign:
  assumes "mpwf b" "mpwf r" "mtop b \<noteq> 0" "s < 32"
  shows "if mtop (mpright_to b s r) = 0 then msign (mpright_to b s r) = 1 else msign (mpright_to b s r) = msign b"
proof -
  define st :: mpstore where "st = (\<lambda>_. b)(1 := r\<lparr>msign := msign b\<rparr>)"
  have wf: "mpwf (st 0)" "mpwf (st 1)" and st: "st 0 = b" "msign (st 1) = msign b"
    using assms by (auto simp: st_def mpwf_def)
  have "\<not> s div Dbits \<ge> mtop (st 0)"
    using assms(3,4) by (simp add: st Dbits_def)
  then obtain w where w: "mpright_shift 0 s 1 st = st(1 := w)" "mpcan w" "mtop w \<noteq> 0 \<longrightarrow> msign w = msign (st 1)"
    using mpright_shift_ok [OF wf, of s] by (simp only: if_False) (elim exE conjE, blast)
  have "mpright_to b s r = w"
    using w(1) assms(3) by (simp add: mpright_to_def mpright_def mpshift_def Let_def st_def)
  then show ?thesis
    using w st by (auto simp: mpcan_def)
qed

lemma store_quotient:
  assumes "mpwf bq" "length qs = n" "mpval qs \<noteq> 0"
  shows "\<exists>b. mpnorm (mpwrite qs ((mpbits bq (n * Dbits))\<lparr>mtop := n\<rparr>)) = Some b \<and> mpok b \<and> mpcan b
    \<and> mmag b = mpval qs \<and> msign b = msign bq \<and> mtop b \<noteq> 0"
proof -
  define b0 where "b0 = (mpbits bq (n * Dbits))\<lparr>mtop := n\<rparr>"
  note f = mpbits_fields [OF assms(1), of "n * Dbits"]
  have b0: "mpwf b0" "msign b0 = msign bq" "n \<le> msize b0"
    using f by (auto simp: b0_def mpwf_def)
  note w = mpwf_write [of b0 qs]
  have "mmag (mpwrite qs b0) = mpval qs"
    using w b0 assms(2) by (simp add: mmag_def) (simp add: b0_def)
  moreover have "mpwf (mpwrite qs b0)" "msign (mpwrite qs b0) = msign bq"
    using w b0 assms(2) by simp_all
  ultimately obtain b where b: "mpnorm (mpwrite qs b0) = Some b" "mpok b" "mpcan b" "mmag b = mpval qs" "mtop b \<noteq> 0 \<longrightarrow> msign b = msign bq"
    using mpnorm_ok [of "mpwrite qs b0"] by auto
  moreover have "mtop b \<noteq> 0"
    using mmag_zero_iff [OF b(2)] b(4) assms(3) by simp
  ultimately show ?thesis
    unfolding b0_def by blast
qed

text \<open>What \<open>mpdiv\<close> leaves in the quotient, \<open>sg\<close> being its sign before, and in the remainder.\<close>

definition is_quo :: "mpint \<Rightarrow> mpint \<Rightarrow> int \<Rightarrow> mpint \<Rightarrow> bool" where
  "is_quo a d sg b \<longleftrightarrow> mpok b \<and> mpcan b \<and> mmag b = mmag a div mmag d
     \<and> (mtop b \<noteq> 0 \<longrightarrow> msign b = (if msign a \<noteq> msign d then -1 else sg))"

definition is_rem :: "mpint \<Rightarrow> mpint \<Rightarrow> bool \<Rightarrow> mpint \<Rightarrow> bool" where
  "is_rem a d same b \<longleftrightarrow> mpok b \<and> mmag b = mmag a mod mmag d
     \<and> (if same then (mpcan a \<longrightarrow> mpcan b) \<and> (mtop b \<noteq> 0 \<longrightarrow> msign b = msign a) else msign b = msign a)"

lemma mpdiv_small:
  assumes D: "mpok (st dividend)" and d: "mpok (st divisor)" "mtop (st divisor) \<noteq> 0"
    and q: "\<And>q. quo = Some q \<Longrightarrow> mpwf (st q) \<and> remainder \<noteq> Some q" and r: "\<And>r. remainder = Some r \<Longrightarrow> mpwf (st r)"
    and lt: "mpmagcmp (st dividend) (st divisor) < 0"
  shows "\<exists>st'. mpdiv dividend divisor quo remainder st = Inr st' \<and> (\<forall>x. quo \<noteq> Some x \<and> remainder \<noteq> Some x \<longrightarrow> st' x = st x)
    \<and> (\<forall>q. quo = Some q \<longrightarrow> is_quo (st dividend) (st divisor) (msign (st q)) (st' q))
    \<and> (\<forall>r. remainder = Some r \<longrightarrow> is_rem (st dividend) (st divisor) (r = dividend) (st' r))"
proof -
  have m: "mmag (st dividend) < mmag (st divisor)"
    using lt mpmagcmp_sgn [OF D d(1)] by (auto simp: sgn_if split: if_splits)
  define s1 where "s1 = (case remainder of None \<Rightarrow> st | Some r \<Rightarrow> mpassign_at dividend r st)"
  define s2 where "s2 = (case quo of None \<Rightarrow> s1 | Some q \<Rightarrow> s1(q := mpassign mpzero (s1 q)))"
  have "mpdiv dividend divisor quo remainder st = Inr s2"
    unfolding mpdiv_def Let_def s1_def [symmetric] s2_def [symmetric] using d(2) lt by simp
  moreover have s1: "s1 x = (if remainder = Some x \<and> x \<noteq> dividend then mpassign (st dividend) (st x) else st x)" for x
    by (auto simp: s1_def mpassign_at_def split: option.splits)
  moreover have s2: "s2 x = (if quo = Some x then mpassign mpzero (s1 x) else s1 x)" for x
    by (auto simp: s2_def split: option.splits)
  moreover have "is_quo (st dividend) (st divisor) sg (s2 x)" if "quo = Some x" for x sg
    using mpassign_ok [OF mpok_consts(1), of "st x"] q [OF that] that m
    by (simp add: is_quo_def s2 s1 mpcan_def mpok_consts)
  moreover have "is_rem (st dividend) (st divisor) (x = dividend) (s2 x)" if "remainder = Some x" for x
    using mpassign_ok [OF D r [OF that]] that m q D by (auto simp: is_rem_def s2 s1 mpcan_def)
  ultimately show ?thesis
    by auto
qed


lemma digit_pos: "x \<noteq> 0 \<Longrightarrow> 1 \<le> uint (x :: mpdigit)"
  using uint_ge_0 [of x] uint_0_iff [of x] by linarith

lemma mpdiv_large:
  assumes D: "mpok (st dividend)" and d: "mpok (st divisor)" "mtop (st divisor) \<noteq> 0"
    and q: "\<And>q. quo = Some q \<Longrightarrow> mpwf (st q) \<and> remainder \<noteq> Some q" and r: "\<And>r. remainder = Some r \<Longrightarrow> mpwf (st r)"
    and al: "quo = Some dividend \<Longrightarrow> msign (st divisor) = 1"
    and ge: "\<not> mpmagcmp (st dividend) (st divisor) < 0"
  shows "\<exists>st'. mpdiv dividend divisor quo remainder st = Inr st' \<and> (\<forall>x. quo \<noteq> Some x \<and> remainder \<noteq> Some x \<longrightarrow> st' x = st x)
    \<and> (\<forall>q. quo = Some q \<longrightarrow> is_quo (st dividend) (st divisor) (msign (st q)) (st' q))
    \<and> (\<forall>r. remainder = Some r \<longrightarrow> is_rem (st dividend) (st divisor) (r = dividend) (st' r))"
proof -
  let ?D = "st dividend" and ?d = "st divisor"
  have m: "mmag ?d \<le> mmag ?D"
    using ge mpmagcmp_sgn [OF D d(1)] by (auto simp: sgn_if split: if_splits)
  have d0: "0 < mmag ?d" "mmag ?D \<noteq> 0"
    using mmag_zero_iff [OF d(1)] d(2) m mmag_nonneg [of ?d] by linarith+
  have "1 \<le> uint (digs ?d ! (mtop ?d - 1))"
    using d by (intro digit_pos) (simp add: mpok_def)
  then obtain s where s: "norm_shift Dbits (digs ?d ! (mtop ?d - 1)) = Some s" "s < 32"
    using norm_shift_some [of 32 "digs ?d ! (mtop ?d - 1)"] norm_shift_lt by (auto simp: Dbits_def)
  define keep where "keep \<longleftrightarrow> s = 0 \<and> quo \<noteq> Some divisor \<and> remainder \<noteq> Some divisor"
  have ks: "keep \<Longrightarrow> s = 0"
    by (simp add: keep_def)
  define v where "v = div_v ?d s keep"
  define u where "u = div_grow (div_u ?D s keep) v"
  define n where "n = mtop u - mtop v"
  obtain qs p where loop: "div_loop (vec v) n (digs u) [] = (qs, p)"
    by fastforce
  define u' where "u' = u\<lparr>digs := p, mtop := mtop v\<rparr>"
  note core = div_core [OF D d m s(2) ks loop [unfolded n_def u_def v_def], folded v_def, folded u_def, folded n_def u'_def]
  define s1 where "s1 = (case quo of None \<Rightarrow> st | Some q \<Rightarrow> st(q := (mpbits (st q) (n * Dbits))\<lparr>mtop := n\<rparr>))"
  have Q: "mpval qs \<noteq> 0"
    using core(2) m int_div_less_iff [OF d0(1), of "mmag ?D" 1] by linarith
  define sq where "sq = (case quo of
       None \<Rightarrow> Some s1
     | Some q \<Rightarrow>
         (case mpnorm (mpwrite qs (s1 q)) of
            None \<Rightarrow> None
          | Some b \<Rightarrow>
              let st = s1(q := b) in
              Some (if msign (st dividend) \<noteq> msign (st divisor) then st(q := (st q)\<lparr>msign := -1\<rparr>) else st)))"
  have e: "mpdiv dividend divisor quo remainder st =
      (case sq of None \<Rightarrow> Inl Failed_assert
       | Some st \<Rightarrow> (case remainder of None \<Rightarrow> Inr st
           | Some r \<Rightarrow> let b = mpright_to u' s (st r); st = st(r := b) in Inr (st(r := (st r)\<lparr>msign := msign (st dividend)\<rparr>))))"
    unfolding mpdiv_def s(1) option.case Let_def keep_def [symmetric] v_def [symmetric] u_def [symmetric] n_def [symmetric]
      loop prod.case u'_def [symmetric] s1_def [symmetric] sq_def [unfolded Let_def, symmetric] using d(2) ge by simp
  obtain s2 where s2: "sq = Some s2" "\<forall>x. quo \<noteq> Some x \<longrightarrow> s2 x = st x"
      "\<forall>q. quo = Some q \<longrightarrow> is_quo ?D ?d (msign (st q)) (s2 q)" "msign (s2 dividend) = msign ?D"
  proof (cases quo)
    case None
    then show ?thesis
      using that [of st] by (simp add: sq_def s1_def)
  next
    case (Some x)
    obtain b where b: "mpnorm (mpwrite qs ((mpbits (st x) (n * Dbits))\<lparr>mtop := n\<rparr>)) = Some b" "mpok b" "mpcan b"
      "mmag b = mpval qs" "msign b = msign (st x)" "mtop b \<noteq> 0"
      using store_quotient [OF _ core(1) Q, of "st x"] q [OF Some] by blast
    define b' where "b' = (if msign ?D \<noteq> msign ?d then b\<lparr>msign := -1\<rparr> else b)"
    have "sq = Some (st(x := b'))"
      using b(1,5) Some by (auto simp: sq_def s1_def Let_def b'_def fun_upd_def intro!: ext)
    moreover have "is_quo ?D ?d (msign (st x)) b'"
      using b core(2) by (auto simp: is_quo_def b'_def mpok_def mpwf_def mpcan_def mmag_def)
    moreover have "msign (if dividend = x then b' else ?D) = msign ?D"
      using al Some b(5) D by (auto simp: b'_def mpok_def mpwf_def)
    ultimately show ?thesis
      using that [of "st(x := b')"] Some by auto
  qed
  show ?thesis
  proof (cases remainder)
    case None
    then show ?thesis
      using s2 e by simp
  next
    case (Some r)
    define b where "b = mpright_to u' s (st r)"
    have sr: "s2 r = st r"
      using s2(2) q Some by metis
    have b: "mpok b" "mmag b = mmag ?D mod mmag ?d"
      using mpright_to_ok [OF core(3) assms(5) [OF Some], of s] core(4) by (simp_all add: b_def)
    have "mpok v" "mmag v = mmag ?d * 2 ^ s"
      unfolding v_def using ks by (intro div_v_ok [OF d(1)]; blast)+
    then have u: "mtop u' \<noteq> 0" "msign u' = msign ?D"
      using mmag_zero_iff [of v] d0(1) div_u_sign [OF D d0(2)] by (auto simp: u'_def u_def div_grow_def)
    have bs: "if mtop b = 0 then msign b = 1 else msign b = msign ?D"
      using mpright_to_sign [OF core(3) assms(5) [OF Some] u(1) s(2)] unfolding u(2) b_def .
    define b' where "b' = b\<lparr>msign := msign ((s2(r := b)) dividend)\<rparr>"
    have "is_rem ?D ?d (r = dividend) b'"
      using b bs s2(4) D by (auto simp: is_rem_def b'_def mpok_def mpwf_def mpcan_def mmag_def)
    moreover have "mpdiv dividend divisor quo remainder st = Inr (s2(r := b'))"
      using e s2(1) Some by (simp add: Let_def sr b_def [symmetric] b'_def)
    ultimately show ?thesis
      using s2 q Some by auto
  qed
qed


lemma mpdiv_ok:
  assumes D: "mpok (st dividend)" and d: "mpok (st divisor)" "mtop (st divisor) \<noteq> 0"
    and q: "\<And>q. quo = Some q \<Longrightarrow> mpwf (st q) \<and> remainder \<noteq> Some q" and r: "\<And>r. remainder = Some r \<Longrightarrow> mpwf (st r)"
    and al: "quo = Some dividend \<Longrightarrow> msign (st divisor) = 1"
  shows "\<exists>st'. mpdiv dividend divisor quo remainder st = Inr st' \<and> (\<forall>x. quo \<noteq> Some x \<and> remainder \<noteq> Some x \<longrightarrow> st' x = st x)
    \<and> (\<forall>q. quo = Some q \<longrightarrow> is_quo (st dividend) (st divisor) (msign (st q)) (st' q))
    \<and> (\<forall>r. remainder = Some r \<longrightarrow> is_rem (st dividend) (st divisor) (r = dividend) (st' r))"
proof (cases "mpmagcmp (st dividend) (st divisor) < 0")
  case True
  show ?thesis
    by (rule mpdiv_small [OF D d q r True])
next
  case False
  show ?thesis
    by (rule mpdiv_large [OF D d q r al False])
qed

lemma sgn_mval: "mpwf b \<Longrightarrow> mmag b \<noteq> 0 \<Longrightarrow> sgn (mval b) = msign b"
  using mmag_nonneg [of b] by (auto simp: mval_def sgn_mult mpwf_def order_le_less)

lemma is_quo_val:
  assumes "is_quo a d 1 b" "mpwf a" "mpwf d"
  shows "mpok b \<and> mval b = sgn (mval a) * sgn (mval d) * (\<bar>mval a\<bar> div \<bar>mval d\<bar>)"
proof (cases "mtop b = 0")
  case True
  then show ?thesis
    using assms mmag_zero_iff [of b] by (auto simp: is_quo_def mval_def [of b] mmag_abs [symmetric])
next
  case False
  then have "mmag a div mmag d \<noteq> 0"
    using assms mmag_zero_iff [of b] by (auto simp: is_quo_def)
  then have "mmag a \<noteq> 0" "mmag d \<noteq> 0"
    by auto
  then have "sgn (mval a) = msign a" "sgn (mval d) = msign d"
    using sgn_mval assms(2,3) by blast+
  moreover have "msign b = msign a * msign d"
    using False assms by (auto simp: is_quo_def mpwf_def)
  ultimately show ?thesis
    using assms by (simp add: is_quo_def mval_def [of b] mmag_abs [symmetric])
qed

lemma is_rem_val:
  assumes "is_rem a d same b" "mpwf a" "mpwf d"
  shows "mpok b \<and> mval b = sgn (mval a) * (\<bar>mval a\<bar> mod \<bar>mval d\<bar>)"
proof (cases "mtop b = 0")
  case True
  then show ?thesis
    using assms mmag_zero_iff [of b] by (auto simp: is_rem_def mval_def [of b] mmag_abs [symmetric])
next
  case False
  then have "mmag a mod mmag d \<noteq> 0"
    using assms mmag_zero_iff [of b] by (auto simp: is_rem_def)
  then have "sgn (mval a) = msign a"
    using sgn_mval assms(2) by fastforce
  then show ?thesis
    using False assms by (auto simp: is_rem_def mval_def [of b] mmag_abs [symmetric] split: if_splits)
qed

lemma is_quo_sign:
  assumes "is_quo a d sg b" "mpwf a" "mpwf d"
  shows "mval b = (if msign a \<noteq> msign d then -1 else sg) * (\<bar>mval a\<bar> div \<bar>mval d\<bar>)"
proof (cases "mtop b = 0")
  case True
  then have "mmag b = 0"
    using assms(1) mmag_zero_iff [of b] by (auto simp: is_quo_def)
  then show ?thesis
    using assms by (auto simp: is_quo_def mval_def [of b] mmag_abs [symmetric])
next
  case False
  then show ?thesis
    using assms by (auto simp: is_quo_def mval_def [of b] mmag_abs [symmetric])
qed

text \<open>
  Claim C34 (functional).  Knuth's division into a quotient and a remainder that are different numbers of the store, each of which may
  also be the dividend or the divisor, where the divisor is not zero, and is positive if the quotient is the dividend: it ends, changes
  nothing but those two numbers, leaves the remainder with the sign of the dividend, and the quotient rounded towards zero with the sign
  -1 if the signs of the operands differ and otherwise the sign that the number for the quotient had before.  So the quotient is right
  if that number was positive.
\<close>

theorem mpdiv_correct:
  assumes "mpok (st dividend)" and "mpok (st divisor)" and "mval (st divisor) \<noteq> 0" and "mpwf (st q)" and "mpwf (st r)"
    and "q \<noteq> r" and "q = dividend \<longrightarrow> msign (st divisor) = 1"
  shows "\<exists>st'. mpdiv dividend divisor (Some q) (Some r) st = Inr st' \<and> (\<forall>x. x \<noteq> q \<and> x \<noteq> r \<longrightarrow> st' x = st x)
    \<and> mpok (st' q) \<and> mval (st' q) = (if msign (st dividend) \<noteq> msign (st divisor) then -1 else msign (st q)) * (\<bar>mval (st dividend)\<bar> div \<bar>mval (st divisor)\<bar>)
    \<and> (msign (st q) = 1 \<longrightarrow> mval (st' q) = sgn (mval (st dividend)) * sgn (mval (st divisor)) * (\<bar>mval (st dividend)\<bar> div \<bar>mval (st divisor)\<bar>))
    \<and> mpok (st' r) \<and> mval (st' r) = sgn (mval (st dividend)) * (\<bar>mval (st dividend)\<bar> mod \<bar>mval (st divisor)\<bar>)"
proof -
  have top: "mtop (st divisor) \<noteq> 0"
    using assms(2,3) mmag_zero_iff [of "st divisor"] by (auto simp: mval_def)
  obtain st' where st': "mpdiv dividend divisor (Some q) (Some r) st = Inr st'"
      "\<forall>x. Some q \<noteq> Some x \<and> Some r \<noteq> Some x \<longrightarrow> st' x = st x"
      "\<forall>q'. Some q = Some q' \<longrightarrow> is_quo (st dividend) (st divisor) (msign (st q')) (st' q')"
      "\<forall>r'. Some r = Some r' \<longrightarrow> is_rem (st dividend) (st divisor) (r' = dividend) (st' r')"
    using mpdiv_ok [of st dividend divisor "Some q" "Some r"] assms top by auto
  have wf: "mpwf (st dividend)" "mpwf (st divisor)"
    using mpok_wf assms(1,2) by auto
  have "is_quo (st dividend) (st divisor) (msign (st q)) (st' q)" "is_rem (st dividend) (st divisor) (r = dividend) (st' r)"
    using st'(3,4) by auto
  moreover have "mpok (st' q)"
    using calculation(1) by (simp add: is_quo_def)
  ultimately show ?thesis
    using is_quo_sign [OF _ wf] is_quo_val [OF _ wf] is_rem_val [OF _ wf] st'(1,2) by (intro exI [of _ st']) auto
qed

theorem mpdiv_correct_witness:
  "\<exists>st'. mpdiv 0 1 (Some 2) (Some 3) (\<lambda>x. if x = 0 then (mpnew 0)\<lparr>mtop := 2, digs := [7, 5] @ zeros 31\<rparr> else mptwo) = Inr st'
    \<and> mval (st' 2) = 10737418243 \<and> mval (st' 3) = 1"
proof -
  let ?st = "\<lambda>x :: nat. if x = 0 then (mpnew 0)\<lparr>mtop := 2, digs := [7, 5] @ zeros 31\<rparr> else mptwo"
  have "mpok (?st 0)" "mpok (?st 1)" "mpwf (?st 1)" "mval (?st 0) = 21474836487" "mval (?st 1) = 2" "msign (?st 1) = 1"
    by (simp_all add: mpok_def mpwf_def mval_def mmag_def mptwo_def mpnew_def DIGITS_def mpmindigits_def Dbits_def zeros_def Let_def)
  then show ?thesis
    using mpdiv_correct [of ?st 0 1 2 3] by auto
qed

text \<open>
  Property (error).  The sign of the quotient is set only when the signs of the operands differ: 2 divided by 1 into a number
  that was negative before is -2.
\<close>

theorem mpdiv_stale_sign:
  "\<exists>st'. mpdiv 0 1 (Some 2) None (\<lambda>x. if x = 0 then mptwo else if x = 1 then mpone else mpone\<lparr>msign := -1\<rparr>) = Inr st'
    \<and> mval (st' 2) = -2"
proof -
  let ?st = "\<lambda>x :: nat. if x = 0 then mptwo else if x = 1 then mpone else mpone\<lparr>msign := -1\<rparr>"
  have c: "mpok (?st 0)" "mpok (?st 1)" "mtop (?st 1) \<noteq> 0" "mpwf (?st 2)" "mmag (?st 0) = 2" "mmag (?st 1) = 1" "msign (?st 0) = 1" "msign (?st 1) = 1"
    "msign (?st 2) = -1"
    by (simp_all add: mpok_def mpwf_def mmag_def mptwo_def mpone_def)
  obtain st' where "mpdiv 0 1 (Some 2) None ?st = Inr st'" "is_quo (?st 0) (?st 1) (-1) (st' 2)"
    using mpdiv_ok [of ?st 0 1 "Some 2" None] c by auto
  then show ?thesis
    using c mmag_zero_iff [of "st' 2"] by (intro exI [of _ st']) (auto simp: is_quo_def mval_def)
qed

section \<open>mpmod\<close>

lemma mod_of_sign:
  assumes "mpwf b" "0 < (k :: int)"
  shows "msign b = 1 \<Longrightarrow> mval b mod k = mmag b mod k"
    "msign b = -1 \<Longrightarrow> mval b mod k = (if k dvd mval b then 0 else k - mmag b mod k)"
    "k dvd mval b \<longleftrightarrow> mmag b mod k = 0"
  using assms by (auto simp: mval_def zmod_zminus1_eq_if mpwf_def mod_eq_0_iff_dvd dest: dvd_imp_mod_0)

lemma mpmod_ok:
  assumes b: "mpok (st b)" "mpcan (st b)" and m: "mpok (st m)" "0 < mval (st m)" and r: "mpwf (st r)" "r \<noteq> m"
  shows "\<exists>w. mpmod b m r st = Inr (st(r := w)) \<and> mpok w \<and> mpcan w
    \<and> mval w = (if mval (st b) < 0 \<and> mval (st m) dvd mval (st b) \<and> r \<noteq> b then mval (st m) else mval (st b) mod mval (st m))"
proof -
  let ?b = "mval (st b)" and ?m = "mval (st m)"
  have mm: "mmag (st m) = ?m" "mtop (st m) \<noteq> 0"
    using m mmag_abs [OF mpok_wf [OF m(1)]] mmag_zero_iff [OF m(1)] by auto
  obtain st1 where st1: "mpdiv b m None (Some r) st = Inr st1" "\<forall>x. None \<noteq> Some x \<and> Some r \<noteq> Some x \<longrightarrow> st1 x = st x"
    "\<forall>r'. Some r = Some r' \<longrightarrow> is_rem (st b) (st m) (r' = b) (st1 r')"
    using mpdiv_ok [of st b m None "Some r"] b m r mm by auto
  define w where "w = st1 r"
  have e1: "st1 = st(r := w)"
    using st1(2) by (auto simp: w_def)
  have w: "mpok w" "mmag w = mmag (st b) mod ?m" "if r = b then mpcan w \<and> (mtop w \<noteq> 0 \<longrightarrow> msign w = msign (st b)) else msign w = msign (st b)"
    using st1(3) b(2) mm by (auto simp: is_rem_def w_def)
  note bs = mod_of_sign [OF mpok_wf [OF b(1)] m(2)]
  have sb: "msign (st b) = 1 \<or> msign (st b) = -1" "msign w = 1 \<or> msign w = -1"
    using b(1) w(1) by (auto simp: mpok_def mpwf_def)
  have neg: "?b < 0 \<longleftrightarrow> msign (st b) = -1"
    using sb(1) b mmag_nonneg [of "st b"] mmag_zero_iff [OF b(1)] by (auto simp: mval_def mpcan_def order_le_less)
  show ?thesis
  proof (cases "msign w < 0")
    case False
    then have s: "msign w = 1"
      using sb by auto
    have "mpmod b m r st = Inr (st(r := w))"
      using st1(1) False by (simp add: mpmod_def e1)
    moreover have "mval w = (if ?b < 0 \<and> ?m dvd ?b \<and> r \<noteq> b then ?m else ?b mod ?m)"
    proof (cases "msign (st b) = 1")
      case True
      then show ?thesis
        using s w(2) bs(1) neg by (simp add: mval_def [of w])
    next
      case False
      then have "r = b" "mmag w = 0"
        using s w(3) mmag_zero_iff [OF w(1)] by (auto split: if_splits)
      then show ?thesis
        using w(2) bs(3) by (simp add: mval_def [of w])
    qed
    ultimately show ?thesis
      using w(1) s by (auto simp: mpcan_def)
  next
    case True
    then have s: "msign w = -1" "msign (st b) = -1"
      using sb w(3) by (auto simp: mpcan_def split: if_splits)
    have ok: "mpok ((st(r := w)) m)" "mpok ((st(r := w)) r)" "mpwf ((st(r := w)) r)"
      using m(1) w(1) r(2) mpok_wf by auto
    obtain c where c: "mpadd m r r (st(r := w)) = Some (st(r := w, r := c))" "mpok c" "mval c = ?m + mval w"
      using mp_add.oper_ok [of "st(r := w)" m r r] ok r(2) by auto
    have val: "mval c = ?m - mmag (st b) mod ?m"
      using c(3) w(2) s by (simp add: mval_def [of w])
    have "0 < mval c"
      unfolding val using m(2) by simp
    then have "mpcan c"
      using mmag_zero_iff [OF c(2)] by (auto simp: mpcan_def mval_def)
    moreover have "mpmod b m r st = Inr (st(r := c))"
      using st1(1) True c(1) by (simp add: mpmod_def e1)
    moreover have "r \<noteq> b" if "?m dvd ?b"
      using that w s bs(3) mmag_zero_iff [OF w(1)] by (auto simp: mpcan_def)
    moreover have "mval c = (if ?m dvd ?b then ?m else ?b mod ?m)"
      using val bs(2,3) s(2) by auto
    ultimately show ?thesis
      using c(2) neg s(2) by auto
  qed
qed

text \<open>
  Property (functional).  \<open>mpmod\<close> for a positive modulus, in any number but the modulus: the result is the number modulo the
  modulus, except that a negative multiple of the modulus, unless reduced in place, gives the modulus itself
  instead of zero.
\<close>

theorem mpmod_correct:
  assumes "mpok (st b)" and "mpcan (st b)" and "mpok (st m)" and "0 < mval (st m)" and "mpwf (st r)" and "r \<noteq> m"
  shows "\<exists>w. mpmod b m r st = Inr (st(r := w)) \<and> mpok w \<and> mpcan w
    \<and> mval w = (if mval (st b) < 0 \<and> mval (st m) dvd mval (st b) \<and> r \<noteq> b then mval (st m) else mval (st b) mod mval (st m))"
  by (rule mpmod_ok [OF assms])

theorem mpmod_correct_witness:
  "\<exists>w. mpmod 0 1 2 (\<lambda>x. if x = 0 then mptwo\<lparr>msign := -1\<rparr> else mptwo) =
      Inr ((\<lambda>x. if x = 0 then mptwo\<lparr>msign := -1\<rparr> else mptwo)(2 := w)) \<and> mval w = 2"
proof -
  let ?st = "\<lambda>x :: nat. if x = 0 then mptwo\<lparr>msign := -1\<rparr> else mptwo"
  have "mpok (?st 0)" "mpcan (?st 0)" "mpok (?st 1)" "mpwf (?st 2)" "mval (?st 0) = -2" "mval (?st 1) = 2"
    by (simp_all add: mpok_def mpwf_def mpcan_def mval_def mmag_def mptwo_def)
  then show ?thesis
    using mpmod_correct [of ?st 0 1 2] by auto
qed

end
