(* ===== verification/Mp_Exp.thy ===== *)
theory Mp_Exp
  imports Mp_Div
begin

text \<open>
  Modular exponentiation and Euclid's algorithm on multiple precision numbers: \<^verbatim>\<open>mpexp.c\<close> and \<^verbatim>\<open>mpeuclid.c\<close> of
  \<^verbatim>\<open>src/libmp/port\<close>.  The numbers that these functions allocate are cells of a local store, apart from the
  numbers of the caller.
\<close>

section \<open>Exponentiation\<close>

text \<open>The numbers \<open>t[0]\<close>, \<open>t[1]\<close>, \<open>b\<close> and \<open>m\<close> of \<open>mpexp\<close> are cells 0 to 3 of a local store.\<close>

definition exp_square :: "mpdigit \<Rightarrow> mpdigit \<Rightarrow> nat \<Rightarrow> mpstore \<Rightarrow> (nat \<times> mpstore) option" where
  "exp_square d bt j st =
     (case mpmul j j (1 - j) st of
        None \<Rightarrow> None
      | Some st \<Rightarrow>
          if bt AND d \<noteq> 0 then map_option (\<lambda>st. (j, st)) (mpmul (1 - j) 2 j st) else Some (1 - j, st))"

definition exp_reduce :: "nat \<times> mpstore \<Rightarrow> mperr + nat \<times> mpstore" where
  "exp_reduce js =
     (case js of (j, st) \<Rightarrow> (case mpmod j 3 (1 - j) st of Inl e \<Rightarrow> Inl e | Inr st \<Rightarrow> Inr (1 - j, st)))"

lemma drop_1_less: "(bt :: mpdigit) \<noteq> 0 \<Longrightarrow> unat (drop_bit 1 bt) < unat bt"
  by (simp add: drop_bit_eq_div unat_div unat_gt_0)

function exp_bits :: "bool \<Rightarrow> mpdigit \<Rightarrow> mpdigit \<Rightarrow> nat \<times> mpstore \<Rightarrow> mperr + nat \<times> mpstore" where
  "exp_bits hasm d bt js =
     (if bt = 0 then Inr js
      else (case exp_square d bt (fst js) (snd js) of
          None \<Rightarrow> Inl Failed_assert
        | Some (j, st) \<Rightarrow>
            (case (if hasm \<and> mtop (st j) > mtop (st 3) then exp_reduce (j, st) else Inr (j, st)) of
               Inl e \<Rightarrow> Inl e
             | Inr js \<Rightarrow> exp_bits hasm d (drop_bit 1 bt) js)))"
  by pat_completeness auto
termination
  by (relation "measure (\<lambda>(hasm, d, bt, js). unat bt)") (auto simp: drop_1_less [unfolded One_nat_def])

declare exp_bits.simps [simp del]

text \<open>The digits of the exponent below the first one, from the most significant down.\<close>

fun exp_digits :: "bool \<Rightarrow> mpdigit list \<Rightarrow> nat \<times> mpstore \<Rightarrow> mperr + nat \<times> mpstore" where
  "exp_digits hasm [] js = Inr js"
| "exp_digits hasm (d # ds) js =
     (case exp_bits hasm d mpdighi js of Inl e \<Rightarrow> Inl e | Inr js \<Rightarrow> exp_digits hasm ds js)"

text \<open>\<open>for(bit = mpdighi; (bit & d) == 0; bit >>= 1)\<close>: after 32 rounds \<open>bit\<close> is zero and the loop never ends.\<close>

fun top_bit :: "nat \<Rightarrow> mpdigit \<Rightarrow> mpdigit \<Rightarrow> mpdigit option" where
  "top_bit 0 bt d = None"
| "top_bit (Suc n) bt d = (if bt AND d = 0 then top_bit n (drop_bit 1 bt) d else Some bt)"

definition mpexp :: "nat \<Rightarrow> nat \<Rightarrow> nat option \<Rightarrow> nat \<Rightarrow> mpstore \<Rightarrow> mperr + mpstore" where
  "mpexp b e m res st =
     (let i = mpcmp (st e) mpzero in
      if i = 0 then Inr (st(res := mpassign mpone (st res)))
      else if i < 0 then Inl Negative
      else
        let own = (\<lambda>x. if res = x then mpcopy (st x) else st x);
            loc = (\<lambda>_. mpzero)(0 := mpcopy (st b), 1 := st res, 2 := own b,
              3 := (case m of None \<Rightarrow> mpzero | Some m \<Rightarrow> own m));
            hasm = (m \<noteq> None);
            i = mtop (own e) - 1;
            d = digs (own e) ! i
        in case top_bit Dbits mpdighi d of
             None \<Rightarrow> Inl Forever
           | Some bt \<Rightarrow>
               (case exp_bits hasm d (drop_bit 1 bt) (0, loc) of
                  Inl e \<Rightarrow> Inl e
                | Inr js \<Rightarrow>
                    (case exp_digits hasm (rev (take i (digs (own e)))) js of
                       Inl e \<Rightarrow> Inl e
                     | Inr js \<Rightarrow>
                         (case (if hasm then exp_reduce js else Inr js) of
                            Inl e \<Rightarrow> Inl e
                          | Inr (j, loc) \<Rightarrow>
                              Inr (st(res := (if j = 1 then loc 1 else mpassign (loc 0) (loc 1))))))))"

section \<open>Euclid's algorithm\<close>

text \<open>The pointers of \<open>mpeuclid\<close>, which its loop rotates, as addresses in a local store.\<close>

record euclid =
  ea :: nat
  eb :: nat
  er :: nat
  ex0 :: nat
  ex1 :: nat
  ex2 :: nat
  ey0 :: nat
  ey1 :: nat
  ey2 :: nat

text \<open>The number \<open>q\<close> is cell 9.\<close>

definition euclid_round :: "euclid \<Rightarrow> mpstore \<Rightarrow> mperr + mpstore" where
  "euclid_round p st =
     (case mpdiv (ea p) (eb p) (Some 9) (Some (er p)) st of
        Inl e \<Rightarrow> Inl e
      | Inr st \<Rightarrow>
          (case mpmul 9 (ex1 p) (ex0 p) st of None \<Rightarrow> Inl Failed_assert | Some st \<Rightarrow>
          (case mpsub (ex2 p) (ex0 p) (ex0 p) st of None \<Rightarrow> Inl Failed_assert | Some st \<Rightarrow>
          (case mpmul 9 (ey1 p) (ey0 p) st of None \<Rightarrow> Inl Failed_assert | Some st \<Rightarrow>
          (case mpsub (ey2 p) (ey0 p) (ey0 p) st of None \<Rightarrow> Inl Failed_assert | Some st \<Rightarrow> Inr st)))))"

definition euclid_rotate :: "euclid \<Rightarrow> euclid" where
  "euclid_rotate p =
     p\<lparr>ea := eb p, eb := er p, er := ea p, ex2 := ex1 p, ex1 := ex0 p, ex0 := ex2 p,
       ey2 := ey1 p, ey1 := ey0 p, ey0 := ey2 p\<rparr>"

fun euclid_loop :: "nat \<Rightarrow> euclid \<Rightarrow> mpstore \<Rightarrow> mperr + euclid \<times> mpstore" where
  "euclid_loop 0 p st = Inl Forever"
| "euclid_loop (Suc n) p st =
     (if mtop (st (eb p)) \<noteq> 0 \<and> msign (st (eb p)) > 0 then
        (case euclid_round p st of Inl e \<Rightarrow> Inl e | Inr st \<Rightarrow> euclid_loop n (euclid_rotate p) st)
      else Inr (p, st))"

definition euclid_start :: "mpint \<Rightarrow> mpint \<Rightarrow> mpstore" where
  "euclid_start a b =
     (\<lambda>_. mpnew 0)(0 := mpcopy a, 1 := mpcopy b, 4 := mpcopy mpzero, 5 := mpcopy mpone, 7 := mpcopy mpone, 8 := mpcopy mpzero)"

definition euclid_ptrs :: euclid where
  "euclid_ptrs = \<lparr>ea = 0, eb = 1, er = 2, ex0 = 3, ex1 = 4, ex2 = 5, ey0 = 6, ey1 = 7, ey2 = 8\<rparr>"

text \<open>What follows the exchange of the operands.  The fuel is the value of the smaller number and one.\<close>

definition euclid_main :: "nat \<Rightarrow> nat \<Rightarrow> nat \<Rightarrow> nat \<Rightarrow> nat \<Rightarrow> mpstore \<Rightarrow> mperr + mpstore" where
  "euclid_main a b d x y st =
     (if mtop (st b) = 0 then
        let st = mpassign_at a d st;
            st = st(x := mpassign mpone (st x))
        in Inr (st(y := mpassign mpzero (st y)))
      else
        (case euclid_loop (Suc (nat (mmag (st b)))) euclid_ptrs (euclid_start (st a) (st b)) of
           Inl e \<Rightarrow> Inl e
         | Inr (p, loc) \<Rightarrow>
             let st = st(d := mpassign (loc (ea p)) (st d));
                 st = st(x := mpassign (loc (ex2 p)) (st x))
             in Inr (st(y := mpassign (loc (ey2 p)) (st y)))))"

definition mpeuclid :: "nat \<Rightarrow> nat \<Rightarrow> nat \<Rightarrow> nat \<Rightarrow> nat \<Rightarrow> mpstore \<Rightarrow> mperr + mpstore" where
  "mpeuclid a b d x y st =
     (if msign (st a) < 0 \<or> msign (st b) < 0 then Inl Negative
      else if mpcmp (st a) (st b) < 0 then euclid_main b a d y x st
      else euclid_main a b d x y st)"

section \<open>Correctness of mpexp\<close>

lemma mpcopy_ok:
  assumes "mpok b"
  shows "mpok (mpcopy b)" "mtop (mpcopy b) = mtop b" "msign (mpcopy b) = msign b" "vec (mpcopy b) = vec b" "mmag (mpcopy b) = mmag b"
proof -
  define n where "n = mpnew (Dbits * msize b)"
  have n: "length (digs n) = msize n" "msize b \<le> msize n" "MPtimesafe \<notin> mflags n"
    using mpnew_wf [of "Dbits * msize b"] mpnew_size [of "Dbits * msize b"] by (simp_all add: n_def mpwf_def)
  have e: "mpcopy b = n\<lparr>msign := msign b, mtop := mtop b, mflags := mflags b - {MPstatic, MPfield}, digs := take (mtop b) (digs b) @ drop (mtop b) (digs n)\<rparr>"
    by (simp add: mpcopy_def n_def Let_def)
  show "mpok (mpcopy b)" "mtop (mpcopy b) = mtop b" "msign (mpcopy b) = msign b" "vec (mpcopy b) = vec b" "mmag (mpcopy b) = mmag b"
    using assms n by (auto simp: e mpok_def mpwf_def mmag_def nth_append)
qed

lemma mpcopy_val: "mpok b \<Longrightarrow> mval (mpcopy b) = mval b"
  by (simp add: mval_def mpcopy_ok)

lemma flip_index:
  "(j :: nat) < 2 \<Longrightarrow> 1 - j \<noteq> j" "j < 2 \<Longrightarrow> 1 - j < 2" "j < 2 \<Longrightarrow> 1 - (1 - j) = j" "j < 2 \<Longrightarrow> 1 - j \<noteq> 2"
  "j < 2 \<Longrightarrow> 1 - j \<noteq> 3" "j < 2 \<Longrightarrow> j \<noteq> 2" "j < 2 \<Longrightarrow> j \<noteq> 3"
  by (auto simp: less_2_cases_iff)

text \<open>\<open>k\<close> is the part of the exponent that has been used.\<close>

definition exp_inv :: "bool \<Rightarrow> mpint \<Rightarrow> mpint \<Rightarrow> nat \<Rightarrow> nat \<times> mpstore \<Rightarrow> bool" where
  "exp_inv hasm b m k = (\<lambda>(j, st). j < 2 \<and> st 2 = b \<and> st 3 = m \<and> mpok (st j) \<and> mpcan (st j) \<and> mpwf (st (1 - j))
     \<and> 0 \<le> mval (st j) \<and> (if hasm then mval (st j) mod mval m = mval b ^ k mod mval m else mval (st j) = mval b ^ k))"

lemma exp_square_ok:
  assumes inv: "exp_inv hasm b m k (j, st)" and b: "mpok b" "mpcan b" "0 \<le> mval b"
  shows "\<exists>js. exp_square d bt j st = Some js \<and> exp_inv hasm b m (2 * k + (if bt AND d \<noteq> 0 then 1 else 0)) js"
proof -
  have i: "j < 2" "st 2 = b" "st 3 = m" "mpok (st j)" "mpcan (st j)" "mpwf (st (1 - j))" "0 \<le> mval (st j)"
    "if hasm then mval (st j) mod mval m = mval b ^ k mod mval m else mval (st j) = mval b ^ k"
    using inv by (simp_all add: exp_inv_def)
  note j = flip_index [OF i(1)]
  obtain c where c: "mpmul j j (1 - j) st = Some (st(1 - j := c))" "mpok c" "mval c = mval (st j) * mval (st j)" "mpcan c"
    using mp_mul.oper_ok [OF i(4,4,6)] i(5) by blast
  have sq: "if hasm then mval c mod mval m = mval b ^ (2 * k) mod mval m else mval c = mval b ^ (2 * k)"
    using i(8) mod_mult_cong [of "mval (st j)" "mval m" "mval b ^ k" "mval (st j)" "mval b ^ k"]
    by (auto simp: c(3) mult_2 power_add)
  show ?thesis
  proof (cases "bt AND d \<noteq> 0")
    case False
    then have "exp_square d bt j st = Some (1 - j, st(1 - j := c))"
      using c(1) by (simp add: exp_square_def)
    then show ?thesis
      using False c i j sq by (auto simp: exp_inv_def mpok_wf)
  next
    case True
    let ?s = "st(1 - j := c)"
    have "mpok (?s (1 - j))" "mpok (?s 2)" "mpwf (?s j)"
      using c(2) i b j mpok_wf by auto
    then obtain g where g: "mpmul (1 - j) 2 j ?s = Some (?s(j := g))" "mpok g" "mval g = mval c * mval b" "mpcan g"
      using mp_mul.oper_ok [of ?s "1 - j" 2 j] i(2) j c(4) b(2) by auto
    have "exp_square d bt j st = Some (j, ?s(j := g))"
      using c(1) g(1) True by (simp add: exp_square_def)
    moreover have "if hasm then mval g mod mval m = mval b ^ (2 * k + 1) mod mval m else mval g = mval b ^ (2 * k + 1)"
      using sq mod_mult_cong [of "mval c" "mval m" "mval b ^ (2 * k)" "mval b" "mval b"]
      by (auto simp: g(3) power_add mult.commute)
    moreover have "0 \<le> mval g"
      using i(7) b(3) by (simp add: g(3) c(3))
    ultimately show ?thesis
      using True c g i j by (auto simp: exp_inv_def mpok_wf)
  qed
qed

lemma exp_reduce_ok:
  assumes inv: "exp_inv True b m k js" and m: "mpok m" "0 < mval m"
  shows "\<exists>js'. exp_reduce js = Inr js' \<and> exp_inv True b m k js' \<and> mval (snd js' (fst js')) = mval b ^ k mod mval m"
proof -
  obtain j st where js: "js = (j, st)"
    by force
  have i: "j < 2" "st 2 = b" "st 3 = m" "mpok (st j)" "mpcan (st j)" "mpwf (st (1 - j))" "0 \<le> mval (st j)"
    "mval (st j) mod mval m = mval b ^ k mod mval m"
    using inv by (simp_all add: exp_inv_def js)
  note j = flip_index [OF i(1)]
  obtain w where w: "mpmod j 3 (1 - j) st = Inr (st(1 - j := w))" "mpok w" "mpcan w" "mval w = mval (st j) mod mval m"
    using mpmod_ok [of st j 3 "1 - j"] m i j by auto
  have "exp_reduce js = Inr (1 - j, st(1 - j := w))"
    using w(1) by (simp add: exp_reduce_def js)
  then show ?thesis
    using w i j m by (auto simp: exp_inv_def mpok_wf)
qed

lemma exp_round_ok:
  assumes inv: "exp_inv hasm b m k js" and b: "mpok b" "mpcan b" "0 \<le> mval b" and m: "hasm \<Longrightarrow> mpok m \<and> 0 < mval m"
    and bt: "bt \<noteq> 0"
  shows "\<exists>js'. exp_bits hasm d bt js = exp_bits hasm d (drop_bit 1 bt) js' \<and> exp_inv hasm b m (2 * k + (if bt AND d \<noteq> 0 then 1 else 0)) js'"
proof -
  obtain j st where js: "js = (j, st)"
    by force
  obtain j1 s1 where s: "exp_square d bt j st = Some (j1, s1)" and i1: "exp_inv hasm b m (2 * k + (if bt AND d \<noteq> 0 then 1 else 0)) (j1, s1)"
    using exp_square_ok [OF inv [unfolded js] b, of d bt] by auto
  show ?thesis
  proof (cases "hasm \<and> mtop (s1 j1) > mtop (s1 3)")
    case True
    then have "mpok m" "0 < mval m" "exp_inv True b m (2 * k + (if bt AND d \<noteq> 0 then 1 else 0)) (j1, s1)"
      using m i1 by simp_all
    note exp_reduce_ok [OF this(3,1,2)]
    then obtain js' where "exp_reduce (j1, s1) = Inr js'" "exp_inv hasm b m (2 * k + (if bt AND d \<noteq> 0 then 1 else 0)) js'"
      using True by auto
    then show ?thesis
      using True s bt by (intro exI [of _ js'], subst exp_bits.simps) (simp add: js)
  next
    case False
    then show ?thesis
      using i1 s bt by (intro exI [of _ "(j1, s1)"], subst exp_bits.simps) (auto simp: js)
  qed
qed


lemma bit_and_exp: "n < 32 \<Longrightarrow> (push_bit n 1 :: mpdigit) AND d \<noteq> 0 \<longleftrightarrow> odd (unat d div 2 ^ n)"
proof -
  have "(push_bit n 1 :: mpdigit) AND d = 0 \<longleftrightarrow> \<not> bit d n"
    using and_exp_eq_0_iff_not_bit [of d n] by (simp add: push_bit_eq_mult and.commute)
  moreover have "bit d n \<longleftrightarrow> bit (unat d) n" if "n < 32"
    using that by (simp add: bit_unsigned_iff)
  ultimately show "n < 32 \<Longrightarrow> ?thesis"
    by (simp add: bit_iff_odd [of "unat d"])
qed

lemma bit_exp_shift:
  assumes "c < 32"
  shows "(push_bit c 1 :: mpdigit) \<noteq> 0" "drop_bit 1 (push_bit c 1 :: mpdigit) = (if c = 0 then 0 else push_bit (c - 1) 1)"
proof -
  show "(push_bit c 1 :: mpdigit) \<noteq> 0"
    using assms by (simp add: push_bit_eq_mult)
  show "drop_bit 1 (push_bit c 1 :: mpdigit) = (if c = 0 then 0 else push_bit (c - 1) 1)"
    using assms by (cases c) (auto intro!: bit_word_eqI simp: bit_simps)
qed

lemma exp_bits_ok:
  assumes b: "mpok b" "mpcan b" "0 \<le> mval b" and m: "hasm \<Longrightarrow> mpok m \<and> 0 < mval m"
  shows "\<lbrakk>c \<le> 32; bt = (if c = 0 then 0 else push_bit (c - 1) 1); exp_inv hasm b m k js\<rbrakk>
    \<Longrightarrow> \<exists>js'. exp_bits hasm d bt js = Inr js' \<and> exp_inv hasm b m (k * 2 ^ c + unat d mod 2 ^ c) js'"
proof (induction c arbitrary: bt k js)
  case 0
  then show ?case
    by (subst exp_bits.simps) simp
next
  case (Suc c)
  have c: "c < 32" and bt: "bt = push_bit c 1"
    using Suc.prems(1,2) by simp_all
  note bt = bt bit_exp_shift [OF c, folded bt]
  note nx = bt(3)
  obtain js' where js': "exp_bits hasm d bt js = exp_bits hasm d (drop_bit 1 bt) js'"
      "exp_inv hasm b m (2 * k + (if bt AND d \<noteq> 0 then 1 else 0)) js'"
    using exp_round_ok [OF Suc.prems(3) b m bt(2)] by blast
  have "unat d mod 2 ^ Suc c = (if bt AND d \<noteq> 0 then 1 else 0) * 2 ^ c + unat d mod 2 ^ c"
  proof -
    have "unat d mod (2 ^ c * 2) = 2 ^ c * (unat d div 2 ^ c mod 2) + unat d mod 2 ^ c"
      by (rule mod_mult2_eq)
    moreover have "unat d div 2 ^ c mod 2 = (if bt AND d \<noteq> 0 then 1 else 0)"
      unfolding bt(1) bit_and_exp [OF c] by presburger
    ultimately show ?thesis
      by (simp only: power_Suc mult.commute)
  qed
  then have e: "(2 * k + (if bt AND d \<noteq> 0 then 1 else 0)) * 2 ^ c + unat d mod 2 ^ c = k * 2 ^ Suc c + unat d mod 2 ^ Suc c"
    by (simp only: power_Suc distrib_right) (simp only: ac_simps)?
  show ?case
    unfolding js'(1) e [symmetric] by (rule Suc.IH [OF less_imp_le [OF c] nx js'(2)])
qed


lemma unat_digit: "unat (d :: mpdigit) < 4294967296"
  by (subst unat_eq_nat_uint) (use digit_lt [of d] in linarith)

lemma mpdighi_push: "mpdighi = (if (32 :: nat) = 0 then 0 else push_bit (32 - 1) 1)"
  by (simp add: mpdighi_def Dbits_def)

lemma exp_digits_ok:
  assumes b: "mpok b" "mpcan b" "0 \<le> mval b" and m: "hasm \<Longrightarrow> mpok m \<and> 0 < mval m"
  shows "exp_inv hasm b m k js
    \<Longrightarrow> \<exists>js'. exp_digits hasm ds js = Inr js' \<and> exp_inv hasm b m (k * 2 ^ (32 * length ds) + nat (mpval (rev ds))) js'"
proof (induction ds arbitrary: k js)
  case Nil
  then show ?case
    by simp
next
  case (Cons d ds)
  have lt: "unat d < 4294967296"
    by (rule unat_digit)
  obtain js' where js': "exp_bits hasm d mpdighi js = Inr js'" "exp_inv hasm b m (k * 4294967296 + unat d) js'"
    using exp_bits_ok [OF b m _ mpdighi_push Cons.prems, of d] lt by auto
  have "nat (mpval (rev (d # ds))) = nat (mpval (rev ds)) + 2 ^ (32 * length ds) * unat d"
    by (simp add: mpval_append nat_add_distrib nat_mult_distrib nat_power_eq)
  then have "(k * 4294967296 + unat d) * 2 ^ (32 * length ds) + nat (mpval (rev ds))
      = k * 2 ^ (32 * length (d # ds)) + nat (mpval (rev (d # ds)))"
    by (simp add: power_add algebra_simps)
  then show ?case
    using Cons.IH [OF js'(2)] js'(1) by auto
qed

lemma top_bit_ok:
  "\<lbrakk>n \<le> 32; bt = (if n = 0 then 0 else push_bit (n - 1) 1); d \<noteq> 0; unat d < 2 ^ n\<rbrakk>
    \<Longrightarrow> \<exists>t < 32. top_bit n bt d = Some (push_bit t 1) \<and> 2 ^ t \<le> unat d \<and> unat d < 2 ^ Suc t"
proof (induction n arbitrary: bt)
  case 0
  then show ?case
    by (simp add: word_unat_eq_iff)
next
  case (Suc n)
  have n: "n < 32" and bt: "bt = push_bit n 1"
    using Suc.prems(1,2) by simp_all
  have half: "bt AND d \<noteq> 0 \<longleftrightarrow> 2 ^ n \<le> unat d"
  proof -
    have "unat d div 2 ^ n < 2"
      using Suc.prems(4) by (simp add: div_less_iff_less_mult mult.commute)
    then have "unat d div 2 ^ n = 0 \<or> unat d div 2 ^ n = 1"
      by linarith
    then show ?thesis
      unfolding bt bit_and_exp [OF n] using div_greater_zero_iff [of "unat d" "2 ^ n"] by auto
  qed
  show ?case
  proof (cases "bt AND d = 0")
    case True
    have "drop_bit 1 bt = (if n = 0 then 0 else push_bit (n - 1) 1)"
      using bit_exp_shift(2) [OF n] by (simp add: bt)
    then show ?thesis
      using Suc.IH [of "drop_bit 1 bt"] Suc.prems True half n by auto
  next
    case False
    then show ?thesis
      using half n bt Suc.prems(4) by auto
  qed
qed

text \<open>A number that \<open>mpexp\<close> reads: a copy if it is also the result.\<close>

lemma own_ok:
  fixes r :: nat
  assumes "mpok (st x)"
  defines "own \<equiv> (if r = x then mpcopy (st x) else st x)"
  shows "mpok own" "mval own = mval (st x)" "mmag own = mmag (st x)" "mtop own = mtop (st x)" "vec own = vec (st x)"
    "mpcan (st x) \<Longrightarrow> mpcan own"
  using assms mpcopy_ok [OF assms(1)] mpcopy_val [OF assms(1)] by (auto simp: own_def mpcan_def)

lemma mpexp_loop_ok:
  assumes b: "mpok b" "mpcan b" "0 \<le> mval b" and m: "hasm \<Longrightarrow> mpok m \<and> 0 < mval m"
    and e: "mpok e" "mtop e \<noteq> 0" and inv: "exp_inv hasm b m 1 js"
  defines "i \<equiv> mtop e - 1"
  shows "\<exists>bt js1 js2. top_bit Dbits mpdighi (digs e ! i) = Some bt \<and> exp_bits hasm (digs e ! i) (drop_bit 1 bt) js = Inr js1
    \<and> exp_digits hasm (rev (take i (digs e))) js1 = Inr js2 \<and> exp_inv hasm b m (nat (mmag e)) js2"
proof -
  let ?d = "digs e ! i"
  have d: "?d \<noteq> 0"
    using e by (simp add: mpok_def i_def)
  have "unat ?d < 2 ^ 32"
    using unat_digit [of ?d] by simp
  then obtain t where t: "t < 32" "top_bit Dbits mpdighi ?d = Some (push_bit t 1)" "2 ^ t \<le> unat ?d" "unat ?d < 2 ^ Suc t"
    using top_bit_ok [OF _ mpdighi_push d] by (auto simp: Dbits_def)
  obtain js1 where js1: "exp_bits hasm ?d (drop_bit 1 (push_bit t 1)) js = Inr js1" "exp_inv hasm b m (1 * 2 ^ t + unat ?d mod 2 ^ t) js1"
    using exp_bits_ok [OF b m _ bit_exp_shift(2) [OF t(1)] inv, of ?d] t(1) by auto
  have k: "1 * 2 ^ t + unat ?d mod 2 ^ t = unat ?d"
  proof -
    have "unat ?d mod 2 ^ t = unat ?d - 2 ^ t"
      using t(3,4) by (simp add: le_mod_geq)
    then show ?thesis
      using t(3) by simp
  qed
  obtain js2 where js2: "exp_digits hasm (rev (take i (digs e))) js1 = Inr js2"
      "exp_inv hasm b m (unat ?d * 2 ^ (32 * length (rev (take i (digs e)))) + nat (mpval (rev (rev (take i (digs e)))))) js2"
    using exp_digits_ok [OF b m js1(2) [unfolded k]] by blast
  have "length (take i (digs e)) = i" "mmag e = mpval (take i (digs e)) + 2 ^ (32 * i) * uint ?d"
    using e mpval_take_Suc [of i "digs e"] by (auto simp: mmag_def i_def mpok_def mpwf_def)
  then have "unat ?d * 2 ^ (32 * length (rev (take i (digs e)))) + nat (mpval (rev (rev (take i (digs e))))) = nat (mmag e)"
    by (simp add: nat_add_distrib nat_mult_distrib nat_power_eq)
  then show ?thesis
    using t(2) js1(1) js2 by (intro exI [of _ "push_bit t 1"] exI [of _ js1] exI [of _ js2]) simp
qed

lemma exp_result_ok:
  assumes "exp_inv hasm b m k (j, st)"
  shows "mpok (if j = 1 then st 1 else mpassign (st 0) (st 1)) \<and> mval (if j = 1 then st 1 else mpassign (st 0) (st 1)) = mval (st j)"
proof (cases "j = 1")
  case False
  then have "mpok (st 0)" "mpwf (st 1)" "j = 0"
    using assms by (auto simp: exp_inv_def less_2_cases_iff)
  then show ?thesis
    using mpassign_ok [of "st 0" "st 1"] by (simp add: mval_def)
qed (use assms in \<open>auto simp: exp_inv_def\<close>)

lemma exp_last_ok:
  assumes inv: "exp_inv hasm b m k js" and m: "hasm \<Longrightarrow> mpok m \<and> 0 < mval m"
  shows "\<exists>j st. (if hasm then exp_reduce js else Inr js) = Inr (j, st) \<and> exp_inv hasm b m k (j, st)
    \<and> mval (st j) = (if hasm then mval b ^ k mod mval m else mval b ^ k)"
proof (cases hasm)
  case True
  then show ?thesis
    using exp_reduce_ok [of b m k js] inv m by auto
next
  case False
  then show ?thesis
    using inv by (cases js) (auto simp: exp_inv_def)
qed

text \<open>
  Claim C35 (functional).  \<open>mpexp\<close> with or without a modulus, the result in any number, one of the operands included: for a base that
  is not negative, an exponent above zero and a positive modulus it ends and leaves the power, reduced by the
  modulus, in the result.  An exponent of zero gives 1 whatever the modulus, and a negative one is refused.
\<close>

theorem mpexp_correct:
  assumes "mpok (st b)" and "mpcan (st b)" and "0 \<le> mval (st b)" and "mpok (st e)" and "mpcan (st e)" and "mpwf (st r)"
    and "pred_option (\<lambda>m. mpok (st m) \<and> 0 < mval (st m)) mo"
  shows "if mval (st e) < 0 then mpexp b e mo r st = Inl Negative
    else \<exists>w. mpexp b e mo r st = Inr (st(r := w)) \<and> mpok w
      \<and> mval w = (if mval (st e) = 0 then 1
          else case mo of None \<Rightarrow> mval (st b) ^ nat (mval (st e)) | Some m \<Rightarrow> mval (st b) ^ nat (mval (st e)) mod mval (st m))"
proof -
  have cmp: "sgn (mpcmp (st e) mpzero) = sgn (mval (st e))"
    using mpcmp_sgn [of "st e" mpzero] assms(4,5) mpok_consts by simp
  consider "mval (st e) = 0" | "mval (st e) < 0" | "0 < mval (st e)"
    by linarith
  then show ?thesis
  proof cases
    case 1
    then have "mpcmp (st e) mpzero = 0"
      using cmp by (simp add: sgn_if split: if_splits)
    then have "mpexp b e mo r st = Inr (st(r := mpassign mpone (st r)))"
      by (simp add: mpexp_def)
    then show ?thesis
      using 1 mpassign_ok [OF mpok_consts(2) assms(6)] mpok_consts(6) by (auto simp: mval_def [of mpone] mval_def [of "mpassign mpone (st r)"])
  next
    case 2
    then have "mpcmp (st e) mpzero < 0"
      using cmp by (simp add: sgn_if split: if_splits)
    then show ?thesis
      using 2 by (simp add: mpexp_def)
  next
    case 3
    then have c: "\<not> mpcmp (st e) mpzero = 0" "\<not> mpcmp (st e) mpzero < 0"
      using cmp by (auto simp: sgn_if split: if_splits)
    define own where "own = (\<lambda>x. if r = x then mpcopy (st x) else st x)"
    define mv where "mv = (case mo of None \<Rightarrow> mpzero | Some m \<Rightarrow> own m)"
    define loc :: mpstore where "loc = (\<lambda>_. mpzero)(0 := mpcopy (st b), 1 := st r, 2 := own b, 3 := mv)"
    have ob: "mpok (own b)" "mpcan (own b)" "mval (own b) = mval (st b)"
      using own_ok [of st b, OF assms(1), of r] assms(2) by (simp_all add: own_def)
    have oe: "mpok (own e)" "mmag (own e) = mval (st e)" "mtop (own e) \<noteq> 0"
      using own_ok [of st e, OF assms(4), of r] 3 mmag_abs [OF mpok_wf [OF assms(4)]] mmag_zero_iff [OF assms(4)] by (auto simp: own_def)
    have om: "mo \<noteq> None \<Longrightarrow> mpok mv \<and> 0 < mval mv" "mo = Some m \<Longrightarrow> mval mv = mval (st m)" for m
      using assms(7) own_ok(1,2) [of st _ r] by (cases mo; auto simp: mv_def own_def)+
    have inv: "exp_inv (mo \<noteq> None) (own b) mv 1 (0, loc)"
      using mpcopy_ok [OF assms(1)] mpcopy_val [OF assms(1)] assms(2,3,6) ob(3) by (auto simp: exp_inv_def loc_def mpcan_def)
    have b3: "0 \<le> mval (own b)"
      using ob(3) assms(3) by simp
    obtain bt js1 js2 where l: "top_bit Dbits mpdighi (digs (own e) ! (mtop (own e) - 1)) = Some bt"
        "exp_bits (mo \<noteq> None) (digs (own e) ! (mtop (own e) - 1)) (drop_bit 1 bt) (0, loc) = Inr js1"
        "exp_digits (mo \<noteq> None) (rev (take (mtop (own e) - 1) (digs (own e)))) js1 = Inr js2"
        "exp_inv (mo \<noteq> None) (own b) mv (nat (mmag (own e))) js2"
      using mpexp_loop_ok [OF ob(1,2) b3 om(1) oe(1,3) inv] by blast
    obtain j l' where r: "(if mo \<noteq> None then exp_reduce js2 else Inr js2) = Inr (j, l')"
        "exp_inv (mo \<noteq> None) (own b) mv (nat (mval (st e))) (j, l')"
        "mval (l' j) = (case mo of None \<Rightarrow> mval (st b) ^ nat (mval (st e)) | Some m \<Rightarrow> mval (st b) ^ nat (mval (st e)) mod mval (st m))"
      using exp_last_ok [OF l(4) om(1)] om(2) ob(3) oe(2) by (auto split: option.splits)
    have "mpexp b e mo r st = Inr (st(r := (if j = 1 then l' 1 else mpassign (l' 0) (l' 1))))"
      unfolding mpexp_def Let_def own_def [symmetric] mv_def [symmetric] loc_def [symmetric]
      using c l(1-3) r(1) by simp
    then show ?thesis
      using exp_result_ok [OF r(2)] r(3) 3 by (auto split: option.split)
  qed
qed


theorem mpexp_correct_witness:
  "\<exists>w. mpexp 0 0 (Some 1) 0 (\<lambda>x. if x = 1 then mpone else mptwo) = Inr ((\<lambda>x. if x = 1 then mpone else mptwo)(0 := w)) \<and> mval w = 0"
proof -
  let ?st = "\<lambda>x :: nat. if x = 1 then mpone else mptwo"
  have "mpok (?st 0)" "mpcan (?st 0)" "mval (?st 0) = 2" "mpwf (?st 0)" "mpok (?st 1)" "mval (?st 1) = 1"
    by (simp_all add: mpok_def mpwf_def mpcan_def mval_def mmag_def mptwo_def mpone_def)
  then show ?thesis
    using mpexp_correct [of ?st 0 0 0 "Some 1"] by auto
qed

section \<open>Correctness of mpeuclid\<close>

text \<open>The pointers are distinct and below 9; \<open>A\<close> and \<open>B\<close> are the numbers the algorithm started with.\<close>

definition ptrs :: "euclid \<Rightarrow> nat list" where
  "ptrs p = [ea p, eb p, er p, ex0 p, ex1 p, ex2 p, ey0 p, ey1 p, ey2 p]"

definition euclid_inv :: "int \<Rightarrow> int \<Rightarrow> euclid \<times> mpstore \<Rightarrow> bool" where
  "euclid_inv A B = (\<lambda>(p, st). distinct (ptrs p) \<and> (\<forall>i\<in>set (ptrs p). i < 9 \<and> mpok (st i)) \<and> mpok (st 9) \<and> msign (st 9) = 1
     \<and> msign (st (ea p)) = 1 \<and> msign (st (eb p)) = 1
     \<and> mval (st (ea p)) = mval (st (ex2 p)) * A + mval (st (ey2 p)) * B
     \<and> mval (st (eb p)) = mval (st (ex1 p)) * A + mval (st (ey1 p)) * B
     \<and> gcd (mval (st (ea p))) (mval (st (eb p))) = gcd A B)"

lemma mul_sub_ok:
  assumes "mpok (s qq)" "mpok (s i1)" "mpok (s i2)" "mpwf (s i0)" "i0 \<noteq> i2"
  obtains t c where "mpmul qq i1 i0 s = Some (s(i0 := t))" "mpsub i2 i0 i0 (s(i0 := t)) = Some (s(i0 := c))" "mpok c"
    "mval c = mval (s i2) - mval (s qq) * mval (s i1)"
proof -
  obtain t where t: "mpmul qq i1 i0 s = Some (s(i0 := t))" "mpok t" "mval t = mval (s qq) * mval (s i1)"
    using mp_mul.oper_ok [of s qq i1 i0] assms by blast
  obtain c where "mpsub i2 i0 i0 (s(i0 := t)) = Some (s(i0 := t, i0 := c))" "mpok c" "mval c = mval (s i2) - mval t"
    using mp_sub.oper_ok [of "s(i0 := t)" i2 i0 i0] assms t(2) by (auto simp: mpok_wf)
  then show ?thesis
    using that [of t c] t by simp
qed

lemma euclid_round_ok:
  assumes inv: "euclid_inv A B (p, st)" and b: "mtop (st (eb p)) \<noteq> 0"
  shows "\<exists>st'. euclid_round p st = Inr st' \<and> euclid_inv A B (euclid_rotate p, st') \<and> mmag (st' (er p)) < mmag (st (eb p))"
proof -
  have ok: "mpok (st i)" if "i \<in> set (ptrs p)" for i
    using inv that by (auto simp: euclid_inv_def)
  have i: "msign (st 9) = 1" "mpok (st 9)" "msign (st (ea p)) = 1" "msign (st (eb p)) = 1"
    using inv by (auto simp: euclid_inv_def)
  have dist: "distinct (9 # ptrs p)"
    using inv by (auto simp: euclid_inv_def)
  let ?a = "st (ea p)" and ?b = "st (eb p)"
  define q r where "q = mval ?a div mval ?b" and "r = mval ?a mod mval ?b"
  have okab: "mpok ?a" "mpok ?b"
    using ok by (auto simp: ptrs_def)
  have vals: "mval ?b = mmag ?b" "mval ?a = mmag ?a" "mmag ?b \<noteq> 0"
    using b mmag_zero_iff [OF okab(2)] i by (auto simp: mval_def)
  have bpos: "0 < mval ?b" "0 \<le> mval ?a"
    using vals mmag_nonneg [of ?b] mmag_nonneg [of ?a] by linarith+
  obtain s1 where s1: "mpdiv (ea p) (eb p) (Some 9) (Some (er p)) st = Inr s1"
      "\<forall>x. Some 9 \<noteq> Some x \<and> Some (er p) \<noteq> Some x \<longrightarrow> s1 x = st x"
      "is_quo ?a ?b 1 (s1 9)" "is_rem ?a ?b False (s1 (er p))"
    using mpdiv_ok [of st "ea p" "eb p" "Some 9" "Some (er p)"] ok i b dist by (auto simp: ptrs_def mpok_wf)
  have v1: "mpok (s1 9)" "mval (s1 9) = q" "msign (s1 9) = 1" "mpok (s1 (er p))" "mval (s1 (er p)) = r" "msign (s1 (er p)) = 1" "mmag (s1 (er p)) = r"
    using s1(3,4) i vals by (auto simp: is_quo_def is_rem_def mpcan_def mval_def q_def r_def)
  have o1: "s1 x = st x" if "x \<in> set (ptrs p)" "x \<noteq> er p" for x
  proof -
    have "x \<noteq> 9"
      using that(1) dist by auto
    then show ?thesis
      using s1(2) that(2) by simp
  qed
  have e1: "s1 (ea p) = ?a" "s1 (eb p) = ?b" "s1 (ex0 p) = st (ex0 p)" "s1 (ex1 p) = st (ex1 p)" "s1 (ex2 p) = st (ex2 p)"
    "s1 (ey0 p) = st (ey0 p)" "s1 (ey1 p) = st (ey1 p)" "s1 (ey2 p) = st (ey2 p)"
    using dist by (auto simp: ptrs_def intro!: o1)
  have ok1: "mpok (s1 (ex0 p))" "mpok (s1 (ex1 p))" "mpok (s1 (ex2 p))" "mpok (s1 (ey0 p))" "mpok (s1 (ey1 p))" "mpok (s1 (ey2 p))"
    unfolding e1 by (auto simp: ptrs_def intro!: ok)
  obtain t c where c: "mpmul 9 (ex1 p) (ex0 p) s1 = Some (s1(ex0 p := t))"
      "mpsub (ex2 p) (ex0 p) (ex0 p) (s1(ex0 p := t)) = Some (s1(ex0 p := c))" "mpok c" "mval c = mval (st (ex2 p)) - q * mval (st (ex1 p))"
    using mul_sub_ok [of s1 9 "ex1 p" "ex2 p" "ex0 p"] v1 ok1 e1 dist by (auto simp: ptrs_def mpok_wf)
  define s2 where "s2 = s1(ex0 p := c)"
  have e2: "s2 (ey0 p) = s1 (ey0 p)" "s2 (ey1 p) = s1 (ey1 p)" "s2 (ey2 p) = s1 (ey2 p)" "s2 9 = s1 9"
    using dist by (auto simp: s2_def ptrs_def)
  have "ey0 p \<noteq> ey2 p"
    using dist by (simp add: ptrs_def)
  then obtain t' c' where c': "mpmul 9 (ey1 p) (ey0 p) s2 = Some (s2(ey0 p := t'))"
      "mpsub (ey2 p) (ey0 p) (ey0 p) (s2(ey0 p := t')) = Some (s2(ey0 p := c'))" "mpok c'" "mval c' = mval (st (ey2 p)) - q * mval (st (ey1 p))"
    using mul_sub_ok [of s2 9 "ey1 p" "ey2 p" "ey0 p"] v1 ok1 by (auto simp: e1 e2 mpok_wf)
  define s3 where "s3 = s2(ey0 p := c')"
  have round: "euclid_round p st = Inr s3"
    using s1(1) c c' by (simp add: euclid_round_def s2_def s3_def)
  have e3: "s3 (ex0 p) = c" "s3 (ey0 p) = c'" "s3 (er p) = s1 (er p)" "s3 9 = s1 9" "s3 (ea p) = ?a" "s3 (eb p) = ?b"
    "s3 (ex1 p) = st (ex1 p)" "s3 (ex2 p) = st (ex2 p)" "s3 (ey1 p) = st (ey1 p)" "s3 (ey2 p) = st (ey2 p)"
    using dist e1 by (auto simp: s3_def s2_def ptrs_def)
  have ab: "mval ?a = mval (st (ex2 p)) * A + mval (st (ey2 p)) * B" "mval ?b = mval (st (ex1 p)) * A + mval (st (ey1 p)) * B"
    "gcd (mval ?a) (mval ?b) = gcd A B"
    using inv by (auto simp: euclid_inv_def)
  have "r = mval c * A + mval c' * B"
  proof -
    have "r = mval ?a - q * mval ?b"
      by (simp add: r_def q_def minus_div_mult_eq_mod)
    then show ?thesis
      unfolding c(4) c'(4) ab(1,2) by (simp add: algebra_simps)
  qed
  moreover have "gcd (mval ?b) r = gcd A B"
    using ab(3) gcd_red_int [of "mval ?a" "mval ?b"] by (simp add: r_def)
  moreover have "distinct (ptrs (euclid_rotate p))"
    using dist by (auto simp: ptrs_def euclid_rotate_def)
  moreover have "\<forall>i\<in>set (ptrs (euclid_rotate p)). i < 9 \<and> mpok (s3 i)"
    using inv v1(4) c(3) c'(3) by (simp add: euclid_inv_def ptrs_def euclid_rotate_def e3)
  ultimately have "euclid_inv A B (euclid_rotate p, s3)"
    using v1 c(3) c'(3) i by (simp add: euclid_inv_def euclid_rotate_def e3)  (simp add: ab)
  moreover have "mmag (s3 (er p)) < mmag ?b"
    using v1(7) bpos vals by (simp add: e3 r_def)
  ultimately show ?thesis
    using round by blast
qed


lemma euclid_loop_ok:
  assumes "euclid_inv A B (p, st)" "nat (mmag (st (eb p))) < n"
  shows "\<exists>p' st'. euclid_loop n p st = Inr (p', st') \<and> euclid_inv A B (p', st') \<and> mval (st' (eb p')) = 0"
  using assms
proof (induction n arbitrary: p st)
  case (Suc n)
  have s: "mpok (st (eb p))" "msign (st (eb p)) = 1"
    using Suc.prems(1) by (auto simp: euclid_inv_def ptrs_def)
  show ?case
  proof (cases "mtop (st (eb p)) = 0")
    case True
    then show ?thesis
      using Suc.prems(1) mmag_zero_iff [OF s(1)] by (intro exI [of _ p] exI [of _ st]) (simp add: mval_def)
  next
    case False
    obtain s' where s': "euclid_round p st = Inr s'" "euclid_inv A B (euclid_rotate p, s')" "mmag (s' (er p)) < mmag (st (eb p))"
      using euclid_round_ok [OF Suc.prems(1) False] by blast
    have "nat (mmag (s' (eb (euclid_rotate p)))) < n"
    proof -
      have "eb (euclid_rotate p) = er p"
        by (simp add: euclid_rotate_def)
      then show ?thesis
        using s'(3) Suc.prems(2) mmag_nonneg [of "s' (er p)"] by (simp only:)
    qed
    then show ?thesis
      using Suc.IH [OF s'(2)] s'(1) False s(2) by auto
  qed
qed simp

lemma euclid_start_inv:
  assumes "mpok a" "mpok b" "msign a = 1" "msign b = 1"
  shows "euclid_inv (mval a) (mval b) (euclid_ptrs, euclid_start a b)"
proof -
  have new: "mpok (mpnew 0)" "msign (mpnew 0) = 1"
    by (simp_all add: mpnew_def mpok_def mpwf_def Let_def)
  note cp = mpcopy_ok [OF assms(1)] mpcopy_ok [OF assms(2)] mpcopy_ok [OF mpok_consts(1)] mpcopy_ok [OF mpok_consts(2)]
  note cv = mpcopy_val [OF assms(1)] mpcopy_val [OF assms(2)] mpcopy_val [OF mpok_consts(1)] mpcopy_val [OF mpok_consts(2)]
  show ?thesis
    using new cp cv assms mpok_consts by (simp add: euclid_inv_def euclid_ptrs_def euclid_start_def ptrs_def)
qed

lemma mpassign_val: "mpok o' \<Longrightarrow> mpwf n \<Longrightarrow> mpok (mpassign o' n) \<and> mval (mpassign o' n) = mval o'"
  using mpassign_ok [of o' n] by (simp add: mval_def)

lemma euclid_main_ok:
  assumes ab: "mpok (st a)" "mpok (st b)" "msign (st a) = 1" "msign (st b) = 1"
    and wf: "mpwf (st d)" "mpwf (st x)" "mpwf (st y)" and dist: "distinct [d, x, y]"
  shows "\<exists>st'. euclid_main a b d x y st = Inr st' \<and> (\<forall>z. z \<notin> {d, x, y} \<longrightarrow> st' z = st z) \<and> (\<forall>z\<in>{d, x, y}. mpok (st' z))
    \<and> mval (st' d) = gcd (mval (st a)) (mval (st b))
    \<and> mval (st a) * mval (st' x) + mval (st b) * mval (st' y) = mval (st' d)"
proof (cases "mtop (st b) = 0")
  case True
  have b0: "mval (st b) = 0" and a0: "0 \<le> mval (st a)"
    using True mmag_zero_iff [OF ab(2)] ab(3) by (simp_all add: mval_def)
  define w where "w = (if a = d then st a else mpassign (st a) (st d))"
  have w: "mpok w" "mval w = mval (st a)"
    using mpassign_val [OF ab(1) wf(1)] ab(1) by (auto simp: w_def)
  define s1 where "s1 = st(d := w)"
  have "mpassign_at a d st = s1"
    by (auto simp: mpassign_at_def s1_def w_def)
  then have "euclid_main a b d x y st = Inr (s1(x := mpassign mpone (st x), y := mpassign mpzero (st y)))"
    using True dist by (simp add: euclid_main_def Let_def s1_def)
  then show ?thesis
    using w mpassign_val [OF mpok_consts(2) wf(2)] mpassign_val [OF mpok_consts(1) wf(3)] mpok_consts dist b0 a0
    by (intro exI [of _ "s1(x := mpassign mpone (st x), y := mpassign mpzero (st y))"]) (auto simp: s1_def)
next
  case False
  obtain p l where l: "euclid_loop (Suc (nat (mmag (st b)))) euclid_ptrs (euclid_start (st a) (st b)) = Inr (p, l)"
    "euclid_inv (mval (st a)) (mval (st b)) (p, l)" "mval (l (eb p)) = 0"
    using euclid_loop_ok [OF euclid_start_inv [OF ab], of "Suc (nat (mmag (st b)))"] mpcopy_ok(5) [OF ab(2)]
    by (auto simp: euclid_start_def euclid_ptrs_def)
  have i: "mpok (l (ea p))" "mpok (l (ex2 p))" "mpok (l (ey2 p))" "msign (l (ea p)) = 1"
    "mval (l (ea p)) = mval (l (ex2 p)) * mval (st a) + mval (l (ey2 p)) * mval (st b)"
    "gcd (mval (l (ea p))) 0 = gcd (mval (st a)) (mval (st b))"
    using l(2,3) by (auto simp: euclid_inv_def ptrs_def)
  have "0 \<le> mval (l (ea p))"
    using i(4) by (simp add: mval_def)
  then have g: "mval (l (ea p)) = gcd (mval (st a)) (mval (st b))"
    using i(6) by simp
  define s1 where "s1 = st(d := mpassign (l (ea p)) (st d), x := mpassign (l (ex2 p)) (st x), y := mpassign (l (ey2 p)) (st y))"
  have "euclid_main a b d x y st = Inr s1"
    using False l(1) dist by (simp add: euclid_main_def Let_def s1_def)
  then show ?thesis
    using mpassign_val [OF i(1) wf(1)] mpassign_val [OF i(2) wf(2)] mpassign_val [OF i(3) wf(3)] dist g i(5)
    by (intro exI [of _ s1]) (auto simp: s1_def algebra_simps)
qed

text \<open>
  Claim C36 (functional).  \<open>mpeuclid\<close> on two numbers that are not negative, into three different numbers: it ends within the number
  of rounds given to it, changes nothing else, and leaves the greatest common divisor and coefficients that
  combine the operands to it.
\<close>

theorem mpeuclid_correct:
  assumes "mpok (st a)" and "mpok (st b)" and "msign (st a) = 1" and "msign (st b) = 1"
    and "mpwf (st d)" and "mpwf (st x)" and "mpwf (st y)" and "distinct [d, x, y]"
  shows "\<exists>st'. mpeuclid a b d x y st = Inr st' \<and> (\<forall>z. z \<notin> {d, x, y} \<longrightarrow> st' z = st z) \<and> (\<forall>z\<in>{d, x, y}. mpok (st' z))
    \<and> mval (st' d) = gcd (mval (st a)) (mval (st b))
    \<and> mval (st a) * mval (st' x) + mval (st b) * mval (st' y) = mval (st' d)"
proof (cases "mpcmp (st a) (st b) < 0")
  case True
  have "distinct [d, y, x]"
    using assms(8) by auto
  then show ?thesis
    using euclid_main_ok [OF assms(2,1,4,3,5,7,6)] True assms(3,4) by (auto simp: mpeuclid_def insert_commute gcd.commute add.commute)
next
  case False
  then show ?thesis
    using euclid_main_ok [OF assms] assms(3,4) by (simp add: mpeuclid_def)
qed

theorem mpeuclid_correct_witness:
  "\<exists>st'. mpeuclid 0 1 2 3 4 (\<lambda>x. if x = 1 then mpone else mptwo) = Inr st' \<and> mval (st' 2) = 1
    \<and> 2 * mval (st' 3) + mval (st' 4) = 1"
proof -
  let ?st = "\<lambda>x :: nat. if x = 1 then mpone else mptwo"
  have "mpok (?st 0)" "mpok (?st 1)" "msign (?st 0) = 1" "msign (?st 1) = 1" "mpwf (?st 2)" "mval (?st 0) = 2" "mval (?st 1) = 1"
    by (simp_all add: mpok_def mpwf_def mval_def mmag_def mptwo_def mpone_def)
  then show ?thesis
    using mpeuclid_correct [of ?st 0 1 2 3 4] by auto
qed

end
