(* ===== verification/Dis_String.thy ===== *)
theory Dis_String
  imports Utf
begin

text \<open>
  Strings of the Dis virtual machine (\<^verbatim>\<open>src/libinterp/string.c\<close>): bytes while all characters are below
  \<open>Runeself\<close>, runes otherwise, told apart by the sign of \<open>len\<close>.  A string is the record of its header, the
  characters in use and the number of bytes allocated for them, so that a store outside them is the
  error \<open>Overrun\<close>.  The nil string \<open>H\<close> is \<open>None\<close>.  How much the allocator rounds a request up is a
  parameter \<open>room\<close>.
\<close>

datatype serr = exNilref | exBounds | Overrun

record String =
  slen :: int
  smax :: nat
  sroom :: nat
  schars :: "rune list"

text \<open>\<open>STRUCTALIGN\<close>: bytes of the union inside \<open>sizeof(String)\<close>, beyond those that \<open>max\<close> counts.\<close>

definition STRUCTALIGN :: nat where
  "STRUCTALIGN = 8"

section \<open>Allocation and copies\<close>

definition newstring :: "(nat \<Rightarrow> nat) \<Rightarrow> nat \<Rightarrow> String" where
  "newstring room nb = \<lparr>slen = int nb, smax = room nb, sroom = room nb + STRUCTALIGN, schars = replicate nb 0\<rparr>"

definition newrunes :: "(nat \<Rightarrow> nat) \<Rightarrow> nat \<Rightarrow> String" where
  "newrunes room nr =
     (if nr = 0 then newstring room nr
      else \<lparr>slen = - int nr, smax = room (nr * 4) div 4, sroom = room (nr * 4) + STRUCTALIGN, schars = replicate nr 0\<rparr>)"

definition stringdup :: "(nat \<Rightarrow> nat) \<Rightarrow> String \<Rightarrow> String" where
  "stringdup room ss =
     (if slen ss \<ge> 0 then (newstring room (nat (slen ss)))\<lparr>schars := take (nat (slen ss)) (schars ss)\<rparr>
      else (newrunes room (nat (- slen ss)))\<lparr>schars := take (nat (- slen ss)) (schars ss)\<rparr>)"

definition splitc :: "(nat \<Rightarrow> nat) \<Rightarrow> bool \<Rightarrow> String \<Rightarrow> String" where
  "splitc room expand ss =
     (if expand \<and> slen ss > 0 then (newrunes room (nat (slen ss)))\<lparr>schars := take (nat (slen ss)) (schars ss)\<rparr>
      else stringdup room ss)"

section \<open>indc and insc\<close>

text \<open>An index below zero passes the test against the length and reads outside the characters.\<close>

definition indc :: "String option \<Rightarrow> 64 word \<Rightarrow> serr + 64 word" where
  "indc ss v =
     (case ss of
        None \<Rightarrow> Inl exNilref
      | Some ss \<Rightarrow>
          if sint v \<ge> \<bar>slen ss\<bar> then Inl exBounds
          else if sint v < 0 then Inl Overrun
          else if slen ss < 0 then Inr (scast (schars ss ! nat (sint v)))
          else Inr (scast (ucast (schars ss ! nat (sint v)) :: byte)))"

text \<open>Storing a character at index \<open>v\<close>: in use already, or the next one.\<close>

definition put_rune :: "nat \<Rightarrow> rune \<Rightarrow> String \<Rightarrow> serr + String" where
  "put_rune v r ss =
     (if 4 * (v + 1) > sroom ss then Inl Overrun
      else Inr (ss\<lparr>schars := take v (schars ss) @ r # drop (v + 1) (schars ss)\<rparr>))"

definition put_ascii :: "nat \<Rightarrow> rune \<Rightarrow> String \<Rightarrow> serr + String" where
  "put_ascii v r ss =
     (if v + 1 > sroom ss then Inl Overrun
      else Inr (ss\<lparr>schars := take v (schars ss) @ ucast (ucast r :: byte) # drop (v + 1) (schars ss)\<rparr>))"

definition insc_rune :: "(nat \<Rightarrow> nat) \<Rightarrow> rune \<Rightarrow> nat \<Rightarrow> nat \<Rightarrow> String \<Rightarrow> serr + String" where
  "insc_rune room r v l ss =
     (if v < l then put_rune v r ss
      else if v = l \<and> v < smax ss then put_rune v r (ss\<lparr>slen := - int (v + 1)\<rparr>)
      else if v \<noteq> l then Inl exBounds
      else
        let ns = newstring room ((v + 1 + v div 4) * 4);
            ns = ns\<lparr>schars := take l (schars ss)\<rparr>
        in put_rune v r (ns\<lparr>slen := - int (v + 1), smax := smax ns div 4\<rparr>))"

definition insc_ascii :: "(nat \<Rightarrow> nat) \<Rightarrow> rune \<Rightarrow> nat \<Rightarrow> nat \<Rightarrow> String \<Rightarrow> serr + String" where
  "insc_ascii room r v l ss =
     (if v < l then put_ascii v r ss
      else if v = l \<and> v < smax ss then put_ascii v r (ss\<lparr>slen := int (v + 1)\<rparr>)
      else if v \<noteq> l then Inl exBounds
      else
        let ns = newstring room (v + 1 + v div 4);
            ns = ns\<lparr>schars := take l (schars ss)\<rparr>
        in put_ascii v r (ns\<lparr>slen := int (v + 1)\<rparr>))"

text \<open>\<open>shared\<close>: the string has more than one reference.\<close>

definition insc :: "(nat \<Rightarrow> nat) \<Rightarrow> bool \<Rightarrow> rune \<Rightarrow> nat \<Rightarrow> String option \<Rightarrow> serr + String" where
  "insc room shared r v ss =
     (let expand = \<not> (r <s Runeself) in
      case ss of
        None \<Rightarrow>
          let ns = newstring room 0 in
          if expand then insc_rune room r v 0 (ns\<lparr>smax := smax ns div 4\<rparr>)
          else insc_ascii room r v 0 ns
      | Some ss \<Rightarrow>
          let ss = (if shared \<or> (expand \<and> slen ss > 0) then splitc room expand ss else ss) in
          if slen ss < 0 \<or> expand then insc_rune room r v (nat (- slen ss)) ss
          else insc_ascii room r v (nat (slen ss)) ss)"

section \<open>slicer, addstring, lenc, stringcmp\<close>

definition slicer :: "(nat \<Rightarrow> nat) \<Rightarrow> nat \<Rightarrow> nat \<Rightarrow> String option \<Rightarrow> serr + String option" where
  "slicer room start v ds =
     (case ds of
        None \<Rightarrow> if start = 0 \<and> v = 0 then Inr None else Inl exBounds
      | Some ds \<Rightarrow>
          let nc = v - start; l = nat \<bar>slen ds\<bar> in
          if v < start \<or> v > l then Inl exBounds
          else if nc = 0 then Inr None
          else
            let ns = (if slen ds < 0 then newrunes room nc else newstring room nc)
            in Inr (Some (ns\<lparr>schars := take nc (drop start (schars ds))\<rparr>)))"

text \<open>\<open>same\<close>: the operands are one object.  Then the length read for the second copy is the new one.\<close>

definition addstring :: "(nat \<Rightarrow> nat) \<Rightarrow> bool \<Rightarrow> bool \<Rightarrow> bool \<Rightarrow> String option \<Rightarrow> String option \<Rightarrow> serr + String option" where
  "addstring room shared same app s1 s2 =
     (case s1 of
        None \<Rightarrow> (case s2 of None \<Rightarrow> Inr None | Some s2 \<Rightarrow> Inr (Some (stringdup room s2)))
      | Some s1 \<Rightarrow>
          let app = (app \<and> \<not> shared) in
          (case s2 of
            None \<Rightarrow> Inr (Some (if app then s1 else stringdup room s1))
          | Some s2 \<Rightarrow>
              let l1 = nat \<bar>slen s1\<bar>; l2 = nat \<bar>slen s2\<bar>; l = l1 + l2;
                  inplace = (app \<and> l \<le> smax s1);
                  grow = (if app then l + l div 4 else l);
                  copied = (if inplace \<and> same then l else l2);
                  cs = take l1 (schars s1) @ take l2 (schars s2)
              in if slen s1 < 0 then
                   let ns = (if inplace then s1 else newrunes room grow) in
                   if 4 * (l1 + copied) > sroom ns then Inl Overrun
                   else Inr (Some (ns\<lparr>slen := - int l, schars := cs\<rparr>))
                 else if slen s2 < 0 then
                   let ns = newrunes room grow in
                   if 4 * l > sroom ns then Inl Overrun
                   else Inr (Some (ns\<lparr>slen := - int l, schars := cs\<rparr>))
                 else
                   let ns = (if inplace then s1 else newstring room grow) in
                   if l1 + copied > sroom ns then Inl Overrun
                   else Inr (Some (ns\<lparr>slen := int l, schars := cs\<rparr>))))"

definition lenc :: "String option \<Rightarrow> int" where
  "lenc ss = (case ss of None \<Rightarrow> 0 | Some ss \<Rightarrow> if slen ss < 0 then - slen ss else slen ss)"

text \<open>
  \<open>stringcmp\<close>.  \<open>memcmp\<close> of the C library compares bytes as unsigned; only the sign of its result counts.  A byte of a string is a
  \<open>char\<close>, which is signed, and becomes an \<open>int\<close>.  \<open>cmp_chars\<close> is the loop over two sequences of \<open>int\<close>: the result of a
  difference, or \<open>None\<close>.  \<open>same\<close>: the two are one object.
\<close>

fun memcmp :: "byte list \<Rightarrow> byte list \<Rightarrow> nat \<Rightarrow> int" where
  "memcmp (a # as) (b # bs) (Suc n) = (if a \<noteq> b then if a < b then -1 else 1 else memcmp as bs n)"
| "memcmp as bs n = 0"

definition char_int :: "rune \<Rightarrow> u32" where
  "char_int c = scast (ucast c :: byte)"

fun cmp_chars :: "u32 list \<Rightarrow> u32 list \<Rightarrow> nat \<Rightarrow> int option" where
  "cmp_chars (c1 # r1) (c2 # r2) (Suc n) =
     (if c1 \<noteq> c2 then Some (if c1 <s c2 then -1 else 1) else cmp_chars r1 r2 n)"
| "cmp_chars r1 r2 n = None"

definition snil :: String where
  "snil = \<lparr>slen = 0, smax = 0, sroom = 0, schars = []\<rparr>"

definition stringcmp :: "bool \<Rightarrow> String option \<Rightarrow> String option \<Rightarrow> int" where
  "stringcmp same s1 s2 =
     (let s1' = (case s1 of None \<Rightarrow> snil | Some ss \<Rightarrow> ss); s2' = (case s2 of None \<Rightarrow> snil | Some ss \<Rightarrow> ss) in
      if same \<or> s1 = None \<and> s2 = None then 0
      else
        let n1 = \<bar>slen s1'\<bar>; n2 = \<bar>slen s2'\<bar>; n = nat (min n1 n2);
            loop = (\<lambda>c1 c2. case cmp_chars c1 c2 n of Some d \<Rightarrow> d | None \<Rightarrow> n1 - n2)
        in if slen s1' \<ge> 0 \<and> slen s2' \<ge> 0 then
             let m = memcmp (map ucast (schars s1')) (map ucast (schars s2')) n in if m = 0 then n1 - n2 else m
           else if slen s2' \<ge> 0 then loop (schars s1') (map char_int (schars s2'))
           else if slen s1' \<ge> 0 then loop (map char_int (schars s1')) (schars s2')
           else loop (schars s1') (schars s2'))"

section \<open>C strings\<close>

text \<open>What \<open>string2c\<close> leaves in its buffer, and the size of the buffer.\<close>

definition s2c_char :: "rune \<Rightarrow> byte list" where
  "s2c_char c = (if c <s Runeself then [ucast c] else runetochar c)"

definition string2c :: "String option \<Rightarrow> byte list \<times> nat" where
  "string2c ss =
     (case ss of
        None \<Rightarrow> ([0], 1)
      | Some ss \<Rightarrow>
          if slen ss \<ge> 0 then (map ucast (take (nat (slen ss)) (schars ss)) @ [0], sroom ss)
          else let nc = nat (- slen ss) in
            (concat (map s2c_char (take nc (schars ss))) @ [0], nc * UTFmax + UTFmax))"

text \<open>The number of characters from the first byte that is not ASCII on.\<close>

function c2s_count :: "byte list \<Rightarrow> nat" where
  "c2s_count p =
     (case p of
        [] \<Rightarrow> 0
      | c # p' \<Rightarrow>
          if ucast c < Runeself then 1 + c2s_count p'
          else if UTFmax \<le> length p \<or> fullrune p (length p) then 1 + c2s_count (drop (snd (chartorune p)) p)
          else 0)"
  by pat_completeness auto
termination
  by (relation "measure length") (auto simp: diff_less)

fun c2s_runes :: "nat \<Rightarrow> byte list \<Rightarrow> rune list" where
  "c2s_runes 0 cs = []"
| "c2s_runes (Suc nc) cs = (case chartorune cs of (r, n) \<Rightarrow> r # c2s_runes nc (drop n cs))"

definition c2string :: "(nat \<Rightarrow> nat) \<Rightarrow> byte list \<Rightarrow> String" where
  "c2string room cs =
     (let ascii = takeWhile (\<lambda>c. ucast c < Runeself) cs; rest = drop (length ascii) cs in
      if rest = [] then (newstring room (length cs))\<lparr>schars := map ucast cs\<rparr>
      else
        let nc = length ascii + c2s_count rest
        in (newrunes room nc)\<lparr>schars := c2s_runes nc cs\<rparr>)"

text \<open>The array of \<open>cvtca\<close> has the size that \<open>runenlen\<close> counts; bytes that are not stored keep what was there, \<open>junk\<close>.\<close>

definition cvtca :: "byte \<Rightarrow> String option \<Rightarrow> serr + byte list" where
  "cvtca junk ss =
     (case ss of
        None \<Rightarrow> Inr []
      | Some ss \<Rightarrow>
          if slen ss < 0 then
            let rs = take (nat (- slen ss)) (schars ss); n = runenlen rs; bs = concat (map runetochar rs) in
            if length bs > n then Inl Overrun else Inr (bs @ replicate (n - length bs) junk)
          else Inr (map ucast (take (nat (slen ss)) (schars ss))))"

definition cvtac :: "(nat \<Rightarrow> nat) \<Rightarrow> byte list option \<Rightarrow> String option" where
  "cvtac room a = map_option (c2string room) a"

section \<open>Well-formed strings\<close>

definition swf :: "String \<Rightarrow> bool" where
  "swf ss \<longleftrightarrow> length (schars ss) = nat \<bar>slen ss\<bar> \<and> nat \<bar>slen ss\<bar> \<le> smax ss
     \<and> (if slen ss < 0 then 4 * smax ss else smax ss) + STRUCTALIGN \<le> sroom ss"

definition schars_of :: "String option \<Rightarrow> rune list" where
  "schars_of ss = (case ss of None \<Rightarrow> [] | Some ss \<Rightarrow> schars ss)"

lemma div4_le: "n * 4 \<le> m \<Longrightarrow> n \<le> m div (4 :: nat)" "4 * (m div 4) \<le> (m :: nat)"
  by auto

lemma newstring_wf: "\<forall>n. n \<le> room n \<Longrightarrow> length cs = nb \<Longrightarrow> swf ((newstring room nb)\<lparr>schars := cs\<rparr>)"
  by (simp add: swf_def newstring_def STRUCTALIGN_def)

lemma newrunes_wf: "\<forall>n. n \<le> room n \<Longrightarrow> length cs = nr \<Longrightarrow> swf ((newrunes room nr)\<lparr>schars := cs\<rparr>)"
  using div4_le(1) [of nr "room (nr * 4)"] div4_le(2) [of "room (nr * 4)"]
  by (auto simp: swf_def newrunes_def newstring_def STRUCTALIGN_def)

lemma stringdup_wf:
  assumes "\<forall>n. n \<le> room n" "swf ss"
  shows "swf (stringdup room ss)" "schars (stringdup room ss) = schars ss" "slen (stringdup room ss) = slen ss"
  using assms newstring_wf [of room "schars ss" "nat (slen ss)"] newrunes_wf [of room "schars ss" "nat (- slen ss)"]
  by (auto simp: stringdup_def swf_def newstring_def newrunes_def)

lemma splitc_wf:
  assumes "\<forall>n. n \<le> room n" "swf ss"
  shows "swf (splitc room expand ss)" "schars (splitc room expand ss) = schars ss"
    "slen (splitc room expand ss) = (if expand \<and> slen ss > 0 then - slen ss else slen ss)"
  using assms newrunes_wf [of room "schars ss" "nat (slen ss)"] stringdup_wf [OF assms]
  by (auto simp: splitc_def swf_def newrunes_def)

section \<open>insc\<close>

lemma insc_rune_ok:
  assumes room: "\<forall>n. n \<le> room n" and l: "length (schars ss) = l" "l \<le> smax ss" "4 * smax ss + STRUCTALIGN \<le> sroom ss"
    and neg: "slen ss = - int l" and v: "v \<le> l"
  shows "\<exists>ns. insc_rune room r v l ss = Inr ns \<and> swf ns \<and> slen ns < 0
    \<and> schars ns = (if v < l then (schars ss)[v := r] else schars ss @ [r])"
proof -
  consider "v < l" | "v = l" "v < smax ss" | "v = l" "smax ss \<le> v"
    using v by linarith
  then show ?thesis
  proof cases
    case 1
    then show ?thesis
      using l neg by (auto simp: insc_rune_def put_rune_def swf_def upd_conv_take_nth_drop)
  next
    case 2
    then show ?thesis
      using l neg by (auto simp: insc_rune_def put_rune_def swf_def)
  next
    case 3
    define a k where "a = (v + 1 + v div 4) * 4" and "k = room a"
    have "a \<le> k"
      using room by (simp only: k_def)
    then have k: "v + 1 \<le> k div 4" "4 * (k div 4) + 8 \<le> k + 8" "4 * (v + 1) \<le> k + 8"
      by (auto simp: a_def)
    then show ?thesis
      using 3 l neg unfolding insc_rune_def newstring_def a_def [symmetric] k_def [symmetric] Let_def
      by (auto simp: put_rune_def swf_def STRUCTALIGN_def)
  qed
qed

lemma insc_ascii_ok:
  assumes room: "\<forall>n. n \<le> room n" and l: "length (schars ss) = l" "l \<le> smax ss" "smax ss + STRUCTALIGN \<le> sroom ss"
    and pos: "slen ss = int l" and v: "v \<le> l" and r: "r \<le> 0x7F"
  shows "\<exists>ns. insc_ascii room r v l ss = Inr ns \<and> swf ns \<and> slen ns \<ge> 0
    \<and> schars ns = (if v < l then (schars ss)[v := r] else schars ss @ [r])"
proof -
  have u: "ucast (ucast r :: byte) = r"
    using enc_1 [of r] r by (simp only: u32_le_masks)
  consider "v < l" | "v = l" "v < smax ss" | "v = l" "smax ss \<le> v"
    using v by linarith
  then show ?thesis
  proof cases
    case 1
    then show ?thesis
      using l pos by (auto simp: insc_ascii_def put_ascii_def swf_def upd_conv_take_nth_drop u)
  next
    case 2
    then show ?thesis
      using l pos by (auto simp: insc_ascii_def put_ascii_def swf_def u)
  next
    case 3
    define a k where "a = v + 1 + v div 4" and "k = room a"
    have "a \<le> k"
      using room by (simp only: k_def)
    then have "v + 1 \<le> k"
      by (simp add: a_def)
    then show ?thesis
      using 3 l pos unfolding insc_ascii_def newstring_def a_def [symmetric] k_def [symmetric] Let_def
      by (auto simp: put_ascii_def swf_def STRUCTALIGN_def u)
  qed
qed

lemma word_sless_128:
  fixes r :: rune
  assumes "\<not> r <s 0"
  shows "r <s 0x80 \<longleftrightarrow> r \<le> 0x7F"
proof -
  have nn: "0 \<le> sint r"
    using assms by (simp add: word_sless_alt)
  then have "uint r = sint r"
    using sint_range_size [of r] by (simp add: uint_sint take_bit_int_eq_self word_size)
  then show ?thesis
    by (auto simp: word_sless_alt word_le_def)
qed

lemma insc_ok:
  assumes room: "\<forall>n. n \<le> room n" and wf: "pred_option swf ss" and r: "\<not> r <s 0" and v: "v \<le> length (schars_of ss)"
    and ne: "r \<le> 0x7F \<or> (\<forall>x. ss = Some x \<longrightarrow> slen x \<noteq> 0)"
  shows "\<exists>ns. insc room shared r v ss = Inr ns \<and> swf ns
    \<and> schars ns = (if v < length (schars_of ss) then (schars_of ss)[v := r] else schars_of ss @ [r])"
proof (cases ss)
  case None
  define k where "k = room 0"
  have k: "4 * (k div 4) \<le> k + 8"
    by simp
  show ?thesis
  proof (cases "r \<le> 0x7F")
    case True
    then show ?thesis
      using None v word_sless_128 [OF r] insc_ascii_ok [OF room, of "newstring room 0" 0 v r]
      by (auto simp: insc_def schars_of_def newstring_def)
  next
    case False
    then show ?thesis
      using None v k word_sless_128 [OF r]
        insc_rune_ok [OF room, of "(newstring room 0)\<lparr>smax := smax (newstring room 0) div 4\<rparr>" 0 v r]
      by (auto simp: insc_def schars_of_def newstring_def k_def [symmetric] STRUCTALIGN_def Let_def)
  qed
next
  case (Some s0)
  define expand where "expand \<longleftrightarrow> \<not> r <s 0x80"
  have ex: "expand \<longleftrightarrow> \<not> r \<le> 0x7F"
    using word_sless_128 [OF r] by (simp add: expand_def)
  have wf0: "swf s0"
    using wf Some by simp
  define s1 where "s1 = (if shared \<or> (expand \<and> slen s0 > 0) then splitc room expand s0 else s0)"
  have s1: "swf s1" "schars s1 = schars s0" "expand \<Longrightarrow> slen s1 < 0" "slen s1 \<ge> 0 \<longrightarrow> \<not> expand"
    using splitc_wf [OF room wf0, of expand] wf0 ne Some ex by (auto simp: s1_def)
  have e: "insc room shared r v ss =
      (if slen s1 < 0 \<or> expand then insc_rune room r v (nat (- slen s1)) s1 else insc_ascii room r v (nat (slen s1)) s1)"
    unfolding insc_def Some Let_def option.case expand_def [symmetric] s1_def [symmetric] ..
  have l: "length (schars s0) = nat \<bar>slen s1\<bar>"
    using s1(1,2) by (simp add: swf_def)
  show ?thesis
  proof (cases "slen s1 < 0")
    case True
    have h: "length (schars s1) = nat (- slen s1)" "nat (- slen s1) \<le> smax s1" "4 * smax s1 + STRUCTALIGN \<le> sroom s1"
      "slen s1 = - int (nat (- slen s1))" "v \<le> nat (- slen s1)"
      using True s1(1,2) v Some by (auto simp: swf_def schars_of_def)
    show ?thesis
      using insc_rune_ok [OF room h, of r] True h(1) s1(2) unfolding e by (auto simp: Some schars_of_def)
  next
    case False
    have h: "length (schars s1) = nat (slen s1)" "nat (slen s1) \<le> smax s1" "smax s1 + STRUCTALIGN \<le> sroom s1"
      "slen s1 = int (nat (slen s1))" "v \<le> nat (slen s1)" "r \<le> 0x7F"
      using False s1 v Some ex by (auto simp: swf_def schars_of_def)
    show ?thesis
      using insc_ascii_ok [OF room h] False h(1) s1(2,4) unfolding e by (auto simp: Some schars_of_def)
  qed
qed

lemma insc_beyond:
  assumes room: "\<forall>n. n \<le> room n" and wf: "pred_option swf ss" and v: "v > length (schars_of ss)"
  shows "insc room shared r v ss = Inl exBounds"
proof (cases ss)
  case None
  then show ?thesis
    using v by (simp add: insc_def insc_rune_def insc_ascii_def Let_def)
next
  case (Some s0)
  define expand where "expand \<longleftrightarrow> \<not> r <s 0x80"
  define s1 where "s1 = (if shared \<or> (expand \<and> slen s0 > 0) then splitc room expand s0 else s0)"
  have "nat \<bar>slen s1\<bar> < v"
    using splitc_wf [OF room, of s0 expand] wf Some v by (auto simp: s1_def swf_def schars_of_def)
  then have "nat (- slen s1) < v" "nat (slen s1) < v"
    by linarith+
  moreover have "insc room shared r v ss =
      (if slen s1 < 0 \<or> expand then insc_rune room r v (nat (- slen s1)) s1 else insc_ascii room r v (nat (slen s1)) s1)"
    unfolding insc_def Some Let_def option.case expand_def [symmetric] s1_def [symmetric] ..
  ultimately show ?thesis
    by (simp add: insc_rune_def insc_ascii_def)
qed


text \<open>
  Claim C30 (invariant).  \<open>insc\<close>, the assignment to a character of a string, in any of its cases: on a well-formed string, and
  with a character that is not negative, an index up to the length gives a well-formed string with that
  character replaced or appended, within the memory of the string, and a larger index is a bounds error.
  The one case excluded is a character above \<open>0x7F\<close> stored in a string that is empty but not nil.
\<close>

theorem insc_correct:
  assumes "\<forall>n. n \<le> room n" and "pred_option swf ss" and "\<not> r <s 0"
    and "r \<le> 0x7F \<or> (\<forall>x. ss = Some x \<longrightarrow> slen x \<noteq> 0)"
  shows "if v \<le> length (schars_of ss)
    then \<exists>ns. insc room shared r v ss = Inr ns \<and> swf ns
      \<and> schars ns = (if v < length (schars_of ss) then (schars_of ss)[v := r] else schars_of ss @ [r])
    else insc room shared r v ss = Inl exBounds"
  using insc_ok [OF assms(1-3) _ assms(4)] insc_beyond [OF assms(1,2)] by simp

theorem insc_correct_witness:
  "\<exists>ns. insc (\<lambda>n. n + 3) True 0xE9 1 (Some (c2string (\<lambda>n. n + 3) [0x61, 0x62, 0x63])) = Inr ns
    \<and> swf ns \<and> schars ns = [0x61, 0xE9, 0x63]"
proof -
  let ?s = "c2string (\<lambda>n. n + 3) [0x61, 0x62, 0x63]"
  have "swf ?s" "schars ?s = [0x61, 0x62, 0x63]" "slen ?s \<noteq> 0"
    by (simp_all add: c2string_def swf_def newstring_def STRUCTALIGN_def)
  then show ?thesis
    using insc_correct [of "\<lambda>n. n + 3" "Some ?s" "0xE9" 1 True] by (auto simp: schars_of_def word_sless_alt)
qed

text \<open>
  Property (error).  In that case \<open>max\<close>, a number of bytes, is taken for a number of runes.  A string made by \<open>c2string\<close> of no
  bytes, in a block with 16 bytes to spare, takes six runes, and the seventh is stored outside the block.
\<close>

fun insc_all :: "(nat \<Rightarrow> nat) \<Rightarrow> rune list \<Rightarrow> String \<Rightarrow> serr + String" where
  "insc_all room [] ss = Inr ss"
| "insc_all room (r # rs) ss =
     (case insc room False r (length (schars ss)) (Some ss) of Inl e \<Rightarrow> Inl e | Inr ss \<Rightarrow> insc_all room rs ss)"

theorem insc_empty_overrun:
  "insc_all (\<lambda>n. n + 16) (replicate 7 0xE9) (c2string (\<lambda>n. n + 16) []) = Inl Overrun"
  by code_simp

section \<open>slicer and addstring\<close>

lemma slicer_ok:
  assumes "\<forall>n. n \<le> room n" "pred_option swf ds"
  shows "if start \<le> v \<and> v \<le> length (schars_of ds)
    then \<exists>ns. slicer room start v ds = Inr ns \<and> pred_option swf ns \<and> schars_of ns = take (v - start) (drop start (schars_of ds))
    else slicer room start v ds = Inl exBounds"
proof (cases ds)
  case None
  then show ?thesis
    by (auto simp: slicer_def schars_of_def)
next
  case (Some ss)
  have l: "length (schars ss) = nat \<bar>slen ss\<bar>"
    using assms(2) Some by (simp add: swf_def)
  have "swf ((newrunes room (v - start))\<lparr>schars := take (v - start) (drop start (schars ss))\<rparr>)"
    "swf ((newstring room (v - start))\<lparr>schars := take (v - start) (drop start (schars ss))\<rparr>)"
    if "start \<le> v" "v \<le> length (schars ss)"
    using that by (intro newrunes_wf newstring_wf assms(1); simp)+
  then show ?thesis
    using Some l by (auto simp: slicer_def schars_of_def Let_def)
qed

lemma addstring_nil:
  "addstring room shared same app None s2 = Inr (map_option (stringdup room) s2)"
  "addstring room shared same app (Some a) None = Inr (Some (if app \<and> \<not> shared then a else stringdup room a))"
  by (cases s2) (simp_all add: addstring_def)

lemma addstring_ok:
  assumes room: "\<forall>n. n \<le> room n" and wf: "pred_option swf s1" "pred_option swf s2"
    and same: "\<not> (same \<and> app \<and> \<not> shared)"
  shows "\<exists>ns. addstring room shared same app s1 s2 = Inr ns \<and> pred_option swf ns \<and> schars_of ns = schars_of s1 @ schars_of s2"
proof (cases "s1 = None \<or> s2 = None")
  case True
  then show ?thesis
    using wf stringdup_wf [OF room] by (cases s1; cases s2) (auto simp: addstring_nil schars_of_def)
next
  case False
  then obtain a b where ab: "s1 = Some a" "s2 = Some b"
    by auto
  have w: "swf a" "swf b"
    using wf ab by simp_all
  define l1 l2 l where "l1 = nat \<bar>slen a\<bar>" and "l2 = nat \<bar>slen b\<bar>" and "l = l1 + l2"
  define inplace grow where "inplace \<longleftrightarrow> (app \<and> \<not> shared) \<and> l \<le> smax a" and "grow = (if app \<and> \<not> shared then l + l div 4 else l)"
  have len: "length (schars a) = l1" "length (schars b) = l2"
    using w by (auto simp: swf_def l1_def l2_def)
  have nosame: "(if inplace \<and> same then l else l2) = l2"
    using same by (auto simp: inplace_def)
  have gl: "l \<le> grow"
    by (simp add: grow_def)
  define na where "na = (if inplace then a else newstring room grow)"
  define nr where "nr = (if inplace then a else newrunes room grow)"
  have na: "l \<le> smax na" "smax na + STRUCTALIGN \<le> sroom na" if "\<not> slen a < 0"
    using that w(1) gl room [rule_format, of grow] by (auto simp: na_def inplace_def swf_def newstring_def intro: order_trans)
  have r0: "l \<le> smax (newrunes room grow) \<and> 4 * smax (newrunes room grow) + STRUCTALIGN \<le> sroom (newrunes room grow)" if "grow \<noteq> 0"
  proof -
    have "grow \<le> room (grow * 4) div 4"
      using room by (intro div4_le(1)) simp
    then show ?thesis
      using that gl div4_le(2) [of "room (grow * 4)"] by (auto simp: newrunes_def STRUCTALIGN_def)
  qed
  have nr: "l \<le> smax nr \<and> 4 * smax nr + STRUCTALIGN \<le> sroom nr" if "slen a < 0"
    using that w(1) r0 gl by (auto simp: nr_def inplace_def swf_def l_def l1_def)
  have e: "addstring room shared same app s1 s2 =
     (let cs = take l1 (schars a) @ take l2 (schars b) in
      if slen a < 0 then
        if 4 * (l1 + l2) > sroom nr then Inl Overrun else Inr (Some (nr\<lparr>slen := - int l, schars := cs\<rparr>))
      else if slen b < 0 then
        if 4 * l > sroom (newrunes room grow) then Inl Overrun
        else Inr (Some ((newrunes room grow)\<lparr>slen := - int l, schars := cs\<rparr>))
      else if l1 + l2 > sroom na then Inl Overrun else Inr (Some (na\<lparr>slen := int l, schars := cs\<rparr>)))"
    unfolding addstring_def ab option.case Let_def l1_def [symmetric] l2_def [symmetric] l_def [symmetric]
      inplace_def [symmetric] grow_def [symmetric] nosame na_def [symmetric] nr_def [symmetric] ..
  show ?thesis
  proof (cases "slen a < 0 \<or> slen b < 0")
    case True
    then have "l \<noteq> 0"
      by (auto simp: l_def l1_def l2_def)
    then have "l \<le> smax (newrunes room grow) \<and> 4 * smax (newrunes room grow) + STRUCTALIGN \<le> sroom (newrunes room grow)"
      using r0 gl by simp
    then show ?thesis
      using True nr len unfolding e by (auto simp: ab schars_of_def swf_def l_def Let_def)
  next
    case False
    then show ?thesis
      using na len unfolding e by (auto simp: ab schars_of_def swf_def l_def Let_def)
  qed
qed

text \<open>
  Claim C31 (functional).  Slices and concatenation of strings, whatever representations meet and whether the result is in place or
  new: \<open>slicer\<close> gives the characters between its bounds, and a bounds error exactly when they are not bounds;
  \<open>addstring\<close> gives the characters of both operands, without a store outside the memory of the result, as
  long as a string is not appended in place to itself.
\<close>

theorem slicer_addstring_correct:
  assumes "\<forall>n. n \<le> room n" and "pred_option swf s1" and "pred_option swf s2" and "\<not> (same \<and> app \<and> \<not> shared)"
  shows "(if start \<le> v \<and> v \<le> length (schars_of s1)
      then \<exists>ns. slicer room start v s1 = Inr ns \<and> pred_option swf ns \<and> schars_of ns = take (v - start) (drop start (schars_of s1))
      else slicer room start v s1 = Inl exBounds)
    \<and> (\<exists>ns. addstring room shared same app s1 s2 = Inr ns \<and> pred_option swf ns \<and> schars_of ns = schars_of s1 @ schars_of s2)"
  using slicer_ok [OF assms(1,2)] addstring_ok [OF assms] by blast

theorem slicer_addstring_correct_witness:
  "\<exists>ns. addstring (\<lambda>n. n) False False True (Some (c2string (\<lambda>n. n) [0x61])) (Some (c2string (\<lambda>n. n) [0xC3, 0xA9])) = Inr ns
    \<and> schars_of ns = [0x61, 0xE9]"
proof -
  let ?a = "c2string (\<lambda>n. n) [0x61]" and ?b = "c2string (\<lambda>n. n) [0xC3, 0xA9]"
  have b: "?b = \<lparr>slen = -1, smax = 1, sroom = 12, schars = [0xE9]\<rparr>"
    by code_simp
  have "swf ?a" "schars ?a = [0x61]"
    by (simp_all add: c2string_def swf_def newstring_def STRUCTALIGN_def)
  moreover have "swf ?b" "schars ?b = [0xE9]"
    unfolding b by (simp_all add: swf_def STRUCTALIGN_def)
  ultimately show ?thesis
    using slicer_addstring_correct [of "\<lambda>n. n" "Some ?a" "Some ?b" False True False 0 0] by (auto simp: schars_of_def)
qed

text \<open>
  Property (error).  When a string is appended in place to itself, the length of the second operand is read after it was set to that
  of the result: ten bytes in a block with ten bytes to spare become twenty, and ten more are copied, beyond
  the end of the block.
\<close>

theorem addstring_self_overrun:
  "addstring (\<lambda>n. n + 10) False True True (Some (c2string (\<lambda>n. n + 10) (replicate 10 0x61)))
     (Some (c2string (\<lambda>n. n + 10) (replicate 10 0x61))) = Inl Overrun"
  by code_simp

text \<open>
  Property (error).  \<open>indc\<close> tests an index only against the length: a negative index reads in front of the characters.  An index
  that is not negative gives the character, or a bounds error beyond the length.
\<close>

theorem indc_negative_index:
  assumes "swf ss" and "sint v < 0"
  shows "indc (Some ss) v = Inl Overrun"
  using assms by (simp add: indc_def)

theorem indc_negative_index_witness: "indc (Some (c2string (\<lambda>n. n) [0x61])) (-1) = Inl Overrun"
proof -
  have "swf (c2string (\<lambda>n. n) [0x61])"
    by (simp add: c2string_def swf_def newstring_def STRUCTALIGN_def)
  then show ?thesis
    using indc_negative_index [of _ "-1"] by simp
qed

section \<open>Strings and arrays of bytes\<close>

declare c2s_count.simps [simp del]

lemma c2s_count_Nil: "c2s_count [] = 0"
  by (simp add: c2s_count.simps)

lemma rune_ascii_byte: "c \<le> (0x7F :: rune) \<Longrightarrow> \<not> bit (ucast c :: byte) 7 \<and> ucast (ucast c :: byte) = c"
  by (rule enc_1) (simp only: u32_le_masks)

lemma rune_below_128: "c \<le> (0x7F :: rune) \<Longrightarrow> c < 0x80"
  by (erule order_le_less_trans) simp

lemma utf_encode_head:
  assumes "\<not> r \<le> 0x7F"
  obtains b bs where "utf_encode (r # rs) = b # bs" "bit b 7"
proof (cases "runetochar r")
  case (Cons b bs)
  then show ?thesis
    using that runetochar_multi [OF assms, of b] by simp
qed simp

lemma c2s_count_encode: "\<forall>r\<in>set rs. rune_ok r \<Longrightarrow> c2s_count (utf_encode rs) = length rs"
proof (induction rs)
  case (Cons r rs)
  then have ih: "c2s_count (utf_encode rs) = length rs" and ok: "rune_ok r"
    by simp_all
  show ?case
  proof (cases "r \<le> 0x7F")
    case True
    then show ?thesis
      using ih rune_ascii_byte [OF True] by (subst c2s_count.simps) (simp add: runetochar_ascii rune_below_128)
  next
    case False
    obtain b bs where e: "utf_encode (r # rs) = b # bs" and b: "bit b 7"
      using utf_encode_head [OF False] by blast
    have f: "fullrune (utf_encode (r # rs)) (length (utf_encode (r # rs)))"
      and c: "snd (chartorune (utf_encode (r # rs))) = length (runetochar r)"
      using fullrune_enc [OF ok, of "utf_encode rs"] chartorune_runetochar [OF ok, of "utf_encode rs"] by simp_all
    have "drop (length (runetochar r)) (utf_encode (r # rs)) = utf_encode rs"
      by simp
    then show ?thesis
      using ih b f c unfolding e by (subst c2s_count.simps) (simp add: lead_byte)
  qed
qed (simp add: c2s_count_Nil)

lemma c2s_runes_encode: "\<forall>r\<in>set rs. rune_ok r \<Longrightarrow> c2s_runes (length rs) (utf_encode rs) = rs"
  by (induction rs) (simp_all add: chartorune_runetochar)

lemma utf_encode_append [simp]: "utf_encode (xs @ ys) = utf_encode xs @ utf_encode ys"
  by (simp add: utf_encode_def)

lemma utf_encode_ascii: "\<forall>r\<in>set rs. r \<le> 0x7F \<Longrightarrow> utf_encode rs = map ucast rs"
  by (induction rs) (simp_all add: runetochar_ascii)

lemma map_ascii_back: "\<forall>r\<in>set rs. r \<le> 0x7F \<Longrightarrow> map ucast (map ucast rs :: byte list) = (rs :: rune list)"
  by (induction rs) (simp_all add: rune_ascii_byte)

lemma takeWhile_ascii: "\<forall>r\<in>set rs. r \<le> (0x7F :: rune) \<Longrightarrow>
    takeWhile (\<lambda>c :: byte. ucast c < (0x80 :: rune)) (map ucast rs @ ys) = map ucast rs @ takeWhile (\<lambda>c. ucast c < (0x80 :: rune)) ys"
  by (induction rs) (simp_all add: rune_ascii_byte lead_byte)

lemma c2string_encode:
  assumes ok: "\<forall>r\<in>set rs. rune_ok r"
  shows "c2string room (utf_encode rs) =
    (if \<forall>r\<in>set rs. r \<le> 0x7F then (newstring room (length rs))\<lparr>schars := rs\<rparr> else (newrunes room (length rs))\<lparr>schars := rs\<rparr>)"
proof (cases "\<forall>r\<in>set rs. r \<le> 0x7F")
  case True
  have tw: "takeWhile (\<lambda>c :: byte. ucast c < (0x80 :: rune)) (utf_encode rs) = utf_encode rs"
    using takeWhile_ascii [OF True, of "[]"] by (simp only: utf_encode_ascii [OF True] takeWhile.simps append_Nil2)
  have "c2string room (utf_encode rs) = (newstring room (length (utf_encode rs)))\<lparr>schars := map ucast (utf_encode rs)\<rparr>"
    unfolding c2string_def Let_def tw by simp
  then show ?thesis
    using True map_ascii_back [OF True] by (simp add: utf_encode_ascii)
next
  case False
  define as bs where "as = takeWhile (\<lambda>r. r \<le> 0x7F) rs" and "bs = dropWhile (\<lambda>r. r \<le> 0x7F) rs"
  have rs: "rs = as @ bs" and as: "\<forall>r\<in>set as. r \<le> 0x7F"
    by (auto simp: as_def bs_def dest: set_takeWhileD)
  obtain c cs where bs: "bs = c # cs" "\<not> c \<le> 0x7F"
    using False hd_dropWhile [of "\<lambda>r. r \<le> 0x7F" rs] by (cases bs) (auto simp: bs_def dropWhile_eq_Nil_conv)
  obtain b xs where e: "utf_encode bs = b # xs" "bit b 7"
    using utf_encode_head [OF bs(2)] unfolding bs(1) by blast
  have tw: "takeWhile (\<lambda>c :: byte. ucast c < (0x80 :: rune)) (utf_encode rs) = map ucast as"
    using takeWhile_ascii [OF as, of "utf_encode bs"] e by (simp add: rs utf_encode_ascii [OF as] lead_byte)
  have d: "drop (length as) (utf_encode rs) = utf_encode bs"
    by (simp add: rs utf_encode_ascii [OF as])
  have n: "c2s_count (utf_encode bs) = length bs"
    using ok by (intro c2s_count_encode) (simp add: rs)
  have l: "length as + length bs = length rs"
    by (simp add: rs)
  have "utf_encode bs \<noteq> []"
    using e by simp
  then have "c2string room (utf_encode rs) = (newrunes room (length rs))\<lparr>schars := rs\<rparr>"
    unfolding c2string_def Let_def tw length_map d n l c2s_runes_encode [OF ok] by (simp only: if_False)
  then show ?thesis
    using False by auto
qed

lemma runenlen_encode: "\<forall>r\<in>set rs. rune_ok r \<Longrightarrow> runenlen rs = length (utf_encode rs)"
  by (induction rs) (simp_all add: runenlen_def runenlen1_def runetochar_ok r2c_bytes_simps)

lemma utf_encode_length: "length (utf_encode rs) \<le> length rs * 4"
proof (induction rs)
  case (Cons r rs)
  then show ?case
    using runetochar_len [of r] by simp
qed simp

lemma rune_ok_nonneg: "rune_ok r \<Longrightarrow> \<not> r <s 0"
proof -
  assume "rune_ok r"
  then have "uint r \<le> 0x10FFFF"
    by (simp add: rune_ok_def word_le_def)
  then have "sint r = uint r"
    unfolding sint_uint by (intro signed_take_bit_int_eq_self) (auto intro: order_trans [of _ 0])
  then show ?thesis
    by (simp add: word_sless_alt)
qed

lemma s2c_chars: "\<forall>r\<in>set rs. rune_ok r \<Longrightarrow> concat (map s2c_char rs) = utf_encode rs"
proof (induction rs)
  case (Cons r rs)
  have "\<not> r <s 0"
    using Cons.prems by (intro rune_ok_nonneg) simp
  then show ?case
    using Cons word_sless_128 [of r] by (auto simp: s2c_char_def runetochar_ascii)
qed simp


text \<open>
  Claim C32 (roundtrip).  A well-formed string of valid runes, whose characters are ASCII if it is kept as bytes, becomes its
  UTF-8 bytes by the conversion to an array and, terminated and within the buffer, by \<open>string2c\<close>.  The
  conversion of the bytes back is a well-formed string of the same characters, kept as bytes if all of them
  are ASCII.
\<close>

theorem string_bytes_roundtrip:
  assumes "\<forall>n. n \<le> room n" and "swf ss" and "\<forall>r\<in>set (schars ss). rune_ok r \<and> (slen ss \<ge> 0 \<longrightarrow> r \<le> 0x7F)"
  shows "\<exists>a buf n ss'. cvtca junk (Some ss) = Inr a \<and> string2c (Some ss) = (buf, n)
    \<and> a = utf_encode (schars ss) \<and> buf = a @ [0] \<and> length buf \<le> n
    \<and> cvtac room (Some a) = Some ss' \<and> swf ss' \<and> schars ss' = schars ss
    \<and> (slen ss' \<ge> 0 \<longleftrightarrow> (\<forall>r\<in>set (schars ss). r \<le> 0x7F))"
proof -
  have w: "length (schars ss) = nat \<bar>slen ss\<bar>" "slen ss \<ge> 0 \<longrightarrow> nat (slen ss) < sroom ss"
    using assms(2) by (auto simp: swf_def STRUCTALIGN_def)
  have ok: "\<forall>r\<in>set (schars ss). rune_ok r"
    using assms(3) by blast
  have asc: "map ucast (schars ss) = utf_encode (schars ss)" "length (utf_encode (schars ss)) = length (schars ss)" if "slen ss \<ge> 0"
    using utf_encode_ascii [of "schars ss"] assms(3) that by auto
  have a: "cvtca junk (Some ss) = Inr (utf_encode (schars ss))"
    using w(1) asc runenlen_encode [OF ok] by (simp add: cvtca_def utf_encode_def Let_def)
  have b: "fst (string2c (Some ss)) = utf_encode (schars ss) @ [0]" "length (utf_encode (schars ss)) + 1 \<le> snd (string2c (Some ss))"
    using w asc s2c_chars [OF ok] utf_encode_length [of "schars ss"] by (auto simp: string2c_def Let_def)
  have c: "swf (c2string room (utf_encode (schars ss)))" "schars (c2string room (utf_encode (schars ss))) = schars ss"
    "slen (c2string room (utf_encode (schars ss))) \<ge> 0 \<longleftrightarrow> (\<forall>r\<in>set (schars ss). r \<le> 0x7F)"
    unfolding c2string_encode [OF ok] using newstring_wf [OF assms(1)] newrunes_wf [OF assms(1)]
    by (auto simp: newstring_def newrunes_def)
  show ?thesis
    using a b c by (cases "string2c (Some ss)") (auto simp: cvtac_def)
qed


theorem string_bytes_roundtrip_witness:
  "\<exists>a buf n ss'. cvtca 7 (Some \<lparr>slen = -2, smax = 2, sroom = 16, schars = [0x20AC, 0x41]\<rparr>) = Inr a
    \<and> string2c (Some \<lparr>slen = -2, smax = 2, sroom = 16, schars = [0x20AC, 0x41]\<rparr>) = (buf, n)
    \<and> buf = a @ [0] \<and> cvtac (\<lambda>n. n) (Some a) = Some ss' \<and> schars ss' = [0x20AC, 0x41]"
  using string_bytes_roundtrip [of "\<lambda>n. n" "\<lparr>slen = -2, smax = 2, sroom = 16, schars = [0x20AC, 0x41]\<rparr>" 7]
  by (auto simp: swf_def STRUCTALIGN_def rune_ok_def)

section \<open>Comparison\<close>

lemma cmp_chars_sgn:
  "(case cmp_chars c1 c2 (min (length c1) (length c2)) of Some d \<Rightarrow> sgn d | None \<Rightarrow> sgn (int (length c1) - int (length c2)))
   = (if c1 = c2 then 0 else if (c1, c2) \<in> lexord {(x, y). x <s y} then -1 else 1)"
proof (induction c1 arbitrary: c2)
  case Nil
  then show ?case
    by (cases c2) auto
next
  case (Cons x c1)
  show ?case
    using Cons [of "tl c2"] by (cases c2) (auto split: option.splits)
qed

text \<open>A string of bytes that are below \<open>Runeself\<close>, as \<open>c2string\<close>, \<open>slicer\<close> and \<open>addstring\<close> make it of such bytes.\<close>

definition ascii_ok :: "String \<Rightarrow> bool" where
  "ascii_ok ss \<longleftrightarrow> (slen ss \<ge> 0 \<longrightarrow> (\<forall>c\<in>set (schars ss). c < 0x80))"

lemma ascii_byte:
  assumes "c < (0x80 :: rune)"
  shows "uint (ucast c :: byte) = uint c" "sint c = uint c" "char_int c = c"
proof -
  have u: "uint c < 128"
    using assms by (simp add: word_less_def)
  then show b: "uint (ucast c :: byte) = uint c"
    by (simp add: unsigned_ucast_eq take_bit_int_eq_self)
  have n: "- 2147483648 \<le> uint c" "- 128 \<le> uint c"
    by (rule order_trans [OF _ uint_nonnegative]; simp)+
  show "sint c = uint c"
    using u n by (simp add: sint_uint signed_take_bit_int_eq_self_iff)
  have "sint (ucast c :: byte) = uint c"
    using u b n by (simp add: sint_uint signed_take_bit_int_eq_self_iff)
  then show "char_int c = c"
    by (simp add: char_int_def scast_eq)
qed

lemma memcmp_chars:
  "\<forall>c\<in>set c1 \<union> set c2. c < 0x80 \<Longrightarrow> memcmp (map ucast c1) (map ucast c2) n = (case cmp_chars c1 c2 n of Some d \<Rightarrow> d | None \<Rightarrow> 0)
     \<and> (\<forall>d. cmp_chars c1 c2 n = Some d \<longrightarrow> d \<noteq> 0)"
proof (induction c1 c2 n rule: cmp_chars.induct)
  case (1 x r1 y r2 n)
  have "x < 0x80" "y < 0x80"
    using 1(2) by simp_all
  then have "(ucast x :: byte) = ucast y \<longleftrightarrow> x = y" "(ucast x :: byte) < ucast y \<longleftrightarrow> x <s y"
    by (simp_all only: word_uint_eq_iff [of "ucast x :: byte"] word_uint_eq_iff [of x] word_less_def [of "ucast x :: byte"] word_sless_alt ascii_byte(1,2))
  then show ?case
    using 1 by auto
qed auto

lemma map_char_int: "\<forall>c\<in>set cs. c < 0x80 \<Longrightarrow> map char_int cs = cs"
  using ascii_byte(3) by (simp add: map_idI)

text \<open>
  Claim C33 (functional).  \<open>stringcmp\<close> of distinct objects, in each of its four cases of bytes and runes: if strings of bytes hold
  bytes below \<open>0x80\<close> only, the result has the sign of the lexicographic order of the characters, and is zero exactly for equal
  characters; the nil string is less than every string that is not empty.
\<close>

theorem stringcmp_lexicographic:
  assumes "pred_option swf s1" and "pred_option swf s2" and "pred_option ascii_ok s1" and "pred_option ascii_ok s2"
  shows "sgn (stringcmp False s1 s2) =
    (if schars_of s1 = schars_of s2 then 0
     else if (schars_of s1, schars_of s2) \<in> lexord {(x, y). x <s y} then -1 else 1)"
proof -
  define t1 where "t1 = (case s1 of None \<Rightarrow> snil | Some ss \<Rightarrow> ss)"
  define t2 where "t2 = (case s2 of None \<Rightarrow> snil | Some ss \<Rightarrow> ss)"
  have c: "schars_of s1 = schars t1" "schars_of s2 = schars t2"
    by (auto simp: t1_def t2_def schars_of_def snil_def split: option.splits)
  have l: "\<bar>slen t1\<bar> = int (length (schars t1))" "\<bar>slen t2\<bar> = int (length (schars t2))"
    using assms(1,2) by (auto simp: t1_def t2_def snil_def swf_def split: option.splits)
  have a: "slen t1 \<ge> 0 \<Longrightarrow> \<forall>c\<in>set (schars t1). c < 0x80" "slen t2 \<ge> 0 \<Longrightarrow> \<forall>c\<in>set (schars t2). c < 0x80"
    using assms(3,4) by (auto simp: t1_def t2_def snil_def ascii_ok_def split: option.splits)
  have m: "nat (min (int i) (int j)) = min i j" for i j
    by simp
  have "stringcmp False s1 s2 = (if s1 = None \<and> s2 = None then 0 else case cmp_chars (schars t1) (schars t2) (min (length (schars t1)) (length (schars t2))) of
       Some d \<Rightarrow> d | None \<Rightarrow> int (length (schars t1)) - int (length (schars t2)))"
    unfolding stringcmp_def Let_def t1_def [symmetric] t2_def [symmetric] l m
    using memcmp_chars [of "schars t1" "schars t2" "min (length (schars t1)) (length (schars t2))"] a
      map_char_int [of "schars t1"] map_char_int [of "schars t2"]
    by (cases "slen t1 \<ge> 0"; cases "slen t2 \<ge> 0"; cases "cmp_chars (schars t1) (schars t2) (min (length (schars t1)) (length (schars t2)))") auto
  then have "sgn (stringcmp False s1 s2) = (case cmp_chars (schars t1) (schars t2) (min (length (schars t1)) (length (schars t2))) of
       Some d \<Rightarrow> sgn d | None \<Rightarrow> sgn (int (length (schars t1)) - int (length (schars t2))))"
    by (auto simp: t1_def t2_def snil_def split: option.split)
  then show ?thesis
    unfolding c cmp_chars_sgn .
qed

theorem stringcmp_lexicographic_witness:
  "sgn (stringcmp False (Some (c2string (\<lambda>n. n) [0x61])) (Some \<lparr>slen = -2, smax = 2, sroom = 16, schars = [0x61, 0x20AC]\<rparr>)) = -1"
proof -
  have "swf (c2string (\<lambda>n. n) [0x61])" "ascii_ok (c2string (\<lambda>n. n) [0x61])" "schars (c2string (\<lambda>n. n) [0x61]) = [0x61]"
    by (simp_all add: c2string_def swf_def newstring_def STRUCTALIGN_def ascii_ok_def)
  then show ?thesis
    using stringcmp_lexicographic [of "Some (c2string (\<lambda>n. n) [0x61])" "Some \<lparr>slen = -2, smax = 2, sroom = 16, schars = [0x61, 0x20AC]\<rparr>"]
    by (simp add: schars_of_def swf_def ascii_ok_def STRUCTALIGN_def)
qed

text \<open>
  A negative number assigned to a character of a string of bytes is cut to a byte.  Such a byte compares as negative with a rune, and
  as positive with another byte.
\<close>

lemma stringcmp_signed:
  "\<exists>ns. insc (\<lambda>n. n) False (-23) 0 None = Inr ns \<and> schars ns = [0xE9] \<and> slen ns = 1
     \<and> stringcmp False (Some ns) (Some \<lparr>slen = -1, smax = 1, sroom = 12, schars = [0xE9]\<rparr>) = -1
     \<and> stringcmp False (Some ns) (Some (c2string (\<lambda>n. n) [0x61])) = 1"
proof -
  have "case insc (\<lambda>n. n) False (-23) 0 None of Inl _ \<Rightarrow> False | Inr ns \<Rightarrow> schars ns = [0xE9] \<and> slen ns = 1
     \<and> stringcmp False (Some ns) (Some \<lparr>slen = -1, smax = 1, sroom = 12, schars = [0xE9]\<rparr>) = -1
     \<and> stringcmp False (Some ns) (Some (c2string (\<lambda>n. n) [0x61])) = 1"
    by code_simp
  then show ?thesis
    by (auto split: sum.splits)
qed

end
