(* ===== verification/Dis_Chan.thy ===== *)
theory Dis_Chan
  imports Inferno_Base
begin

text \<open>
  Channels of the Dis virtual machine: the instructions \<^verbatim>\<open>send\<close>, \<^verbatim>\<open>recv\<close> and \<^verbatim>\<open>newc\<close> of \<^verbatim>\<open>src/libinterp/xec.c\<close>, the instructions \<^verbatim>\<open>alt\<close>
  and \<^verbatim>\<open>nbalt\<close> of \<^verbatim>\<open>src/libinterp/alt.c\<close>, and what \<^verbatim>\<open>src/emu/port/dis.c\<close> does to a prog that waits.

  The state holds the channels, the memory in which the values move, the run queue and the fields of the progs that these routines
  use.  A prog, a channel and a location are numbers.  A value takes one location, as \<^verbatim>\<open>movw\<close> moves it; the index that an alt
  on an array of channels stores takes one more, before the value.  The prog that runs is the head of the run queue (\<^verbatim>\<open>currun\<close>), and its
  registers \<^verbatim>\<open>R.s\<close> and \<^verbatim>\<open>R.d\<close> are arguments; \<^verbatim>\<open>R.t\<close> is the field \<^verbatim>\<open>rt\<close>, and \<^verbatim>\<open>R.IC\<close>, which only ends the quanta of the prog, is left
  out.  Progs with a routine \<^verbatim>\<open>addrun\<close> of their own, a failing \<^verbatim>\<open>malloc\<close>, reference counts and the fields \<^verbatim>\<open>kill\<close> are not in
  the model.  Following a null pointer, or a store outside a block, is the result \<^verbatim>\<open>Crash\<close>.  An alt has the contents of its arrays
  of channels by value, so an element that is assigned while the alt waits is not in the model either.

  The lemmas here are about the queues of progs and about \<^verbatim>\<open>altdone\<close>, which takes a prog out of the queues of all the channels
  of its alt.
\<close>

section \<open>Progs, channels and memory\<close>

type_synonym prog = nat
type_synonym loc = nat
type_synonym cid = nat

datatype pstate = Palt | Psend | Precv | Pdebug | Pready | Prelease | Pexiting | Pbroken

text \<open>A queue is the chain of its \<open>Progq\<close>s: \<open>[None]\<close> is the one with no prog in it, \<open>[]\<close> a null pointer.\<close>

type_synonym progq = "prog option list"

record Channel =
  cbuf :: "int list option"
  sendq :: progq
  recvq :: progq
  front :: nat
  csize :: nat

text \<open>An entry of an alt: a channel, an array of channels, or \<open>H\<close>.\<close>

datatype altch = Nilc | Chan cid | Arr "cid option list"

record Altc =
  ac_c :: altch
  ac_ptr :: loc

record Alt =
  nsend :: nat
  nrecv :: nat
  ac :: "Altc list"

record vm =
  chans :: "cid \<Rightarrow> Channel"
  mem :: "loc \<Rightarrow> int"
  runq :: "prog list"
  state :: "prog \<Rightarrow> pstate"
  pptr :: "prog \<Rightarrow> loc option"
  pchan :: "prog \<Rightarrow> cid option"
  pRs :: "prog \<Rightarrow> Alt"
  pRd :: "prog \<Rightarrow> loc"
  rt :: bool
  xrand :: u64

datatype exn = exNilref | exAlt | exNegsize

text \<open>A routine returns, raises an exception of the program, or follows a null pointer or stores outside a block.\<close>

datatype 'a cres = Done 'a | Raise exn vm | Crash

primrec andthen :: "'a cres \<Rightarrow> ('a \<Rightarrow> 'b cres) \<Rightarrow> 'b cres" where
  "andthen (Done x) f = f x"
| "andthen (Raise e v) f = Raise e v"
| "andthen Crash f = Crash"

definition setchan :: "cid \<Rightarrow> (Channel \<Rightarrow> Channel) \<Rightarrow> vm \<Rightarrow> vm" where
  "setchan c f v = v\<lparr>chans := (chans v)(c := f (chans v c))\<rparr>"

definition store :: "loc \<Rightarrow> int \<Rightarrow> vm \<Rightarrow> vm" where
  "store l x v = v\<lparr>mem := (mem v)(l := x)\<rparr>"

definition setptr :: "prog \<Rightarrow> loc option \<Rightarrow> vm \<Rightarrow> vm" where
  "setptr p l v = v\<lparr>pptr := (pptr v)(p := l)\<rparr>"

section \<open>Queues of progs\<close>

definition qprog :: "progq \<Rightarrow> prog option cres" where
  "qprog q = (case q of [] \<Rightarrow> Crash | x # _ \<Rightarrow> Done x)"

definition cqadd :: "progq \<Rightarrow> prog \<Rightarrow> progq cres" where
  "cqadd q p = andthen (qprog q) (\<lambda>h. if h = None then Done (Some p # tl q) else Done (q @ [Some p]))"

definition cqdel :: "progq \<Rightarrow> progq cres" where
  "cqdel q = (case q of [] \<Rightarrow> Crash | [x] \<Rightarrow> Done [None] | x # r \<Rightarrow> Done r)"

fun delp_loop :: "progq \<Rightarrow> prog \<Rightarrow> progq" where
  "delp_loop [] p = []"
| "delp_loop (x # q) p = (if x = Some p then delp_loop q p else x # delp_loop q p)"

definition cqdelp :: "progq \<Rightarrow> prog \<Rightarrow> progq cres" where
  "cqdelp q p = (case q of [] \<Rightarrow> Crash | [x] \<Rightarrow> Done [if x = Some p then None else x] | _ \<Rightarrow> Done (delp_loop q p))"

definition add_send :: "cid \<Rightarrow> prog \<Rightarrow> vm \<Rightarrow> vm cres" where
  "add_send c p v = andthen (cqadd (sendq (chans v c)) p) (\<lambda>q. Done (setchan c (\<lambda>ch. ch\<lparr>sendq := q\<rparr>) v))"

definition add_recv :: "cid \<Rightarrow> prog \<Rightarrow> vm \<Rightarrow> vm cres" where
  "add_recv c p v = andthen (cqadd (recvq (chans v c)) p) (\<lambda>q. Done (setchan c (\<lambda>ch. ch\<lparr>recvq := q\<rparr>) v))"

section \<open>Buffers and the run queue\<close>

definition CANGET :: "Channel \<Rightarrow> bool" where
  "CANGET c \<longleftrightarrow> csize c > 0"

definition CANPUT :: "Channel \<Rightarrow> bool" where
  "CANPUT c \<longleftrightarrow> (case cbuf c of None \<Rightarrow> False | Some b \<Rightarrow> csize c < length b)"

definition cnewc :: "int \<Rightarrow> Channel" where
  "cnewc len = \<lparr>cbuf = if len > 0 then Some (replicate (nat len) 0) else None, sendq = [None], recvq = [None], front = 0, csize = 0\<rparr>"

definition cgetb :: "Channel \<Rightarrow> (int \<times> Channel) option" where
  "cgetb c =
     (case cbuf c of
        None \<Rightarrow> None
      | Some b \<Rightarrow>
          if csize c > 0 then
            let f = front c + 1; f = (if f = length b then 0 else f)
            in Some (b ! front c, c\<lparr>front := f, csize := csize c - 1\<rparr>)
          else None)"

definition cputb :: "Channel \<Rightarrow> int \<Rightarrow> Channel option" where
  "cputb c x =
     (case cbuf c of
        None \<Rightarrow> None
      | Some b \<Rightarrow>
          if csize c < length b then
            let r = front c + csize c; r = (if r \<ge> length b then r - length b else r)
            in Some (c\<lparr>cbuf := Some (b[r := x]), csize := csize c + 1\<rparr>)
          else None)"

definition addrun :: "prog \<Rightarrow> vm \<Rightarrow> vm" where
  "addrun p v = v\<lparr>state := (state v)(p := Pready), runq := runq v @ [p]\<rparr>"

definition delrun :: "pstate \<Rightarrow> vm \<Rightarrow> (prog \<times> vm) cres" where
  "delrun s v = (case runq v of [] \<Rightarrow> Crash | p # r \<Rightarrow> Done (p, v\<lparr>state := (state v)(p := s), runq := r\<rparr>))"

section \<open>Leaving an alt\<close>

text \<open>\<open>sel\<close> is \<open>None\<close> for \<open>nil\<close>; \<open>sr\<close> is 0 for a send, 1 for a receive, -1 for none.\<close>

definition unq_send :: "cid \<Rightarrow> prog \<Rightarrow> vm \<Rightarrow> vm cres" where
  "unq_send c p v =
     andthen (qprog (sendq (chans v c))) (\<lambda>h. if h = None then Done v
       else andthen (cqdelp (sendq (chans v c)) p) (\<lambda>q. Done (setchan c (\<lambda>ch. ch\<lparr>sendq := q\<rparr>) v)))"

definition unq_recv :: "cid \<Rightarrow> prog \<Rightarrow> vm \<Rightarrow> vm cres" where
  "unq_recv c p v =
     andthen (qprog (recvq (chans v c))) (\<lambda>h. if h = None then Done v
       else andthen (cqdelp (recvq (chans v c)) p) (\<lambda>q. Done (setchan c (\<lambda>ch. ch\<lparr>recvq := q\<rparr>) v)))"

fun altunmark :: "cid option list \<Rightarrow> loc \<Rightarrow> prog \<Rightarrow> int \<Rightarrow> nat \<Rightarrow> nat \<Rightarrow> cid option \<times> vm \<Rightarrow> (cid option \<times> vm) cres" where
  "altunmark [] ptr p sr dn n (sel, v) = Done (sel, v)"
| "altunmark (c # cs) ptr p sr dn n (sel, v) =
     andthen (case c of None \<Rightarrow> Done v | Some c \<Rightarrow> unq_recv c p v) (\<lambda>v.
       altunmark cs ptr p sr dn (n + 1)
         (if sr = 1 \<and> c \<noteq> None \<and> sel = c
          then (None, store ptr (int n) (setptr p (Some (ptr + 1)) (store (pRd v p) (int dn) v)))
          else (sel, v)))"

fun done_sends :: "Altc list \<Rightarrow> prog \<Rightarrow> int \<Rightarrow> nat \<Rightarrow> cid option \<times> vm \<Rightarrow> (cid option \<times> vm) cres" where
  "done_sends [] p sr n (sel, v) = Done (sel, v)"
| "done_sends (a # as) p sr n (sel, v) =
     (case ac_c a of
        Nilc \<Rightarrow> done_sends as p sr (n + 1) (sel, v)
      | Arr _ \<Rightarrow> Crash
      | Chan c \<Rightarrow>
          andthen (unq_send c p v) (\<lambda>v.
            done_sends as p sr (n + 1)
              (if sr = 0 \<and> sel = Some c then (None, store (pRd v p) (int n) (setptr p (Some (ac_ptr a)) v)) else (sel, v))))"

fun done_recvs :: "Altc list \<Rightarrow> prog \<Rightarrow> int \<Rightarrow> nat \<Rightarrow> cid option \<times> vm \<Rightarrow> (cid option \<times> vm) cres" where
  "done_recvs [] p sr n (sel, v) = Done (sel, v)"
| "done_recvs (a # as) p sr n (sel, v) =
     (case ac_c a of
        Nilc \<Rightarrow> done_recvs as p sr (n + 1) (sel, v)
      | Arr cs \<Rightarrow> andthen (altunmark cs (ac_ptr a) p sr n 0 (sel, v)) (done_recvs as p sr (n + 1))
      | Chan c \<Rightarrow>
          andthen (unq_recv c p v) (\<lambda>v.
            done_recvs as p sr (n + 1)
              (if sr = 1 \<and> sel = Some c then (None, store (pRd v p) (int n) (setptr p (Some (ac_ptr a)) v)) else (sel, v))))"

definition asends :: "Alt \<Rightarrow> Altc list" where
  "asends a = take (nsend a) (ac a)"

definition arecvs :: "Alt \<Rightarrow> Altc list" where
  "arecvs a = take (nrecv a) (drop (nsend a) (ac a))"

definition altdone :: "Alt \<Rightarrow> prog \<Rightarrow> cid option \<Rightarrow> int \<Rightarrow> vm \<Rightarrow> vm cres" where
  "altdone a p sel sr v =
     andthen (done_sends (asends a) p sr 0 (sel, v)) (\<lambda>sv.
       andthen (done_recvs (arecvs a) p sr (nsend a) sv) (\<lambda>(sel, v). Done v))"

section \<open>Send and receive\<close>

text \<open>A prog that waits leaves where its value is or goes, and its channel.\<close>

definition chwait :: "pstate \<Rightarrow> loc \<Rightarrow> cid \<Rightarrow> vm \<Rightarrow> (prog \<times> vm) cres" where
  "chwait s l c v =
     andthen (delrun s v) (\<lambda>(p, v). Done (p, (setptr p (Some l) v)\<lparr>pchan := (pchan v)(p := Some c), rt := True\<rparr>))"

definition isend :: "loc \<Rightarrow> cid option \<Rightarrow> vm \<Rightarrow> vm cres" where
  "isend s d v =
     (case d of
        None \<Rightarrow> Raise exNilref v
      | Some c \<Rightarrow>
          andthen (qprog (recvq (chans v c))) (\<lambda>h.
            case h of
              None \<Rightarrow>
                (case cputb (chans v c) (mem v s) of
                   Some ch \<Rightarrow> Done (setchan c (\<lambda>_. ch) v)
                 | None \<Rightarrow> andthen (chwait Psend s c v) (\<lambda>(p, v). add_send c p v))
            | Some p \<Rightarrow>
                andthen (cqdel (recvq (chans v c))) (\<lambda>q.
                  let v = setchan c (\<lambda>ch. ch\<lparr>recvq := q\<rparr>) v in
                  andthen (if state v p = Palt then altdone (pRs v p) p (Some c) 1 v else Done v) (\<lambda>v.
                    case pptr v p of
                      None \<Rightarrow> Crash
                    | Some l \<Rightarrow> Done ((addrun p (store l (mem v s) (setptr p None v)))\<lparr>rt := False\<rparr>)))))"

text \<open>A value from the waiting sender, or through the buffer.\<close>

definition take_value :: "cid \<Rightarrow> loc \<Rightarrow> loc \<Rightarrow> vm \<Rightarrow> vm" where
  "take_value c d l v =
     (case cbuf (chans v c) of
        Some _ \<Rightarrow>
          (let v = (case cgetb (chans v c) of None \<Rightarrow> v | Some (x, ch) \<Rightarrow> store d x (setchan c (\<lambda>_. ch) v))
           in case cputb (chans v c) (mem v l) of None \<Rightarrow> v | Some ch \<Rightarrow> setchan c (\<lambda>_. ch) v)
      | None \<Rightarrow> store d (mem v l) v)"

definition irecv :: "cid option \<Rightarrow> loc \<Rightarrow> vm \<Rightarrow> vm cres" where
  "irecv s d v =
     (case s of
        None \<Rightarrow> Raise exNilref v
      | Some c \<Rightarrow>
          andthen (qprog (sendq (chans v c))) (\<lambda>h.
            case h of
              None \<Rightarrow>
                (case cgetb (chans v c) of
                   Some (x, ch) \<Rightarrow> Done (store d x (setchan c (\<lambda>_. ch) v))
                 | None \<Rightarrow> andthen (chwait Precv d c v) (\<lambda>(p, v). add_recv c p v))
            | Some p \<Rightarrow>
                andthen (cqdel (sendq (chans v c))) (\<lambda>q.
                  let v = setchan c (\<lambda>ch. ch\<lparr>sendq := q\<rparr>) v in
                  andthen (if state v p = Palt then altdone (pRs v p) p (Some c) 0 v else Done v) (\<lambda>v.
                    case pptr v p of
                      None \<Rightarrow> Crash
                    | Some l \<Rightarrow> Done ((addrun p (setptr p None (take_value c d l v)))\<lparr>rt := False\<rparr>)))))"

section \<open>The alt instruction\<close>

definition mark_recv :: "cid \<Rightarrow> prog \<Rightarrow> vm \<Rightarrow> (nat \<times> vm) cres" where
  "mark_recv c p v =
     andthen (qprog (sendq (chans v c))) (\<lambda>h.
       andthen (add_recv c p v) (\<lambda>v'. Done (if h \<noteq> None \<or> CANGET (chans v c) then 1 else 0, v')))"

fun altmark :: "cid option list \<Rightarrow> prog \<Rightarrow> nat \<times> vm \<Rightarrow> (nat \<times> vm) cres" where
  "altmark [] p (n, v) = Done (n, v)"
| "altmark (None # cs) p (n, v) = altmark cs p (n, v)"
| "altmark (Some c # cs) p (n, v) = andthen (mark_recv c p v) (\<lambda>(k, v). altmark cs p (n + k, v))"

fun rdy_recvs :: "Altc list \<Rightarrow> prog \<Rightarrow> exn option \<times> nat \<times> vm \<Rightarrow> (exn option \<times> nat \<times> vm) cres" where
  "rdy_recvs [] p r = Done r"
| "rdy_recvs (a # as) p (e, n, v) =
     (case ac_c a of
        Nilc \<Rightarrow> rdy_recvs as p (Some exNilref, n, v)
      | Arr cs \<Rightarrow> andthen (altmark cs p (n, v)) (\<lambda>(n, v). rdy_recvs as p (e, n, v))
      | Chan c \<Rightarrow> andthen (mark_recv c p v) (\<lambda>(k, v). rdy_recvs as p (e, n + k, v)))"

fun rdy_sends :: "Altc list \<Rightarrow> prog \<Rightarrow> exn option \<times> nat \<times> vm \<Rightarrow> (exn option \<times> nat \<times> vm) cres" where
  "rdy_sends [] p r = Done r"
| "rdy_sends (a # as) p (e, n, v) =
     (case ac_c a of
        Nilc \<Rightarrow> rdy_sends as p (Some exNilref, n, v)
      | Arr _ \<Rightarrow> Crash
      | Chan c \<Rightarrow>
          andthen (qprog (recvq (chans v c))) (\<lambda>h.
            if h \<noteq> None \<or> CANPUT (chans v c) then
              if h = Some p then rdy_sends as p (Some exAlt, n, v)
              else andthen (add_send c p v) (\<lambda>v. rdy_sends as p (e, n + 1, v))
            else andthen (add_send c p v) (\<lambda>v. rdy_sends as p (e, n, v))))"

definition altrdy :: "Alt \<Rightarrow> prog \<Rightarrow> vm \<Rightarrow> (nat \<times> vm) cres" where
  "altrdy a p v =
     andthen (rdy_recvs (arecvs a) p (None, 0, v)) (\<lambda>r.
       andthen (rdy_sends (asends a) p r) (\<lambda>(e, n, v).
         case e of
           None \<Rightarrow> Done (n, v)
         | Some e \<Rightarrow> andthen (altdone a p None (-1) v) (\<lambda>v. Raise e v)))"

text \<open>
  The loops of \<open>altcomm\<close>: \<open>Inr\<close> is the value of \<open>which\<close> when no entry was chosen, \<open>Inl\<close> the state after the
  communication.  \<open>d\<close> is \<open>R.d\<close>, where the number of the entry goes.
\<close>

fun comm_sends :: "Altc list \<Rightarrow> nat \<Rightarrow> nat \<Rightarrow> loc \<Rightarrow> vm \<Rightarrow> (vm + nat) cres" where
  "comm_sends [] n which d v = Done (Inr which)"
| "comm_sends (a # as) n which d v =
     (case ac_c a of
        Chan c \<Rightarrow>
          andthen (qprog (recvq (chans v c))) (\<lambda>h.
            if h \<noteq> None \<or> CANPUT (chans v c) then
              if which = 0 then andthen (isend (ac_ptr a) (Some c) (store d (int n) v)) (\<lambda>v. Done (Inl v))
              else comm_sends as (n + 1) (which - 1) d v
            else comm_sends as (n + 1) which d v)
      | _ \<Rightarrow> Crash)"

fun comm_arr :: "cid option list \<Rightarrow> loc \<Rightarrow> nat \<Rightarrow> nat \<Rightarrow> nat \<Rightarrow> loc \<Rightarrow> vm \<Rightarrow> (vm + nat) cres" where
  "comm_arr [] ptr n an which d v = Done (Inr which)"
| "comm_arr (None # cs) ptr n an which d v = comm_arr cs ptr n (an + 1) which d v"
| "comm_arr (Some c # cs) ptr n an which d v =
     andthen (qprog (sendq (chans v c))) (\<lambda>h.
       if h \<noteq> None \<or> CANGET (chans v c) then
         if which = 0 then andthen (irecv (Some c) (ptr + 1) (store ptr (int an) (store d (int n) v))) (\<lambda>v. Done (Inl v))
         else comm_arr cs ptr n (an + 1) (which - 1) d v
       else comm_arr cs ptr n (an + 1) which d v)"

fun comm_recvs :: "Altc list \<Rightarrow> nat \<Rightarrow> nat \<Rightarrow> loc \<Rightarrow> vm \<Rightarrow> (vm + nat) cres" where
  "comm_recvs [] n which d v = Done (Inr which)"
| "comm_recvs (a # as) n which d v =
     (case ac_c a of
        Nilc \<Rightarrow> Crash
      | Arr cs \<Rightarrow>
          andthen (comm_arr cs (ac_ptr a) n 0 which d v) (\<lambda>r. case r of Inl v \<Rightarrow> Done (Inl v) | Inr which \<Rightarrow> comm_recvs as (n + 1) which d v)
      | Chan c \<Rightarrow>
          andthen (qprog (sendq (chans v c))) (\<lambda>h.
            if h \<noteq> None \<or> CANGET (chans v c) then
              if which = 0 then andthen (irecv (Some c) (ac_ptr a) (store d (int n) v)) (\<lambda>v. Done (Inl v))
              else comm_recvs as (n + 1) (which - 1) d v
            else comm_recvs as (n + 1) which d v))"

definition altcomm :: "Alt \<Rightarrow> nat \<Rightarrow> loc \<Rightarrow> vm \<Rightarrow> vm cres" where
  "altcomm a which d v =
     andthen (comm_sends (asends a) 0 which d v) (\<lambda>r.
       case r of
         Inl v \<Rightarrow> Done v
       | Inr which \<Rightarrow> andthen (comm_recvs (arecvs a) (nsend a) which d v) (\<lambda>r. case r of Inl v \<Rightarrow> Done v | Inr _ \<Rightarrow> Done v))"

definition xecalt :: "bool \<Rightarrow> Alt \<Rightarrow> loc \<Rightarrow> vm \<Rightarrow> vm cres" where
  "xecalt block a d v =
     (case runq v of
        [] \<Rightarrow> Crash
      | p # _ \<Rightarrow>
          andthen (altrdy a p v) (\<lambda>(nrdy, v).
            if nrdy = 0 then
              if block then
                andthen (delrun Palt v) (\<lambda>(_, v). Done (v\<lparr>pRs := (pRs v)(p := a), pRd := (pRd v)(p := d), rt := True\<rparr>))
              else altdone a p None (-1) (store d (int (nsend a + nrecv a)) v)
            else
              let v = v\<lparr>xrand := xrand v * 1103515245 + 12345\<rparr>
              in andthen (altcomm a (unat (drop_bit 8 (xrand v)) mod nrdy) d v) (altdone a p None (-1))))"

definition nbalt :: "Alt \<Rightarrow> loc \<Rightarrow> vm \<Rightarrow> vm cres" where
  "nbalt a d v = xecalt False a d v"

definition alt :: "Alt \<Rightarrow> loc \<Rightarrow> vm \<Rightarrow> vm cres" where
  "alt a d v = xecalt True a d (v\<lparr>rt := False\<rparr>)"

text \<open>How \<open>killprog\<close> and \<open>exprog\<close> take a prog off the queues it waits in.\<close>

definition unwait :: "prog \<Rightarrow> vm \<Rightarrow> vm cres" where
  "unwait p v =
     (case state v p of
        Palt \<Rightarrow> altdone (pRs v p) p None (-1) v
      | Psend \<Rightarrow>
          (case pchan v p of None \<Rightarrow> Crash
           | Some c \<Rightarrow> andthen (cqdelp (sendq (chans v c)) p) (\<lambda>q. Done (setchan c (\<lambda>ch. ch\<lparr>sendq := q\<rparr>) v)))
      | Precv \<Rightarrow>
          (case pchan v p of None \<Rightarrow> Crash
           | Some c \<Rightarrow> andthen (cqdelp (recvq (chans v c)) p) (\<lambda>q. Done (setchan c (\<lambda>ch. ch\<lparr>recvq := q\<rparr>) v)))
      | _ \<Rightarrow> Done v)"

text \<open>\<open>exprog\<close> makes a prog that waits ready again, to raise an exception there.\<close>

definition exprog :: "prog \<Rightarrow> vm \<Rightarrow> vm cres" where
  "exprog p v =
     (if state v p \<in> {Pexiting, Pbroken, Pdebug} then Done v
      else andthen (unwait p v) (\<lambda>v. Done (if state v p \<noteq> Pready \<and> state v p \<noteq> Prelease then addrun p v else v)))"

text \<open>
  A send by the system itself: the channel gets a buffer if it has none and no prog waits for the value.  An array of negative length (\<open>heaparray\<close>)
  does not fit in the block that is allocated for it: \<open>Crash\<close>.
\<close>

definition csendalt :: "cid option \<Rightarrow> loc \<Rightarrow> int \<Rightarrow> vm \<Rightarrow> (bool \<times> vm) cres" where
  "csendalt c ip len v =
     (case c of
        None \<Rightarrow> Raise exNilref v
      | Some c \<Rightarrow>
          andthen (qprog (recvq (chans v c))) (\<lambda>h.
            if h = None \<and> (case cbuf (chans v c) of None \<Rightarrow> True | Some b \<Rightarrow> csize (chans v c) = length b) then
              if cbuf (chans v c) \<noteq> None then Done (False, v)
              else if len < 0 then Crash
              else andthen (isend ip (Some c) (setchan c (\<lambda>ch. ch\<lparr>cbuf := Some (replicate (nat len) 0)\<rparr>) v)) (\<lambda>w. Done (True, w\<lparr>rt := rt v\<rparr>))
            else andthen (isend ip (Some c) v) (\<lambda>w. Done (True, w\<lparr>rt := rt v\<rparr>))))"

text \<open>\<open>newc\<close>: a length that is given may not be negative; \<open>cnewc\<close> takes it as an \<open>int\<close>.\<close>

definition newc :: "cid \<Rightarrow> int option \<Rightarrow> vm \<Rightarrow> vm cres" where
  "newc c len v =
     (case len of
        None \<Rightarrow> Done (setchan c (\<lambda>_. cnewc 0) v)
      | Some n \<Rightarrow> if n < 0 then Raise exNegsize v else Done (setchan c (\<lambda>_. cnewc (signed_take_bit 31 n)) v))"

section \<open>Well-formed queues\<close>

definition mkq :: "prog list \<Rightarrow> progq" where
  "mkq ps = (if ps = [] then [None] else map Some ps)"

definition progs :: "progq \<Rightarrow> prog list" where
  "progs q = map the (filter (\<lambda>x. x \<noteq> None) q)"

definition wfq :: "progq \<Rightarrow> bool" where
  "wfq q \<longleftrightarrow> q = mkq (progs q) \<and> distinct (progs q)"

lemma filter_Some: "filter (\<lambda>x. x \<noteq> None) (map Some ps) = map Some ps"
  by (induction ps) simp_all

lemma progs_mkq [simp]: "progs (mkq ps) = ps"
  by (simp add: progs_def mkq_def filter_Some del: not_None_eq)

lemma mkq_inj [simp]: "mkq ps = mkq qs \<longleftrightarrow> ps = qs"
  by (metis progs_mkq)

lemma wfq_mkq [simp]: "wfq (mkq ps) \<longleftrightarrow> distinct ps"
  by (simp add: wfq_def)

lemma wfqE: "wfq q \<Longrightarrow> (\<And>ps. q = mkq ps \<Longrightarrow> progs q = ps \<Longrightarrow> distinct ps \<Longrightarrow> thesis) \<Longrightarrow> thesis"
  unfolding wfq_def by blast

lemma qprog_mkq [simp]: "qprog (mkq ps) = Done (case ps of [] \<Rightarrow> None | p # _ \<Rightarrow> Some p)"
  by (cases ps) (simp_all add: qprog_def mkq_def)

lemma cqadd_mkq [simp]: "cqadd (mkq ps) p = Done (mkq (ps @ [p]))"
  by (cases ps) (simp_all add: cqadd_def, simp_all add: mkq_def)

lemma cqdel_mkq [simp]: "cqdel (mkq (p # ps)) = Done (mkq ps)"
  by (cases ps) (simp_all add: cqdel_def mkq_def)

lemma delp_loop_Some: "delp_loop (map Some ps) p = map Some (filter (\<lambda>x. x \<noteq> p) ps)"
  by (induction ps) simp_all

lemma cqdelp_mkq: "distinct ps \<Longrightarrow> cqdelp (mkq ps) p = Done (mkq (filter (\<lambda>x. x \<noteq> p) ps))"
proof (cases ps)
  case (Cons x xs)
  assume d: "distinct ps"
  show ?thesis
  proof (cases xs)
    case Nil
    then show ?thesis
      using Cons by (simp add: cqdelp_def mkq_def)
  next
    case c2: (Cons y ys)
    have "filter (\<lambda>z. z \<noteq> p) ps \<noteq> []"
      using d Cons c2 by auto
    then show ?thesis
      using delp_loop_Some [of ps p] Cons c2 by (simp add: cqdelp_def mkq_def)
  qed
qed (simp add: cqdelp_def mkq_def)

text \<open>Two entries for one prog are both taken out, and the queue is a null pointer then.\<close>

lemma cqdelp_twice: "cqdelp (mkq [p, p]) p = Done []"
  by (simp add: cqdelp_def mkq_def)

abbreviation senders :: "vm \<Rightarrow> cid \<Rightarrow> prog list" where
  "senders v c \<equiv> progs (sendq (chans v c))"

abbreviation receivers :: "vm \<Rightarrow> cid \<Rightarrow> prog list" where
  "receivers v c \<equiv> progs (recvq (chans v c))"

definition queues_ok :: "vm \<Rightarrow> bool" where
  "queues_ok v \<longleftrightarrow> (\<forall>c. wfq (sendq (chans v c)) \<and> wfq (recvq (chans v c)))"

lemma queues_okD:
  assumes "queues_ok v"
  shows "sendq (chans v c) = mkq (senders v c)" "recvq (chans v c) = mkq (receivers v c)" "distinct (senders v c)" "distinct (receivers v c)"
  using assms by (auto simp: queues_ok_def wfq_def)

section \<open>Taking a prog out of the queues\<close>

text \<open>The state without \<open>p\<close> in the send queues of \<open>X\<close> and the receive queues of \<open>Y\<close>.\<close>

definition without :: "cid set \<Rightarrow> cid set \<Rightarrow> prog \<Rightarrow> (cid \<Rightarrow> Channel) \<Rightarrow> cid \<Rightarrow> Channel" where
  "without X Y p f c =
     (f c)\<lparr>sendq := if c \<in> X then mkq (filter (\<lambda>x. x \<noteq> p) (progs (sendq (f c)))) else sendq (f c),
          recvq := if c \<in> Y then mkq (filter (\<lambda>x. x \<noteq> p) (progs (recvq (f c)))) else recvq (f c)\<rparr>"

lemma without_none [simp]: "without {} {} p f = f"
  by (simp add: without_def fun_eq_iff)

lemma without_without: "without X Y p (without X' Y' p f) = without (X \<union> X') (Y \<union> Y') p f"
  by (auto simp: without_def fun_eq_iff filter_filter conj_commute)

lemma filter_id: "p \<notin> set ps \<Longrightarrow> filter (\<lambda>x. x \<noteq> p) ps = ps"
  by (induction ps) auto

lemma queues_ok_without: "queues_ok v \<Longrightarrow> chans w = without X Y p (chans v) \<Longrightarrow> queues_ok w"
  by (auto simp: queues_ok_def without_def wfq_def)

definition same_sched :: "vm \<Rightarrow> vm \<Rightarrow> bool" where
  "same_sched v w \<longleftrightarrow> runq w = runq v \<and> state w = state v \<and> pchan w = pchan v \<and> pRs w = pRs v \<and> pRd w = pRd v \<and> rt w = rt v \<and> xrand w = xrand v"

lemma same_sched_refl [simp]: "same_sched v v"
  by (simp add: same_sched_def)

lemma same_sched_trans: "same_sched u v \<Longrightarrow> same_sched v w \<Longrightarrow> same_sched u w"
  by (simp add: same_sched_def)

lemma same_sched_store [simp]:
  "same_sched v (store l x w) = same_sched v w" "same_sched v (setptr p lo w) = same_sched v w" "same_sched v (setchan c f w) = same_sched v w"
  "same_sched (store l x v) w = same_sched v w" "same_sched (setptr p lo v) w = same_sched v w" "same_sched (setchan c f v) w = same_sched v w"
  by (simp_all add: same_sched_def store_def setptr_def setchan_def)

lemma state_ops [simp]:
  "chans (store l x v) = chans v" "chans (setptr p lo v) = chans v" "mem (setptr p lo v) = mem v" "mem (setchan c f v) = mem v"
  "pptr (store l x v) = pptr v" "pptr (setchan c f v) = pptr v" "mem (store l x v) = (mem v)(l := x)" "pptr (setptr p lo v) = (pptr v)(p := lo)"
  "pRd (store l x v) = pRd v" "pRd (setptr p lo v) = pRd v" "pRd (setchan c f v) = pRd v" "chans (setchan c f v) = (chans v)(c := f (chans v c))"
  "runq (store l x v) = runq v" "runq (setptr p lo v) = runq v" "runq (setchan c f v) = runq v"
  "state (store l x v) = state v" "state (setptr p lo v) = state v" "state (setchan c f v) = state v"
  "pchan (store l x v) = pchan v" "pchan (setptr p lo v) = pchan v" "pchan (setchan c f v) = pchan v"
  "pRs (store l x v) = pRs v" "pRs (setptr p lo v) = pRs v" "pRs (setchan c f v) = pRs v"
  by (simp_all add: store_def setptr_def setchan_def)

lemma unq_send_ok:
  assumes "queues_ok v"
  shows "\<exists>w. unq_send c p v = Done w \<and> chans w = without {c} {} p (chans v) \<and> mem w = mem v \<and> pptr w = pptr v \<and> same_sched v w"
proof -
  note q = queues_okD [OF assms, of c]
  show ?thesis
  proof (cases "senders v c = []")
    case True
    then have "unq_send c p v = Done v"
      using q(1) by (simp add: unq_send_def)
    moreover have "without {c} {} p (chans v) = chans v"
      using True q(1) by (auto simp: without_def fun_eq_iff)
    ultimately show ?thesis
      by simp
  next
    case False
    then have "unq_send c p v = Done (setchan c (\<lambda>ch. ch\<lparr>sendq := mkq (filter (\<lambda>x. x \<noteq> p) (senders v c))\<rparr>) v)"
      using q by (cases "senders v c") (simp_all add: unq_send_def cqdelp_mkq del: filter.simps)
    then show ?thesis
      by (auto simp: without_def fun_eq_iff)
  qed
qed

lemma unq_recv_ok:
  assumes "queues_ok v"
  shows "\<exists>w. unq_recv c p v = Done w \<and> chans w = without {} {c} p (chans v) \<and> mem w = mem v \<and> pptr w = pptr v \<and> same_sched v w"
proof -
  note q = queues_okD [OF assms, of c]
  show ?thesis
  proof (cases "receivers v c = []")
    case True
    then have "unq_recv c p v = Done v"
      using q(2) by (simp add: unq_recv_def)
    moreover have "without {} {c} p (chans v) = chans v"
      using True q(2) by (auto simp: without_def fun_eq_iff)
    ultimately show ?thesis
      by simp
  next
    case False
    then have "unq_recv c p v = Done (setchan c (\<lambda>ch. ch\<lparr>recvq := mkq (filter (\<lambda>x. x \<noteq> p) (receivers v c))\<rparr>) v)"
      using q by (cases "receivers v c") (simp_all add: unq_recv_def cqdelp_mkq del: filter.simps)
    then show ?thesis
      by (auto simp: without_def fun_eq_iff)
  qed
qed

definition somes :: "'a option list \<Rightarrow> 'a list" where
  "somes xs = map the (filter (\<lambda>x. x \<noteq> None) xs)"

lemma somes_simps [simp]: "somes [] = []" "somes (None # xs) = somes xs" "somes (Some x # xs) = x # somes xs"
  by (simp_all add: somes_def)

lemma set_somes: "x \<in> set (somes xs) \<longleftrightarrow> Some x \<in> set xs"
  by (induction xs) (auto simp: somes_def)

definition entry_chans :: "Altc \<Rightarrow> cid list" where
  "entry_chans x = (case ac_c x of Nilc \<Rightarrow> [] | Chan c \<Rightarrow> [c] | Arr cs \<Rightarrow> somes cs)"

definition chs :: "Altc list \<Rightarrow> cid list" where
  "chs as = concat (map entry_chans as)"

lemma chs_simps [simp]: "chs [] = []" "chs (x # as) = entry_chans x @ chs as"
  by (simp_all add: chs_def)

definition is_arr :: "Altc \<Rightarrow> bool" where
  "is_arr x \<longleftrightarrow> (case ac_c x of Arr _ \<Rightarrow> True | _ \<Rightarrow> False)"

text \<open>Where a value received through an entry goes: its location, and the index stored for an entry that is an array.\<close>

definition lands :: "Altc \<Rightarrow> cid \<Rightarrow> loc \<Rightarrow> (loc \<times> int) option \<Rightarrow> bool" where
  "lands x c l ix \<longleftrightarrow> (ac_c x = Chan c \<and> l = ac_ptr x \<and> ix = None)
     \<or> (\<exists>cs j. ac_c x = Arr cs \<and> j < length cs \<and> cs ! j = Some c \<and> l = ac_ptr x + 1 \<and> ix = Some (ac_ptr x, int j))"

definition put_index :: "(loc \<times> int) option \<Rightarrow> (loc \<Rightarrow> int) \<Rightarrow> loc \<Rightarrow> int" where
  "put_index ix m = (case ix of None \<Rightarrow> m | Some (l, j) \<Rightarrow> m(l := j))"

text \<open>The selection of an entry for \<open>c\<close>, the entries counted from \<open>n\<close>.\<close>

definition selected :: "prog \<Rightarrow> Altc list \<Rightarrow> nat \<Rightarrow> cid \<Rightarrow> vm \<Rightarrow> vm \<Rightarrow> bool" where
  "selected p as n c v w \<longleftrightarrow>
     (\<exists>i l ix. i < length as \<and> lands (as ! i) c l ix \<and> pptr w = (pptr v)(p := Some l)
        \<and> mem w = put_index ix ((mem v)(pRd v p := int (n + i))))"

lemma selected_Cons:
  "lands x c l ix \<Longrightarrow> pptr w = (pptr v)(p := Some l) \<Longrightarrow> mem w = put_index ix ((mem v)(pRd v p := int n)) \<Longrightarrow> selected p (x # as) n c v w"
  unfolding selected_def by (intro exI [of _ 0] exI [of _ l] exI [of _ ix]) simp

lemma selected_later:
  assumes "selected p as (n + 1) c u w" "mem u = mem v" "pptr u = pptr v" "pRd u = pRd v"
  shows "selected p (x # as) n c v w"
proof -
  obtain i l ix where "i < length as" "lands (as ! i) c l ix" "pptr w = (pptr v)(p := Some l)" "mem w = put_index ix ((mem v)(pRd v p := int (n + Suc i)))"
    using assms by (auto simp: selected_def)
  then show ?thesis
    unfolding selected_def by (intro exI [of _ "Suc i"] exI [of _ l] exI [of _ ix]) simp
qed

definition keeps :: "vm \<Rightarrow> vm \<Rightarrow> bool" where
  "keeps v w \<longleftrightarrow> mem w = mem v \<and> pptr w = pptr v"

lemma altunmark_none:
  "queues_ok v \<Longrightarrow> sr \<noteq> 1 \<or> sel = None \<or> sel \<notin> set cs
    \<Longrightarrow> \<exists>w. altunmark cs ptr p sr dn n (sel, v) = Done (sel, w) \<and> chans w = without {} (set (somes cs)) p (chans v) \<and> same_sched v w \<and> keeps v w"
proof (induction cs arbitrary: n v)
  case Nil
  then show ?case
    by (simp add: keeps_def)
next
  case (Cons co cs)
  show ?case
  proof (cases co)
    case None
    then show ?thesis
      using Cons by auto
  next
    case (Some c)
    obtain u where u: "unq_recv c p v = Done u" "chans u = without {} {c} p (chans v)" "mem u = mem v" "pptr u = pptr v" "same_sched v u"
      using unq_recv_ok [OF Cons.prems(1)] by blast
    have "queues_ok u"
      using queues_ok_without [OF Cons.prems(1) u(2)] .
    then obtain w where w: "altunmark cs ptr p sr dn (n + 1) (sel, u) = Done (sel, w)" "chans w = without {} (set (somes cs)) p (chans u)"
       "same_sched u w" "keeps u w"
      using Cons.IH Cons.prems(2) by fastforce
    have "altunmark (co # cs) ptr p sr dn n (sel, v) = Done (sel, w)"
      using Cons.prems(2) Some u(1) w(1) by auto
    then show ?thesis
      using u w Some by (auto simp: without_without keeps_def intro: same_sched_trans)
  qed
qed

lemma altunmark_sel:
  "queues_ok v \<Longrightarrow> Some c \<in> set cs
    \<Longrightarrow> \<exists>w j. altunmark cs ptr p 1 dn n (Some c, v) = Done (None, w) \<and> chans w = without {} (set (somes cs)) p (chans v) \<and> same_sched v w
      \<and> j < length cs \<and> cs ! j = Some c \<and> pptr w = (pptr v)(p := Some (ptr + 1)) \<and> mem w = (mem v)(pRd v p := int dn, ptr := int (n + j))"
proof (induction cs arbitrary: n v)
  case (Cons co cs)
  show ?case
  proof (cases co)
    case None
    then have "Some c \<in> set cs"
      using Cons.prems(2) by simp
    from Cons.IH [OF Cons.prems(1) this, of "n + 1"]
    obtain w j where "altunmark cs ptr p 1 dn (n + 1) (Some c, v) = Done (None, w)" "chans w = without {} (set (somes cs)) p (chans v)" "same_sched v w"
        "j < length cs" "cs ! j = Some c" "pptr w = (pptr v)(p := Some (ptr + 1))" "mem w = (mem v)(pRd v p := int dn, ptr := int (n + 1 + j))"
      by (elim exE conjE)
    then show ?thesis
      using None by (intro exI [of _ w] exI [of _ "Suc j"]) (simp add: fun_eq_iff)
  next
    case (Some d)
    obtain u where u: "unq_recv d p v = Done u" "chans u = without {} {d} p (chans v)" "mem u = mem v" "pptr u = pptr v" "same_sched v u"
      using unq_recv_ok [OF Cons.prems(1)] by blast
    have uq: "queues_ok u"
      using queues_ok_without [OF Cons.prems(1) u(2)] .
    have rd: "pRd u = pRd v"
      using u(5) by (simp add: same_sched_def)
    show ?thesis
    proof (cases "d = c")
      case True
      define x where "x = store ptr (int n) (setptr p (Some (ptr + 1)) (store (pRd u p) (int dn) u))"
      have "queues_ok x"
        using uq by (simp add: x_def queues_ok_def)
      then obtain w where w: "altunmark cs ptr p 1 dn (n + 1) (None, x) = Done (None, w)" "chans w = without {} (set (somes cs)) p (chans x)"
         "same_sched x w" "keeps x w"
        using altunmark_none [of x 1 None cs ptr p dn "n + 1"] by auto
      have "altunmark (co # cs) ptr p 1 dn n (Some c, v) = Done (None, w)"
        using Some True u(1) w(1) by (simp add: x_def)
      moreover have "same_sched v x"
        using u(5) by (simp add: x_def)
      ultimately show ?thesis
        using u w Some True rd by (intro exI [of _ w] exI [of _ 0]) (auto simp: without_without keeps_def x_def intro: same_sched_trans)
    next
      case False
      then have "Some c \<in> set cs"
        using Cons.prems(2) Some by simp
      from Cons.IH [OF uq this, of "n + 1"]
      obtain w j where w: "altunmark cs ptr p 1 dn (n + 1) (Some c, u) = Done (None, w)" "chans w = without {} (set (somes cs)) p (chans u)" "same_sched u w"
        "j < length cs" "cs ! j = Some c" "pptr w = (pptr u)(p := Some (ptr + 1))" "mem w = (mem u)(pRd u p := int dn, ptr := int (n + 1 + j))"
        by (elim exE conjE)
      have "altunmark (co # cs) ptr p 1 dn n (Some c, v) = Done (None, w)"
        using Some False u(1) w(1) by simp
      then show ?thesis
        using u w Some rd by (intro exI [of _ w] exI [of _ "Suc j"]) (auto simp: without_without intro: same_sched_trans)
    qed
  qed
qed simp

lemma done_recvs_none:
  "queues_ok v \<Longrightarrow> sr \<noteq> 1 \<or> sel = None \<or> the sel \<notin> set (chs as)
    \<Longrightarrow> \<exists>w. done_recvs as p sr n (sel, v) = Done (sel, w) \<and> chans w = without {} (set (chs as)) p (chans v) \<and> same_sched v w \<and> keeps v w"
proof (induction as arbitrary: n v)
  case Nil
  then show ?case
    by (simp add: keeps_def)
next
  case (Cons x as)
  have rest: "\<exists>w. done_recvs as p sr (n + 1) (sel, u) = Done (sel, w) \<and> chans w = without {} (set (chs (x # as))) p (chans v) \<and> same_sched v w \<and> keeps v w"
    if "chans u = without {} (set (entry_chans x)) p (chans v)" "same_sched v u" "keeps v u" for u
  proof -
    have "queues_ok u"
      using queues_ok_without [OF Cons.prems(1) that(1)] .
    then obtain w where "done_recvs as p sr (n + 1) (sel, u) = Done (sel, w)" "chans w = without {} (set (chs as)) p (chans u)" "same_sched u w" "keeps u w"
      using Cons.IH Cons.prems(2) by fastforce
    then show ?thesis
      using that by (auto simp: without_without keeps_def Un_commute intro: same_sched_trans)
  qed
  show ?case
  proof (cases "ac_c x")
    case Nilc
    then show ?thesis
      using rest [of v] by (simp add: entry_chans_def keeps_def)
  next
    case (Chan c)
    obtain u where u: "unq_recv c p v = Done u" "chans u = without {} {c} p (chans v)" "mem u = mem v" "pptr u = pptr v" "same_sched v u"
      using unq_recv_ok [OF Cons.prems(1)] by blast
    have "done_recvs (x # as) p sr n (sel, v) = done_recvs as p sr (n + 1) (sel, u)"
      using Chan u(1) Cons.prems(2) by (auto simp: entry_chans_def)
    then show ?thesis
      using rest [of u] u Chan by (simp add: entry_chans_def keeps_def)
  next
    case (Arr cs)
    have "sr \<noteq> 1 \<or> sel = None \<or> sel \<notin> set cs"
      using Cons.prems(2) Arr by (cases sel) (auto simp: entry_chans_def set_somes)
    then obtain u where u: "altunmark cs (ac_ptr x) p sr n 0 (sel, v) = Done (sel, u)" "chans u = without {} (set (somes cs)) p (chans v)" "same_sched v u" "keeps v u"
      using altunmark_none [OF Cons.prems(1)] by blast
    then show ?thesis
      using rest [of u] Arr by (simp add: entry_chans_def)
  qed
qed

lemma done_recvs_sel:
  "queues_ok v \<Longrightarrow> c \<in> set (chs as)
    \<Longrightarrow> \<exists>w. done_recvs as p 1 n (Some c, v) = Done (None, w) \<and> chans w = without {} (set (chs as)) p (chans v) \<and> same_sched v w \<and> selected p as n c v w"
proof (induction as arbitrary: n v)
  case (Cons x as)
  have hit: "\<exists>w. done_recvs as p 1 (n + 1) (None, u) = Done (None, w) \<and> chans w = without {} (set (chs (x # as))) p (chans v) \<and> same_sched v w
      \<and> selected p (x # as) n c v w"
    if "chans u = without {} (set (entry_chans x)) p (chans v)" "same_sched v u" "lands x c l ix" "pptr u = (pptr v)(p := Some l)"
       "mem u = put_index ix ((mem v)(pRd v p := int n))" for u l ix
  proof -
    have "queues_ok u"
      using queues_ok_without [OF Cons.prems(1) that(1)] .
    then obtain w where "done_recvs as p 1 (n + 1) (None, u) = Done (None, w)" "chans w = without {} (set (chs as)) p (chans u)" "same_sched u w" "keeps u w"
      using done_recvs_none [of u 1 None] by blast
    then show ?thesis
      using that selected_Cons [OF that(3), of w v p n as] by (auto simp: without_without keeps_def Un_commute intro: same_sched_trans)
  qed
  have miss: "\<exists>w. done_recvs as p 1 (n + 1) (Some c, u) = Done (None, w) \<and> chans w = without {} (set (chs (x # as))) p (chans v) \<and> same_sched v w
      \<and> selected p (x # as) n c v w"
    if "chans u = without {} (set (entry_chans x)) p (chans v)" "same_sched v u" "keeps v u" "c \<notin> set (entry_chans x)" for u
  proof -
    have "c \<in> set (chs as)"
      using that(4) Cons.prems(2) by simp
    moreover have "queues_ok u"
      using queues_ok_without [OF Cons.prems(1) that(1)] .
    ultimately obtain w where "done_recvs as p 1 (n + 1) (Some c, u) = Done (None, w)" "chans w = without {} (set (chs as)) p (chans u)" "same_sched u w"
        "selected p as (n + 1) c u w"
      using Cons.IH by blast
    then show ?thesis
      using that selected_later [of p as n c u w v x] by (auto simp: without_without keeps_def same_sched_def Un_commute)
  qed
  show ?case
  proof (cases "ac_c x")
    case Nilc
    then show ?thesis
      using miss [of v] by (simp add: entry_chans_def keeps_def)
  next
    case (Chan d)
    obtain u where u: "unq_recv d p v = Done u" "chans u = without {} {d} p (chans v)" "mem u = mem v" "pptr u = pptr v" "same_sched v u"
      using unq_recv_ok [OF Cons.prems(1)] by blast
    show ?thesis
    proof (cases "d = c")
      case True
      moreover have "pRd u = pRd v"
        using u(5) by (simp add: same_sched_def)
      ultimately show ?thesis
        using hit [of "store (pRd u p) (int n) (setptr p (Some (ac_ptr x)) u)" "ac_ptr x" None] u Chan
        by (simp add: entry_chans_def lands_def put_index_def)
    next
      case False
      then show ?thesis
        using miss [of u] u Chan by (simp add: entry_chans_def keeps_def)
    qed
  next
    case (Arr cs)
    show ?thesis
    proof (cases "Some c \<in> set cs")
      case True
      then obtain u j where u: "altunmark cs (ac_ptr x) p 1 n 0 (Some c, v) = Done (None, u)" "chans u = without {} (set (somes cs)) p (chans v)" "same_sched v u"
        "j < length cs" "cs ! j = Some c" "pptr u = (pptr v)(p := Some (ac_ptr x + 1))" "mem u = (mem v)(pRd v p := int n, ac_ptr x := int j)"
        using altunmark_sel [OF Cons.prems(1) True, of "ac_ptr x" p n 0] by auto
      have "lands x c (ac_ptr x + 1) (Some (ac_ptr x, int j))"
        using Arr u(4,5) by (auto simp: lands_def)
      then show ?thesis
        using hit [of u "ac_ptr x + 1" "Some (ac_ptr x, int j)"] u Arr by (simp add: entry_chans_def put_index_def)
    next
      case False
      then obtain u where u: "altunmark cs (ac_ptr x) p 1 n 0 (Some c, v) = Done (Some c, u)" "chans u = without {} (set (somes cs)) p (chans v)" "same_sched v u" "keeps v u"
        using altunmark_none [OF Cons.prems(1), of 1 "Some c" cs] by blast
      then show ?thesis
        using miss [of u] Arr False by (simp add: entry_chans_def set_somes)
    qed
  qed
qed simp

definition no_arr :: "Altc list \<Rightarrow> bool" where
  "no_arr as \<longleftrightarrow> (\<forall>x\<in>set as. \<not> is_arr x)"

lemma no_arr_simps [simp]: "no_arr []" "no_arr (x # as) \<longleftrightarrow> \<not> is_arr x \<and> no_arr as"
  by (simp_all add: no_arr_def)

lemma done_sends_none:
  "queues_ok v \<Longrightarrow> no_arr as \<Longrightarrow> sr \<noteq> 0 \<or> sel = None \<or> the sel \<notin> set (chs as)
    \<Longrightarrow> \<exists>w. done_sends as p sr n (sel, v) = Done (sel, w) \<and> chans w = without (set (chs as)) {} p (chans v) \<and> same_sched v w \<and> keeps v w"
proof (induction as arbitrary: n v)
  case Nil
  then show ?case
    by (simp add: keeps_def)
next
  case (Cons x as)
  show ?case
  proof (cases "ac_c x")
    case Nilc
    then show ?thesis
      using Cons by (simp add: entry_chans_def)
  next
    case (Chan c)
    obtain u where u: "unq_send c p v = Done u" "chans u = without {c} {} p (chans v)" "mem u = mem v" "pptr u = pptr v" "same_sched v u"
      using unq_send_ok [OF Cons.prems(1)] by blast
    have "queues_ok u"
      using queues_ok_without [OF Cons.prems(1) u(2)] .
    then obtain w where w: "done_sends as p sr (n + 1) (sel, u) = Done (sel, w)" "chans w = without (set (chs as)) {} p (chans u)" "same_sched u w" "keeps u w"
      using Cons.IH Cons.prems(2,3) by fastforce
    have "done_sends (x # as) p sr n (sel, v) = Done (sel, w)"
      using Chan u(1) w(1) Cons.prems(3) by (auto simp: entry_chans_def)
    then show ?thesis
      using u w Chan by (auto simp: entry_chans_def without_without keeps_def intro: same_sched_trans)
  qed (use Cons.prems in \<open>simp add: is_arr_def\<close>)
qed

lemma done_sends_sel:
  "queues_ok v \<Longrightarrow> no_arr as \<Longrightarrow> c \<in> set (chs as)
    \<Longrightarrow> \<exists>w. done_sends as p 0 n (Some c, v) = Done (None, w) \<and> chans w = without (set (chs as)) {} p (chans v) \<and> same_sched v w \<and> selected p as n c v w"
proof (induction as arbitrary: n v)
  case (Cons x as)
  show ?case
  proof (cases "ac_c x")
    case Nilc
    then obtain w where "done_sends as p 0 (n + 1) (Some c, v) = Done (None, w)" "chans w = without (set (chs as)) {} p (chans v)" "same_sched v w"
      "selected p as (n + 1) c v w"
      using Cons.IH [OF Cons.prems(1), of "n + 1"] Cons.prems by (auto simp: entry_chans_def)
    then show ?thesis
      using Nilc selected_later [of p as n c v w v x] by (auto simp: entry_chans_def)
  next
    case (Chan d)
    obtain u where u: "unq_send d p v = Done u" "chans u = without {d} {} p (chans v)" "mem u = mem v" "pptr u = pptr v" "same_sched v u"
      using unq_send_ok [OF Cons.prems(1)] by blast
    have uq: "queues_ok u" and rd: "pRd u = pRd v"
      using queues_ok_without [OF Cons.prems(1) u(2)] u(5) by (simp_all add: same_sched_def)
    show ?thesis
    proof (cases "d = c")
      case True
      define y where "y = store (pRd u p) (int n) (setptr p (Some (ac_ptr x)) u)"
      have "queues_ok y"
        using uq by (simp add: y_def queues_ok_def)
      then obtain w where w: "done_sends as p 0 (n + 1) (None, y) = Done (None, w)" "chans w = without (set (chs as)) {} p (chans y)" "same_sched y w" "keeps y w"
        using done_sends_none [of y as 0 None] Cons.prems(2) by auto
      have "lands x c (ac_ptr x) None"
        using Chan True by (simp add: lands_def)
      then have "selected p (x # as) n c v w"
        using w(4) u rd by (intro selected_Cons) (auto simp: y_def keeps_def put_index_def)
      moreover have "done_sends (x # as) p 0 n (Some c, v) = Done (None, w)"
        using Chan True u(1) w(1) by (simp add: y_def)
      ultimately show ?thesis
        using u w Chan True by (auto simp: entry_chans_def without_without y_def intro: same_sched_trans)
    next
      case False
      then have c: "c \<in> set (chs as)" "no_arr as"
        using Cons.prems Chan by (auto simp: entry_chans_def)
      obtain w where w: "done_sends as p 0 (n + 1) (Some c, u) = Done (None, w)" "chans w = without (set (chs as)) {} p (chans u)" "same_sched u w"
        "selected p as (n + 1) c u w"
        using Cons.IH [OF uq c(2,1)] by blast
      have "done_sends (x # as) p 0 n (Some c, v) = Done (None, w)"
        using Chan False u(1) w(1) by simp
      then show ?thesis
        using u w Chan rd selected_later [of p as n c u w v x] by (auto simp: entry_chans_def without_without intro: same_sched_trans)
    qed
  qed (use Cons.prems in \<open>simp add: is_arr_def\<close>)
qed simp

abbreviation schans :: "Alt \<Rightarrow> cid list" where
  "schans a \<equiv> chs (asends a)"

abbreviation rchans :: "Alt \<Rightarrow> cid list" where
  "rchans a \<equiv> chs (arecvs a)"

lemma altdone_none:
  assumes "queues_ok v" "no_arr (asends a)"
  shows "\<exists>w. altdone a p None sr v = Done w \<and> chans w = without (set (schans a)) (set (rchans a)) p (chans v) \<and> same_sched v w \<and> keeps v w"
proof -
  obtain u where u: "done_sends (asends a) p sr 0 (None, v) = Done (None, u)" "chans u = without (set (schans a)) {} p (chans v)" "same_sched v u" "keeps v u"
    using done_sends_none [OF assms, of sr None p 0] by auto
  have "queues_ok u"
    using queues_ok_without [OF assms(1) u(2)] .
  then obtain w where "done_recvs (arecvs a) p sr (nsend a) (None, u) = Done (None, w)" "chans w = without {} (set (rchans a)) p (chans u)" "same_sched u w" "keeps u w"
    using done_recvs_none [of u sr None "arecvs a" p "nsend a"] by auto
  then show ?thesis
    using u by (auto simp: altdone_def without_without keeps_def intro: same_sched_trans)
qed

lemma altdone_recv:
  assumes "queues_ok v" "no_arr (asends a)" "c \<in> set (rchans a)"
  shows "\<exists>w. altdone a p (Some c) 1 v = Done w \<and> chans w = without (set (schans a)) (set (rchans a)) p (chans v) \<and> same_sched v w
    \<and> selected p (arecvs a) (nsend a) c v w"
proof -
  obtain u where u: "done_sends (asends a) p 1 0 (Some c, v) = Done (Some c, u)" "chans u = without (set (schans a)) {} p (chans v)" "same_sched v u" "keeps v u"
    using done_sends_none [OF assms(1,2), of 1 "Some c" p 0] by auto
  have "queues_ok u"
    using queues_ok_without [OF assms(1) u(2)] .
  then obtain w where w: "done_recvs (arecvs a) p 1 (nsend a) (Some c, u) = Done (None, w)" "chans w = without {} (set (rchans a)) p (chans u)" "same_sched u w"
      "selected p (arecvs a) (nsend a) c u w"
    using done_recvs_sel [of u c "arecvs a" p "nsend a"] assms(3) by auto
  have "selected p (arecvs a) (nsend a) c v w"
    using w(4) u(3,4) by (auto simp: selected_def keeps_def same_sched_def)
  then show ?thesis
    using u w by (auto simp: altdone_def without_without intro: same_sched_trans)
qed

lemma altdone_send:
  assumes "queues_ok v" "no_arr (asends a)" "c \<in> set (schans a)"
  shows "\<exists>w. altdone a p (Some c) 0 v = Done w \<and> chans w = without (set (schans a)) (set (rchans a)) p (chans v) \<and> same_sched v w
    \<and> selected p (asends a) 0 c v w"
proof -
  obtain u where u: "done_sends (asends a) p 0 0 (Some c, v) = Done (None, u)" "chans u = without (set (schans a)) {} p (chans v)" "same_sched v u"
     "selected p (asends a) 0 c v u"
    using done_sends_sel [OF assms, of p 0] by auto
  have "queues_ok u"
    using queues_ok_without [OF assms(1) u(2)] .
  then obtain w where w: "done_recvs (arecvs a) p 0 (nsend a) (None, u) = Done (None, w)" "chans w = without {} (set (rchans a)) p (chans u)" "same_sched u w" "keeps u w"
    using done_recvs_none [of u 0 None "arecvs a" p "nsend a"] by auto
  have "selected p (asends a) 0 c v w"
    using w(4) u(4) by (auto simp: selected_def keeps_def)
  then show ?thesis
    using u w by (auto simp: altdone_def without_without intro: same_sched_trans)
qed

end
