(* ===== verification/Dis_Comm.thy ===== *)
theory Dis_Comm
  imports Dis_Chan
begin

text \<open>
  The invariant of the channels, and send and receive.  \<^verbatim>\<open>chinv\<close> says that the queues hold the progs that wait, that no prog
  waits in vain, and that the run queue holds the ready progs.  The lemmas \<^verbatim>\<open>wake_inv\<close>, \<^verbatim>\<open>wait_inv\<close>, \<^verbatim>\<open>quiet_inv\<close> and \<^verbatim>\<open>buffer_inv\<close> carry
  it over the changes that the routines make.  The ring buffer of a channel is the queue \<^verbatim>\<open>bufvals\<close>; \<^verbatim>\<open>sent\<close> and
  \<^verbatim>\<open>received\<close> say what a communication does.
\<close>

section \<open>The invariant of the system\<close>

definition alt_ok :: "Alt \<Rightarrow> bool" where
  "alt_ok a \<longleftrightarrow> no_arr (asends a) \<and> distinct (schans a @ rchans a)"

definition waits_send :: "vm \<Rightarrow> prog \<Rightarrow> cid set" where
  "waits_send v p = (case state v p of Psend \<Rightarrow> set_option (pchan v p) | Palt \<Rightarrow> set (schans (pRs v p)) | _ \<Rightarrow> {})"

definition waits_recv :: "vm \<Rightarrow> prog \<Rightarrow> cid set" where
  "waits_recv v p = (case state v p of Precv \<Rightarrow> set_option (pchan v p) | Palt \<Rightarrow> set (rchans (pRs v p)) | _ \<Rightarrow> {})"

definition buf_ok :: "Channel \<Rightarrow> bool" where
  "buf_ok ch \<longleftrightarrow> (case cbuf ch of None \<Rightarrow> csize ch = 0 \<and> front ch = 0 | Some b \<Rightarrow> csize ch \<le> length b \<and> front ch < length b)"

definition chan_ok :: "vm \<Rightarrow> cid \<Rightarrow> bool" where
  "chan_ok v c \<longleftrightarrow> set (senders v c) = {p. c \<in> waits_send v p} \<and> set (receivers v c) = {p. c \<in> waits_recv v p}
     \<and> (senders v c = [] \<or> receivers v c = []) \<and> buf_ok (chans v c)
     \<and> (receivers v c \<noteq> [] \<longrightarrow> \<not> CANGET (chans v c)) \<and> (senders v c \<noteq> [] \<longrightarrow> \<not> CANPUT (chans v c))"

definition prog_ok :: "vm \<Rightarrow> prog \<Rightarrow> bool" where
  "prog_ok v p \<longleftrightarrow>
     (case state v p of
        Psend \<Rightarrow> pptr v p \<noteq> None \<and> pchan v p \<noteq> None
      | Precv \<Rightarrow> pptr v p \<noteq> None \<and> pchan v p \<noteq> None
      | Palt \<Rightarrow> alt_ok (pRs v p)
      | _ \<Rightarrow> True)"

definition chinv :: "vm \<Rightarrow> bool" where
  "chinv v \<longleftrightarrow> queues_ok v \<and> (\<forall>c. chan_ok v c) \<and> (\<forall>p. prog_ok v p)
     \<and> distinct (runq v) \<and> set (runq v) = {p. state v p = Pready}"

lemma chinvD:
  assumes "chinv v"
  shows "queues_ok v" "chan_ok v c" "prog_ok v p" "distinct (runq v)" "set (runq v) = {p. state v p = Pready}"
  using assms by (auto simp: chinv_def)

text \<open>The buffer of a channel may change if it stays as full or as empty as the queues need.\<close>

definition same_queues :: "(cid \<Rightarrow> Channel) \<Rightarrow> (cid \<Rightarrow> Channel) \<Rightarrow> bool" where
  "same_queues f g \<longleftrightarrow> (\<forall>c. sendq (g c) = sendq (f c) \<and> recvq (g c) = recvq (f c))"

definition same_room :: "(cid \<Rightarrow> Channel) \<Rightarrow> (cid \<Rightarrow> Channel) \<Rightarrow> bool" where
  "same_room f g \<longleftrightarrow> (\<forall>c. (buf_ok (f c) \<longrightarrow> buf_ok (g c)) \<and> CANGET (g c) = CANGET (f c) \<and> CANPUT (g c) = CANPUT (f c))"

lemma same_refl [simp]: "same_queues f f" "same_room f f"
  by (simp_all add: same_queues_def same_room_def)

lemma buf_queues [simp]:
  "buf_ok (ch\<lparr>sendq := x\<rparr>) = buf_ok ch" "buf_ok (ch\<lparr>recvq := x\<rparr>) = buf_ok ch" "CANGET (ch\<lparr>sendq := x\<rparr>) = CANGET ch"
  "CANGET (ch\<lparr>recvq := x\<rparr>) = CANGET ch" "CANPUT (ch\<lparr>sendq := x\<rparr>) = CANPUT ch" "CANPUT (ch\<lparr>recvq := x\<rparr>) = CANPUT ch"
  by (cases "cbuf ch"; simp add: buf_ok_def CANGET_def CANPUT_def)+

lemma room_without: "same_room f (without X Y p f)"
  by (simp add: same_room_def without_def)

text \<open>A prog that waits becomes ready, and leaves all its queues.\<close>

lemma wake_inv:
  assumes v: "chinv v" and p: "state v p = Palt \<or> state v p = Psend \<or> state v p = Precv"
    and w: "same_queues (without (waits_send v p) (waits_recv v p) p (chans v)) (chans w)" "same_room (chans v) (chans w)"
      "state w = (state v)(p := Pready)" "runq w = runq v @ [p]" "pchan w = pchan v" "pRs w = pRs v" "\<And>q. q \<noteq> p \<Longrightarrow> pptr w q = pptr v q"
  shows "chinv w"
proof -
  have s: "senders w c = (if c \<in> waits_send v p then filter (\<lambda>x. x \<noteq> p) (senders v c) else senders v c)" for c
    using w(1) by (simp add: same_queues_def without_def)
  have r: "receivers w c = (if c \<in> waits_recv v p then filter (\<lambda>x. x \<noteq> p) (receivers v c) else receivers v c)" for c
    using w(1) by (simp add: same_queues_def without_def)
  have qk: "queues_ok w"
    using w(1) chinvD(1) [OF v] by (auto simp: queues_ok_def same_queues_def without_def wfq_def)
  have wa: "waits_send w q = (if q = p then {} else waits_send v q)" "waits_recv w q = (if q = p then {} else waits_recv v q)" for q
    using w(3,5,6) by (cases "state v q"; simp add: waits_send_def waits_recv_def)+
  have "chan_ok w c" for c
    using chinvD(2) [OF v, of c] w(2) by (auto simp: chan_ok_def s r wa same_room_def filter_empty_conv)
  moreover have "prog_ok w q" for q
    using chinvD(3) [OF v, of q] w(3,5,6,7) by (cases "q = p"; cases "state v q") (simp_all add: prog_ok_def)
  moreover have "p \<notin> set (runq v)"
    using p chinvD(5) [OF v] by auto
  ultimately show ?thesis
    using chinvD(4,5) [OF v] w(3,4) qk by (auto simp: chinv_def)
qed

text \<open>The prog that runs begins to wait on one channel, or does nothing to the queues.\<close>

lemma quiet_inv:
  assumes v: "chinv v" and w: "queues_ok w" "\<And>c. senders w c = senders v c" "\<And>c. receivers w c = receivers v c"
    "\<And>c. buf_ok (chans w c) \<and> (receivers v c \<noteq> [] \<longrightarrow> CANGET (chans w c) = CANGET (chans v c)) \<and> (senders v c \<noteq> [] \<longrightarrow> CANPUT (chans w c) = CANPUT (chans v c))"
    "state w = state v" "runq w = runq v" "pchan w = pchan v" "pRs w = pRs v" "pptr w = pptr v"
  shows "chinv w"
proof -
  have "waits_send w q = waits_send v q" "waits_recv w q = waits_recv v q" for q
    using w(5-9) by (cases "state v q"; simp add: waits_send_def waits_recv_def)+
  then have "chan_ok w c" for c
    using chinvD(2) [OF v, of c] w(2-4) by (auto simp: chan_ok_def)
  moreover have "prog_ok w q" for q
    using chinvD(3) [OF v, of q] w(5-9) by (cases "state v q") (simp_all add: prog_ok_def)
  ultimately show ?thesis
    using chinvD(4,5) [OF v] w by (auto simp: chinv_def)
qed

section \<open>Send\<close>

text \<open>
  A send to a prog that waits: \<open>v\<close> may also hold entries of an alt that is being tried.  \<open>given\<close> says where the value of
  location \<open>s\<close> goes.
\<close>

definition given :: "vm \<Rightarrow> prog \<Rightarrow> cid \<Rightarrow> loc \<Rightarrow> (loc \<Rightarrow> int) \<Rightarrow> bool" where
  "given v q c s m \<longleftrightarrow>
     (if state v q = Palt
      then \<exists>i l ix. i < length (arecvs (pRs v q)) \<and> lands (arecvs (pRs v q) ! i) c l ix
        \<and> (let m' = put_index ix ((mem v)(pRd v q := int (nsend (pRs v q) + i))) in m = m'(l := m' s))
      else \<exists>l. pptr v q = Some l \<and> m = (mem v)(l := mem v s))"

lemma recvq_head:
  assumes "queues_ok v" "receivers v c = q # qs"
  shows "(chans v)(c := (chans v c)\<lparr>recvq := mkq qs\<rparr>) = without {} {c} q (chans v)"
proof -
  have "filter (\<lambda>x. x \<noteq> q) qs = qs"
    using queues_okD(4) [OF assms(1), of c] assms(2) by (intro filter_id) auto
  then show ?thesis
    using assms(2) by (auto simp: without_def fun_eq_iff)
qed

lemma sendq_head:
  assumes "queues_ok v" "senders v c = q # qs"
  shows "(chans v)(c := (chans v c)\<lparr>sendq := mkq qs\<rparr>) = without {c} {} q (chans v)"
proof -
  have "filter (\<lambda>x. x \<noteq> q) qs = qs"
    using queues_okD(3) [OF assms(1), of c] assms(2) by (intro filter_id) auto
  then show ?thesis
    using assms(2) by (auto simp: without_def fun_eq_iff)
qed

lemma isend_wakes:
  assumes q: "queues_ok v" "receivers v c = q # qs" "c \<in> waits_recv v q" "prog_ok v q"
  shows "\<exists>w. isend s (Some c) v = Done w \<and> chans w = without (waits_send v q) (waits_recv v q) q (chans v)
    \<and> state w = (state v)(q := Pready) \<and> runq w = runq v @ [q] \<and> pptr w = (pptr v)(q := None) \<and> pchan w = pchan v \<and> pRs w = pRs v
    \<and> pRd w = pRd v \<and> given v q c s (mem w)"
proof -
  define u where "u = setchan c (\<lambda>ch. ch\<lparr>recvq := mkq qs\<rparr>) v"
  have u: "chans u = without {} {c} q (chans v)" "same_sched v u" "mem u = mem v" "pptr u = pptr v"
    using recvq_head [OF q(1,2)] by (simp_all add: u_def)
  have uq: "queues_ok u"
    using queues_ok_without [OF q(1) u(1)] .
  have rq: "recvq (chans v c) = mkq (q # qs)"
    using queues_okD(2) [OF q(1), of c] q(2) by simp
  have e: "isend s (Some c) v = andthen (if state u q = Palt then altdone (pRs u q) q (Some c) 1 u else Done u) (\<lambda>v.
        case pptr v q of None \<Rightarrow> Crash | Some l \<Rightarrow> Done ((addrun q (store l (mem v s) (setptr q None v)))\<lparr>rt := False\<rparr>))"
    using rq by (simp add: isend_def u_def Let_def)
  show ?thesis
  proof (cases "state v q = Palt")
    case True
    have a: "alt_ok (pRs v q)" "c \<in> set (rchans (pRs v q))"
      using q(3,4) True by (simp_all add: prog_ok_def waits_recv_def)
    obtain x where x: "altdone (pRs v q) q (Some c) 1 u = Done x" "chans x = without (set (schans (pRs v q))) (set (rchans (pRs v q))) q (chans u)"
        "same_sched u x" "selected q (arecvs (pRs v q)) (nsend (pRs v q)) c u x"
      using altdone_recv [OF uq _ a(2)] a(1) by (auto simp: alt_ok_def)
    obtain i l ix where l: "i < length (arecvs (pRs v q))" "lands (arecvs (pRs v q) ! i) c l ix" "pptr x = (pptr v)(q := Some l)"
        "mem x = put_index ix ((mem v)(pRd v q := int (nsend (pRs v q) + i)))"
      using x(4) u by (auto simp: selected_def same_sched_def)
    let ?w = "(addrun q (store l (mem x s) (setptr q None x)))\<lparr>rt := False\<rparr>"
    have "isend s (Some c) v = Done ?w"
      unfolding e using True u(2) x(1) l(3) by (simp add: same_sched_def)
    moreover have "chans ?w = without (waits_send v q) (waits_recv v q) q (chans v)"
      using x(2) u(1) a(2) True by (auto simp: addrun_def without_without waits_send_def waits_recv_def insert_absorb)
    moreover have "given v q c s (mem ?w)"
      using l(1,2,4) True unfolding given_def Let_def by (auto simp: addrun_def)
    ultimately show ?thesis
      using x(3) u(2) l(3) by (intro exI [of _ ?w]) (simp add: addrun_def same_sched_def)
  next
    case False
    then have st: "state v q = Precv" "pchan v q = Some c"
      using q(3) by (auto simp: waits_recv_def split: pstate.splits)
    then obtain l where l: "pptr v q = Some l"
      using q(4) by (auto simp: prog_ok_def)
    let ?w = "(addrun q (store l (mem u s) (setptr q None u)))\<lparr>rt := False\<rparr>"
    have "isend s (Some c) v = Done ?w"
      unfolding e using st u(2,4) l by (simp add: same_sched_def)
    moreover have "chans ?w = without (waits_send v q) (waits_recv v q) q (chans v)"
      using u(1) st by (simp add: addrun_def waits_send_def waits_recv_def)
    moreover have "given v q c s (mem ?w)"
      using st l u(3) by (auto simp: given_def addrun_def)
    ultimately show ?thesis
      using u(2,4) by (intro exI [of _ ?w]) (simp add: addrun_def same_sched_def)
  qed
qed

text \<open>The state with \<open>p\<close> at the end of the send queues of \<open>X\<close> and the receive queues of \<open>Y\<close>.\<close>

definition marked :: "cid set \<Rightarrow> cid set \<Rightarrow> prog \<Rightarrow> (cid \<Rightarrow> Channel) \<Rightarrow> cid \<Rightarrow> Channel" where
  "marked X Y p f c =
     (f c)\<lparr>sendq := if c \<in> X then mkq (progs (sendq (f c)) @ [p]) else sendq (f c),
          recvq := if c \<in> Y then mkq (progs (recvq (f c)) @ [p]) else recvq (f c)\<rparr>"

lemma ready_not_queued:
  assumes "chinv v" "state v p = Pready"
  shows "p \<notin> set (senders v c)" "p \<notin> set (receivers v c)"
  using chinvD(2) [OF assms(1), of c] assms(2) by (auto simp: chan_ok_def waits_send_def waits_recv_def)

lemma wait_inv:
  assumes v: "chinv v" and p: "runq v = p # r" and w: "chans w = marked X Y p (chans v)" "state w = (state v)(p := st)" "runq w = r" "st \<noteq> Pready"
      "waits_send w p = X" "waits_recv w p = Y" "prog_ok w p" "X \<inter> Y = {}"
      "\<And>q. q \<noteq> p \<Longrightarrow> pptr w q = pptr v q \<and> pchan w q = pchan v q \<and> pRs w q = pRs v q"
    and x: "\<And>c. c \<in> X \<Longrightarrow> receivers v c = [] \<and> \<not> CANPUT (chans v c)" "\<And>c. c \<in> Y \<Longrightarrow> senders v c = [] \<and> \<not> CANGET (chans v c)"
  shows "chinv w"
proof -
  have st: "state v p = Pready"
    using p chinvD(5) [OF v] by auto
  have s: "senders w c = (if c \<in> X then senders v c @ [p] else senders v c)" "receivers w c = (if c \<in> Y then receivers v c @ [p] else receivers v c)"
      "buf_ok (chans w c) = buf_ok (chans v c)" "CANGET (chans w c) = CANGET (chans v c)" "CANPUT (chans w c) = CANPUT (chans v c)" for c
    using w(1) by (simp_all add: marked_def)
  have qk: "queues_ok w"
    using queues_okD [OF chinvD(1) [OF v]] ready_not_queued [OF v st] w(1) by (simp add: queues_ok_def wfq_def marked_def)
  have wa: "q \<noteq> p \<Longrightarrow> waits_send w q = waits_send v q \<and> waits_recv w q = waits_recv v q \<and> prog_ok w q = prog_ok v q" for q
    using w(2,9) by (cases "state v q") (simp_all add: waits_send_def waits_recv_def prog_ok_def)
  have vp: "waits_send v p = {}" "waits_recv v p = {}"
    using st by (simp_all add: waits_send_def waits_recv_def)
  have wq: "waits_send w q = (if q = p then X else waits_send v q)" "waits_recv w q = (if q = p then Y else waits_recv v q)" for q
    using wa [of q] w(5,6) by simp_all
  have "{q. c \<in> waits_send w q} = (if c \<in> X then insert p {q. c \<in> waits_send v q} else {q. c \<in> waits_send v q})"
    "{q. c \<in> waits_recv w q} = (if c \<in> Y then insert p {q. c \<in> waits_recv v q} else {q. c \<in> waits_recv v q})" for c
    using vp by (auto simp: wq)
  then have "chan_ok w c" for c
    using chinvD(2) [OF v, of c] x(1,2) [of c] w(8) unfolding chan_ok_def s by auto
  moreover have "prog_ok w q" for q
    using wa [of q] w(7) chinvD(3) [OF v, of q] by (cases "q = p") auto
  ultimately show ?thesis
    using chinvD(4,5) [OF v] p w(2,3,4) qk by (auto simp: chinv_def)
qed

lemma cputb_ok:
  assumes "buf_ok ch"
  shows "cputb ch x = None \<longleftrightarrow> \<not> CANPUT ch"
    "cputb ch x = Some ch' \<Longrightarrow> buf_ok ch' \<and> sendq ch' = sendq ch \<and> recvq ch' = recvq ch \<and> CANPUT ch \<and> csize ch' = csize ch + 1
      \<and> length (the (cbuf ch')) = length (the (cbuf ch)) \<and> cbuf ch' \<noteq> None"
  using assms by (auto simp: cputb_def CANPUT_def buf_ok_def Let_def split: option.splits if_splits)

lemma cgetb_ok:
  assumes "buf_ok ch"
  shows "cgetb ch = None \<longleftrightarrow> \<not> CANGET ch"
    "cgetb ch = Some (x, ch') \<Longrightarrow> buf_ok ch' \<and> sendq ch' = sendq ch \<and> recvq ch' = recvq ch \<and> CANGET ch \<and> csize ch = csize ch' + 1
      \<and> cbuf ch' = cbuf ch \<and> cbuf ch \<noteq> None"
  using assms by (auto simp: cgetb_def CANGET_def buf_ok_def Let_def split: option.splits if_splits)

section \<open>Buffers as queues\<close>

definition bufvals :: "Channel \<Rightarrow> int list" where
  "bufvals ch = (case cbuf ch of None \<Rightarrow> [] | Some b \<Rightarrow> map (\<lambda>i. b ! ((front ch + i) mod length b)) [0..<csize ch])"

lemma ring_index: "f < (n :: nat) \<Longrightarrow> k < n \<Longrightarrow> (f + k) mod n = (if f + k \<ge> n then f + k - n else f + k)"
  by (simp add: mod_if)

lemma cputb_vals:
  assumes "buf_ok ch" "cputb ch x = Some ch'"
  shows "bufvals ch' = bufvals ch @ [x]"
proof -
  obtain b where b: "cbuf ch = Some b" "csize ch < length b" "front ch < length b"
    using assms by (auto simp: cputb_def buf_ok_def split: option.splits if_splits)
  define r where "r = (front ch + csize ch) mod length b"
  have ch': "ch' = ch\<lparr>cbuf := Some (b[r := x]), csize := csize ch + 1\<rparr>"
    using assms(2) b ring_index [OF b(3,2)] by (auto simp: cputb_def r_def Let_def)
  have "r \<noteq> (front ch + i) mod length b" if "i < csize ch" for i
    using that b ring_index [of "front ch" "length b" i] ring_index [OF b(3,2)] by (auto simp: r_def split: if_splits)
  moreover have "r < length b"
    unfolding r_def by (rule mod_less_divisor) (use b(3) in linarith)
  ultimately have "bufvals ch' = map (\<lambda>i. b ! ((front ch + i) mod length b)) [0..<csize ch] @ [x]"
    by (auto simp: bufvals_def ch' r_def [symmetric])
  then show ?thesis
    by (simp add: bufvals_def b)
qed

lemma cgetb_vals:
  assumes "buf_ok ch" "cgetb ch = Some (x, ch')"
  shows "bufvals ch = x # bufvals ch'"
proof -
  obtain b where b: "cbuf ch = Some b" "csize ch > 0" "front ch < length b"
    using assms by (auto simp: cgetb_def buf_ok_def split: option.splits if_splits)
  have ch': "ch' = ch\<lparr>front := (front ch + 1) mod length b, csize := csize ch - 1\<rparr>" "x = b ! front ch"
    using assms(2) b by (auto simp: cgetb_def Let_def mod_if split: if_splits)
  have "[0..<csize ch] = 0 # map Suc [0..<csize ch - 1]"
    using b(2) by (simp add: upt_conv_Cons map_Suc_upt)
  moreover have "((front ch + 1) mod length b + i) mod length b = (front ch + Suc i) mod length b" for i
    by (simp add: mod_add_left_eq)
  ultimately show ?thesis
    using b by (simp add: bufvals_def ch')
qed

lemma bufvals_without [simp]: "bufvals (without X Y p f c) = bufvals (f c)" "cbuf (without X Y p f c) = cbuf (f c)"
  "csize (without X Y p f c) = csize (f c)" "front (without X Y p f c) = front (f c)"
  by (simp_all add: bufvals_def without_def split: option.splits)

section \<open>Receive\<close>

text \<open>Where the value of a waiting sender is, and the memory after its alt has been told.\<close>

definition offered :: "vm \<Rightarrow> prog \<Rightarrow> cid \<Rightarrow> loc \<Rightarrow> (loc \<Rightarrow> int) \<Rightarrow> bool" where
  "offered v q c l m \<longleftrightarrow>
     (if state v q = Palt
      then \<exists>i < length (asends (pRs v q)). ac_c (asends (pRs v q) ! i) = Chan c \<and> l = ac_ptr (asends (pRs v q) ! i) \<and> m = (mem v)(pRd v q := int i)
      else pptr v q = Some l \<and> m = mem v)"

text \<open>The receive itself: from the sender, or the front of the buffer with the value of the sender put at the end.\<close>

definition moved :: "loc \<Rightarrow> cid \<Rightarrow> loc \<Rightarrow> (loc \<Rightarrow> int) \<Rightarrow> vm \<Rightarrow> vm \<Rightarrow> bool" where
  "moved d c l m v w \<longleftrightarrow>
     (if cbuf (chans v c) = None then mem w = m(d := m l) \<and> cbuf (chans w c) = None
      else mem w = m(d := hd (bufvals (chans v c))) \<and> bufvals (chans w c) = tl (bufvals (chans v c)) @ [mem w l])"

lemma no_arr_lands: "no_arr as \<Longrightarrow> i < length as \<Longrightarrow> lands (as ! i) c l ix \<Longrightarrow> ac_c (as ! i) = Chan c \<and> l = ac_ptr (as ! i) \<and> ix = None"
  by (auto simp: lands_def no_arr_def is_arr_def dest!: nth_mem)

lemma take_value_ok:
  assumes b: "buf_ok (chans v c)" "\<not> CANPUT (chans v c)"
  shows "same_sched v (take_value c d l v)" "pptr (take_value c d l v) = pptr v" "same_queues (chans v) (chans (take_value c d l v))"
    "same_room (chans v) (chans (take_value c d l v))" "moved d c l (mem v) v (take_value c d l v)"
    "\<forall>c'. c' \<noteq> c \<longrightarrow> chans (take_value c d l v) c' = chans v c'"
proof -
  have "same_sched v (take_value c d l v) \<and> pptr (take_value c d l v) = pptr v \<and> same_queues (chans v) (chans (take_value c d l v))
    \<and> same_room (chans v) (chans (take_value c d l v)) \<and> moved d c l (mem v) v (take_value c d l v)
    \<and> (\<forall>c'. c' \<noteq> c \<longrightarrow> chans (take_value c d l v) c' = chans v c')"
  proof (cases "cbuf (chans v c)")
    case None
    then show ?thesis
      by (simp add: take_value_def moved_def)
  next
    case (Some bf)
    then have full: "csize (chans v c) = length bf" "0 < length bf"
      using b by (auto simp: buf_ok_def CANPUT_def)
    then obtain x ch where g: "cgetb (chans v c) = Some (x, ch)"
      using Some by (simp add: cgetb_def Let_def)
    note ch = cgetb_ok(2) [OF b(1) g]
    have "CANPUT ch"
      using ch Some full by (auto simp: CANPUT_def)
    then obtain ch2 where p: "cputb ch (((mem v)(d := x)) l) = Some ch2"
      using cputb_ok(1) [of ch] ch by fastforce
    note ch2 = cputb_ok(2) [OF _ p]
    define w where "w = setchan c (\<lambda>_. ch2) (store d x (setchan c (\<lambda>_. ch) v))"
    have w: "take_value c d l v = w"
      using Some g p by (simp add: take_value_def w_def)
    obtain bf2 where bf2: "cbuf ch2 = Some bf2" "length bf2 = length bf"
      using ch2 ch Some by auto
    have "csize ch2 = length bf"
      using ch2 ch full by simp
    then have room: "CANPUT ch2 = CANPUT (chans v c)" "CANGET ch2 = CANGET (chans v c)"
      using full Some bf2 by (simp_all add: CANPUT_def CANGET_def)
    have vals: "bufvals (chans v c) = x # bufvals ch" "bufvals ch2 = bufvals ch @ [((mem v)(d := x)) l]"
      using cgetb_vals [OF b(1) g] cputb_vals [OF _ p] ch by simp_all
    have "same_queues (chans v) (chans w)" "same_room (chans v) (chans w)"
      using ch ch2 room by (auto simp: same_queues_def same_room_def w_def)
    then show ?thesis
      using Some vals unfolding w by (simp add: moved_def w_def)
  qed
  then show "same_sched v (take_value c d l v)" "pptr (take_value c d l v) = pptr v" "same_queues (chans v) (chans (take_value c d l v))"
    "same_room (chans v) (chans (take_value c d l v))" "moved d c l (mem v) v (take_value c d l v)"
    "\<forall>c'. c' \<noteq> c \<longrightarrow> chans (take_value c d l v) c' = chans v c'"
    by blast+
qed

lemma irecv_wakes:
  assumes q: "queues_ok v" "senders v c = q # qs" "c \<in> waits_send v q" "prog_ok v q" and b: "buf_ok (chans v c)" "\<not> CANPUT (chans v c)"
  shows "\<exists>w l m. irecv (Some c) d v = Done w \<and> same_queues (without (waits_send v q) (waits_recv v q) q (chans v)) (chans w)
    \<and> same_room (chans v) (chans w) \<and> state w = (state v)(q := Pready) \<and> runq w = runq v @ [q] \<and> pptr w = (pptr v)(q := None) \<and> pchan w = pchan v
    \<and> pRs w = pRs v \<and> pRd w = pRd v \<and> offered v q c l m \<and> moved d c l m v w \<and> (\<forall>c'. c' \<noteq> c \<longrightarrow> bufvals (chans w c') = bufvals (chans v c'))"
proof -
  define u where "u = setchan c (\<lambda>ch. ch\<lparr>sendq := mkq qs\<rparr>) v"
  have u: "chans u = without {c} {} q (chans v)" "same_sched v u" "mem u = mem v" "pptr u = pptr v"
    using sendq_head [OF q(1,2)] by (simp_all add: u_def)
  have uq: "queues_ok u"
    using queues_ok_without [OF q(1) u(1)] .
  have sq: "sendq (chans v c) = mkq (q # qs)"
    using queues_okD(1) [OF q(1), of c] q(2) by simp
  have e: "irecv (Some c) d v = andthen (if state u q = Palt then altdone (pRs u q) q (Some c) 0 u else Done u) (\<lambda>v.
        case pptr v q of None \<Rightarrow> Crash | Some l \<Rightarrow> Done ((addrun q (setptr q None (take_value c d l v)))\<lparr>rt := False\<rparr>))"
    using sq by (simp add: irecv_def u_def Let_def)
  have "\<exists>x l m. (if state u q = Palt then altdone (pRs u q) q (Some c) 0 u else Done u) = Done x
     \<and> chans x = without (waits_send v q) (waits_recv v q) q (chans v) \<and> same_sched v x \<and> pptr x q = Some l \<and> (\<forall>p. p \<noteq> q \<longrightarrow> pptr x p = pptr v p)
     \<and> mem x = m \<and> offered v q c l m"
  proof (cases "state v q = Palt")
    case True
    have a: "alt_ok (pRs v q)" "c \<in> set (schans (pRs v q))" and na: "no_arr (asends (pRs v q))"
      using q(3,4) True by (simp_all add: prog_ok_def waits_send_def alt_ok_def)
    obtain x where x: "altdone (pRs v q) q (Some c) 0 u = Done x" "chans x = without (set (schans (pRs v q))) (set (rchans (pRs v q))) q (chans u)"
        "same_sched u x" "selected q (asends (pRs v q)) 0 c u x"
      using altdone_send [OF uq na a(2)] by blast
    obtain i l ix where l: "i < length (asends (pRs v q))" "lands (asends (pRs v q) ! i) c l ix" "pptr x = (pptr v)(q := Some l)"
        "mem x = put_index ix ((mem v)(pRd v q := int i))"
      using x(4) u by (auto simp: selected_def same_sched_def)
    have "offered v q c l (mem x)"
      using l no_arr_lands [OF na l(1,2)] True by (auto simp: offered_def put_index_def)
    moreover have "chans x = without (waits_send v q) (waits_recv v q) q (chans v)"
      using x(2) u(1) a(2) True by (auto simp: without_without waits_send_def waits_recv_def insert_absorb)
    ultimately show ?thesis
      using True u(2) x(1,3) l(3) by (intro exI [of _ x] exI [of _ l]) (auto simp: same_sched_def)
  next
    case False
    then have st: "state v q = Psend" "pchan v q = Some c"
      using q(3) by (auto simp: waits_send_def split: pstate.splits)
    then obtain l where "pptr v q = Some l"
      using q(4) by (auto simp: prog_ok_def)
    then show ?thesis
      using st u by (intro exI [of _ u] exI [of _ l]) (auto simp: offered_def same_sched_def waits_send_def waits_recv_def)
  qed
  then obtain x l m where x: "(if state u q = Palt then altdone (pRs u q) q (Some c) 0 u else Done u) = Done x"
     "chans x = without (waits_send v q) (waits_recv v q) q (chans v)" "same_sched v x" "pptr x q = Some l" "\<forall>p. p \<noteq> q \<longrightarrow> pptr x p = pptr v p"
     "mem x = m" "offered v q c l m"
    by (elim exE conjE)
  define w where "w = (addrun q (setptr q None (take_value c d l x)))\<lparr>rt := False\<rparr>"
  have bx: "buf_ok (chans x c)" "\<not> CANPUT (chans x c)"
    using b room_without [of "chans v" "waits_send v q" "waits_recv v q" q] unfolding x(2) same_room_def by blast+
  note t = take_value_ok [OF bx, where d = d and l = l]
  have "irecv (Some c) d v = Done w"
    unfolding e x(1) by (simp add: x(4) w_def)
  moreover have "same_queues (without (waits_send v q) (waits_recv v q) q (chans v)) (chans w)"
    using t(3) x(2) by (simp add: w_def addrun_def)
  moreover have "same_room (chans v) (chans w)"
    using t(4) room_without [of "chans v" "waits_send v q" "waits_recv v q" q] x(2) by (auto simp: w_def addrun_def same_room_def)
  moreover have "moved d c l m v w"
    using t(5) x(2,6) by (simp add: w_def addrun_def moved_def)
  moreover have "pptr w = (pptr v)(q := None)"
    using t(2) x(5) by (auto simp: w_def addrun_def fun_eq_iff)
  moreover have "bufvals (chans w c') = bufvals (chans v c')" if "c' \<noteq> c" for c'
    using t(6) that x(2) by (simp add: w_def addrun_def)
  ultimately show ?thesis
    using t(1) x(3,7) by (intro exI [of _ w] exI [of _ l] exI [of _ m]) (simp add: w_def addrun_def same_sched_def)
qed

section \<open>Communications\<close>

definition recv_ready :: "vm \<Rightarrow> cid \<Rightarrow> bool" where
  "recv_ready v c \<longleftrightarrow> senders v c \<noteq> [] \<or> CANGET (chans v c)"

definition send_ready :: "vm \<Rightarrow> cid \<Rightarrow> bool" where
  "send_ready v c \<longleftrightarrow> receivers v c \<noteq> [] \<or> CANPUT (chans v c)"

text \<open>A send and a receive that complete: what they do to the memory, the buffer and the progs.\<close>

definition sent :: "loc \<Rightarrow> cid \<Rightarrow> vm \<Rightarrow> vm \<Rightarrow> bool" where
  "sent s c v w \<longleftrightarrow> (\<forall>e. e \<noteq> c \<longrightarrow> bufvals (chans w e) = bufvals (chans v e))
     \<and> (case receivers v c of
        [] \<Rightarrow> mem w = mem v \<and> bufvals (chans w c) = bufvals (chans v c) @ [mem v s] \<and> state w = state v \<and> runq w = runq v
      | q # _ \<Rightarrow> given v q c s (mem w) \<and> bufvals (chans w c) = bufvals (chans v c) \<and> state w = (state v)(q := Pready) \<and> runq w = runq v @ [q])"

definition received :: "loc \<Rightarrow> cid \<Rightarrow> vm \<Rightarrow> vm \<Rightarrow> bool" where
  "received d c v w \<longleftrightarrow> (\<forall>e. e \<noteq> c \<longrightarrow> bufvals (chans w e) = bufvals (chans v e))
     \<and> (case senders v c of
        [] \<Rightarrow> bufvals (chans v c) = mem w d # bufvals (chans w c) \<and> mem w = (mem v)(d := mem w d) \<and> state w = state v \<and> runq w = runq v
      | q # _ \<Rightarrow> \<exists>l m. offered v q c l m \<and> moved d c l m v w \<and> state w = (state v)(q := Pready) \<and> runq w = runq v @ [q])"

lemma queues_ok_same: "queues_ok v \<Longrightarrow> same_queues (chans v) (chans w) \<Longrightarrow> queues_ok w"
  by (simp add: queues_ok_def same_queues_def)

text \<open>Only the buffer of a channel on which no prog waits changes.\<close>

lemma buffer_inv:
  assumes v: "chinv v" "senders v c = []" "receivers v c = []" and w: "same_queues (chans v) (chans w)" "buf_ok (chans w c)"
    "\<And>d. d \<noteq> c \<Longrightarrow> buf_ok (chans w d) = buf_ok (chans v d) \<and> CANGET (chans w d) = CANGET (chans v d) \<and> CANPUT (chans w d) = CANPUT (chans v d)"
    "state w = state v" "runq w = runq v" "pchan w = pchan v" "pRs w = pRs v" "pptr w = pptr v"
  shows "chinv w"
proof -
  have b: "buf_ok (chans w d) \<and> (receivers v d \<noteq> [] \<longrightarrow> CANGET (chans w d) = CANGET (chans v d))
      \<and> (senders v d \<noteq> [] \<longrightarrow> CANPUT (chans w d) = CANPUT (chans v d))" for d
    using v(2,3) w(2) w(3) [of d] chinvD(2) [OF v(1), of d] by (cases "d = c") (simp_all add: chan_ok_def)
  have s: "senders w d = senders v d" "receivers w d = receivers v d" for d
    using w(1) by (simp_all add: same_queues_def)
  show ?thesis
    by (rule quiet_inv [OF v(1) queues_ok_same [OF chinvD(1) [OF v(1)] w(1)] s b w(4-8)])
qed

section \<open>Send and receive on their own\<close>

lemma isend_sent:
  assumes v: "chinv v" "send_ready v c"
  shows "\<exists>w. isend s (Some c) v = Done w \<and> chinv w \<and> sent s c v w"
proof (cases "receivers v c")
  case (Cons q qs)
  have q: "c \<in> waits_recv v q"
    using chinvD(2) [OF v(1), of c] Cons by (auto simp: chan_ok_def)
  obtain w where w: "isend s (Some c) v = Done w" "chans w = without (waits_send v q) (waits_recv v q) q (chans v)"
      "state w = (state v)(q := Pready)" "runq w = runq v @ [q]" "pptr w = (pptr v)(q := None)" "pchan w = pchan v" "pRs w = pRs v" "given v q c s (mem w)"
    using isend_wakes [OF chinvD(1) [OF v(1)] Cons q chinvD(3) [OF v(1)]] by blast
  have "state v q = Palt \<or> state v q = Psend \<or> state v q = Precv"
    using q by (auto simp: waits_recv_def split: pstate.splits)
  then have "chinv w"
    by (rule wake_inv [OF v(1)]) (use w room_without in auto)
  then show ?thesis
    using w Cons by (auto simp: sent_def)
next
  case Nil
  then have "CANPUT (chans v c)" and b: "buf_ok (chans v c)"
    using v(2) chinvD(2) [OF v(1), of c] by (auto simp: send_ready_def chan_ok_def)
  then obtain ch where ch: "cputb (chans v c) (mem v s) = Some ch"
    using cputb_ok(1) [OF b, of "mem v s"] by fastforce
  define w where "w = setchan c (\<lambda>_. ch) v"
  have sn: "senders v c = []"
    using \<open>CANPUT (chans v c)\<close> chinvD(2) [OF v(1), of c] by (auto simp: chan_ok_def)
  have "qprog (recvq (chans v c)) = Done None"
    by (subst queues_okD(2) [OF chinvD(1) [OF v(1)]]) (simp add: Nil)
  then have "isend s (Some c) v = Done w"
    using ch by (simp add: isend_def w_def)
  moreover have "chinv w"
    by (rule buffer_inv [OF v(1) sn Nil]) (use cputb_ok(2) [OF b ch] in \<open>simp_all add: w_def same_queues_def\<close>)
  ultimately show ?thesis
    using Nil cputb_vals [OF b ch] by (auto simp: sent_def w_def)
qed

lemma irecv_received:
  assumes v: "chinv v" "recv_ready v c"
  shows "\<exists>w. irecv (Some c) d v = Done w \<and> chinv w \<and> received d c v w"
proof (cases "senders v c")
  case (Cons q qs)
  have q: "c \<in> waits_send v q" "buf_ok (chans v c)" "\<not> CANPUT (chans v c)"
    using chinvD(2) [OF v(1), of c] Cons by (auto simp: chan_ok_def)
  obtain w l m where w: "irecv (Some c) d v = Done w" "same_queues (without (waits_send v q) (waits_recv v q) q (chans v)) (chans w)"
      "same_room (chans v) (chans w)" "state w = (state v)(q := Pready)" "runq w = runq v @ [q]" "pptr w = (pptr v)(q := None)" "pchan w = pchan v"
      "pRs w = pRs v" "offered v q c l m" "moved d c l m v w" "\<forall>e. e \<noteq> c \<longrightarrow> bufvals (chans w e) = bufvals (chans v e)"
    using irecv_wakes [OF chinvD(1) [OF v(1)] Cons q(1) chinvD(3) [OF v(1)] q(2,3), of d] by (elim exE conjE)
  have "state v q = Palt \<or> state v q = Psend \<or> state v q = Precv"
    using q by (auto simp: waits_send_def split: pstate.splits)
  then have "chinv w"
    by (rule wake_inv [OF v(1)]) (use w in auto)
  then show ?thesis
    using w Cons by (auto simp: received_def)
next
  case Nil
  then have "CANGET (chans v c)" and b: "buf_ok (chans v c)"
    using v(2) chinvD(2) [OF v(1), of c] by (auto simp: recv_ready_def chan_ok_def)
  then obtain x ch where ch: "cgetb (chans v c) = Some (x, ch)"
    using cgetb_ok(1) [OF b] by fastforce
  define w where "w = store d x (setchan c (\<lambda>_. ch) v)"
  have rn: "receivers v c = []"
    using \<open>CANGET (chans v c)\<close> chinvD(2) [OF v(1), of c] by (auto simp: chan_ok_def)
  have "qprog (sendq (chans v c)) = Done None"
    by (subst queues_okD(1) [OF chinvD(1) [OF v(1)]]) (simp add: Nil)
  then have "irecv (Some c) d v = Done w"
    using ch by (simp add: irecv_def w_def)
  moreover have "chinv w"
    by (rule buffer_inv [OF v(1) Nil rn]) (use cgetb_ok(2) [OF b ch] in \<open>simp_all add: w_def same_queues_def\<close>)
  ultimately show ?thesis
    using Nil cgetb_vals [OF b ch] by (auto simp: received_def w_def)
qed

text \<open>A prog that cannot send or receive waits at the end of the queue.\<close>

lemma isend_waits:
  assumes v: "chinv v" "runq v = p # r" "\<not> send_ready v c"
  shows "\<exists>w. isend s (Some c) v = Done w \<and> chinv w \<and> chans w = marked {c} {} p (chans v) \<and> mem w = mem v \<and> runq w = r \<and> state w = (state v)(p := Psend)
    \<and> pptr w p = Some s"
proof -
  have n: "receivers v c = []" "\<not> CANPUT (chans v c)" and b: "buf_ok (chans v c)"
    using v(3) chinvD(2) [OF v(1), of c] by (auto simp: send_ready_def chan_ok_def)
  define w where "w = setchan c (\<lambda>ch. ch\<lparr>sendq := mkq (senders v c @ [p])\<rparr>)
      ((setptr p (Some s) (v\<lparr>state := (state v)(p := Psend), runq := r\<rparr>))\<lparr>pchan := (pchan v)(p := Some c), rt := True\<rparr>)"
  have wf: "chans w = marked {c} {} p (chans v)" "state w = (state v)(p := Psend)" "runq w = r" "pptr w = (pptr v)(p := Some s)"
    "pchan w = (pchan v)(p := Some c)" "pRs w = pRs v" "mem w = mem v"
    by (auto simp: w_def marked_def setptr_def fun_eq_iff)
  have "chinv w"
    by (rule wait_inv [OF v(1,2) wf(1,2,3)]) (use wf n in \<open>auto simp: waits_send_def waits_recv_def prog_ok_def\<close>)
  moreover have "cqadd (sendq (chans v c)) p = Done (mkq (senders v c @ [p]))" "qprog (recvq (chans v c)) = Done None"
    by (subst queues_okD(1) [OF chinvD(1) [OF v(1)]], simp, subst queues_okD(2) [OF chinvD(1) [OF v(1)]], simp add: n)
  moreover have "cputb (chans v c) (mem v s) = None"
    using cputb_ok(1) [OF b] n(2) by blast
  ultimately show ?thesis
    using wf v(2) by (intro exI [of _ w]) (simp add: isend_def chwait_def delrun_def add_send_def w_def setptr_def)
qed

lemma irecv_waits:
  assumes v: "chinv v" "runq v = p # r" "\<not> recv_ready v c"
  shows "\<exists>w. irecv (Some c) d v = Done w \<and> chinv w \<and> chans w = marked {} {c} p (chans v) \<and> mem w = mem v \<and> runq w = r \<and> state w = (state v)(p := Precv)
    \<and> pptr w p = Some d"
proof -
  have n: "senders v c = []" "\<not> CANGET (chans v c)" and b: "buf_ok (chans v c)"
    using v(3) chinvD(2) [OF v(1), of c] by (auto simp: recv_ready_def chan_ok_def)
  define w where "w = setchan c (\<lambda>ch. ch\<lparr>recvq := mkq (receivers v c @ [p])\<rparr>)
      ((setptr p (Some d) (v\<lparr>state := (state v)(p := Precv), runq := r\<rparr>))\<lparr>pchan := (pchan v)(p := Some c), rt := True\<rparr>)"
  have wf: "chans w = marked {} {c} p (chans v)" "state w = (state v)(p := Precv)" "runq w = r" "pptr w = (pptr v)(p := Some d)"
    "pchan w = (pchan v)(p := Some c)" "pRs w = pRs v" "mem w = mem v"
    by (auto simp: w_def marked_def setptr_def fun_eq_iff)
  have "chinv w"
    by (rule wait_inv [OF v(1,2) wf(1,2,3)]) (use wf n in \<open>auto simp: waits_send_def waits_recv_def prog_ok_def\<close>)
  moreover have "cqadd (recvq (chans v c)) p = Done (mkq (receivers v c @ [p]))" "qprog (sendq (chans v c)) = Done None"
    by (subst queues_okD(2) [OF chinvD(1) [OF v(1)]], simp, subst queues_okD(1) [OF chinvD(1) [OF v(1)]], simp add: n)
  moreover have "cgetb (chans v c) = None"
    using cgetb_ok(1) [OF b] n(2) by blast
  ultimately show ?thesis
    using wf v(2) by (intro exI [of _ w]) (simp add: irecv_def chwait_def delrun_def add_recv_def w_def setptr_def)
qed

end
