(* ===== verification/Dis_Alt.thy ===== *)
theory Dis_Alt
  imports Dis_Comm
begin

text \<open>
  The alt instruction and the system of progs.  The three passes of an alt are put together: \<^verbatim>\<open>altrdy\<close> counts the ready
  entries and puts the prog in all the queues, \<^verbatim>\<open>altcomm\<close> communicates, \<^verbatim>\<open>altdone\<close> undoes the first.  The relation \<^verbatim>\<open>cstep\<close> has a step for
  each instruction on channels, for the scheduler, for exceptions and for the system's own sends; \<^verbatim>\<open>step_system\<close> is interpreted on
  it.  The alts of its steps name each channel once (\<^verbatim>\<open>alt_ok\<close>), and the arrays of channels of an alt do not change while it waits; the last
  section shows what \<^verbatim>\<open>altdone\<close> and \<^verbatim>\<open>altrdy\<close> do with other alts.
\<close>

section \<open>Trying an alt\<close>

definition forms :: "(cid \<Rightarrow> Channel) \<Rightarrow> bool" where
  "forms f \<longleftrightarrow> (\<forall>c. sendq (f c) = mkq (progs (sendq (f c))) \<and> recvq (f c) = mkq (progs (recvq (f c))))"

lemma formsD: "forms f \<Longrightarrow> sendq (f c) = mkq (progs (sendq (f c)))" "forms f \<Longrightarrow> recvq (f c) = mkq (progs (recvq (f c)))"
  by (simp_all add: forms_def)

lemma forms_marked: "forms f \<Longrightarrow> forms (marked X Y p f)"
  by (simp add: forms_def marked_def)

lemma queues_forms: "queues_ok v \<Longrightarrow> forms (chans v)"
  by (simp add: queues_ok_def forms_def wfq_def)

lemma marked_marked: "X \<inter> X' = {} \<Longrightarrow> Y \<inter> Y' = {} \<Longrightarrow> marked X Y p (marked X' Y' p f) = marked (X \<union> X') (Y \<union> Y') p f"
  by (auto simp: marked_def fun_eq_iff)

lemma marked_none [simp]: "marked {} {} p f = f"
  by (simp add: marked_def fun_eq_iff)

abbreviation with_chans :: "(cid \<Rightarrow> Channel) \<Rightarrow> vm \<Rightarrow> vm" where
  "with_chans f v \<equiv> v\<lparr>chans := f\<rparr>"

lemma ready_marked:
  "recv_ready (v\<lparr>chans := marked {} Y p (chans v)\<rparr>) = recv_ready v" "send_ready (v\<lparr>chans := marked X {} p (chans v)\<rparr>) = send_ready v"
  "c \<notin> X \<Longrightarrow> recv_ready (v\<lparr>chans := marked X Y p (chans v)\<rparr>) c = recv_ready v c" "c \<notin> Y \<Longrightarrow> send_ready (v\<lparr>chans := marked X Y p (chans v)\<rparr>) c = send_ready v c"
  by (auto simp: recv_ready_def send_ready_def marked_def fun_eq_iff)

lemma mark_recv_ok:
  assumes "forms (chans v)"
  shows "mark_recv c p v = Done (if recv_ready v c then 1 else 0, v\<lparr>chans := marked {} {c} p (chans v)\<rparr>)"
proof -
  have "cqadd (recvq (chans v c)) p = Done (mkq (receivers v c @ [p]))" "qprog (sendq (chans v c)) = Done (case senders v c of [] \<Rightarrow> None | q # _ \<Rightarrow> Some q)"
    by (subst formsD [OF assms], simp)+
  moreover have "setchan c (\<lambda>ch. ch\<lparr>recvq := mkq (receivers v c @ [p])\<rparr>) v = v\<lparr>chans := marked {} {c} p (chans v)\<rparr>"
    by (auto simp: setchan_def marked_def fun_eq_iff)
  ultimately show ?thesis
    by (auto simp: mark_recv_def add_recv_def recv_ready_def split: list.splits)
qed

lemma altmark_ok:
  "forms (chans v) \<Longrightarrow> distinct (somes cs)
    \<Longrightarrow> altmark cs p (n, v) = Done (n + length (filter (recv_ready v) (somes cs)), v\<lparr>chans := marked {} (set (somes cs)) p (chans v)\<rparr>)"
proof (induction cs arbitrary: n v)
  case (Cons co cs)
  show ?case
  proof (cases co)
    case (Some c)
    let ?u = "v\<lparr>chans := marked {} {c} p (chans v)\<rparr>"
    have "forms (chans ?u)"
      using Cons.prems(1) by (simp add: forms_marked)
    note ih = Cons.IH [OF this]
    have "set (somes cs) \<inter> {c} = {}"
      using Cons.prems(2) Some by simp
    then have "marked {} (set (somes cs)) p (marked {} {c} p (chans v)) = marked {} (insert c (set (somes cs))) p (chans v)"
      by (simp add: marked_marked)
    then show ?thesis
      using ih Cons.prems Some by (simp add: mark_recv_ok ready_marked)
  qed (use Cons in simp)
qed simp

definition nils :: "Altc list \<Rightarrow> bool" where
  "nils as \<longleftrightarrow> (\<exists>x\<in>set as. ac_c x = Nilc)"

lemma nils_simps [simp]: "\<not> nils []" "nils (x # as) \<longleftrightarrow> ac_c x = Nilc \<or> nils as"
  by (simp_all add: nils_def)

lemma rdy_recvs_ok:
  "forms (chans v) \<Longrightarrow> distinct (chs as)
    \<Longrightarrow> rdy_recvs as p (e, n, v) = Done (if nils as then Some exNilref else e, n + length (filter (recv_ready v) (chs as)),
          v\<lparr>chans := marked {} (set (chs as)) p (chans v)\<rparr>)"
proof (induction as arbitrary: e n v)
  case (Cons x as)
  let ?X = "set (entry_chans x)"
  let ?u = "v\<lparr>chans := marked {} ?X p (chans v)\<rparr>"
  have "forms (chans ?u)" "distinct (chs as)"
    using Cons.prems by (simp_all add: forms_marked)
  note ih = Cons.IH [OF this]
  have "set (chs as) \<inter> ?X = {}"
    using Cons.prems(2) by auto
  then have m: "marked {} (set (chs as)) p (marked {} ?X p (chans v)) = marked {} (set (chs (x # as))) p (chans v)"
    by (simp add: marked_marked Un_commute)
  show ?case
  proof (cases "ac_c x")
    case Nilc
    then show ?thesis
      using Cons by (simp add: entry_chans_def)
  next
    case (Chan c)
    then show ?thesis
      using ih m Cons.prems by (simp add: entry_chans_def mark_recv_ok ready_marked)
  next
    case (Arr cs)
    have "distinct (somes cs)"
      using Cons.prems(2) Arr by (simp add: entry_chans_def)
    then show ?thesis
      using ih m Cons.prems(1) Arr by (simp add: entry_chans_def altmark_ok ready_marked)
  qed
qed simp

lemma rdy_sends_ok:
  "forms (chans v) \<Longrightarrow> distinct (chs as) \<Longrightarrow> no_arr as \<Longrightarrow> \<forall>c\<in>set (chs as). p \<notin> set (receivers v c)
    \<Longrightarrow> rdy_sends as p (e, n, v) = Done (if nils as then Some exNilref else e, n + length (filter (send_ready v) (chs as)),
          v\<lparr>chans := marked (set (chs as)) {} p (chans v)\<rparr>)"
proof (induction as arbitrary: e n v)
  case (Cons x as)
  show ?case
  proof (cases "ac_c x")
    case Nilc
    then show ?thesis
      using Cons by (simp add: entry_chans_def)
  next
    case (Chan c)
    let ?u = "v\<lparr>chans := marked {c} {} p (chans v)\<rparr>"
    have "forms (chans ?u)" "distinct (chs as)" "no_arr as" "\<forall>d\<in>set (chs as). p \<notin> set (receivers ?u d)"
      using Cons.prems Chan by (auto simp: forms_marked entry_chans_def marked_def)
    note ih = Cons.IH [OF this]
    have c: "c \<notin> set (chs as)" "p \<notin> set (receivers v c)"
      using Cons.prems(2,4) Chan by (simp_all add: entry_chans_def)
    have m: "marked (set (chs as)) {} p (marked {c} {} p (chans v)) = marked (insert c (set (chs as))) {} p (chans v)"
      using c(1) by (subst marked_marked) auto
    have "cqadd (sendq (chans v c)) p = Done (mkq (senders v c @ [p]))" "qprog (recvq (chans v c)) = Done (case receivers v c of [] \<Rightarrow> None | q # _ \<Rightarrow> Some q)"
      by (subst formsD [OF Cons.prems(1)], simp)+
    moreover have "setchan c (\<lambda>ch. ch\<lparr>sendq := mkq (senders v c @ [p])\<rparr>) v = ?u"
      by (auto simp: setchan_def marked_def fun_eq_iff)
    ultimately show ?thesis
      using ih m c(2) Chan by (auto simp: entry_chans_def add_send_def send_ready_def [of v] ready_marked split: list.splits)
  qed (use Cons.prems in \<open>simp add: is_arr_def\<close>)
qed simp

lemma marked_queues_ok:
  assumes "chinv v" "state v p = Pready"
  shows "queues_ok (v\<lparr>chans := marked X Y p (chans v)\<rparr>)"
  using queues_okD [OF chinvD(1) [OF assms(1)]] ready_not_queued [OF assms] by (auto simp: queues_ok_def marked_def wfq_def)

lemma without_marked:
  assumes "chinv v" "state v p = Pready"
  shows "without X Y p (marked X Y p (chans v)) = chans v"
proof -
  have "mkq (senders v c) = sendq (chans v c)" "mkq (receivers v c) = recvq (chans v c)" for c
    using queues_okD(1,2) [OF chinvD(1) [OF assms(1)], of c] by simp_all
  then show ?thesis
    using ready_not_queued [OF assms] by (simp add: without_def marked_def fun_eq_iff filter_id)
qed

lemma vm_eqI: "chans w = chans v \<Longrightarrow> same_sched v w \<Longrightarrow> keeps v w \<Longrightarrow> w = (v :: vm)"
  by (cases v, cases w) (simp add: same_sched_def keeps_def)

definition nready :: "Alt \<Rightarrow> vm \<Rightarrow> nat" where
  "nready a v = length (filter (send_ready v) (schans a)) + length (filter (recv_ready v) (rchans a))"

definition with_marks :: "Alt \<Rightarrow> prog \<Rightarrow> vm \<Rightarrow> vm" where
  "with_marks a p v = v\<lparr>chans := marked (set (schans a)) (set (rchans a)) p (chans v)\<rparr>"

text \<open>\<open>altdone\<close> undoes \<open>altrdy\<close>.\<close>

lemma altdone_marks:
  assumes v: "chinv v" "state v p = Pready" and a: "alt_ok a"
  shows "altdone a p None sr (with_marks a p v) = Done v"
proof -
  obtain w where w: "altdone a p None sr (with_marks a p v) = Done w" "chans w = without (set (schans a)) (set (rchans a)) p (chans (with_marks a p v))"
      "same_sched (with_marks a p v) w" "keeps (with_marks a p v) w"
    using altdone_none [OF marked_queues_ok [OF v, of "set (schans a)" "set (rchans a)"], of a p sr] a by (auto simp: alt_ok_def with_marks_def)
  have "w = v"
    by (rule vm_eqI) (use w without_marked [OF v] in \<open>auto simp: with_marks_def same_sched_def keeps_def\<close>)
  then show ?thesis
    using w(1) by simp
qed

lemma altrdy_ok:
  assumes v: "chinv v" "state v p = Pready" and a: "alt_ok a"
  shows "altrdy a p v = (if nils (arecvs a) \<or> nils (asends a) then Raise exNilref v else Done (nready a v, with_marks a p v))"
proof -
  have f: "forms (chans v)"
    using queues_forms [OF chinvD(1) [OF v(1)]] .
  have d: "distinct (rchans a)" "distinct (schans a)" "no_arr (asends a)" "set (schans a) \<inter> set (rchans a) = {}"
    using a by (auto simp: alt_ok_def)
  let ?u = "v\<lparr>chans := marked {} (set (rchans a)) p (chans v)\<rparr>"
  have u: "forms (chans ?u)" "\<forall>c\<in>set (schans a). p \<notin> set (receivers ?u c)"
    using f d(4) ready_not_queued(2) [OF v] by (auto simp: forms_marked marked_def)
  have m: "marked (set (schans a)) {} p (marked {} (set (rchans a)) p (chans v)) = marked (set (schans a)) (set (rchans a)) p (chans v)"
    by (subst marked_marked) auto
  have "filter (send_ready ?u) (schans a) = filter (send_ready v) (schans a)"
    using d(4) by (intro filter_cong) (auto intro!: ready_marked(4))
  then have "altrdy a p v = (case (if nils (asends a) then Some exNilref else if nils (arecvs a) then Some exNilref else None) of
      None \<Rightarrow> Done (nready a v, with_marks a p v)
    | Some e \<Rightarrow> andthen (altdone a p None (-1) (with_marks a p v)) (\<lambda>v. Raise e v))"
    using rdy_recvs_ok [OF f d(1), of p None 0] rdy_sends_ok [OF u(1) d(2,3) u(2)] m
    by (simp add: altrdy_def nready_def with_marks_def add.commute)
  then show ?thesis
    using altdone_marks [OF v a] by simp
qed

section \<open>The communication of an alt\<close>

lemma comm_sends_ok:
  "forms (chans v) \<Longrightarrow> no_arr as \<Longrightarrow> \<not> nils as
    \<Longrightarrow> if which < length (filter (send_ready v) (chs as))
      then \<exists>i c. i < length as \<and> ac_c (as ! i) = Chan c \<and> send_ready v c
        \<and> comm_sends as n which d v = andthen (isend (ac_ptr (as ! i)) (Some c) (store d (int (n + i)) v)) (\<lambda>v. Done (Inl v))
      else comm_sends as n which d v = Done (Inr (which - length (filter (send_ready v) (chs as))))"
proof (induction as arbitrary: n which)
  case (Cons x as)
  obtain c where c: "ac_c x = Chan c"
    using Cons.prems by (cases "ac_c x") (auto simp: is_arr_def)
  have h: "qprog (recvq (chans v c)) = Done (case receivers v c of [] \<Rightarrow> None | q # _ \<Rightarrow> Some q)"
    by (subst formsD [OF Cons.prems(1)]) simp
  have e: "comm_sends (x # as) n which d v = (if send_ready v c then
        if which = 0 then andthen (isend (ac_ptr x) (Some c) (store d (int n) v)) (\<lambda>v. Done (Inl v)) else comm_sends as (n + 1) (which - 1) d v
      else comm_sends as (n + 1) which d v)"
    using c h by (auto simp: send_ready_def split: list.splits)
  have later: "\<exists>i c. i < length (x # as) \<and> ac_c ((x # as) ! i) = Chan c \<and> send_ready v c
      \<and> R = andthen (isend (ac_ptr ((x # as) ! i)) (Some c) (store d (int (n + i)) v)) (\<lambda>v. Done (Inl v))"
    if "\<exists>i c. i < length as \<and> ac_c (as ! i) = Chan c \<and> send_ready v c
      \<and> R = andthen (isend (ac_ptr (as ! i)) (Some c) (store d (int (n + 1 + i)) v)) (\<lambda>v. Done (Inl v))" for R
  proof -
    from that obtain i c' where "i < length as" "ac_c (as ! i) = Chan c'" "send_ready v c'"
       "R = andthen (isend (ac_ptr (as ! i)) (Some c') (store d (int (n + 1 + i)) v)) (\<lambda>v. Done (Inl v))"
      by blast
    then show ?thesis
      by (intro exI [of _ "Suc i"] exI [of _ c']) simp
  qed
  have ih: "no_arr as" "\<not> nils as"
    using Cons.prems by simp_all
  show ?case
  proof (cases "send_ready v c")
    case True
    show ?thesis
    proof (cases "which = 0")
      case True
      have "\<exists>i c'. i < length (x # as) \<and> ac_c ((x # as) ! i) = Chan c' \<and> send_ready v c'
          \<and> andthen (isend (ac_ptr x) (Some c) (store d (int n) v)) (\<lambda>v. Done (Inl v) :: (vm + nat) cres)
            = andthen (isend (ac_ptr ((x # as) ! i)) (Some c') (store d (int (n + i)) v)) (\<lambda>v. Done (Inl v))"
        using \<open>send_ready v c\<close> c by (intro exI [of _ 0] exI [of _ c]) simp
      then show ?thesis
        unfolding e using True \<open>send_ready v c\<close> c by (simp add: entry_chans_def)
    next
      case False
      then show ?thesis
        using Cons.IH [OF Cons.prems(1) ih, of "which - 1" "n + 1"] \<open>send_ready v c\<close> c later [of "comm_sends as (n + 1) (which - 1) d v"] unfolding e
        by (auto simp: entry_chans_def split: if_splits)
    qed
  next
    case False
    then show ?thesis
      using Cons.IH [OF Cons.prems(1) ih, of which "n + 1"] c later [of "comm_sends as (n + 1) which d v"] unfolding e
      by (auto simp: entry_chans_def split: if_splits)
  qed
qed simp

definition store_index :: "(loc \<times> int) option \<Rightarrow> vm \<Rightarrow> vm" where
  "store_index ix v = (case ix of None \<Rightarrow> v | Some (l, j) \<Rightarrow> store l j v)"

definition chosen :: "Altc list \<Rightarrow> nat \<Rightarrow> loc \<Rightarrow> vm \<Rightarrow> (vm + nat) cres \<Rightarrow> bool" where
  "chosen as n d v R \<longleftrightarrow> (\<exists>i c l ix. i < length as \<and> lands (as ! i) c l ix \<and> recv_ready v c
     \<and> R = andthen (irecv (Some c) l (store_index ix (store d (int (n + i)) v))) (\<lambda>v. Done (Inl v)))"

lemma comm_arr_ok:
  "forms (chans v)
    \<Longrightarrow> if which < length (filter (recv_ready v) (somes cs))
      then \<exists>j c. j < length cs \<and> cs ! j = Some c \<and> recv_ready v c
        \<and> comm_arr cs ptr n an which d v
          = andthen (irecv (Some c) (ptr + 1) (store ptr (int (an + j)) (store d (int n) v))) (\<lambda>v. Done (Inl v))
      else comm_arr cs ptr n an which d v = Done (Inr (which - length (filter (recv_ready v) (somes cs))))"
proof (induction cs arbitrary: an which)
  case (Cons co cs)
  let ?G = "\<lambda>R an cs. \<exists>j c. j < length cs \<and> cs ! j = Some c \<and> recv_ready v c
        \<and> R = andthen (irecv (Some c) (ptr + 1) (store ptr (int (an + j)) (store d (int n) v))) (\<lambda>v. Done (Inl v))"
  have later: "?G R an (co # cs)" if "?G R (an + 1) cs" for R
  proof -
    from that obtain j c where "j < length cs" "cs ! j = Some c" "recv_ready v c"
      "R = andthen (irecv (Some c) (ptr + 1) (store ptr (int (an + 1 + j)) (store d (int n) v))) (\<lambda>v. Done (Inl v))"
      by blast
    then show ?thesis
      by (intro exI [of _ "Suc j"] exI [of _ c]) simp
  qed
  show ?case
  proof (cases co)
    case None
    then show ?thesis
      using Cons.IH [OF Cons.prems, of which "an + 1"] later [of "comm_arr cs ptr n (an + 1) which d v"] by (auto split: if_splits)
  next
    case (Some c)
    have h: "qprog (sendq (chans v c)) = Done (case senders v c of [] \<Rightarrow> None | q # _ \<Rightarrow> Some q)"
      by (subst formsD [OF Cons.prems]) simp
    have e: "comm_arr (co # cs) ptr n an which d v = (if recv_ready v c then
        if which = 0 then andthen (irecv (Some c) (ptr + 1) (store ptr (int an) (store d (int n) v))) (\<lambda>v. Done (Inl v))
        else comm_arr cs ptr n (an + 1) (which - 1) d v
      else comm_arr cs ptr n (an + 1) which d v)"
      using h Some by (auto simp: recv_ready_def split: list.splits)
    show ?thesis
    proof (cases "recv_ready v c \<and> which = 0")
      case True
      have "?G (andthen (irecv (Some c) (ptr + 1) (store ptr (int an) (store d (int n) v))) (\<lambda>v. Done (Inl v))) an (co # cs)"
        using True Some by (intro exI [of _ 0] exI [of _ c]) simp
      then show ?thesis
        unfolding e using True Some by simp
    next
      case False
      then show ?thesis
        using Cons.IH [OF Cons.prems, of "if recv_ready v c then which - 1 else which" "an + 1"] Some
          later [of "comm_arr cs ptr n (an + 1) (if recv_ready v c then which - 1 else which) d v"] unfolding e
        by (auto split: if_splits)
    qed
  qed
qed simp

lemma comm_recvs_ok:
  "forms (chans v) \<Longrightarrow> \<not> nils as
    \<Longrightarrow> if which < length (filter (recv_ready v) (chs as)) then chosen as n d v (comm_recvs as n which d v)
      else comm_recvs as n which d v = Done (Inr (which - length (filter (recv_ready v) (chs as))))"
proof (induction as arbitrary: n which)
  case (Cons x as)
  have later: "chosen (x # as) n d v R" if "chosen as (n + 1) d v R" for R
  proof -
    obtain i c l ix where "i < length as" "lands (as ! i) c l ix" "recv_ready v c"
      "R = andthen (irecv (Some c) l (store_index ix (store d (int (n + 1 + i)) v))) (\<lambda>v. Done (Inl v))"
      using \<open>chosen as (n + 1) d v R\<close> by (auto simp: chosen_def)
    then show ?thesis
      unfolding chosen_def by (intro exI [of _ "Suc i"] exI [of _ c] exI [of _ l] exI [of _ ix]) simp
  qed
  have here: "chosen (x # as) n d v (andthen (irecv (Some c) l (store_index ix (store d (int n) v))) (\<lambda>v. Done (Inl v)))"
    if "lands x c l ix" "recv_ready v c" for c l ix
    unfolding chosen_def using that by (intro exI [of _ 0] exI [of _ c] exI [of _ l] exI [of _ ix]) simp
  have ih: "\<not> nils as"
    using Cons.prems by simp
  show ?case
  proof (cases "ac_c x")
    case (Chan c)
    have h: "qprog (sendq (chans v c)) = Done (case senders v c of [] \<Rightarrow> None | q # _ \<Rightarrow> Some q)"
      by (subst formsD [OF Cons.prems(1)]) simp
    have e: "comm_recvs (x # as) n which d v = (if recv_ready v c then
        if which = 0 then andthen (irecv (Some c) (ac_ptr x) (store d (int n) v)) (\<lambda>v. Done (Inl v))
        else comm_recvs as (n + 1) (which - 1) d v
      else comm_recvs as (n + 1) which d v)"
      using h Chan by (auto simp: recv_ready_def split: list.splits)
    show ?thesis
    proof (cases "recv_ready v c \<and> which = 0")
      case True
      then show ?thesis
        using Chan e here [of c "ac_ptr x" None] by (auto simp: lands_def store_index_def entry_chans_def)
    next
      case False
      then show ?thesis
        using Cons.IH [OF Cons.prems(1) ih, of "if recv_ready v c then which - 1 else which" "n + 1"] Chan
          later [of "comm_recvs as (n + 1) (if recv_ready v c then which - 1 else which) d v"] unfolding e
        by (auto simp: entry_chans_def split: if_splits)
    qed
  next
    case (Arr cs)
    let ?k = "length (filter (recv_ready v) (somes cs))"
    have a: "if which < ?k then \<exists>j c. j < length cs \<and> cs ! j = Some c \<and> recv_ready v c
        \<and> comm_arr cs (ac_ptr x) n 0 which d v = andthen (irecv (Some c) (ac_ptr x + 1) (store (ac_ptr x) (int j) (store d (int n) v))) (\<lambda>v. Done (Inl v))
      else comm_arr cs (ac_ptr x) n 0 which d v = Done (Inr (which - ?k))"
      by (rule comm_arr_ok [OF Cons.prems(1), of which cs "ac_ptr x" n 0 d, unfolded add_0])
    show ?thesis
    proof (cases "which < ?k")
      case True
      then obtain j c where j: "j < length cs" "cs ! j = Some c" "recv_ready v c"
        "comm_arr cs (ac_ptr x) n 0 which d v = andthen (irecv (Some c) (ac_ptr x + 1) (store (ac_ptr x) (int j) (store d (int n) v))) (\<lambda>v. Done (Inl v))"
        using a by auto
      have "lands x c (ac_ptr x + 1) (Some (ac_ptr x, int j))"
        using Arr j by (auto simp: lands_def)
      note ch = here [OF this j(3)]
      have "comm_recvs (x # as) n which d v = andthen (irecv (Some c) (ac_ptr x + 1) (store (ac_ptr x) (int j) (store d (int n) v))) (\<lambda>v. Done (Inl v))"
        using Arr j(4) by (cases "irecv (Some c) (ac_ptr x + 1) (store (ac_ptr x) (int j) (store d (int n) v))") simp_all
      then show ?thesis
        using ch True Arr by (simp add: store_index_def entry_chans_def)
    next
      case False
      then show ?thesis
        using a Arr Cons.IH [OF Cons.prems(1) ih, of "which - ?k" "n + 1"] later [of "comm_recvs as (n + 1) (which - ?k) d v"]
        by (auto simp: entry_chans_def split: if_splits)
    qed
  qed (use Cons.prems in simp)
qed simp

lemma unmark_queues:
  assumes v: "chinv v" "state v p = Pready" and g: "same_queues (without A B q (marked X Y p (chans v))) g"
  shows "same_queues (without A B q (chans v)) (without X Y p g)"
proof -
  have f: "mkq (senders v c) = sendq (chans v c)" "mkq (receivers v c) = recvq (chans v c)" for c
    using queues_okD(1,2) [OF chinvD(1) [OF v(1)], of c] by simp_all
  have n: "filter (\<lambda>x. x \<noteq> p \<and> x \<noteq> q) ps = filter (\<lambda>x. x \<noteq> q) ps" if "p \<notin> set ps" for ps
    using that by (intro filter_cong) auto
  have i: "filter (\<lambda>x. x \<noteq> p) (senders v c) = senders v c" "filter (\<lambda>x. x \<noteq> p) (receivers v c) = receivers v c" for c
    using ready_not_queued [OF v] by (simp_all add: filter_id)
  show ?thesis
    using g ready_not_queued [OF v] f i by (auto simp: same_queues_def without_def marked_def n conj_commute)
qed

text \<open>A send or receive between the two passes over the entries of an alt.\<close>

lemma alt_tail:
  assumes w1: "queues_ok w1" and a: "alt_ok a" "set (schans a) = X" "set (rchans a) = Y"
  shows "\<exists>w. altdone a p None (-1) w1 = Done w \<and> chans w = without X Y p (chans w1) \<and> mem w = mem w1 \<and> pptr w = pptr w1 \<and> same_sched w1 w"
  using altdone_none [OF w1, of a p "-1"] a by (auto simp: alt_ok_def keeps_def)

lemma waits_cong:
  assumes "state u = state v" "pchan u = pchan v" "pRs u = pRs v" "pptr u = pptr v"
  shows "waits_send u = waits_send v" "waits_recv u = waits_recv v" "prog_ok u = prog_ok v"
proof -
  have "waits_send u p = waits_send v p" "waits_recv u p = waits_recv v p" "prog_ok u p = prog_ok v p" for p
    using assms by (cases "state v p"; simp add: waits_send_def waits_recv_def prog_ok_def)+
  then show "waits_send u = waits_send v" "waits_recv u = waits_recv v" "prog_ok u = prog_ok v"
    by auto
qed

lemma given_cong: "\<lbrakk>state u = state v; pRs u = pRs v; pRd u = pRd v; pptr u = pptr v; mem u = mem v\<rbrakk> \<Longrightarrow> given u q c s m = given v q c s m"
  by (simp add: given_def)

lemma offered_cong: "\<lbrakk>state u = state v; pRs u = pRs v; pRd u = pRd v; pptr u = pptr v; mem u = mem v\<rbrakk> \<Longrightarrow> offered u q c l m = offered v q c l m"
  by (simp add: offered_def)

lemma marked_same [simp]: "bufvals (marked X Y p f c) = bufvals (f c)" "cbuf (marked X Y p f c) = cbuf (f c)"
  "buf_ok (marked X Y p f c) = buf_ok (f c)" "CANGET (marked X Y p f c) = CANGET (f c)" "CANPUT (marked X Y p f c) = CANPUT (f c)"
  by (simp_all add: marked_def bufvals_def split: option.splits)

lemma with_marks_fields [simp]:
  "state (with_marks a p v) = state v" "runq (with_marks a p v) = runq v" "mem (with_marks a p v) = mem v" "pptr (with_marks a p v) = pptr v"
  "pchan (with_marks a p v) = pchan v" "pRs (with_marks a p v) = pRs v" "pRd (with_marks a p v) = pRd v"
  "chans (with_marks a p v) = marked (set (schans a)) (set (rchans a)) p (chans v)"
  by (simp_all add: with_marks_def)

lemma chinv_mem:
  assumes "chinv v" "chans w = chans v" "state w = state v" "runq w = runq v" "pchan w = pchan v" "pRs w = pRs v" "pptr w = pptr v"
  shows "chinv w"
  using assms(1) by (rule quiet_inv) (use assms in \<open>auto simp: queues_ok_def chinv_def chan_ok_def\<close>)

lemma alt_send:
  assumes v: "chinv v" "state v p = Pready" and a: "alt_ok a" and c: "c \<in> set (schans a)" "send_ready v c"
  shows "\<exists>w1 w. isend s (Some c) (with_marks a p v) = Done w1 \<and> altdone a p None (-1) w1 = Done w \<and> chinv w \<and> sent s c v w"
proof -
  let ?X = "set (schans a)" and ?Y = "set (rchans a)" and ?u = "with_marks a p v"
  have uq: "queues_ok ?u"
    using marked_queues_ok [OF v] by (simp add: with_marks_def)
  have cy: "c \<notin> ?Y"
    using a c(1) by (auto simp: alt_ok_def)
  then have rq: "receivers ?u c = receivers v c" "recvq (chans ?u c) = mkq (receivers v c)"
    using queues_okD(2) [OF chinvD(1) [OF v(1)], of c] by (simp_all add: marked_def)
  show ?thesis
  proof (cases "receivers v c")
    case (Cons q qs)
    have q: "c \<in> waits_recv v q"
      using chinvD(2) [OF v(1), of c] Cons by (auto simp: chan_ok_def)
    have wc: "waits_send ?u = waits_send v" "waits_recv ?u = waits_recv v" "prog_ok ?u = prog_ok v"
      by (rule waits_cong; simp)+
    obtain w1 where w1: "isend s (Some c) ?u = Done w1" "chans w1 = without (waits_send v q) (waits_recv v q) q (chans ?u)"
        "state w1 = (state v)(q := Pready)" "runq w1 = runq v @ [q]" "pptr w1 = (pptr v)(q := None)" "pchan w1 = pchan v" "pRs w1 = pRs v"
        "given v q c s (mem w1)"
      using isend_wakes [OF uq, of c q qs s] Cons rq(1) q chinvD(3) [OF v(1)] wc given_cong [of ?u v] by auto
    obtain w where w: "altdone a p None (-1) w1 = Done w" "chans w = without ?X ?Y p (chans w1)" "mem w = mem w1" "pptr w = pptr w1" "same_sched w1 w"
      using alt_tail [OF queues_ok_without [OF uq w1(2)] a refl refl] by blast
    have qs: "same_queues (without (waits_send v q) (waits_recv v q) q (chans v)) (chans w)"
      using unmark_queues [OF v, of "waits_send v q" "waits_recv v q" q ?X ?Y "chans w1"] w1(2) w(2) by simp
    have room: "same_room (chans v) (chans w)"
      by (simp add: same_room_def w(2) w1(2) without_def)
    have st: "state v q = Palt \<or> state v q = Psend \<or> state v q = Precv"
      using q by (auto simp: waits_recv_def split: pstate.splits)
    have "chinv w"
      by (rule wake_inv [OF v(1) st qs room]) (use w w1 in \<open>auto simp: same_sched_def\<close>)
    moreover have "sent s c v w"
      using Cons w w1 by (simp add: sent_def same_sched_def)
    ultimately show ?thesis
      using w1(1) w(1) by blast
  next
    case Nil
    then have "CANPUT (chans v c)" and b: "buf_ok (chans v c)"
      using c(2) chinvD(2) [OF v(1), of c] by (auto simp: send_ready_def chan_ok_def)
    then obtain ch where ch: "cputb (chans ?u c) (mem v s) = Some ch"
      using cputb_ok(1) [of "chans ?u c" "mem v s"] by fastforce
    define w1 where "w1 = setchan c (\<lambda>_. ch) ?u"
    have e: "isend s (Some c) ?u = Done w1"
      using rq Nil ch by (simp add: isend_def w1_def)
    have bu: "buf_ok (chans ?u c)"
      using b by simp
    note ck = cputb_ok(2) [OF bu ch] cputb_vals [OF bu ch]
    have "queues_ok w1"
      using queues_ok_same [OF uq] ck by (simp add: w1_def same_queues_def)
    then obtain w where w: "altdone a p None (-1) w1 = Done w" "chans w = without ?X ?Y p (chans w1)" "mem w = mem w1" "pptr w = pptr w1" "same_sched w1 w"
      using alt_tail [OF _ a refl refl] by blast
    have qs: "same_queues (chans v) (chans w)"
      using unmark_queues [OF v, of "{}" "{}" p ?X ?Y "chans w1"] ck w(2) by (simp add: w1_def same_queues_def)
    have oth: "d \<noteq> c \<Longrightarrow> buf_ok (chans w d) = buf_ok (chans v d) \<and> CANGET (chans w d) = CANGET (chans v d) \<and> CANPUT (chans w d) = CANPUT (chans v d)" for d
      by (simp add: w(2) w1_def without_def)
    have "senders v c = []"
      using \<open>CANPUT (chans v c)\<close> chinvD(2) [OF v(1), of c] by (auto simp: chan_ok_def)
    moreover have "buf_ok (chans w c)"
      using ck by (simp add: w(2) w1_def without_def)
    ultimately have "chinv w"
      by (intro buffer_inv [OF v(1) _ Nil qs _ oth]) (use w in \<open>simp_all add: same_sched_def w1_def\<close>)
    moreover have "sent s c v w"
      using Nil ck w by (simp add: sent_def w1_def same_sched_def)
    ultimately show ?thesis
      using e w(1) by blast
  qed
qed

lemma alt_recv:
  assumes v: "chinv v" "state v p = Pready" and a: "alt_ok a" and c: "c \<in> set (rchans a)" "recv_ready v c"
  shows "\<exists>w1 w. irecv (Some c) d (with_marks a p v) = Done w1 \<and> altdone a p None (-1) w1 = Done w \<and> chinv w \<and> received d c v w"
proof -
  let ?X = "set (schans a)" and ?Y = "set (rchans a)" and ?u = "with_marks a p v"
  have uq: "queues_ok ?u"
    using marked_queues_ok [OF v] by (simp add: with_marks_def)
  have cx: "c \<notin> ?X"
    using a c(1) by (auto simp: alt_ok_def)
  then have sq: "senders ?u c = senders v c" "sendq (chans ?u c) = mkq (senders v c)"
    using queues_okD(1) [OF chinvD(1) [OF v(1)], of c] by (simp_all add: marked_def)
  show ?thesis
  proof (cases "senders v c")
    case (Cons q qs)
    have q: "c \<in> waits_send v q" "buf_ok (chans v c)" "\<not> CANPUT (chans v c)"
      using chinvD(2) [OF v(1), of c] Cons by (auto simp: chan_ok_def)
    have wc: "waits_send ?u = waits_send v" "waits_recv ?u = waits_recv v" "prog_ok ?u = prog_ok v"
      by (rule waits_cong; simp)+
    obtain w1 l m where w1: "irecv (Some c) d ?u = Done w1" "same_queues (without (waits_send v q) (waits_recv v q) q (chans ?u)) (chans w1)"
        "same_room (chans ?u) (chans w1)" "state w1 = (state v)(q := Pready)" "runq w1 = runq v @ [q]" "pptr w1 = (pptr v)(q := None)"
        "pchan w1 = pchan v" "pRs w1 = pRs v" "offered v q c l m" "moved d c l m ?u w1" "\<forall>e. e \<noteq> c \<longrightarrow> bufvals (chans w1 e) = bufvals (chans ?u e)"
      using irecv_wakes [OF uq, of c q qs d] Cons sq(1) q chinvD(3) [OF v(1)] wc offered_cong [of ?u v] by auto
    have "queues_ok (?u\<lparr>chans := without (waits_send v q) (waits_recv v q) q (chans ?u)\<rparr>)"
      by (rule queues_ok_without [OF uq]) simp
    then have w1q: "queues_ok w1"
      using queues_ok_same w1(2) by fastforce
    obtain w where w: "altdone a p None (-1) w1 = Done w" "chans w = without ?X ?Y p (chans w1)" "mem w = mem w1" "pptr w = pptr w1" "same_sched w1 w"
      using alt_tail [OF w1q a refl refl] by blast
    have qs: "same_queues (without (waits_send v q) (waits_recv v q) q (chans v)) (chans w)"
      using unmark_queues [OF v, of "waits_send v q" "waits_recv v q" q ?X ?Y "chans w1"] w1(2) w(2) by simp
    have room: "same_room (chans v) (chans w)"
      using w1(3) by (simp add: same_room_def w(2) without_def)
    have st: "state v q = Palt \<or> state v q = Psend \<or> state v q = Precv"
      using q by (auto simp: waits_send_def split: pstate.splits)
    have "chinv w"
      by (rule wake_inv [OF v(1) st qs room]) (use w w1 in \<open>auto simp: same_sched_def\<close>)
    moreover have "moved d c l m v w"
      using w1(10) w(2,3) by (simp add: moved_def)
    then have "received d c v w"
      using Cons w(2,5) w1(4,5,9,11) by (auto simp: received_def same_sched_def)
    ultimately show ?thesis
      using w1(1) w(1) by blast
  next
    case Nil
    then have "CANGET (chans v c)" and b: "buf_ok (chans v c)"
      using c(2) chinvD(2) [OF v(1), of c] by (auto simp: recv_ready_def chan_ok_def)
    then obtain x ch where ch: "cgetb (chans ?u c) = Some (x, ch)"
      using cgetb_ok(1) [of "chans ?u c"] by fastforce
    define w1 where "w1 = store d x (setchan c (\<lambda>_. ch) ?u)"
    have e: "irecv (Some c) d ?u = Done w1"
      using sq Nil ch by (simp add: irecv_def w1_def)
    have bu: "buf_ok (chans ?u c)"
      using b by simp
    note ck = cgetb_ok(2) [OF bu ch] cgetb_vals [OF bu ch]
    have "queues_ok w1"
      using queues_ok_same [OF uq] ck by (simp add: w1_def same_queues_def)
    then obtain w where w: "altdone a p None (-1) w1 = Done w" "chans w = without ?X ?Y p (chans w1)" "mem w = mem w1" "pptr w = pptr w1" "same_sched w1 w"
      using alt_tail [OF _ a refl refl] by blast
    have qs: "same_queues (chans v) (chans w)"
      using unmark_queues [OF v, of "{}" "{}" p ?X ?Y "chans w1"] ck w(2) by (simp add: w1_def same_queues_def)
    have oth: "d \<noteq> c \<Longrightarrow> buf_ok (chans w d) = buf_ok (chans v d) \<and> CANGET (chans w d) = CANGET (chans v d) \<and> CANPUT (chans w d) = CANPUT (chans v d)" for d
      by (simp add: w(2) w1_def without_def)
    have "receivers v c = []"
      using \<open>CANGET (chans v c)\<close> chinvD(2) [OF v(1), of c] by (auto simp: chan_ok_def)
    moreover have "buf_ok (chans w c)"
      using ck by (simp add: w(2) w1_def without_def)
    ultimately have "chinv w"
      by (intro buffer_inv [OF v(1) Nil _ qs _ oth]) (use w in \<open>simp_all add: same_sched_def w1_def\<close>)
    moreover have "received d c v w"
      using Nil ck w by (simp add: received_def w1_def same_sched_def)
    ultimately show ?thesis
      using e w(1) by blast
  qed
qed

section \<open>The alt instruction\<close>

lemma store_index_fields [simp]:
  "chans (store_index ix v) = chans v" "state (store_index ix v) = state v" "runq (store_index ix v) = runq v" "pchan (store_index ix v) = pchan v"
  "pRs (store_index ix v) = pRs v" "pptr (store_index ix v) = pptr v" "mem (store_index ix v) = put_index ix (mem v)"
  by (auto simp: store_index_def put_index_def split: option.splits)

lemma store_marks: "store l x (with_marks a p v) = with_marks a p (store l x v)" "store_index ix (with_marks a p v) = with_marks a p (store_index ix v)"
  by (auto simp: store_index_def with_marks_def store_def split: option.splits)

lemma chinv_store: "chinv v \<Longrightarrow> chinv (store l x v)" "chinv v \<Longrightarrow> chinv (store_index ix v)"
  by (erule chinv_mem; simp)+

lemma chinv_rand: "chinv (v\<lparr>xrand := x\<rparr>) = chinv v" "with_marks a p v\<lparr>xrand := x\<rparr> = with_marks a p (v\<lparr>xrand := x\<rparr>)" "chinv (v\<lparr>rt := t\<rparr>) = chinv v"
  by (auto simp: with_marks_def elim: chinv_mem)

text \<open>An alt that communicates does so on one of its entries that is ready, and leaves the number of the entry.\<close>

definition alt_sent :: "Alt \<Rightarrow> loc \<Rightarrow> vm \<Rightarrow> vm \<Rightarrow> bool" where
  "alt_sent a d v w \<longleftrightarrow> (\<exists>i c. i < length (asends a) \<and> ac_c (asends a ! i) = Chan c \<and> send_ready v c
     \<and> sent (ac_ptr (asends a ! i)) c (store d (int i) v) w)"

definition alt_received :: "Alt \<Rightarrow> loc \<Rightarrow> vm \<Rightarrow> vm \<Rightarrow> bool" where
  "alt_received a d v w \<longleftrightarrow> (\<exists>i c l ix. i < length (arecvs a) \<and> lands (arecvs a ! i) c l ix \<and> recv_ready v c
     \<and> received l c (store_index ix (store d (int (nsend a + i)) v)) w)"

lemma chs_in: "i < length as \<Longrightarrow> c \<in> set (entry_chans (as ! i)) \<Longrightarrow> c \<in> set (chs as)"
  by (auto simp: chs_def)

lemma lands_in: "lands x c l ix \<Longrightarrow> c \<in> set (entry_chans x)"
  by (auto simp: lands_def entry_chans_def set_somes) (metis nth_mem)

lemma altcomm_ok:
  assumes v: "chinv v" "state v p = Pready" and a: "alt_ok a" "\<not> nils (asends a)" "\<not> nils (arecvs a)" and wh: "which < nready a v"
  shows "\<exists>w. andthen (altcomm a which d (with_marks a p v)) (altdone a p None (-1)) = Done w \<and> chinv w \<and> (alt_sent a d v w \<or> alt_received a d v w)"
proof -
  let ?u = "with_marks a p v"
  have f: "forms (chans ?u)"
    using queues_forms [OF chinvD(1) [OF v(1)]] by (simp add: forms_marked)
  have d: "set (schans a) \<inter> set (rchans a) = {}" "no_arr (asends a)"
    using a(1) by (auto simp: alt_ok_def)
  have sr: "c \<in> set (schans a) \<Longrightarrow> send_ready ?u c = send_ready v c" "c \<in> set (rchans a) \<Longrightarrow> recv_ready ?u c = recv_ready v c" for c
    using d(1) by (auto simp: with_marks_def intro!: ready_marked)
  have fs: "filter (send_ready ?u) (schans a) = filter (send_ready v) (schans a)" "filter (recv_ready ?u) (rchans a) = filter (recv_ready v) (rchans a)"
    using sr by (auto intro!: filter_cong)
  let ?k = "length (filter (send_ready v) (schans a))"
  show ?thesis
  proof (cases "which < ?k")
    case True
    then obtain i c where i: "i < length (asends a)" "ac_c (asends a ! i) = Chan c" "send_ready ?u c"
      "comm_sends (asends a) 0 which d ?u = andthen (isend (ac_ptr (asends a ! i)) (Some c) (store d (int (0 + i)) ?u)) (\<lambda>v. Done (Inl v))"
      using comm_sends_ok [OF f d(2) a(2), of which 0 d] fs(1) by (auto split: if_splits)
    have c: "c \<in> set (schans a)"
      using chs_in [OF i(1), of c] i(2) by (simp add: entry_chans_def)
    let ?v = "store d (int i) v"
    have "send_ready ?v c" "state ?v p = Pready"
      using sr(1) [OF c] i(3) v(2) by (simp_all add: send_ready_def)
    then obtain w1 w where w: "isend (ac_ptr (asends a ! i)) (Some c) (with_marks a p ?v) = Done w1" "altdone a p None (-1) w1 = Done w" "chinv w"
        "sent (ac_ptr (asends a ! i)) c ?v w"
      using alt_send [OF chinv_store(1) [OF v(1)] _ a(1) c] by blast
    then show ?thesis
      using i sr(1) [OF c] unfolding altcomm_def alt_sent_def by (auto simp: store_marks)
  next
    case False
    have cs: "comm_sends (asends a) 0 which d ?u = Done (Inr (which - ?k))"
      using comm_sends_ok [OF f d(2) a(2), of which 0 d] fs(1) False by simp
    have "which - ?k < length (filter (recv_ready ?u) (rchans a))"
      using wh False fs(2) by (simp add: nready_def)
    then have "chosen (arecvs a) (nsend a) d ?u (comm_recvs (arecvs a) (nsend a) (which - ?k) d ?u)"
      using comm_recvs_ok [OF f a(3), of "which - ?k" "nsend a" d] by simp
    then obtain i c l ix where i: "i < length (arecvs a)" "lands (arecvs a ! i) c l ix" "recv_ready ?u c"
      "comm_recvs (arecvs a) (nsend a) (which - ?k) d ?u = andthen (irecv (Some c) l (store_index ix (store d (int (nsend a + i)) ?u))) (\<lambda>v. Done (Inl v))"
      by (auto simp: chosen_def)
    have c: "c \<in> set (rchans a)"
      using chs_in [OF i(1) lands_in [OF i(2)]] .
    let ?v = "store_index ix (store d (int (nsend a + i)) v)"
    have "recv_ready ?v c" "state ?v p = Pready"
      using sr(2) [OF c] i(3) v(2) by (simp_all add: recv_ready_def)
    then obtain w1 w where w: "irecv (Some c) l (with_marks a p ?v) = Done w1" "altdone a p None (-1) w1 = Done w" "chinv w" "received l c ?v w"
      using alt_recv [OF chinv_store(2) [OF chinv_store(1) [OF v(1)]] _ a(1) c] by blast
    then show ?thesis
      using i sr(2) [OF c] cs unfolding altcomm_def alt_received_def by (auto simp: store_marks)
  qed
qed

lemma ready_rand: "send_ready (v\<lparr>xrand := x\<rparr>) = send_ready v" "recv_ready (v\<lparr>xrand := x\<rparr>) = recv_ready v"
  by (simp_all add: fun_eq_iff send_ready_def recv_ready_def)

lemma xecalt_ok:
  assumes v: "chinv v" "runq v = p # r" and a: "alt_ok a" "\<not> nils (asends a)" "\<not> nils (arecvs a)"
  shows "\<exists>w. xecalt block a d v = Done w \<and> chinv w
     \<and> (if nready a v > 0 then \<exists>x. alt_sent a d (v\<lparr>xrand := x\<rparr>) w \<or> alt_received a d (v\<lparr>xrand := x\<rparr>) w
        else if block then state w = (state v)(p := Palt) \<and> runq w = r \<and> chans w = marked (set (schans a)) (set (rchans a)) p (chans v) \<and> mem w = mem v
          \<and> pRs w p = a \<and> pRd w p = d
        else w = store d (int (nsend a + nrecv a)) v)"
proof -
  have p: "state v p = Pready"
    using v chinvD(5) [OF v(1)] by auto
  have rd: "altrdy a p v = Done (nready a v, with_marks a p v)"
    using altrdy_ok [OF v(1) p a(1)] a by simp
  consider (comm) "nready a v > 0" | (wait) "nready a v = 0" block | (none) "nready a v = 0" "\<not> block"
    by blast
  then show ?thesis
  proof cases
    case comm
    define x where "x = xrand v * 1103515245 + 12345"
    have "nready a (v\<lparr>xrand := x\<rparr>) = nready a v"
      by (simp add: nready_def ready_rand)
    then have "unat (drop_bit 8 x) mod nready a v < nready a (v\<lparr>xrand := x\<rparr>)"
      using comm by simp
    then obtain w where w: "andthen (altcomm a (unat (drop_bit 8 x) mod nready a v) d (with_marks a p (v\<lparr>xrand := x\<rparr>))) (altdone a p None (-1)) = Done w" "chinv w"
        "alt_sent a d (v\<lparr>xrand := x\<rparr>) w \<or> alt_received a d (v\<lparr>xrand := x\<rparr>) w"
      using altcomm_ok [of "v\<lparr>xrand := x\<rparr>" p a] v(1) p a by (auto simp: chinv_rand)
    have "xrand (with_marks a p v) = xrand v"
      by (simp add: with_marks_def)
    then have "xecalt block a d v = Done w"
      using comm w(1) v(2) rd by (simp add: xecalt_def x_def chinv_rand(2))
    then show ?thesis
      using w comm by auto
  next
    case wait
    define w where "w = (with_marks a p v)\<lparr>state := (state v)(p := Palt), runq := r, pRs := (pRs v)(p := a), pRd := (pRd v)(p := d), rt := True\<rparr>"
    have e: "xecalt block a d v = Done w"
      using wait v(2) rd by (simp add: xecalt_def delrun_def w_def)
    have nr: "c \<in> set (schans a) \<Longrightarrow> \<not> send_ready v c" "c \<in> set (rchans a) \<Longrightarrow> \<not> recv_ready v c" for c
      using wait(1) by (auto simp: nready_def filter_empty_conv)
    have wf: "chans w = marked (set (schans a)) (set (rchans a)) p (chans v)" "state w = (state v)(p := Palt)" "runq w = r"
      by (simp_all add: w_def)
    have "chinv w"
      by (rule wait_inv [OF v wf]) (use a(1) nr in \<open>auto simp: w_def waits_send_def waits_recv_def prog_ok_def alt_ok_def send_ready_def recv_ready_def\<close>)
    then show ?thesis
      using e wf wait by (auto simp: w_def)
  next
    case none
    have "altdone a p None (-1) (with_marks a p (store d (int (nsend a + nrecv a)) v)) = Done (store d (int (nsend a + nrecv a)) v)"
      using altdone_marks [OF chinv_store(1) [OF v(1)] _ a(1)] p by simp
    then show ?thesis
      using none v(2) rd chinv_store(1) [OF v(1)] by (simp add: xecalt_def store_marks)
  qed
qed

lemma xecalt_nil:
  assumes "chinv v" "runq v = p # r" "alt_ok a" "nils (asends a) \<or> nils (arecvs a)"
  shows "xecalt block a d v = Raise exNilref v"
proof -
  have "state v p = Pready"
    using assms(2) chinvD(5) [OF assms(1)] by auto
  then show ?thesis
    using altrdy_ok [OF assms(1) _ assms(3)] assms(2,4) by (auto simp: xecalt_def)
qed

section \<open>Leaving a wait\<close>

lemma unwait_ok:
  assumes v: "chinv v"
  shows "\<exists>w. unwait p v = Done w \<and> chans w = without (waits_send v p) (waits_recv v p) p (chans v) \<and> mem w = mem v \<and> pptr w = pptr v \<and> same_sched v w"
proof (cases "state v p")
  case Palt
  then show ?thesis
    using alt_tail [OF chinvD(1) [OF v], of "pRs v p"] chinvD(3) [OF v, of p] by (simp add: unwait_def prog_ok_def waits_send_def waits_recv_def)
next
  case Psend
  then obtain c where c: "pchan v p = Some c"
    using chinvD(3) [OF v, of p] by (auto simp: prog_ok_def)
  have "cqdelp (sendq (chans v c)) p = Done (mkq (filter (\<lambda>x. x \<noteq> p) (senders v c)))"
    using queues_okD [OF chinvD(1) [OF v], of c] cqdelp_mkq by metis
  then show ?thesis
    using Psend c by (auto simp: unwait_def waits_send_def waits_recv_def without_def fun_eq_iff)
next
  case Precv
  then obtain c where c: "pchan v p = Some c"
    using chinvD(3) [OF v, of p] by (auto simp: prog_ok_def)
  have "cqdelp (recvq (chans v c)) p = Done (mkq (filter (\<lambda>x. x \<noteq> p) (receivers v c)))"
    using queues_okD [OF chinvD(1) [OF v], of c] cqdelp_mkq by metis
  then show ?thesis
    using Precv c by (auto simp: unwait_def waits_send_def waits_recv_def without_def fun_eq_iff)
qed (simp_all add: unwait_def waits_send_def waits_recv_def)

lemma exprog_inv:
  assumes v: "chinv v"
  shows "\<exists>w. exprog p v = Done w \<and> chinv w"
proof (cases "state v p = Palt \<or> state v p = Psend \<or> state v p = Precv")
  case True
  obtain w where w: "unwait p v = Done w" "chans w = without (waits_send v p) (waits_recv v p) p (chans v)" "mem w = mem v" "pptr w = pptr v" "same_sched v w"
    using unwait_ok [OF v] by blast
  have "exprog p v = Done (addrun p w)"
    using True w(1,5) by (auto simp: exprog_def same_sched_def)
  moreover have "chinv (addrun p w)"
    by (rule wake_inv [OF v True]) (use w in \<open>auto simp: addrun_def same_sched_def room_without\<close>)
  ultimately show ?thesis
    by blast
next
  case False
  then show ?thesis
    using v by (cases "state v p") (simp_all add: exprog_def unwait_def)
qed

section \<open>Sends by the system, new channels\<close>

lemma csendalt_inv:
  assumes v: "chinv v" "senders v c = []" and len: "0 < len"
  shows "\<exists>b w. csendalt (Some c) ip len v = Done (b, w) \<and> chinv w \<and> (b \<longrightarrow> sent ip c v w) \<and> (\<not> b \<longrightarrow> w = v)"
proof -
  let ?ch = "chans v c" and ?u = "setchan c (\<lambda>ch. ch\<lparr>cbuf := Some (replicate (nat len) 0)\<rparr>) v"
  have co: "buf_ok ?ch" and h: "qprog (recvq ?ch) = Done (case receivers v c of [] \<Rightarrow> None | q # _ \<Rightarrow> Some q)"
    using chinvD(2) [OF v(1), of c] by (simp add: chan_ok_def) (subst queues_okD(2) [OF chinvD(1) [OF v(1)]], simp)
  have rt: "sent ip c u (w\<lparr>rt := t\<rparr>) = sent ip c u w" for u w t
    by (simp add: sent_def cong: list.case_cong)
  consider (send) "send_ready v c" | (full) "receivers v c = []" "\<not> CANPUT ?ch" "cbuf ?ch \<noteq> None" | (none) "receivers v c = []" "cbuf ?ch = None"
    by (auto simp: send_ready_def)
  then show ?thesis
  proof cases
    case send
    then obtain w where "isend ip (Some c) v = Done w" "chinv w" "sent ip c v w"
      using isend_sent [OF v(1)] by blast
    then show ?thesis
      using send h co rt by (auto simp: csendalt_def send_ready_def CANPUT_def buf_ok_def chinv_rand split: list.splits option.splits)
  next
    case full
    then have "csize ?ch = length (the (cbuf ?ch))"
      using co by (auto simp: CANPUT_def buf_ok_def)
    then have "csendalt (Some c) ip len v = Done (False, v)"
      using full h by (auto simp: csendalt_def)
    then show ?thesis
      using v(1) by blast
  next
    case none
    have b: "buf_ok (chans ?u c)" "CANPUT (chans ?u c)" "bufvals (chans ?u c) = bufvals ?ch"
      using co none len by (simp_all add: buf_ok_def CANPUT_def bufvals_def)
    have "chinv ?u"
      by (rule buffer_inv [OF v none(1)]) (use b in \<open>simp_all add: same_queues_def\<close>)
    then obtain w where w: "isend ip (Some c) ?u = Done w" "chinv w" "sent ip c ?u w"
      using isend_sent [of ?u c] b(2) by (auto simp: send_ready_def)
    have "sent ip c v w"
      using w(3) none b(3) by (simp add: sent_def)
    then show ?thesis
      using w none h rt len by (auto simp: csendalt_def chinv_rand)
  qed
qed

lemma newc_inv:
  assumes v: "chinv v" "senders v c = []" "receivers v c = []"
  shows "chinv (setchan c (\<lambda>_. cnewc n) v)"
proof -
  have q: "same_queues (chans v) (chans (setchan c (\<lambda>_. cnewc n) v))"
    using queues_okD(1,2) [OF chinvD(1) [OF v(1)], of c] v(2,3) by (simp add: same_queues_def cnewc_def mkq_def)
  show ?thesis
    by (rule buffer_inv [OF v q]) (simp_all add: cnewc_def buf_ok_def)
qed

section \<open>The system of progs\<close>

definition idle :: "pstate \<Rightarrow> bool" where
  "idle st \<longleftrightarrow> st \<noteq> Palt \<and> st \<noteq> Psend \<and> st \<noteq> Precv"

text \<open>What \<open>vmachine\<close> does after a prog has run for its quanta: it goes to the end of the run queue.\<close>

definition rotate_run :: "vm \<Rightarrow> vm" where
  "rotate_run v = (case runq v of p # q # r \<Rightarrow> v\<lparr>runq := q # r @ [p]\<rparr> | _ \<Rightarrow> v)"

lemma idle_inv:
  assumes v: "chinv v" "idle (state v p)" and w: "chans w = chans v" "state w = (state v)(p := st)" "idle st" "pchan w = pchan v" "pRs w = pRs v" "pptr w = pptr v"
    and r: "distinct (runq w)" "set (runq w) = {q. state w q = Pready}"
  shows "chinv w"
proof -
  have "waits_send w q = waits_send v q \<and> waits_recv w q = waits_recv v q \<and> prog_ok w q" for q
  proof (cases "q = p")
    case True
    then show ?thesis
      using v(2) w(2,3) by (cases "state v p"; cases st) (simp_all add: waits_send_def waits_recv_def prog_ok_def idle_def)
  next
    case False
    then show ?thesis
      using chinvD(3) [OF v(1), of q] w by (cases "state v q") (simp_all add: waits_send_def waits_recv_def prog_ok_def)
  qed
  then show ?thesis
    using v(1) w(1) r unfolding chinv_def queues_ok_def chan_ok_def by auto
qed

inductive cstep :: "vm \<Rightarrow> vm \<Rightarrow> bool" where
  send: "runq v \<noteq> [] \<Longrightarrow> isend s d v = Done w \<Longrightarrow> cstep v w"
| recv: "runq v \<noteq> [] \<Longrightarrow> irecv s d v = Done w \<Longrightarrow> cstep v w"
| alt: "runq v \<noteq> [] \<Longrightarrow> alt_ok a \<Longrightarrow> alt a d v = Done w \<Longrightarrow> cstep v w"
| nbalt: "runq v \<noteq> [] \<Longrightarrow> alt_ok a \<Longrightarrow> nbalt a d v = Done w \<Longrightarrow> cstep v w"
| newchan: "senders v c = [] \<Longrightarrow> receivers v c = [] \<Longrightarrow> newc c n v = Done w \<Longrightarrow> cstep v w"
| system: "senders v c = [] \<Longrightarrow> 0 < len \<Longrightarrow> csendalt (Some c) ip len v = Done (b, w) \<Longrightarrow> cstep v w"
| assign: "cstep v (store l x v)"
| rotate: "cstep v (rotate_run v)"
| exc: "exprog p v = Done w \<Longrightarrow> cstep v w"
| stop: "st \<in> {Pdebug, Prelease, Pexiting, Pbroken} \<Longrightarrow> delrun st v = Done (p, w) \<Longrightarrow> cstep v w"
| start: "state v p \<in> {Pdebug, Prelease, Pexiting, Pbroken} \<Longrightarrow> cstep v (addrun p v)"

inductive_cases cstepE: "cstep v w"

definition cinit :: "vm \<Rightarrow> bool" where
  "cinit v \<longleftrightarrow> (\<forall>c. \<exists>n. chans v c = cnewc n) \<and> (\<forall>p. idle (state v p)) \<and> distinct (runq v) \<and> set (runq v) = {p. state v p = Pready}"

lemma cinit_inv: "cinit v \<Longrightarrow> chinv v"
proof -
  assume i: "cinit v"
  have new: "sendq (cnewc n) = mkq []" "recvq (cnewc n) = mkq []" "buf_ok (cnewc n)" for n
    by (simp_all add: cnewc_def buf_ok_def mkq_def)
  have c: "sendq (chans v c) = mkq []" "recvq (chans v c) = mkq []" "buf_ok (chans v c)" for c
    using i new unfolding cinit_def by metis+
  have "waits_send v p = {} \<and> waits_recv v p = {} \<and> prog_ok v p" for p
    using i by (cases "state v p") (auto simp: cinit_def idle_def waits_send_def waits_recv_def prog_ok_def dest: spec [of _ p])
  then show ?thesis
    using i c by (auto simp: chinv_def queues_ok_def chan_ok_def cinit_def)
qed

text \<open>The operations never follow a null pointer, and an exception leaves the state as it was.\<close>

definition sound :: "vm \<Rightarrow> vm cres \<Rightarrow> bool" where
  "sound v r \<longleftrightarrow> (case r of Done w \<Rightarrow> chinv w | Raise e w \<Rightarrow> w = v | Crash \<Rightarrow> False)"

lemma isend_sound:
  assumes "chinv v" "runq v \<noteq> []"
  shows "sound v (isend s d v)"
proof (cases d)
  case (Some c)
  obtain p r where "runq v = p # r"
    using assms(2) by (cases "runq v") auto
  then show ?thesis
    using isend_sent [OF assms(1), of c s] isend_waits [OF assms(1), of p r c s] Some by (cases "send_ready v c") (auto simp: sound_def)
qed (simp add: isend_def sound_def)

lemma irecv_sound:
  assumes "chinv v" "runq v \<noteq> []"
  shows "sound v (irecv s d v)"
proof (cases s)
  case (Some c)
  obtain p r where "runq v = p # r"
    using assms(2) by (cases "runq v") auto
  then show ?thesis
    using irecv_received [OF assms(1), of c d] irecv_waits [OF assms(1), of p r c d] Some by (cases "recv_ready v c") (auto simp: sound_def)
qed (simp add: irecv_def sound_def)

lemma xecalt_sound:
  assumes "chinv v" "runq v \<noteq> []" "alt_ok a"
  shows "sound v (xecalt block a d v)"
proof -
  obtain p r where r: "runq v = p # r"
    using assms(2) by (cases "runq v") auto
  show ?thesis
  proof (cases "nils (asends a) \<or> nils (arecvs a)")
    case True
    then show ?thesis
      using xecalt_nil [OF assms(1) r assms(3)] by (simp add: sound_def)
  next
    case False
    then obtain w where "xecalt block a d v = Done w" "chinv w"
      using xecalt_ok [OF assms(1) r assms(3)] by blast
    then show ?thesis
      by (simp add: sound_def)
  qed
qed

lemma rotate_inv:
  assumes v: "chinv v"
  shows "chinv (rotate_run v)"
proof (cases "runq v")
  case (Cons p r)
  then have "state v p = Pready"
    using chinvD(5) [OF v] by auto
  then have "idle (state v p)"
    by (simp add: idle_def)
  then show ?thesis
    using chinvD(4,5) [OF v] Cons by (cases r) (auto simp: rotate_run_def v intro!: idle_inv [OF v, where st = "state v p"])
qed (simp add: rotate_run_def v)

lemma cstep_inv:
  assumes v: "chinv v" and s: "cstep v w"
  shows "chinv w"
  using s
proof cases
  case (send s d)
  then show ?thesis
    using isend_sound [OF v, of s d] by (simp add: sound_def)
next
  case (recv s d)
  then show ?thesis
    using irecv_sound [OF v, of s d] by (simp add: sound_def)
next
  case (alt a d)
  then show ?thesis
    using xecalt_sound [of "v\<lparr>rt := False\<rparr>" a True d] v by (simp add: sound_def alt_def chinv_rand)
next
  case (nbalt a d)
  then show ?thesis
    using xecalt_sound [OF v, of a False d] by (simp add: sound_def nbalt_def)
next
  case (newchan c n)
  then show ?thesis
    using newc_inv [OF v, of c] by (auto simp: newc_def split: option.splits if_splits)
next
  case (system c len ip b)
  then show ?thesis
    using csendalt_inv [OF v, of c len ip] by auto
next
  case (assign l x)
  then show ?thesis
    using chinv_store(1) [OF v] by simp
next
  case rotate
  then show ?thesis
    using rotate_inv [OF v] by simp
next
  case (exc p)
  then show ?thesis
    using exprog_inv [OF v, of p] by auto
next
  case (stop st p)
  then obtain r where "runq v = p # r" "w = v\<lparr>state := (state v)(p := st), runq := r\<rparr>"
    by (auto simp: delrun_def split: list.splits)
  note w = this
  have p: "state v p = Pready" "distinct (p # r)" "set (p # r) = {q. state v q = Pready}"
    using chinvD(4,5) [OF v] w(1) by auto
  have "set r = {q. state v q = Pready} - {p}"
    using p(2,3) by auto
  then have "set (runq w) = {q. state w q = Pready}"
    using w(2) stop(1) by auto
  then show ?thesis
    using w(2) stop(1) p(1,2) by (intro idle_inv [OF v, of p w st]) (auto simp: idle_def)
next
  case (start p)
  have "p \<notin> set (runq v)"
    using start chinvD(5) [OF v] by auto
  moreover have "set (runq w) = {q. state w q = Pready}"
    using start(1) chinvD(5) [OF v] by (auto simp: addrun_def)
  ultimately show ?thesis
    using chinvD(4) [OF v] start by (intro idle_inv [OF v, of p w Pready]) (auto simp: idle_def addrun_def)
qed

interpretation chan_sys: step_system cinit cstep chinv
  by unfold_locales (auto intro: cinit_inv cstep_inv)

section \<open>What the channels guarantee\<close>

text \<open>
  Claim C15 (invariant).  In every state that the steps of \<open>cstep\<close> reach, the queues of a channel hold exactly the progs that wait on it, each
  once; never a sender and a receiver together; a receiver only while the buffer is empty and a sender only while it is
  full or there is none; and the run queue holds exactly the progs that are ready.  So no prog waits while the other end of its
  communication is there.  The steps are sends, receives, alts that name each channel once and whose arrays of channels are not assigned while they wait,
  new channels, assignments, exceptions, changes of the run queue, and sends by the system with a positive length to a channel on which no prog waits
  to send; outside these the code breaks the invariant (\<open>csendalt_overtakes\<close>, \<open>alt_self_receive\<close>).
\<close>

theorem channel_invariant:
  assumes "cinit v0" "cstep\<^sup>*\<^sup>* v0 v"
  shows "set (senders v c) = {p. c \<in> waits_send v p} \<and> set (receivers v c) = {p. c \<in> waits_recv v p}
    \<and> distinct (senders v c) \<and> distinct (receivers v c) \<and> (senders v c = [] \<or> receivers v c = [])
    \<and> (receivers v c \<noteq> [] \<longrightarrow> bufvals (chans v c) = [])
    \<and> (senders v c \<noteq> [] \<longrightarrow> length (bufvals (chans v c)) = (case cbuf (chans v c) of None \<Rightarrow> 0 | Some b \<Rightarrow> length b))
    \<and> distinct (runq v) \<and> set (runq v) = {p. state v p = Pready}"
proof -
  have v: "chinv v"
    using assms by (rule chan_sys.reachable_inv)
  note c = chinvD(2) [OF v, of c, unfolded chan_ok_def]
  have "receivers v c \<noteq> [] \<longrightarrow> bufvals (chans v c) = []"
    using c by (auto simp: bufvals_def CANGET_def split: option.splits)
  moreover have "senders v c \<noteq> [] \<longrightarrow> length (bufvals (chans v c)) = (case cbuf (chans v c) of None \<Rightarrow> 0 | Some b \<Rightarrow> length b)"
    using c by (auto simp: bufvals_def CANPUT_def buf_ok_def split: option.splits)
  ultimately show ?thesis
    using c queues_okD(3,4) [OF chinvD(1) [OF v], of c] chinvD(4,5) [OF v] by blast
qed

definition demo :: vm where
  "demo = \<lparr>chans = \<lambda>c. cnewc (if c = 1 then 1 else 0), mem = \<lambda>l. int l, runq = [0, 1], state = \<lambda>p. if p < 2 then Pready else Pexiting,
     pptr = \<lambda>_. None, pchan = \<lambda>_. None, pRs = \<lambda>_. \<lparr>nsend = 0, nrecv = 0, ac = []\<rparr>, pRd = \<lambda>_. 0, rt = False, xrand = 0x20342\<rparr>"

definition demo_sent :: vm where
  "demo_sent = (case isend 5 (Some 0) demo of Done w \<Rightarrow> w | _ \<Rightarrow> demo)"

lemma demo_init: "cinit demo"
  by (auto simp: cinit_def demo_def idle_def)

lemmas chan_eval = qprog_def cnewc_def add_recv_def add_send_def cqadd_def cqdelp_def CANGET_def CANPUT_def setchan_def store_def setptr_def
  cputb_def cgetb_def chwait_def delrun_def isend_def irecv_def rotate_run_def progs_def demo_def

lemma demo_steps: "isend 5 (Some 0) demo = Done demo_sent" "senders demo_sent 0 = [0]" "runq demo_sent = [1]" "cbuf (chans demo_sent 0) = None"
  by (simp_all add: demo_sent_def chan_eval)

theorem channel_invariant_witness:
  "cinit demo \<and> cstep\<^sup>*\<^sup>* demo demo_sent \<and> set (senders demo_sent 0) = {p. 0 \<in> waits_send demo_sent p} \<and> set (runq demo_sent) = {p. state demo_sent p = Pready}"
proof -
  have "cstep demo demo_sent"
    by (rule cstep.send [OF _ demo_steps(1)]) (simp add: demo_def)
  then show ?thesis
    using demo_init channel_invariant [OF demo_init, of demo_sent] by auto
qed

text \<open>
  Claim C18 (safety).  In every state that the steps of \<open>cstep\<close> reach, in which all alts name each channel once, a send, a receive, an alt whose entries name different channels and an
  exception for another prog never follow a null pointer; if they raise an exception of their own the state is as it was.
\<close>

theorem channel_no_crash:
  assumes "cinit v0" "cstep\<^sup>*\<^sup>* v0 v" "runq v \<noteq> []" "alt_ok a"
  shows "isend s d v \<noteq> Crash \<and> (\<forall>e w. isend s d v = Raise e w \<longrightarrow> w = v)
    \<and> irecv c l v \<noteq> Crash \<and> (\<forall>e w. irecv c l v = Raise e w \<longrightarrow> w = v)
    \<and> xecalt block a l v \<noteq> Crash \<and> (\<forall>e w. xecalt block a l v = Raise e w \<longrightarrow> w = v)
    \<and> (\<exists>w. exprog p v = Done w)"
proof -
  have v: "chinv v"
    using assms(1,2) by (rule chan_sys.reachable_inv)
  have s: "sound v r \<Longrightarrow> r \<noteq> Crash \<and> (\<forall>e w. r = Raise e w \<longrightarrow> w = v)" for r
    by (auto simp: sound_def)
  show ?thesis
    using s [OF isend_sound [OF v assms(3), of s d]] s [OF irecv_sound [OF v assms(3), of c l]] s [OF xecalt_sound [OF v assms(3,4), of block l]] exprog_inv [OF v, of p]
    by blast
qed

definition demo_alt :: Alt where
  "demo_alt = \<lparr>nsend = 1, nrecv = 1, ac = [\<lparr>ac_c = Chan 1, ac_ptr = 7\<rparr>, \<lparr>ac_c = Arr [None, Some 2], ac_ptr = 8\<rparr>]\<rparr>"

lemma demo_alt_ok: "alt_ok demo_alt" "\<not> nils (asends demo_alt)" "\<not> nils (arecvs demo_alt)"
  by (simp_all add: demo_alt_def alt_ok_def asends_def arecvs_def no_arr_def is_arr_def chs_def entry_chans_def somes_def nils_def)

theorem channel_no_crash_witness:
  "cinit demo \<and> cstep\<^sup>*\<^sup>* demo demo \<and> runq demo \<noteq> [] \<and> alt_ok demo_alt \<and> isend 5 (Some 0) demo \<noteq> Crash \<and> irecv (Some 0) 5 demo \<noteq> Crash
    \<and> xecalt True demo_alt 9 demo \<noteq> Crash \<and> (\<exists>w. exprog 1 demo = Done w)"
proof -
  have r: "runq demo \<noteq> []"
    by (simp add: demo_def)
  show ?thesis
    using channel_no_crash [OF demo_init rtranclp.rtrancl_refl r demo_alt_ok(1)] demo_init r demo_alt_ok(1) by auto
qed

text \<open>
  Claim C17 (functional).  A send on a channel where a receiver waits or the buffer has room completes: the first receiver gets the
  value where it asked for it and becomes ready, or the value is the last of the buffer.  A receive where a sender waits or the
  buffer holds a value completes: the value is that of the first sender, or the first of the buffer, the value of the first
  sender being the last one then.  Otherwise the prog that runs leaves the run queue and waits at the end of the queue.
\<close>

theorem send_recv_correct:
  assumes v: "chinv v" "runq v = p # r"
  shows "(\<exists>w. isend s (Some c) v = Done w \<and> chinv w \<and>
      (if send_ready v c then sent s c v w
       else mem w = mem v \<and> runq w = r \<and> state w = (state v)(p := Psend) \<and> senders w c = senders v c @ [p] \<and> pptr w p = Some s))
    \<and> (\<exists>w. irecv (Some c) d v = Done w \<and> chinv w \<and>
      (if recv_ready v c then received d c v w
       else mem w = mem v \<and> runq w = r \<and> state w = (state v)(p := Precv) \<and> receivers w c = receivers v c @ [p] \<and> pptr w p = Some d))"
proof -
  have "\<exists>w. isend s (Some c) v = Done w \<and> chinv w \<and> mem w = mem v \<and> runq w = r \<and> state w = (state v)(p := Psend) \<and> senders w c = senders v c @ [p]
      \<and> pptr w p = Some s" if "\<not> send_ready v c"
    using isend_waits [OF v that, of s] by (fastforce simp: marked_def)
  moreover have "\<exists>w. irecv (Some c) d v = Done w \<and> chinv w \<and> mem w = mem v \<and> runq w = r \<and> state w = (state v)(p := Precv)
      \<and> receivers w c = receivers v c @ [p] \<and> pptr w p = Some d" if "\<not> recv_ready v c"
    using irecv_waits [OF v that, of d] by (fastforce simp: marked_def)
  ultimately show ?thesis
    using isend_sent [OF v(1), of c s] irecv_received [OF v(1), of c d] by (cases "send_ready v c"; cases "recv_ready v c") simp_all
qed

theorem send_recv_correct_witness:
  "chinv demo \<and> runq demo = [0, 1] \<and> send_ready demo 1 \<and> \<not> send_ready demo 0 \<and> \<not> recv_ready demo 0 \<and> recv_ready demo_sent 0
    \<and> (\<exists>w. isend 5 (Some 1) demo = Done w \<and> sent 5 1 demo w) \<and> (\<exists>w. isend 5 (Some 0) demo = Done w \<and> senders w 0 = [0])
    \<and> (\<exists>w. irecv (Some 0) 6 demo = Done w \<and> receivers w 0 = [0]) \<and> (\<exists>w. irecv (Some 0) 6 demo_sent = Done w \<and> received 6 0 demo_sent w)"
proof -
  have i: "chinv demo" "runq demo = [0, 1]"
    using cinit_inv [OF demo_init] by (simp_all add: demo_def)
  have r: "send_ready demo 1" "\<not> send_ready demo 0" "\<not> recv_ready demo 0" "recv_ready demo_sent 0" "senders demo 0 = []" "receivers demo 0 = []"
    using demo_steps(2) by (simp_all add: send_ready_def recv_ready_def CANPUT_def CANGET_def demo_def cnewc_def progs_def)
  have s: "chinv demo_sent" "runq demo_sent = [1]"
    using isend_sound [OF i(1), of 5 "Some 0"] i(2) demo_steps(1,3) by (simp_all add: sound_def)
  show ?thesis
    using send_recv_correct [OF i, of 5 1 6] send_recv_correct [OF i, of 5 0 6] send_recv_correct [OF s, of 5 0 6] i r by auto
qed

text \<open>
  Claim C16 (functional).  An alt whose entries name different channels, none nil, communicates on exactly one of its entries that
  is ready, if there is one, as the send or receive of that entry would, with the number of the entry in the
  destination of the instruction and the index in the array before the value; with none ready it waits on all of its entries or, if it
  does not block, stores the number of entries and changes nothing else.  With a nil entry it raises the exception and changes
  nothing.
\<close>

theorem alt_correct:
  assumes v: "chinv v" "runq v = p # r" and a: "alt_ok a"
  shows "if nils (asends a) \<or> nils (arecvs a) then xecalt block a d v = Raise exNilref v
     else \<exists>w. xecalt block a d v = Done w \<and> chinv w
     \<and> (if nready a v > 0 then \<exists>x. alt_sent a d (v\<lparr>xrand := x\<rparr>) w \<or> alt_received a d (v\<lparr>xrand := x\<rparr>) w
        else if block then state w = (state v)(p := Palt) \<and> runq w = r \<and> chans w = marked (set (schans a)) (set (rchans a)) p (chans v) \<and> mem w = mem v
          \<and> pRs w p = a \<and> pRd w p = d
        else w = store d (int (nsend a + nrecv a)) v)"
  using xecalt_nil [OF v a, of block d] xecalt_ok [OF v a, of block d] by (cases "nils (asends a) \<or> nils (arecvs a)") simp_all

theorem alt_correct_witness:
  "chinv demo \<and> runq demo = [0, 1] \<and> alt_ok demo_alt \<and> \<not> nils (asends demo_alt) \<and> \<not> nils (arecvs demo_alt) \<and> nready demo_alt demo = 1
    \<and> (\<exists>w x. xecalt True demo_alt 9 demo = Done w \<and> (alt_sent demo_alt 9 (demo\<lparr>xrand := x\<rparr>) w \<or> alt_received demo_alt 9 (demo\<lparr>xrand := x\<rparr>) w))
    \<and> (let n = \<lparr>nsend = 1, nrecv = 0, ac = [\<lparr>ac_c = Nilc, ac_ptr = 7\<rparr>]\<rparr> in alt_ok n \<and> nils (asends n) \<and> xecalt True n 9 demo = Raise exNilref demo)"
proof -
  let ?n = "\<lparr>nsend = 1, nrecv = 0, ac = [\<lparr>ac_c = Nilc, ac_ptr = 7\<rparr>]\<rparr>"
  have i: "chinv demo" "runq demo = [0, 1]"
    using cinit_inv [OF demo_init] by (simp_all add: demo_def)
  have n: "nready demo_alt demo = 1"
    by (simp add: nready_def demo_alt_def asends_def arecvs_def chs_def entry_chans_def somes_def send_ready_def recv_ready_def CANPUT_def CANGET_def
        demo_def cnewc_def progs_def)
  have z: "alt_ok ?n" "nils (asends ?n)"
    by (simp_all add: alt_ok_def asends_def arecvs_def no_arr_def is_arr_def chs_def entry_chans_def nils_def)
  show ?thesis
    using alt_correct [OF i z(1), of True 9] alt_correct [OF i demo_alt_ok(1), of True 9] i n z demo_alt_ok by (auto simp: Let_def)
qed

section \<open>Alts that name a channel twice\<close>

text \<open>An alt that receives from one channel in two entries: \<open>altdone\<close> empties the queue and follows the null pointer.\<close>

lemma alt_same_channel_crash:
  "xecalt False \<lparr>nsend = 0, nrecv = 2, ac = [\<lparr>ac_c = Chan 0, ac_ptr = 7\<rparr>, \<lparr>ac_c = Chan 0, ac_ptr = 8\<rparr>]\<rparr> 9 demo = Crash"
  by (simp add: xecalt_def altrdy_def arecvs_def asends_def mark_recv_def altdone_def unq_recv_def chan_eval)

text \<open>
  An alt that sends and receives on one channel is refused with \<open>exAlt\<close> only if its own prog is the first of the receivers.  With
  another prog before it, and another entry ready, it can come to receive from itself, from a null pointer.
\<close>

definition demo_recv :: vm where
  "demo_recv = (case andthen (irecv (Some 0) 6 (rotate_run demo)) (isend 5 (Some 1)) of Done w \<Rightarrow> w | _ \<Rightarrow> demo)"

lemma demo_recv_eq:
  "demo_recv = demo\<lparr>chans := (\<lambda>c. cnewc (if c = 1 then 1 else 0))(0 := (cnewc 0)\<lparr>recvq := [Some 1]\<rparr>, 1 := (cnewc 1)\<lparr>cbuf := Some [5], csize := 1\<rparr>),
     runq := [0], state := (state demo)(1 := Precv), pptr := (pptr demo)(1 := Some 6), pchan := (pchan demo)(1 := Some 0), rt := True\<rparr>"
  by (simp add: demo_recv_def chan_eval fun_eq_iff)

lemma alt_self_receive:
  "xecalt True \<lparr>nsend = 1, nrecv = 2, ac = [\<lparr>ac_c = Chan 0, ac_ptr = 7\<rparr>, \<lparr>ac_c = Chan 0, ac_ptr = 8\<rparr>, \<lparr>ac_c = Chan 1, ac_ptr = 8\<rparr>]\<rparr> 9 demo_recv = Crash"
proof -
  have "568594851247 mod Suc (Suc 0) = 1"
    by (simp flip: numeral_2_eq_2)
  then show ?thesis
    by (simp add: demo_recv_eq xecalt_def altrdy_def arecvs_def asends_def mark_recv_def altcomm_def cqdel_def chan_eval Let_def)
qed

text \<open>A send by the system gives the channel a buffer: its value is received before that of the prog that waits already.\<close>

lemma csendalt_overtakes:
  "\<exists>w. csendalt (Some 0) 3 4 demo_sent = Done (True, w) \<and> senders w 0 = [0] \<and> CANPUT (chans w 0) \<and> bufvals (chans w 0) = [3]"
  by (simp add: csendalt_def demo_sent_def bufvals_def chan_eval Let_def)

text \<open>
  \<open>srvunblock\<close> in \<^verbatim>\<open>src/emu/port/devsrv.c\<close> passes the length -1: if the channel has no buffer and no prog waits for the value, the array is made with
  a negative length.
\<close>

lemma csendalt_negative:
  assumes "chinv v" "receivers v c = []" "cbuf (chans v c) = None" "len < 0"
  shows "csendalt (Some c) ip len v = Crash"
proof -
  have "qprog (recvq (chans v c)) = Done None"
    by (subst queues_okD(2) [OF chinvD(1) [OF assms(1)]]) (simp add: assms(2))
  then show ?thesis
    using assms(3,4) by (simp add: csendalt_def)
qed

text \<open>The length of a new channel is a \<open>WORD\<close> of 64 bits that becomes an \<open>int\<close>: this channel has no buffer.\<close>

lemma newc_truncates: "newc c (Some (2 ^ 32)) v = Done (setchan c (\<lambda>_. cnewc 0) v)"
  by (simp add: newc_def signed_take_bit_def)

end
