(* ===== verification/Dis_Data.thy ===== *)
theory Dis_Data
  imports Dis_Module
begin

text \<open>
  The data section of Dis object files: \<open>disvar\<close> and the routines under it of the compiler (\<^verbatim>\<open>src/limbo/dis.c\<close>), which collect
  neighbouring values of one kind in a cache, and the loop of \<open>parsemod\<close> that reads the section (\<^verbatim>\<open>src/libinterp/load.c\<close>).

  The memory that the loader fills consists of objects, the data of the module (number 0) and the arrays, of which every byte is
  part of a value: \<open>Part x k\<close> is byte \<open>k\<close> of the value \<open>x\<close>.  A real number is the two words that \<open>dtocanon\<close> makes of it, a
  string the bytes that \<open>c2string\<close> is given, an array its number.  A store outside an object is the error \<open>Overrun_data\<close>, an access
  outside the table of types, or to an entry of it that is not set, \<open>Overrun_type\<close>.  Offsets are integers; \<open>startoff\<close> and \<open>lastoff\<close>, which are
  of type \<^verbatim>\<open>int\<close> where offsets are \<^verbatim>\<open>long\<close>, are cut by \<open>cint\<close>.
\<close>

section \<open>The data of a module in memory\<close>

datatype val = Vbyte byte | Vword u64 | Vlong u64 | Vreal u32 u32 | Vstr "byte list" | Vptr nat

fun vwidth :: "val \<Rightarrow> int" where
  "vwidth (Vbyte _) = 1"
| "vwidth _ = 8"

datatype mbyte = Fresh | Part val nat

type_synonym maddr = "nat \<times> int"

record ldata =
  lmem :: "nat \<Rightarrow> int \<Rightarrow> mbyte"
  lobsize :: "nat \<Rightarrow> int"
  larr :: "nat \<Rightarrow> (Type \<times> int) option"
  lnobj :: nat
  laddr :: maddr
  lstack :: "maddr list"

definition poke :: "maddr \<Rightarrow> val \<Rightarrow> ldata \<Rightarrow> load_error + ldata" where
  "poke a x d =
     (case a of (ob, off) \<Rightarrow>
        if 0 \<le> off \<and> off + vwidth x \<le> lobsize d ob
        then Inr (d\<lparr>lmem := (lmem d)(ob := (\<lambda>y. if off \<le> y \<and> y < off + vwidth x then Part x (nat (y - off)) else lmem d ob y))\<rparr>)
        else Inl Overrun_data)"

definition peek :: "maddr \<Rightarrow> ldata \<Rightarrow> nat option" where
  "peek a d =
     (case a of (ob, off) \<Rightarrow>
        (case lmem d ob off of
           Part (Vptr p) _ \<Rightarrow> if (\<forall>k\<in>set [0..<8]. lmem d ob (off + int k) = Part (Vptr p) k) then Some p else None
         | _ \<Rightarrow> None))"

definition at :: "ldata \<Rightarrow> int \<Rightarrow> maddr" where
  "at d v = (fst (laddr d), snd (laddr d) + v)"

section \<open>The loader\<close>

fun get_byte :: "byte list \<Rightarrow> (val \<times> byte list) option" where
  "get_byte [] = None"
| "get_byte (b # r) = Some (Vbyte b, r)"

definition get_word :: "byte list \<Rightarrow> (val \<times> byte list) option" where
  "get_word r = map_option (\<lambda>(w, r). (Vword (scast w), r)) (disw r)"

definition get_long :: "byte list \<Rightarrow> (val \<times> byte list) option" where
  "get_long r =
     (case disw r of None \<Rightarrow> None
      | Some (hi, r) \<Rightarrow> map_option (\<lambda>(lo, r). (Vlong (push_bit 32 (scast hi) OR ucast lo), r)) (disw r))"

definition get_real :: "byte list \<Rightarrow> (val \<times> byte list) option" where
  "get_real r =
     (case disw r of None \<Rightarrow> None | Some (u0, r) \<Rightarrow> map_option (\<lambda>(u1, r). (Vreal u0 u1, r)) (disw r))"

fun load_vals :: "(byte list \<Rightarrow> (val \<times> byte list) option) \<Rightarrow> nat \<Rightarrow> maddr \<Rightarrow> byte list \<Rightarrow> ldata \<Rightarrow> load_error + ldata \<times> byte list" where
  "load_vals get 0 si r d = Inr (d, r)"
| "load_vals get (Suc n) si r d =
     (case get r of None \<Rightarrow> Inl Short
      | Some (x, r) \<Rightarrow>
        (case poke si x d of Inl e \<Rightarrow> Inl e
         | Inr d \<Rightarrow> load_vals get n (fst si, snd si + vwidth x) r d))"

abbreviation (input) DADEPTH :: nat where "DADEPTH \<equiv> 4"

text \<open>\<open>DEFA\<close>: a new array, and its address in the data.\<close>

definition new_array :: "Type \<Rightarrow> int \<Rightarrow> maddr \<Rightarrow> ldata \<Rightarrow> load_error + ldata" where
  "new_array t len si d =
     (let a = lnobj d in
      poke si (Vptr a) (d\<lparr>lnobj := a + 1, lobsize := (lobsize d)(a := sint (tsize t) * len), larr := (larr d)(a \<mapsto> (t, len)),
        lmem := (lmem d)(a := (\<lambda>_. Fresh))\<rparr>))"

definition load_array :: "type_table \<Rightarrow> maddr \<Rightarrow> u32 \<Rightarrow> u32 \<Rightarrow> ldata \<Rightarrow> load_error + ldata" where
  "load_array types si tid len d =
     (if sint tid < 0 \<or> sint tid > int (length types) then Inl BadArray
      else case lookup_type types tid of
        Inr (Some t) \<Rightarrow> if sint len < 0 then Inl Overrun_data else new_array t (sint len) si d
      | _ \<Rightarrow> Inl Overrun_type)"

definition load_index :: "maddr \<Rightarrow> u32 \<Rightarrow> ldata \<Rightarrow> load_error + ldata" where
  "load_index si v d =
     (case peek si d of None \<Rightarrow> Inl NotArray
      | Some a \<Rightarrow>
        (case larr d a of None \<Rightarrow> Inl NotArray
         | Some (t, len) \<Rightarrow>
           if sint v > len \<or> sint v < 0 \<or> length (lstack d) \<ge> DADEPTH then Inl InitRange
           else Inr (d\<lparr>lstack := laddr d # lstack d, laddr := (a, sint v * sint (tsize t))\<rparr>)))"

definition load_pop :: "ldata \<Rightarrow> load_error + ldata" where
  "load_pop d = (case lstack d of [] \<Rightarrow> Inl PopRange | a # s \<Rightarrow> Inr (d\<lparr>laddr := a, lstack := s\<rparr>))"

definition load_item :: "type_table \<Rightarrow> u32 \<Rightarrow> int \<Rightarrow> maddr \<Rightarrow> byte list \<Rightarrow> ldata \<Rightarrow> load_error + ldata \<times> byte list" where
  "load_item types kind n si r d =
     (if kind = 3 then
        if n < 0 then Inl Overrun_data else if int (length r) < n then Inl Short
        else map_sum id (\<lambda>d. (d, drop (nat n) r)) (poke si (Vstr (take (nat n) r)) d)
      else if kind = 1 then load_vals get_byte (nat n) si r d
      else if kind = 2 then load_vals get_word (nat n) si r d
      else if kind = 8 then load_vals get_long (nat n) si r d
      else if kind = 4 then load_vals get_real (nat n) si r d
      else if kind = 5 then
        (case get_many disw 2 r of
           Some ([tid, len], r) \<Rightarrow> map_sum id (\<lambda>d. (d, r)) (load_array types si tid len d)
         | _ \<Rightarrow> Inl Short)
      else if kind = 6 then
        (case disw r of None \<Rightarrow> Inl Short | Some (v, r) \<Rightarrow> map_sum id (\<lambda>d. (d, r)) (load_index si v d))
      else if kind = 7 then map_sum id (\<lambda>d. (d, r)) (load_pop d)
      else Inl BadItem)"

definition load_head :: "byte \<Rightarrow> byte list \<Rightarrow> (u32 \<times> u32 \<times> byte list) option" where
  "load_head sm r =
     (case (if DLEN sm = 0 then operand r else Some (DLEN sm, r)) of None \<Rightarrow> None
      | Some (n, r) \<Rightarrow> map_option (\<lambda>(v, r). (n, v, r)) (operand r))"

lemma operand_shorter: "operand r = Some (v, r') \<Longrightarrow> length r' < length r"
  by (cases r rule: operand.cases) (auto simp: Let_def split: if_splits list.splits)

lemma disw_shorter: "disw r = Some (v, r') \<Longrightarrow> length r' < length r"
  by (cases r rule: disw.cases) auto

lemma load_head_shorter: "load_head sm r = Some (n, v, r') \<Longrightarrow> length r' \<le> length r"
  by (auto simp: load_head_def split: option.splits if_splits dest!: operand_shorter)

definition shrinks :: "(byte list \<Rightarrow> (val \<times> byte list) option) \<Rightarrow> bool" where
  "shrinks get \<longleftrightarrow> (\<forall>r x r'. get r = Some (x, r') \<longrightarrow> length r' \<le> length r)"

lemma get_shrinks: "shrinks get_byte" "shrinks get_word" "shrinks get_long" "shrinks get_real"
proof -
  show "shrinks get_byte"
    unfolding shrinks_def by (intro allI, case_tac r) auto
qed (auto simp: shrinks_def get_word_def get_long_def get_real_def split: option.splits dest!: disw_shorter)

lemma load_vals_shorter: "shrinks get \<Longrightarrow> load_vals get n si r d = Inr (d', r') \<Longrightarrow> length r' \<le> length r"
proof (induction n arbitrary: si r d)
  case (Suc n)
  obtain x r2 d2 where g: "get r = Some (x, r2)" "load_vals get n (fst si, snd si + vwidth x) r2 d2 = Inr (d', r')"
    using Suc.prems(2) by (auto split: option.splits sum.splits)
  have "length r2 \<le> length r"
    using Suc.prems(1) g(1) unfolding shrinks_def by blast
  then show ?case
    using Suc.IH [OF Suc.prems(1) g(2)] by linarith
qed simp

lemma get_many_shorter: "get_many disw n r = Some (vs, r') \<Longrightarrow> length r' \<le> length r"
  by (induction n arbitrary: r vs) (fastforce split: option.splits dest!: disw_shorter)+

lemma load_item_shorter: "load_item types kind n si r d = Inr (d', r') \<Longrightarrow> length r' \<le> length r"
  unfolding load_item_def
  by (auto split: if_splits option.splits list.splits sum.splits simp: map_sum_def
      dest: get_shrinks [THEN load_vals_shorter] get_many_shorter disw_shorter)

function load_data :: "type_table \<Rightarrow> byte list \<Rightarrow> ldata \<Rightarrow> load_error + ldata \<times> byte list" where
  "load_data types [] d = Inl Short"
| "load_data types (sm # r) d =
     (if sm = 0 then Inr (d, r)
      else case load_head sm r of None \<Rightarrow> Inl Short
      | Some (n, v, r) \<Rightarrow>
        (case load_item types (DTYPE sm) (sint n) (at d (sint v)) r d of Inl e \<Rightarrow> Inl e
         | Inr (d, r) \<Rightarrow> load_data types r d))"
  by pat_completeness auto

termination
  by (relation "measure (\<lambda>(_, r, _). length r)") (auto dest!: load_head_shorter load_item_shorter)

section \<open>The compiler\<close>

abbreviation (input) DEFB :: int where "DEFB \<equiv> 1"
abbreviation (input) DEFW :: int where "DEFW \<equiv> 2"
abbreviation (input) DEFS :: int where "DEFS \<equiv> 3"
abbreviation (input) DEFF :: int where "DEFF \<equiv> 4"
abbreviation (input) DEFA :: int where "DEFA \<equiv> 5"
abbreviation (input) DIND_item :: int where "DIND_item \<equiv> 6"
abbreviation (input) DAPOP :: int where "DAPOP \<equiv> 7"
abbreviation (input) DEFL :: int where "DEFL \<equiv> 8"
abbreviation (input) IBY2WD :: int where "IBY2WD \<equiv> 8"
abbreviation (input) IBY2LG :: int where "IBY2LG \<equiv> 8"

record dstate =
  dout :: "byte list"
  dcache :: "byte list"
  ndatum :: nat
  startoff :: int
  lastoff :: int
  lastkind :: int
  lencache :: nat

text \<open>The loop that makes the cache larger.\<close>

partial_function (option) cache_grow :: "nat \<Rightarrow> nat \<Rightarrow> nat \<Rightarrow> nat option" where
  "cache_grow ncached sz len = (if ncached + sz \<ge> len then cache_grow ncached sz (ncached + 1024) else Some len)"

declare cache_grow.simps [code]

definition cint :: "int \<Rightarrow> int" where
  "cint x = signed_take_bit 31 x"

text \<open>The head of an item: its kind and count, and the offset.\<close>

definition dishead :: "int \<Rightarrow> int \<Rightarrow> int \<Rightarrow> byte list option" where
  "dishead kind n off =
     (case disdata (word_of_int kind) (word_of_int n) of None \<Rightarrow> None | Some a \<Rightarrow> map_option ((@) a) (discon (word_of_int off)))"

definition flush_cache :: "dstate \<Rightarrow> byte list option" where
  "flush_cache s =
     (if lastkind s \<noteq> -1 \<and> dcache s \<noteq> []
      then map_option (\<lambda>h. dout s @ h @ dcache s) (dishead (lastkind s) (int (ndatum s)) (startoff s))
      else Some (dout s))"

definition disflush :: "int \<Rightarrow> int \<Rightarrow> nat \<Rightarrow> dstate \<Rightarrow> dstate option" where
  "disflush kind off sz s =
     (case (if kind \<noteq> lastkind s \<or> off \<noteq> lastoff s
            then map_option (\<lambda>w. s\<lparr>dout := w, startoff := cint off, lastkind := kind, dcache := [], ndatum := 0\<rparr>) (flush_cache s)
            else Some s) of
        None \<Rightarrow> None
      | Some s \<Rightarrow>
        let s = s\<lparr>lastoff := cint (off + int sz)\<rparr>
        in if kind \<ge> 0 then map_option (\<lambda>l. s\<lparr>lencache := l\<rparr>) (cache_grow (length (dcache s)) sz (lencache s)) else Some s)"

definition discache :: "byte list \<Rightarrow> nat \<Rightarrow> dstate \<Rightarrow> dstate" where
  "discache bs n s = s\<lparr>dcache := dcache s @ bs, ndatum := ndatum s + n\<rparr>"

definition disbyte :: "int \<Rightarrow> u64 \<Rightarrow> dstate \<Rightarrow> dstate option" where
  "disbyte off v s = map_option (discache [ucast v] 1) (disflush DEFB off 1 s)"

definition disbytes :: "int \<Rightarrow> byte list \<Rightarrow> dstate \<Rightarrow> dstate option" where
  "disbytes off vs s = map_option (discache vs (length vs)) (disflush DEFB off (length vs) s)"

definition disint :: "int \<Rightarrow> u64 \<Rightarrow> dstate \<Rightarrow> dstate option" where
  "disint off v s = map_option (discache (disword v) 1) (disflush DEFW off 8 s)"

definition bytes4 :: "u32 \<Rightarrow> byte list" where
  "bytes4 iv = [ucast (drop_bit 24 iv), ucast (drop_bit 16 iv), ucast (drop_bit 8 iv), ucast iv]"

definition disbig :: "int \<Rightarrow> u64 \<Rightarrow> dstate \<Rightarrow> dstate option" where
  "disbig off v s =
     map_option (discache (bytes4 (ucast (signed_drop_bit 32 v)) @ bytes4 (ucast v)) 1) (disflush DEFL off 8 s)"

definition disreal :: "int \<Rightarrow> u32 \<Rightarrow> u32 \<Rightarrow> dstate \<Rightarrow> dstate option" where
  "disreal off b0 b1 s = map_option (discache (bytes4 b0 @ bytes4 b1) 1) (disflush DEFF off 8 s)"

definition disemit :: "byte list option \<Rightarrow> dstate \<Rightarrow> dstate option" where
  "disemit b s = map_option (\<lambda>b. s\<lparr>dout := dout s @ b\<rparr>) b"

definition disstring :: "int \<Rightarrow> byte list \<Rightarrow> dstate \<Rightarrow> dstate option" where
  "disstring off nm s =
     Option.bind (disflush (-1) (-1) 0 s) (disemit (map_option (\<lambda>h. h @ nm) (dishead DEFS (int (length nm)) off)))"

fun foldo :: "('a \<Rightarrow> 's \<Rightarrow> 's option) \<Rightarrow> 'a list \<Rightarrow> 's \<Rightarrow> 's option" where
  "foldo f [] s = Some s"
| "foldo f (x # xs) s = Option.bind (f x s) (foldo f xs)"

text \<open>
  The initial values that \<open>disdatum\<close> writes, by the kind of their type.  A label of a case has the values between which it
  lies and its program counter; an element of an array the indices between which it is repeated.
\<close>

datatype datum =
    Tbyte u64
  | Tint u64
  | Tbig u64
  | Tstring "byte list"
  | Treal u32 u32
  | Ttuple "(int \<times> datum) list"
  | Tany
  | Tcase "(u64 \<times> u64 \<times> u64) list" "u64 option"
  | Tcasel "(u64 \<times> u64 \<times> u64) list" "u64 option"
  | Tcasec "(byte list \<times> byte list option \<times> u64) list" "u64 option"
  | Tgoto nat "u64 list" "u64 option"
  | Tarray u64 nat nat "((nat \<times> nat \<times> datum) list \<times> datum option) option"
  | Tiface u64 "(u64 \<times> byte list option \<times> byte list) list"

definition wildpc :: "u64 option \<Rightarrow> u64" where
  "wildpc w = (case w of None \<Rightarrow> -1 | Some pc \<Rightarrow> pc)"

fun discase :: "(u64 \<times> u64 \<times> u64) list \<Rightarrow> int \<Rightarrow> dstate \<Rightarrow> (int \<times> dstate) option" where
  "discase [] off s = Some (off, s)"
| "discase ((lo, hi, pc) # ls) off s =
     Option.bind (disint off lo s) (\<lambda>s. Option.bind (disint (off + IBY2WD) (hi + 1) s) (\<lambda>s.
       Option.bind (disint (off + 2 * IBY2WD) pc s) (discase ls (off + 3 * IBY2WD))))"

fun discasel :: "(u64 \<times> u64 \<times> u64) list \<Rightarrow> int \<Rightarrow> dstate \<Rightarrow> (int \<times> dstate) option" where
  "discasel [] off s = Some (off, s)"
| "discasel ((lo, hi, pc) # ls) off s =
     Option.bind (disbig off lo s) (\<lambda>s. Option.bind (disbig (off + IBY2LG) (hi + 1) s) (\<lambda>s.
       Option.bind (disint (off + 2 * IBY2LG) pc s) (discasel ls (off + (2 * IBY2LG + 2 * IBY2WD)))))"

fun discasec :: "(byte list \<times> byte list option \<times> u64) list \<Rightarrow> int \<Rightarrow> dstate \<Rightarrow> (int \<times> dstate) option" where
  "discasec [] off s = Some (off, s)"
| "discasec ((lo, hi, pc) # ls) off s =
     Option.bind (disstring off lo s) (\<lambda>s. Option.bind (case hi of None \<Rightarrow> Some s | Some hi \<Rightarrow> disstring (off + IBY2WD) hi s) (\<lambda>s.
       Option.bind (disint (off + 2 * IBY2WD) pc s) (discasec ls (off + 3 * IBY2WD))))"

fun disgoto :: "u64 list \<Rightarrow> int \<Rightarrow> dstate \<Rightarrow> (int \<times> dstate) option" where
  "disgoto [] off s = Some (off, s)"
| "disgoto (pc # ls) off s = Option.bind (disint off pc s) (disgoto ls (off + IBY2WD))"

definition align_to :: "int \<Rightarrow> int \<Rightarrow> int" where
  "align_to off a = (if off mod a = 0 then off else off + (a - off mod a))"

fun disiface :: "(u64 \<times> byte list option \<times> byte list) list \<Rightarrow> int \<Rightarrow> dstate \<Rightarrow> dstate option" where
  "disiface [] off s = Some s"
| "disiface ((sg, adt, nm) # ids) off s =
     (let off = align_to off IBY2WD in
      Option.bind (disint off sg s) (\<lambda>s.
      let off = off + IBY2WD in
      Option.bind (case adt of None \<Rightarrow> Some (off, s)
          | Some a \<Rightarrow> Option.bind (disbytes off a s) (\<lambda>s. map_option (\<lambda>s. (off + int (length a) + 1, s)) (disbyte (off + int (length a)) 0x2E s)))
        (\<lambda>(off, s). Option.bind (disbytes off nm s) (\<lambda>s.
           Option.bind (disbyte (off + int (length nm)) 0 s) (disiface ids (off + int (length nm) + 1))))))"

text \<open>
  The loops of \<open>disdatum\<close> over the members of a tuple and over the labels of an array take the routines that write the values of
  these.  The loops over the indices of an array write the wildcard before a label, the element of the label, and the wildcard after the
  last one.
\<close>

type_synonym writer = "int \<Rightarrow> dstate \<Rightarrow> dstate option"

fun disids :: "int \<Rightarrow> (int \<times> writer) list \<Rightarrow> dstate \<Rightarrow> dstate option" where
  "disids off [] s = Some s"
| "disids off ((o', w) # ids) s = Option.bind (w (off + o') s) (disids off ids)"

definition diselems :: "nat \<Rightarrow> nat list \<Rightarrow> writer \<Rightarrow> dstate \<Rightarrow> dstate option" where
  "diselems esz is w s = foldo (\<lambda>i. w (int (esz * i))) is s"

definition diswild :: "nat \<Rightarrow> nat list \<Rightarrow> writer option \<Rightarrow> dstate \<Rightarrow> dstate option" where
  "diswild esz is w s = (case w of None \<Rightarrow> Some s | Some w \<Rightarrow> diselems esz is w s)"

fun dislabels :: "nat \<Rightarrow> writer option \<Rightarrow> (nat \<times> nat \<times> writer) list \<Rightarrow> nat \<Rightarrow> dstate \<Rightarrow> (nat \<times> dstate) option" where
  "dislabels esz wild [] k s = Some (k, s)"
| "dislabels esz wild ((e0, e1, w) # ls) k s =
     Option.bind (diswild esz [k..<e0] wild s) (\<lambda>s.
     Option.bind (diselems esz [e0..<e1 + 1] w s) (dislabels esz wild ls (max e0 (e1 + 1))))"

definition disarray :: "int \<Rightarrow> u64 \<Rightarrow> nat \<Rightarrow> nat \<Rightarrow> ((nat \<times> nat \<times> writer) list \<times> writer option) option \<Rightarrow> dstate \<Rightarrow> dstate option" where
  "disarray off tid esz len init s =
     Option.bind (disflush (-1) (-1) 0 s) (\<lambda>s.
     Option.bind (disemit (map_option (\<lambda>h. h @ disword tid @ disword (word_of_nat len)) (dishead DEFA 1 off)) s) (\<lambda>s.
       case init of None \<Rightarrow> Some s
       | Some (ls, wild) \<Rightarrow>
         Option.bind (disemit (map_option (\<lambda>h. h @ disword 0) (dishead DIND_item 1 off)) s) (\<lambda>s.
         Option.bind (dislabels esz wild ls 0 s) (\<lambda>(k, s).
         Option.bind (diswild esz [k..<len] wild s) (\<lambda>s.
         Option.bind (disflush (-1) (-1) 0 s) (disemit (dishead DAPOP 1 0)))))))"

primrec disdatum :: "datum \<Rightarrow> int \<Rightarrow> dstate \<Rightarrow> dstate option" where
  "disdatum (Tbyte v) = (\<lambda>off. disbyte off v)"
| "disdatum (Tint v) = (\<lambda>off. disint off v)"
| "disdatum (Tbig v) = (\<lambda>off. disbig off v)"
| "disdatum (Tstring nm) = (\<lambda>off. disstring off nm)"
| "disdatum (Treal b0 b1) = (\<lambda>off. disreal off b0 b1)"
| "disdatum (Ttuple ids) = (\<lambda>off. disids off (map (map_prod id disdatum) ids))"
| "disdatum Tany = (\<lambda>off. Some)"
| "disdatum (Tcase ls w) = (\<lambda>off s.
     Option.bind (disint off (word_of_nat (length ls)) s) (\<lambda>s. Option.bind (discase ls (off + IBY2WD) s) (\<lambda>(off, s). disint off (wildpc w) s)))"
| "disdatum (Tcasel ls w) = (\<lambda>off s.
     Option.bind (disint off (word_of_nat (length ls)) s) (\<lambda>s. Option.bind (discasel ls (off + 2 * IBY2WD) s) (\<lambda>(off, s). disint off (wildpc w) s)))"
| "disdatum (Tcasec ls w) = (\<lambda>off s.
     Option.bind (disint off (word_of_nat (length ls)) s) (\<lambda>s. Option.bind (discasec ls (off + IBY2WD) s) (\<lambda>(off, s). disint off (wildpc w) s)))"
| "disdatum (Tgoto sz ls w) = (\<lambda>off s.
     Option.bind (disint off (word_of_nat (sz div 8) - 1) s) (\<lambda>s. Option.bind (disgoto ls (off + IBY2WD) s)
       (\<lambda>(off, s). case w of None \<Rightarrow> Some s | Some pc \<Rightarrow> disint off pc s)))"
| "disdatum (Tarray tid esz len init) = (\<lambda>off.
     disarray off tid esz len (map_option (map_prod (map (map_prod id (map_prod id disdatum))) (map_option disdatum)) init))"
| "disdatum (Tiface v ids) = (\<lambda>off s. Option.bind (disint off v s) (disiface ids (off + IBY2WD)))"

text \<open>\<open>disvar\<close>: the globals that have an initial value.\<close>

definition dstate0 :: dstate where
  "dstate0 = \<lparr>dout = [], dcache = [], ndatum = 0, startoff = 0, lastoff = 0, lastkind = -1, lencache = 0\<rparr>"

definition disvar :: "(int \<times> datum) list \<Rightarrow> byte list option" where
  "disvar ds =
     Option.bind (foldo (\<lambda>(off, d). disdatum d off) ds dstate0) (\<lambda>s.
     Option.bind (disflush (-1) (-1) 0 s) (\<lambda>s. map_option dout (disemit (Some [0]) s)))"

section \<open>What the data section means\<close>

datatype ev = Put int val | Arr int u32 u32 | Ind int | Pop

fun exec_ev :: "type_table \<Rightarrow> ev \<Rightarrow> ldata \<Rightarrow> load_error + ldata" where
  "exec_ev types (Put off x) d = poke (at d off) x d"
| "exec_ev types (Arr off tid len) d = load_array types (at d off) tid len d"
| "exec_ev types (Ind off) d = load_index (at d off) 0 d"
| "exec_ev types Pop d = load_pop d"

fun runs :: "type_table \<Rightarrow> ev list \<Rightarrow> ldata \<Rightarrow> (ldata \<Rightarrow> load_error + 'a) \<Rightarrow> load_error + 'a" where
  "runs types [] d k = k d"
| "runs types (e # es) d k = (case exec_ev types e d of Inl x \<Rightarrow> Inl x | Inr d \<Rightarrow> runs types es d k)"

lemma runs_append: "runs types (a @ b) d k = runs types a d (\<lambda>d. runs types b d k)"
  by (induction a arbitrary: d) (auto split: sum.splits)

fun puts :: "int \<Rightarrow> val list \<Rightarrow> ev list" where
  "puts off [] = []"
| "puts off (x # xs) = Put off x # puts (off + vwidth x) xs"

definition vsum :: "val list \<Rightarrow> int" where
  "vsum xs = sum_list (map vwidth xs)"

lemma vsum_simps [simp]: "vsum [] = 0" "vsum (x # xs) = vwidth x + vsum xs" "vsum (xs @ ys) = vsum xs + vsum ys"
  by (simp_all add: vsum_def)

lemma vwidth_pos: "1 \<le> vwidth x"
  by (cases x) simp_all

lemma vsum_length: "int (length xs) \<le> vsum xs"
  using vwidth_pos by (induction xs) (auto simp: add_mono)

lemma puts_append: "puts off (xs @ ys) = puts off xs @ puts (off + vsum xs) ys"
  by (induction xs arbitrary: off) (auto simp: algebra_simps)

fun enc :: "val \<Rightarrow> byte list" where
  "enc (Vbyte b) = [b]"
| "enc (Vword w) = disword w"
| "enc (Vlong v) = bytes4 (ucast (signed_drop_bit 32 v)) @ bytes4 (ucast v)"
| "enc (Vreal a b) = bytes4 a @ bytes4 b"
| "enc _ = []"

fun kindof :: "val \<Rightarrow> int" where
  "kindof (Vbyte _) = 1" | "kindof (Vword _) = 2" | "kindof (Vlong _) = 8" | "kindof (Vreal _ _) = 4" | "kindof _ = 0"

definition getter :: "int \<Rightarrow> byte list \<Rightarrow> (val \<times> byte list) option" where
  "getter k = (if k = 1 then get_byte else if k = 2 then get_word else if k = 8 then get_long else get_real)"

text \<open>A word that has 32 bits and a sign.\<close>

definition val_ok :: "val \<Rightarrow> bool" where
  "val_ok x \<longleftrightarrow> kindof x \<noteq> 0 \<and> (\<forall>w. x = Vword w \<longrightarrow> w = scast (ucast w :: u32))"

lemma disw_bytes4: "disw (bytes4 v @ r) = Some (v, r)"
  by (simp add: bytes4_def u32_bits)

lemma disword_bytes4: "disword w = bytes4 (ucast w)"
  unfolding disword_def bytes4_def list.inject by (intro conjI refl; rule bit_word_eqI; simp add: bit_simps)

lemma long_halves: "push_bit 32 (scast (ucast (signed_drop_bit 32 v) :: u32)) OR ucast (ucast v :: u32) = (v :: u64)"
proof (rule bit_word_eqI)
  fix n assume "n < LENGTH(64)"
  then show "bit (push_bit 32 (scast (ucast (signed_drop_bit 32 v) :: u32)) OR ucast (ucast v :: u32) :: u64) n = bit v n"
    by (cases "n = 63") (auto simp: bit_simps not_less min_def)
qed

lemma getter_enc: "val_ok x \<Longrightarrow> getter (kindof x) (enc x @ r) = Some (x, r)"
  by (cases x)
    (auto simp: val_ok_def getter_def get_word_def get_long_def get_real_def disword_bytes4 disw_bytes4 long_halves)

lemma enc_nonempty: "kindof x \<noteq> 0 \<Longrightarrow> enc x \<noteq> []"
  by (cases x) (auto simp: disword_def bytes4_def)

lemma poke_laddr: "poke a x d = Inr d' \<Longrightarrow> laddr d' = laddr d"
  by (auto simp: poke_def split: prod.splits if_splits)

lemma load_vals_puts:
  "\<forall>x\<in>set xs. val_ok x \<and> kindof x = k \<Longrightarrow>
    (case load_vals (getter k) (length xs) (at d off) (concat (map enc xs) @ r) d of Inl e \<Rightarrow> Inl e | Inr (d, r) \<Rightarrow> f d r)
      = runs types (puts off xs) d (\<lambda>d. f d r)"
proof (induction xs arbitrary: d off)
  case (Cons x xs)
  have g: "getter k (enc x @ concat (map enc xs) @ r) = Some (x, concat (map enc xs) @ r)"
    using getter_enc [of x] Cons.prems by auto
  show ?case
  proof (cases "poke (at d off) x d")
    case (Inr d')
    have "(fst (at d off), snd (at d off) + vwidth x) = at d' (off + vwidth x)"
      using poke_laddr [OF Inr] by (simp add: at_def)
    then show ?thesis
      using Cons g Inr by simp
  qed (use g in simp)
qed simp

lemma word_small:
  assumes "0 \<le> n" "n < 2 ^ 29"
  shows "unat (word_of_int n :: u64) < 2 ^ 29" "sint (ucast (word_of_int n :: u64) :: u32) = n" "sint (word_of_int n :: u64) = n"
proof -
  have u: "uint (word_of_int n :: u64) = n"
    using assms by (simp add: uint_word_of_int_eq take_bit_int_eq_self)
  then show s: "unat (word_of_int n :: u64) < 2 ^ 29"
    using assms by (simp add: unat_eq_nat_uint nat_less_iff)
  show "sint (ucast (word_of_int n :: u64) :: u32) = n"
    using small_u64(2) [OF s] u by simp
  show "sint (word_of_int n :: u64) = n"
    using sint_small [OF s] u by simp
qed

lemma dbyte_all:
  "\<forall>k\<in>set [1..8]. \<forall>n\<in>set [0..15]. let sm = ucast (DBYTE (word_of_int k) (ucast (word_of_int n :: u64))) :: byte
     in DTYPE sm = word_of_int k \<and> sint (DLEN sm) = n \<and> sm \<noteq> 0 \<and> (word_of_int n :: u64) <s 16 \<and> (n \<noteq> 0 \<longrightarrow> DLEN sm \<noteq> 0 \<and> (word_of_int n :: u64) \<noteq> 0)"
  by code_simp

lemma dbyte_type:
  assumes "0 < kind" "kind \<le> 8" "0 \<le> n" "n < 16"
  defines "sm \<equiv> ucast (DBYTE (word_of_int kind) (ucast (word_of_int n :: u64))) :: byte"
  shows "DTYPE sm = word_of_int kind \<and> sint (DLEN sm) = n \<and> sm \<noteq> 0 \<and> (word_of_int n :: u64) <s 16 \<and> (n \<noteq> 0 \<longrightarrow> DLEN sm \<noteq> 0 \<and> (word_of_int n :: u64) \<noteq> 0)"
proof -
  have "kind \<in> set [1..8]" "n \<in> set [0..15]"
    using assms(1-4) by auto
  then show ?thesis
    using dbyte_all unfolding Let_def sm_def by blast
qed

lemma item_head:
  assumes "0 < kind" "kind \<le> 8" "0 \<le> n" "n < 2 ^ 29" "0 \<le> off" "off < 2 ^ 29"
  shows "\<exists>sm h. dishead kind n off = Some (sm # h) \<and> sm \<noteq> 0 \<and> DTYPE sm = word_of_int kind
    \<and> (\<forall>r. \<exists>n' v. load_head sm (h @ r) = Some (n', v, r) \<and> sint n' = n \<and> sint v = off)"
proof -
  obtain b where b: "discon (word_of_int off) = Some b" "\<And>r. operand (b @ r) = Some (ucast (word_of_int off :: u64), r)"
    using discon_small [OF word_small(1) [OF assms(5,6)]] by metis
  have so: "sint (ucast (word_of_int off :: u64) :: u32) = off"
    using word_small(2) [OF assms(5,6)] .
  show ?thesis
  proof (cases "n < 16 \<and> n \<noteq> 0")
    case True
    let ?sm = "ucast (DBYTE (word_of_int kind) (ucast (word_of_int n :: u64))) :: byte"
    have t: "DTYPE ?sm = word_of_int kind" "sint (DLEN ?sm) = n" "?sm \<noteq> 0" "(word_of_int n :: u64) <s 16" "DLEN ?sm \<noteq> 0" "(word_of_int n :: u64) \<noteq> 0"
      using dbyte_type [OF assms(1-3)] True by auto
    have "disdata (word_of_int kind) (word_of_int n) = Some [?sm]"
      using t by (simp add: disdata_def)
    then have "dishead kind n off = Some (?sm # b)"
      using b(1) by (simp add: dishead_def)
    moreover have "\<exists>n' v. load_head ?sm (b @ r) = Some (n', v, r) \<and> sint n' = n \<and> sint v = off" for r
      using b(2) t(2,5) so by (simp add: load_head_def)
    ultimately show ?thesis
      using t(1,3) by blast
  next
    case False
    let ?sm = "ucast (DBYTE (word_of_int kind) (ucast (word_of_int 0 :: u64))) :: byte"
    have t: "DTYPE ?sm = word_of_int kind" "sint (DLEN ?sm) = 0" "?sm \<noteq> 0"
      using dbyte_type [OF assms(1,2), of 0] by auto
    then have l: "DLEN ?sm = 0"
      by (simp add: signed_eq_0_iff)
    obtain c where c: "discon (word_of_int n) = Some c" "\<And>r. operand (c @ r) = Some (ucast (word_of_int n :: u64), r)"
      using discon_small [OF word_small(1) [OF assms(3,4)]] by metis
    have "\<not> ((word_of_int n :: u64) <s 16 \<and> (word_of_int n :: u64) \<noteq> 0)"
      using False word_small(3) [OF assms(3,4)] by (auto simp: word_sless_alt)
    then have "disdata (word_of_int kind) (word_of_int n) = Some (?sm # c)"
      using c(1) by (auto simp: disdata_def)
    then have "dishead kind n off = Some (?sm # c @ b)"
      using b(1) by (simp add: dishead_def)
    moreover have "\<exists>n' v. load_head ?sm ((c @ b) @ r) = Some (n', v, r) \<and> sint n' = n \<and> sint v = off" for r
      using b(2) c(2) l so word_small(2) [OF assms(3,4)] by (simp add: load_head_def)
    ultimately show ?thesis
      using t(1,3) by blast
  qed
qed

section \<open>The cache of the compiler\<close>

lemma cache_grow_ends: "sz < 1024 \<Longrightarrow> \<exists>l. cache_grow n sz len = Some l"
  by (subst cache_grow.simps, cases "len \<le> n + sz"; simp) (subst cache_grow.simps, simp)

text \<open>The loop does not end for a name of 1024 bytes or more that does not fit.\<close>

lemma cache_grow_forever: "1024 \<le> sz \<Longrightarrow> len \<le> n + sz \<Longrightarrow> cache_grow n sz len = None"
proof -
  assume a: "1024 \<le> sz" "len \<le> n + sz"
  have "cache_grow n sz len = Some l \<Longrightarrow> \<not> (1024 \<le> sz \<and> len \<le> n + sz)" for l
    by (erule cache_grow.raw_induct [rotated]) (fastforce split: if_splits)
  then show ?thesis
    using a by (cases "cache_grow n sz len") auto
qed

definition decodes :: "type_table \<Rightarrow> byte list \<Rightarrow> ev list \<Rightarrow> bool" where
  "decodes types bs es \<longleftrightarrow> (\<forall>r d. load_data types (bs @ r) d = runs types es d (load_data types r))"

lemma decodes_nil: "decodes types [] []"
  by (simp add: decodes_def)

lemma decodes_append:
  assumes "decodes types a x" "decodes types b y"
  shows "decodes types (a @ b) (x @ y)"
proof -
  have "load_data types (b @ r) = (\<lambda>d. runs types y d (load_data types r))" for r
    using assms(2) by (auto simp: decodes_def)
  then show ?thesis
    using assms(1) by (simp add: decodes_def runs_append)
qed

lemma kind_cases: "val_ok x \<Longrightarrow> kindof x \<in> {1, 2, 4, 8}"
  by (cases x) (auto simp: val_ok_def)

lemma load_item_vals:
  assumes "k \<in> {1, 2, 4, 8}"
  shows "load_item types (word_of_int k) n si r d = load_vals (getter k) (nat n) si r d"
  using assms by (auto simp: load_item_def getter_def)

lemma decodes_vals:
  assumes xs: "\<forall>x\<in>set xs. val_ok x \<and> kindof x = k" "xs \<noteq> []" and off: "0 \<le> off" "off + vsum xs < 2 ^ 29"
  shows "\<exists>h. dishead k (int (length xs)) off = Some h \<and> decodes types (h @ concat (map enc xs)) (puts off xs)"
proof -
  have k: "k \<in> {1, 2, 4, 8}"
    using xs kind_cases by (cases xs) auto
  have n: "0 \<le> int (length xs)" "int (length xs) < 2 ^ 29" "off < 2 ^ 29"
    using off vsum_length [of xs] by auto
  have kk: "0 < k" "k \<le> 8"
    using k by auto
  obtain sm h where h: "dishead k (int (length xs)) off = Some (sm # h)" "sm \<noteq> 0" "DTYPE sm = word_of_int k"
    "\<forall>r. \<exists>n' v. load_head sm (h @ r) = Some (n', v, r) \<and> sint n' = int (length xs) \<and> sint v = off"
    using item_head [OF kk n(1,2) off(1) n(3)] by blast
  have "load_data types ((sm # h @ concat (map enc xs)) @ r) d = runs types (puts off xs) d (load_data types r)" for r d
  proof -
    obtain n' v where nv: "load_head sm (h @ concat (map enc xs) @ r) = Some (n', v, concat (map enc xs) @ r)" "sint n' = int (length xs)" "sint v = off"
      using h(4) by blast
    show ?thesis
      using h(2,3) nv load_item_vals [OF k] load_vals_puts [OF xs(1), where d = d and off = off and r = r and f = "\<lambda>d r. load_data types r d" and types = types] by simp
  qed
  then show ?thesis
    using h(1) by (auto simp: decodes_def)
qed

text \<open>The events that the compiler has written or still holds in the cache.\<close>

definition rep :: "type_table \<Rightarrow> dstate \<Rightarrow> ev list \<Rightarrow> bool" where
  "rep types s es \<longleftrightarrow>
     (if lastkind s = -1 then dcache s = [] \<and> decodes types (dout s) es
      else \<exists>ds xs. es = ds @ puts (startoff s) xs \<and> decodes types (dout s) ds \<and> (\<forall>x\<in>set xs. val_ok x \<and> kindof x = lastkind s)
        \<and> dcache s = concat (map enc xs) \<and> ndatum s = length xs \<and> 0 \<le> startoff s \<and> lastoff s = startoff s + vsum xs \<and> lastoff s < 2 ^ 29)"

lemma flush_cache_rep:
  assumes "rep types s es"
  shows "\<exists>w. flush_cache s = Some w \<and> decodes types w es"
proof (cases "lastkind s = -1")
  case True
  then show ?thesis
    using assms by (simp add: rep_def flush_cache_def)
next
  case False
  then obtain ds xs where r: "es = ds @ puts (startoff s) xs" "decodes types (dout s) ds" "\<forall>x\<in>set xs. val_ok x \<and> kindof x = lastkind s"
      "dcache s = concat (map enc xs)" "ndatum s = length xs" "0 \<le> startoff s" "lastoff s = startoff s + vsum xs" "lastoff s < 2 ^ 29"
    using assms by (auto simp: rep_def)
  show ?thesis
  proof (cases "xs = []")
    case True
    then show ?thesis
      using r by (simp add: flush_cache_def)
  next
    case ne: False
    then have "dcache s \<noteq> []"
      using r(3,4) enc_nonempty by (cases xs) (auto simp: val_ok_def)
    moreover obtain h where "dishead (lastkind s) (int (length xs)) (startoff s) = Some h" "decodes types (h @ concat (map enc xs)) (puts (startoff s) xs)"
      using decodes_vals [OF r(3) ne r(6), of types] r(7,8) by auto
    ultimately show ?thesis
      using r False decodes_append [OF r(2)] by (auto simp: flush_cache_def)
  qed
qed

lemma cint_small: "0 \<le> x \<Longrightarrow> x < 2 ^ 29 \<Longrightarrow> cint x = x"
  by (simp add: cint_def signed_take_bit_int_eq_self)

definition writes :: "type_table \<Rightarrow> (dstate \<Rightarrow> dstate option) \<Rightarrow> ev list \<Rightarrow> bool" where
  "writes types f es \<longleftrightarrow> (\<forall>s e. rep types s e \<longrightarrow> (\<exists>s'. f s = Some s' \<and> rep types s' (e @ es)))"

lemma writes_none: "writes types Some []"
  by (simp add: writes_def)

lemma writes_bind: "writes types f a \<Longrightarrow> writes types g b \<Longrightarrow> writes types (\<lambda>s. Option.bind (f s) g) (a @ b)"
  unfolding writes_def by (metis append_assoc bind.bind_lunit)

lemma writes_vals:
  assumes xs: "\<forall>x\<in>set xs. val_ok x \<and> kindof x = k" and k: "k \<in> {1, 2, 4, 8}" and off: "0 \<le> off" "off + vsum xs < 2 ^ 29" "vsum xs < 1024"
  shows "writes types (\<lambda>s. map_option (discache (concat (map enc xs)) (length xs)) (disflush k off (nat (vsum xs)) s)) (puts off xs)"
  unfolding writes_def
proof (intro allI impI)
  fix s es assume r: "rep types s es"
  let ?sz = "nat (vsum xs)"
  have vs: "0 \<le> vsum xs" "off < 2 ^ 29"
    using vsum_length [of xs] off(2) by linarith+
  have grow: "\<exists>l. cache_grow n ?sz len = Some l" for n len
    using cache_grow_ends [of ?sz] off(3) by simp
  show "\<exists>s'. map_option (discache (concat (map enc xs)) (length xs)) (disflush k off ?sz s) = Some s' \<and> rep types s' (es @ puts off xs)"
  proof (cases "k \<noteq> lastkind s \<or> off \<noteq> lastoff s")
    case True
    obtain w where w: "flush_cache s = Some w" "decodes types w es"
      using flush_cache_rep [OF r] by blast
    obtain l where "cache_grow 0 ?sz (lencache s) = Some l"
      using grow by blast
    then have "disflush k off ?sz s = Some (s\<lparr>dout := w, startoff := off, lastkind := k, dcache := [], ndatum := 0, lastoff := off + vsum xs, lencache := l\<rparr>)"
      using True w(1) k vs off by (auto simp: disflush_def cint_small)
    then show ?thesis
      using w(2) xs off k by (auto simp: rep_def discache_def)
  next
    case False
    then obtain ds ys where ys: "es = ds @ puts (startoff s) ys" "decodes types (dout s) ds" "\<forall>x\<in>set ys. val_ok x \<and> kindof x = k"
      "dcache s = concat (map enc ys)" "ndatum s = length ys" "0 \<le> startoff s" "off = startoff s + vsum ys"
      using r k by (auto simp: rep_def)
    obtain l where "cache_grow (length (dcache s)) ?sz (lencache s) = Some l"
      using grow by blast
    then have "disflush k off ?sz s = Some (s\<lparr>lastoff := off + vsum xs, lencache := l\<rparr>)"
      using False k vs off by (auto simp: disflush_def cint_small)
    moreover have "es @ puts off xs = ds @ puts (startoff s) (ys @ xs)"
      using ys(1,7) by (simp add: puts_append)
    moreover have "lastkind s = k"
      using False by simp
    ultimately show ?thesis
      using ys(2-7) xs off k by (auto simp: rep_def discache_def intro!: exI [of _ ds] exI [of _ "ys @ xs"])
  qed
qed

lemma writes_flush: "writes types (disflush (-1) (-1) 0) []"
  unfolding writes_def
proof (intro allI impI)
  fix s es assume r: "rep types s es"
  obtain w where w: "flush_cache s = Some w" "decodes types w es"
    using flush_cache_rep [OF r] by blast
  have c: "cint (-1) = -1"
    by (simp add: cint_def)
  show "\<exists>s'. disflush (-1) (-1) 0 s = Some s' \<and> rep types s' (es @ [])"
    using r w by (cases "lastkind s = -1 \<and> lastoff s = -1") (auto simp: disflush_def rep_def c)
qed

text \<open>An item that is written at once, after the cache has been emptied.\<close>

lemma flush_emit:
  assumes "\<exists>b. bo = Some b \<and> decodes types b es"
  shows "writes types (\<lambda>s. Option.bind (disflush (-1) (-1) 0 s) (disemit bo)) es"
  unfolding writes_def
proof (intro allI impI)
  fix s e assume r: "rep types s e"
  obtain w where w: "flush_cache s = Some w" "decodes types w e"
    using flush_cache_rep [OF r] by blast
  obtain b where b: "bo = Some b" "decodes types b es"
    using assms by blast
  have c: "cint (-1) = -1"
    by (simp add: cint_def)
  show "\<exists>s'. Option.bind (disflush (-1) (-1) 0 s) (disemit bo) = Some s' \<and> rep types s' (e @ es)"
    using r w b decodes_append by (cases "lastkind s = -1 \<and> lastoff s = -1") (auto simp: disflush_def rep_def c disemit_def)
qed

text \<open>Writing at once, in a state whose cache is empty.\<close>

definition iwrites :: "type_table \<Rightarrow> (dstate \<Rightarrow> dstate option) \<Rightarrow> ev list \<Rightarrow> bool" where
  "iwrites types f es \<longleftrightarrow> (\<forall>s e. lastkind s = -1 \<longrightarrow> rep types s e \<longrightarrow> (\<exists>s'. f s = Some s' \<and> rep types s' (e @ es)))"

lemma writes_iwrites: "writes types f es \<Longrightarrow> iwrites types f es"
  by (simp add: writes_def iwrites_def)

lemma disemit_iwrites:
  assumes b: "decodes types b x" and g: "iwrites types g y"
  shows "iwrites types (\<lambda>s. Option.bind (disemit (Some b) s) g) (x @ y)"
  unfolding iwrites_def
proof (intro allI impI)
  fix s e assume s: "lastkind s = -1" "rep types s e"
  have "rep types (s\<lparr>dout := dout s @ b\<rparr>) (e @ x)"
    using s b by (auto simp: rep_def intro: decodes_append)
  then have "\<exists>s'. g (s\<lparr>dout := dout s @ b\<rparr>) = Some s' \<and> rep types s' ((e @ x) @ y)"
    using g [unfolded iwrites_def, rule_format, of "s\<lparr>dout := dout s @ b\<rparr>" "e @ x"] s(1) by simp
  then show "\<exists>s'. Option.bind (disemit (Some b) s) g = Some s' \<and> rep types s' (e @ x @ y)"
    by (simp add: disemit_def)
qed

lemma flush_iwrites:
  assumes "iwrites types f es"
  shows "writes types (\<lambda>s. Option.bind (disflush (-1) (-1) 0 s) f) es"
  unfolding writes_def
proof (intro allI impI)
  fix s e assume r: "rep types s e"
  obtain s1 where s1: "disflush (-1) (-1) 0 s = Some s1" "rep types s1 e"
    using writes_flush [of types] r unfolding writes_def by fastforce
  have "lastkind s1 = -1"
    using s1(1) by (auto simp: disflush_def split: if_splits option.splits)
  then show "\<exists>s'. Option.bind (disflush (-1) (-1) 0 s) f = Some s' \<and> rep types s' (e @ es)"
    using assms s1 unfolding iwrites_def by fastforce
qed

lemma disemit_last: "decodes types b x \<Longrightarrow> iwrites types (disemit (Some b)) x"
  using disemit_iwrites [OF _ writes_iwrites [OF writes_none], of types b x] by (simp add: bind_runit)

text \<open>The items that are not cached.\<close>

lemma decodes_item:
  assumes k: "0 < k" "k \<le> 8" and n: "0 \<le> n" "n < 2 ^ 29" and off: "0 \<le> off" "off < 2 ^ 29"
    and i: "\<And>r d. (case load_item types (word_of_int k) n (at d off) (b @ r) d of Inl e \<Rightarrow> Inl e | Inr (d, r) \<Rightarrow> load_data types r d)
       = runs types es d (load_data types r)"
  shows "\<exists>h. dishead k n off = Some h \<and> decodes types (h @ b) es"
proof -
  obtain sm h where h: "dishead k n off = Some (sm # h)" "sm \<noteq> 0" "DTYPE sm = word_of_int k"
    "\<forall>r. \<exists>n' v. load_head sm (h @ r) = Some (n', v, r) \<and> sint n' = n \<and> sint v = off"
    using item_head [OF k n off] by blast
  have "load_data types ((sm # h @ b) @ r) d = runs types es d (load_data types r)" for r d
  proof -
    obtain n' v where "load_head sm (h @ b @ r) = Some (n', v, b @ r)" "sint n' = n" "sint v = off"
      using h(4) by blast
    then show ?thesis
      using h(2,3) i [of d r] by simp
  qed
  then show ?thesis
    using h(1) by (auto simp: decodes_def)
qed

lemma head_string:
  assumes "length nm < 2 ^ 29" "0 \<le> off" "off < 2 ^ 29"
  shows "\<exists>h. dishead DEFS (int (length nm)) off = Some h \<and> decodes types (h @ nm) [Put off (Vstr nm)]"
  by (rule decodes_item) (use assms in \<open>auto simp: load_item_def map_sum_def split: sum.splits\<close>)

lemma two_words: "get_many disw 2 (disword a @ disword b @ r) = Some ([ucast a, ucast b], r)"
  by (simp add: numeral_2_eq_2 disword_bytes4 disw_bytes4)

lemma head_array:
  assumes "0 \<le> off" "off < 2 ^ 29"
  shows "\<exists>h. dishead DEFA 1 off = Some h \<and> decodes types (h @ disword tid @ disword len) [Arr off (ucast tid) (ucast len)]"
  by (rule decodes_item) (use assms in \<open>auto simp: load_item_def map_sum_def two_words split: sum.splits\<close>)

lemma head_index:
  assumes "0 \<le> off" "off < 2 ^ 29"
  shows "\<exists>h. dishead DIND_item 1 off = Some h \<and> decodes types (h @ disword 0) [Ind off]"
  by (rule decodes_item) (use assms in \<open>auto simp: load_item_def map_sum_def disword_bytes4 disw_bytes4 split: sum.splits\<close>)

lemma head_pop: "\<exists>h. dishead DAPOP 1 0 = Some h \<and> decodes types h [Pop]"
  using decodes_item [of DAPOP 1 0 types "[]" "[Pop]"] by (simp add: load_item_def map_sum_def split: sum.splits)

section \<open>The events of an initial value\<close>

definition w32 :: "u64 \<Rightarrow> val" where
  "w32 v = Vword (scast (ucast v :: u32))"

fun ev_case :: "(u64 \<Rightarrow> val) \<Rightarrow> int \<Rightarrow> (u64 \<times> u64 \<times> u64) list \<Rightarrow> int \<Rightarrow> ev list" where
  "ev_case f step [] off = []"
| "ev_case f step ((lo, hi, pc) # ls) off = puts off [f lo, f (hi + 1), w32 pc] @ ev_case f step ls (off + step)"

fun ev_casec :: "(byte list \<times> byte list option \<times> u64) list \<Rightarrow> int \<Rightarrow> ev list" where
  "ev_casec [] off = []"
| "ev_casec ((lo, hi, pc) # ls) off =
     Put off (Vstr lo) # (case hi of None \<Rightarrow> [] | Some h \<Rightarrow> [Put (off + 8) (Vstr h)]) @ Put (off + 16) (w32 pc) # ev_casec ls (off + 24)"

definition iface_name :: "byte list option \<Rightarrow> byte list \<Rightarrow> byte list" where
  "iface_name adt nm = (case adt of None \<Rightarrow> [] | Some a \<Rightarrow> a @ [0x2E]) @ nm @ [0]"

fun ev_iface :: "(u64 \<times> byte list option \<times> byte list) list \<Rightarrow> int \<Rightarrow> ev list" where
  "ev_iface [] off = []"
| "ev_iface ((sg, adt, nm) # ids) off =
     (let off = align_to off 8
      in Put off (w32 sg) # puts (off + 8) (map Vbyte (iface_name adt nm)) @ ev_iface ids (off + 8 + int (length (iface_name adt nm))))"

type_synonym meaning = "int \<Rightarrow> ev list"

definition ev_elems :: "nat \<Rightarrow> nat list \<Rightarrow> meaning \<Rightarrow> ev list" where
  "ev_elems esz is f = concat (map (\<lambda>i. f (int (esz * i))) is)"

definition ev_wild :: "nat \<Rightarrow> nat list \<Rightarrow> meaning option \<Rightarrow> ev list" where
  "ev_wild esz is w = (case w of None \<Rightarrow> [] | Some f \<Rightarrow> ev_elems esz is f)"

fun ev_labels :: "nat \<Rightarrow> meaning option \<Rightarrow> (nat \<times> nat \<times> meaning) list \<Rightarrow> nat \<Rightarrow> nat \<Rightarrow> ev list" where
  "ev_labels esz w [] k len = ev_wild esz [k..<len] w"
| "ev_labels esz w ((e0, e1, f) # ls) k len =
     ev_wild esz [k..<e0] w @ ev_elems esz [e0..<e1 + 1] f @ ev_labels esz w ls (max e0 (e1 + 1)) len"

definition ev_array :: "int \<Rightarrow> u64 \<Rightarrow> nat \<Rightarrow> nat \<Rightarrow> ((nat \<times> nat \<times> meaning) list \<times> meaning option) option \<Rightarrow> ev list" where
  "ev_array off tid esz len init =
     Arr off (ucast tid) (word_of_nat len) # (case init of None \<Rightarrow> [] | Some (ls, w) \<Rightarrow> Ind off # ev_labels esz w ls 0 len @ [Pop])"

primrec events :: "datum \<Rightarrow> int \<Rightarrow> ev list" where
  "events (Tbyte v) = (\<lambda>off. [Put off (Vbyte (ucast v))])"
| "events (Tint v) = (\<lambda>off. [Put off (w32 v)])"
| "events (Tbig v) = (\<lambda>off. [Put off (Vlong v)])"
| "events (Tstring nm) = (\<lambda>off. [Put off (Vstr nm)])"
| "events (Treal b0 b1) = (\<lambda>off. [Put off (Vreal b0 b1)])"
| "events (Ttuple ids) = (\<lambda>off. concat (map (\<lambda>(o', f). f (off + o')) (map (map_prod id events) ids)))"
| "events Tany = (\<lambda>off. [])"
| "events (Tcase ls w) = (\<lambda>off. Put off (w32 (word_of_nat (length ls))) # ev_case w32 24 ls (off + 8) @ [Put (off + 8 + 24 * int (length ls)) (w32 (wildpc w))])"
| "events (Tcasel ls w) = (\<lambda>off. Put off (w32 (word_of_nat (length ls))) # ev_case Vlong 32 ls (off + 16) @ [Put (off + 16 + 32 * int (length ls)) (w32 (wildpc w))])"
| "events (Tcasec ls w) = (\<lambda>off. Put off (w32 (word_of_nat (length ls))) # ev_casec ls (off + 8) @ [Put (off + 8 + 24 * int (length ls)) (w32 (wildpc w))])"
| "events (Tgoto sz ls w) = (\<lambda>off. Put off (w32 (word_of_nat (sz div 8) - 1)) # puts (off + 8) (map w32 (ls @ (case w of None \<Rightarrow> [] | Some pc \<Rightarrow> [pc]))))"
| "events (Tarray tid esz len init) = (\<lambda>off.
     ev_array off tid esz len (map_option (map_prod (map (map_prod id (map_prod id events))) (map_option events)) init))"
| "events (Tiface v ids) = (\<lambda>off. Put off (w32 v) # ev_iface ids (off + 8))"

text \<open>What the compiler can write: offsets below 2^29, and names in an interface that fit the cache.\<close>

fun ev_ok :: "ev \<Rightarrow> bool" where
  "ev_ok (Put off x) \<longleftrightarrow> 0 \<le> off \<and> off + vwidth x < 2 ^ 29 \<and> (case x of Vstr nm \<Rightarrow> int (length nm) < 2 ^ 29 | _ \<Rightarrow> True)"
| "ev_ok (Arr off tid len) \<longleftrightarrow> 0 \<le> off \<and> off < 2 ^ 29"
| "ev_ok (Ind off) \<longleftrightarrow> 0 \<le> off \<and> off < 2 ^ 29"
| "ev_ok Pop \<longleftrightarrow> True"

primrec names_ok :: "datum \<Rightarrow> bool" where
  "names_ok (Tbyte v) = True" | "names_ok (Tint v) = True" | "names_ok (Tbig v) = True" | "names_ok (Tstring nm) = True"
| "names_ok (Treal b0 b1) = True" | "names_ok Tany = True" | "names_ok (Tcase ls w) = True" | "names_ok (Tcasel ls w) = True"
| "names_ok (Tcasec ls w) = True" | "names_ok (Tgoto sz ls w) = True"
| "names_ok (Ttuple ids) = list_all snd (map (map_prod id names_ok) ids)"
| "names_ok (Tarray tid esz len init) =
     (case map_option (map_prod (map (map_prod id (map_prod id names_ok))) (map_option names_ok)) init of
        None \<Rightarrow> True | Some (ls, w) \<Rightarrow> list_all (\<lambda>(_, _, b). b) ls \<and> w \<noteq> Some False)"
| "names_ok (Tiface v ids) = list_all (\<lambda>(_, adt, nm). int (length nm) < 1024 \<and> pred_option (\<lambda>a. int (length a) < 1024) adt) ids"

abbreviation evs_ok :: "ev list \<Rightarrow> bool" where
  "evs_ok es \<equiv> list_all ev_ok es"

lemma ev_ok_simps [simp]:
  "ev_ok (Put off (w32 v)) \<longleftrightarrow> 0 \<le> off \<and> off + 8 < 2 ^ 29" "ev_ok (Put off (Vstr nm)) \<longleftrightarrow> 0 \<le> off \<and> off + 8 < 2 ^ 29 \<and> length nm < 2 ^ 29"
  by (auto simp: w32_def)

declare ev_ok.simps(1) [simp del]

lemma ev_ok_put [simp]:
  "ev_ok (Put off (Vbyte b)) \<longleftrightarrow> 0 \<le> off \<and> off + 1 < 2 ^ 29" "ev_ok (Put off (Vlong v)) \<longleftrightarrow> 0 \<le> off \<and> off + 8 < 2 ^ 29"
  "ev_ok (Put off (Vreal x y)) \<longleftrightarrow> 0 \<le> off \<and> off + 8 < 2 ^ 29"
  by (auto simp: ev_ok.simps)

lemma val_w32 [simp]: "val_ok (w32 v)" "kindof (w32 v) = 2" "vwidth (w32 v) = 8" "enc (w32 v) = disword v"
  by (simp_all add: val_ok_def w32_def disword_bytes4 ucast_scast_u32)

lemma writes_int: "ev_ok (Put off (w32 v)) \<Longrightarrow> writes types (disint off v) [Put off (w32 v)]"
  using writes_vals [of "[w32 v]" 2 off types] by (simp add: disint_def [abs_def])

lemma writes_big: "ev_ok (Put off (Vlong v)) \<Longrightarrow> writes types (disbig off v) [Put off (Vlong v)]"
  using writes_vals [of "[Vlong v]" 8 off types] by (simp add: disbig_def [abs_def] val_ok_def)

lemma writes_real: "ev_ok (Put off (Vreal a b)) \<Longrightarrow> writes types (disreal off a b) [Put off (Vreal a b)]"
  using writes_vals [of "[Vreal a b]" 4 off types] by (simp add: disreal_def [abs_def] val_ok_def)

lemma writes_byte: "ev_ok (Put off (Vbyte (ucast v))) \<Longrightarrow> writes types (disbyte off v) [Put off (Vbyte (ucast v))]"
  using writes_vals [of "[Vbyte (ucast v)]" 1 off types] by (simp add: disbyte_def [abs_def] val_ok_def)

lemma vsum_bytes: "vsum (map Vbyte bs) = int (length bs)"
  by (induction bs) simp_all

lemma enc_bytes: "concat (map enc (map Vbyte bs)) = bs"
  by (induction bs) simp_all

lemma evs_ok_bytes: "0 \<le> off \<Longrightarrow> off + int (length bs) < 2 ^ 29 \<Longrightarrow> evs_ok (puts off (map Vbyte bs))"
  by (induction bs arbitrary: off) simp_all

lemma writes_bytes:
  assumes "length bs < 1024" "0 \<le> off" "off + int (length bs) < 2 ^ 29"
  shows "writes types (disbytes off bs) (puts off (map Vbyte bs))"
  using writes_vals [of "map Vbyte bs" 1 off types] assms unfolding disbytes_def [abs_def] vsum_bytes enc_bytes
  by (simp add: val_ok_def)

lemma writes_string:
  assumes "ev_ok (Put off (Vstr nm))"
  shows "writes types (disstring off nm) [Put off (Vstr nm)]"
proof -
  obtain h where h: "dishead DEFS (int (length nm)) off = Some h" "decodes types (h @ nm) [Put off (Vstr nm)]"
    using head_string [of nm off types] assms by auto
  show ?thesis
    using flush_iwrites [OF disemit_last [OF h(2)]] h(1) by (simp add: disstring_def [abs_def])
qed

lemma writes_bind': "writes types f a \<Longrightarrow> writes types g b \<Longrightarrow> c = a @ b \<Longrightarrow> writes types (\<lambda>s. Option.bind (f s) g) c"
  using writes_bind by blast

text \<open>A routine that also returns an offset.\<close>

definition writes_at :: "type_table \<Rightarrow> (dstate \<Rightarrow> ('a \<times> dstate) option) \<Rightarrow> 'a \<Rightarrow> ev list \<Rightarrow> bool" where
  "writes_at types f x es \<longleftrightarrow> (\<forall>s e. rep types s e \<longrightarrow> (\<exists>s'. f s = Some (x, s') \<and> rep types s' (e @ es)))"

lemma writes_at_nil: "writes_at types (\<lambda>s. Some (x, s)) x []"
  by (simp add: writes_at_def)

lemma writes_at_bind: "writes types f a \<Longrightarrow> writes_at types g x b \<Longrightarrow> c = a @ b \<Longrightarrow> writes_at types (\<lambda>s. Option.bind (f s) g) x c"
  unfolding writes_def writes_at_def by (metis append_assoc bind.bind_lunit)

lemma writes_then: "writes_at types f x a \<Longrightarrow> writes types (g x) b \<Longrightarrow> c = a @ b \<Longrightarrow> writes types (\<lambda>s. Option.bind (f s) (\<lambda>(y, s). g y s)) c"
  unfolding writes_def writes_at_def by (metis (no_types, lifting) append_assoc bind.bind_lunit case_prod_conv)

lemma discase_writes:
  "evs_ok (ev_case w32 24 ls off) \<Longrightarrow> writes_at types (discase ls off) (off + 24 * int (length ls)) (ev_case w32 24 ls off)"
proof (induction ls arbitrary: off)
  case Nil
  show ?case
    using writes_at_nil [of types off] by (simp add: writes_at_def)
next
  case (Cons l ls)
  obtain lo hi pc where l: "l = (lo, hi, pc)"
    by (cases l)
  have e: "off + 24 * int (length (l # ls)) = (off + 24) + 24 * int (length ls)" "off + 8 + 8 = off + 16"
    by simp_all
  have ok: "ev_ok (Put off (w32 lo))" "ev_ok (Put (off + 8) (w32 (hi + 1)))" "ev_ok (Put (off + 16) (w32 pc))" "evs_ok (ev_case w32 24 ls (off + 24))"
    using Cons.prems l by (simp_all add: add.assoc)
  have w: "writes_at types (\<lambda>s. Option.bind (disint off lo s) (\<lambda>s. Option.bind (disint (off + 8) (hi + 1) s) (\<lambda>s.
       Option.bind (disint (off + 16) pc s) (discase ls (off + 24))))) (off + 24 + 24 * int (length ls)) (ev_case w32 24 (l # ls) off)"
    by (rule writes_at_bind [OF writes_int [OF ok(1)] writes_at_bind [OF writes_int [OF ok(2)] writes_at_bind [OF writes_int [OF ok(3)] Cons.IH [OF ok(4)] refl] refl]])
      (simp add: l add.assoc)
  show ?case
    using w unfolding e(1) by (simp add: l)
qed

lemma discasel_writes:
  "evs_ok (ev_case Vlong 32 ls off) \<Longrightarrow> writes_at types (discasel ls off) (off + 32 * int (length ls)) (ev_case Vlong 32 ls off)"
proof (induction ls arbitrary: off)
  case Nil
  show ?case
    by (simp add: writes_at_def)
next
  case (Cons l ls)
  obtain lo hi pc where l: "l = (lo, hi, pc)"
    by (cases l)
  have e: "off + 32 * int (length (l # ls)) = (off + 32) + 32 * int (length ls)"
    by simp
  have ok: "ev_ok (Put off (Vlong lo))" "ev_ok (Put (off + 8) (Vlong (hi + 1)))" "ev_ok (Put (off + 16) (w32 pc))" "evs_ok (ev_case Vlong 32 ls (off + 32))"
    using Cons.prems l by (simp_all add: add.assoc)
  have w: "writes_at types (\<lambda>s. Option.bind (disbig off lo s) (\<lambda>s. Option.bind (disbig (off + 8) (hi + 1) s) (\<lambda>s.
       Option.bind (disint (off + 16) pc s) (discasel ls (off + 32))))) (off + 32 + 32 * int (length ls)) (ev_case Vlong 32 (l # ls) off)"
    by (rule writes_at_bind [OF writes_big [OF ok(1)] writes_at_bind [OF writes_big [OF ok(2)] writes_at_bind [OF writes_int [OF ok(3)] Cons.IH [OF ok(4)] refl] refl]])
      (simp add: l add.assoc)
  show ?case
    using w unfolding e by (simp add: l)
qed

lemma discasec_writes:
  "evs_ok (ev_casec ls off) \<Longrightarrow> writes_at types (discasec ls off) (off + 24 * int (length ls)) (ev_casec ls off)"
proof (induction ls arbitrary: off)
  case Nil
  show ?case
    by (simp add: writes_at_def)
next
  case (Cons l ls)
  obtain lo hi pc where l: "l = (lo, hi, pc)"
    by (cases l)
  have e: "off + 24 * int (length (l # ls)) = (off + 24) + 24 * int (length ls)"
    by simp
  let ?h = "case hi of None \<Rightarrow> [] | Some h \<Rightarrow> [Put (off + 8) (Vstr h)]"
  have ok: "ev_ok (Put off (Vstr lo))" "evs_ok ?h" "ev_ok (Put (off + 16) (w32 pc))" "evs_ok (ev_casec ls (off + 24))"
    using Cons.prems l by simp_all
  have h: "writes types (\<lambda>s. case hi of None \<Rightarrow> Some s | Some hi \<Rightarrow> disstring (off + 8) hi s) ?h"
    using ok(2) writes_none writes_string by (cases hi) auto
  have w: "writes_at types (\<lambda>s. Option.bind (disstring off lo s) (\<lambda>s. Option.bind (case hi of None \<Rightarrow> Some s | Some hi \<Rightarrow> disstring (off + 8) hi s) (\<lambda>s.
       Option.bind (disint (off + 16) pc s) (discasec ls (off + 24))))) (off + 24 + 24 * int (length ls)) (ev_casec (l # ls) off)"
    by (rule writes_at_bind [OF writes_string [OF ok(1)] writes_at_bind [OF h writes_at_bind [OF writes_int [OF ok(3)] Cons.IH [OF ok(4)] refl] refl]])
      (simp add: l)
  show ?case
    using w unfolding e by (simp add: l)
qed

lemma disgoto_writes:
  "evs_ok (puts off (map w32 ls)) \<Longrightarrow> writes_at types (disgoto ls off) (off + 8 * int (length ls)) (puts off (map w32 ls))"
proof (induction ls arbitrary: off)
  case Nil
  show ?case
    by (simp add: writes_at_def)
next
  case (Cons pc ls)
  have e: "off + 8 * int (length (pc # ls)) = (off + 8) + 8 * int (length ls)"
    by simp
  have ok: "ev_ok (Put off (w32 pc))" "evs_ok (puts (off + 8) (map w32 ls))"
    using Cons.prems by simp_all
  have "writes_at types (\<lambda>s. Option.bind (disint off pc s) (disgoto ls (off + 8))) (off + 8 + 8 * int (length ls)) (puts off (map w32 (pc # ls)))"
    by (rule writes_at_bind [OF writes_int [OF ok(1)] Cons.IH [OF ok(2)]]) simp
  then show ?case
    unfolding e by simp
qed

lemma evs_ok_room: "bs \<noteq> [] \<Longrightarrow> evs_ok (puts off (map Vbyte bs)) \<Longrightarrow> 0 \<le> off \<and> off + int (length bs) < 2 ^ 29"
proof (induction bs arbitrary: off)
  case (Cons b bs)
  then show ?case
    by (cases bs) force+
qed simp

lemma name_writes:
  assumes n: "length nm < 1024" and ok: "0 \<le> off" "off + int (length nm) + 1 < 2 ^ 29"
    and g: "writes types (g (off + int (length nm) + 1)) es" and c: "ucast c = b"
  shows "writes types (\<lambda>s. Option.bind (disbytes off nm s) (\<lambda>s. Option.bind (disbyte (off + int (length nm)) c s) (g (off + int (length nm) + 1))))
    (puts off (map Vbyte (nm @ [b])) @ es)"
proof -
  have b: "writes types (disbyte (off + int (length nm)) c) [Put (off + int (length nm)) (Vbyte (ucast c))]"
    using ok by (intro writes_byte) simp
  show ?thesis
    by (rule writes_bind' [OF writes_bytes [OF n ok(1)] writes_bind' [OF b g refl]]) (use ok c in \<open>simp_all add: puts_append vsum_bytes\<close>)
qed

lemma disiface_writes:
  "evs_ok (ev_iface ids off) \<Longrightarrow> list_all (\<lambda>(_, adt, nm). int (length nm) < 1024 \<and> pred_option (\<lambda>a. int (length a) < 1024) adt) ids
    \<Longrightarrow> writes types (disiface ids off) (ev_iface ids off)"
proof (induction ids arbitrary: off)
  case Nil
  show ?case
    using writes_none [of types] by (simp add: writes_def)
next
  case (Cons i ids)
  obtain sg adt nm where i: "i = (sg, adt, nm)"
    by (cases i)
  define o8 where "o8 = align_to off 8 + 8"
  let ?n = "iface_name adt nm"
  have ev: "ev_iface (i # ids) off = Put (align_to off 8) (w32 sg) # puts o8 (map Vbyte ?n) @ ev_iface ids (o8 + int (length ?n))"
    by (simp add: i o8_def Let_def)
  have len: "length nm < 1024" "\<And>a. adt = Some a \<Longrightarrow> length a < 1024"
    using Cons.prems(2) i by simp_all
  have ih: "writes types (disiface ids (o8 + int (length ?n))) (ev_iface ids (o8 + int (length ?n)))"
    using Cons.prems by (intro Cons.IH) (simp_all add: ev)
  have room: "0 \<le> o8" "o8 + int (length ?n) < 2 ^ 29"
    using evs_ok_room [of ?n o8] Cons.prems(1) by (auto simp: ev iface_name_def)
  have sg: "writes types (disint (align_to off 8) sg) [Put (align_to off 8) (w32 sg)]"
    using Cons.prems(1) by (intro writes_int) (simp add: ev)
  show ?case
  proof (cases adt)
    case None
    have l: "o8 + int (length ?n) = o8 + int (length nm) + 1"
      by (simp add: iface_name_def None)
    have n: "writes types (\<lambda>s. Option.bind (disbytes o8 nm s) (\<lambda>s. Option.bind (disbyte (o8 + int (length nm)) 0 s) (disiface ids (o8 + int (length nm) + 1))))
      (puts o8 (map Vbyte (nm @ [0])) @ ev_iface ids (o8 + int (length nm) + 1))"
      by (rule name_writes [where g = "\<lambda>off. disiface ids off", OF len(1) room(1)]) (use room ih in \<open>simp_all add: l\<close>)
    have "disiface (i # ids) off = (\<lambda>s. Option.bind (disint (align_to off 8) sg s) (\<lambda>s. Option.bind (disbytes o8 nm s)
        (\<lambda>s. Option.bind (disbyte (o8 + int (length nm)) 0 s) (disiface ids (o8 + int (length nm) + 1)))))"
      by (rule ext) (simp add: i None Let_def o8_def)
    then show ?thesis
      using writes_bind' [OF sg n refl] unfolding ev l by (simp add: iface_name_def None)
  next
    case (Some a)
    define o9 where "o9 = o8 + int (length a) + 1"
    have l: "o8 + int (length ?n) = o9 + int (length nm) + 1"
      by (simp add: iface_name_def Some o9_def)
    have n: "writes types (\<lambda>s. Option.bind (disbytes o9 nm s) (\<lambda>s. Option.bind (disbyte (o9 + int (length nm)) 0 s) (disiface ids (o9 + int (length nm) + 1))))
      (puts o9 (map Vbyte (nm @ [0])) @ ev_iface ids (o9 + int (length nm) + 1))"
      by (rule name_writes [where g = "\<lambda>off. disiface ids off", OF len(1)]) (use room ih in \<open>simp_all add: l o9_def\<close>)
    have a: "writes types (\<lambda>s. Option.bind (disbytes o8 a s) (\<lambda>s. Option.bind (disbyte (o8 + int (length a)) 0x2E s)
        (\<lambda>s. Option.bind (disbytes o9 nm s) (\<lambda>s. Option.bind (disbyte (o9 + int (length nm)) 0 s) (disiface ids (o9 + int (length nm) + 1))))))
      (puts o8 (map Vbyte (a @ [0x2E])) @ puts o9 (map Vbyte (nm @ [0])) @ ev_iface ids (o9 + int (length nm) + 1))"
      by (rule name_writes [where g = "\<lambda>_ s. Option.bind (disbytes o9 nm s) (\<lambda>s. Option.bind (disbyte (o9 + int (length nm)) 0 s) (disiface ids (o9 + int (length nm) + 1)))",
            OF len(2) [OF Some] room(1)]) (use room n in \<open>simp_all add: l o9_def\<close>)
    have p: "puts o8 (map Vbyte ?n) = puts o8 (map Vbyte (a @ [0x2E])) @ puts o9 (map Vbyte (nm @ [0]))"
      by (simp add: iface_name_def Some puts_append vsum_bytes o9_def)
    have "disiface (i # ids) off s = Option.bind (disint (align_to off 8) sg s) (\<lambda>s. Option.bind (disbytes o8 a s) (\<lambda>s. Option.bind (disbyte (o8 + int (length a)) 0x2E s)
        (\<lambda>s. Option.bind (disbytes o9 nm s) (\<lambda>s. Option.bind (disbyte (o9 + int (length nm)) 0 s) (disiface ids (o9 + int (length nm) + 1))))))" for s
      by (simp add: i Some Let_def o8_def o9_def bind_assoc bind_map_option comp_def add.assoc)
    then have "disiface (i # ids) off = (\<lambda>s. Option.bind (disint (align_to off 8) sg s) (\<lambda>s. Option.bind (disbytes o8 a s) (\<lambda>s. Option.bind (disbyte (o8 + int (length a)) 0x2E s)
        (\<lambda>s. Option.bind (disbytes o9 nm s) (\<lambda>s. Option.bind (disbyte (o9 + int (length nm)) 0 s) (disiface ids (o9 + int (length nm) + 1)))))))"
      by (rule ext)
    then show ?thesis
      using writes_bind' [OF sg a refl] unfolding ev l p by simp
  qed
qed

lemma diselems_writes:
  "(\<And>i. i \<in> set is \<Longrightarrow> writes types (w (int (esz * i))) (f (int (esz * i)))) \<Longrightarrow> writes types (diselems esz is w) (ev_elems esz is f)"
proof (induction "is")
  case Nil
  show ?case
    using writes_none [of types] by (simp add: writes_def diselems_def ev_elems_def)
next
  case (Cons i "is")
  have "writes types (\<lambda>s. Option.bind (w (int (esz * i)) s) (diselems esz is w)) (f (int (esz * i)) @ ev_elems esz is f)"
    by (rule writes_bind) (use Cons in auto)
  then show ?case
    by (simp add: diselems_def [abs_def] ev_elems_def)
qed

text \<open>\<open>wf types w f\<close>: the routine \<open>w\<close> writes what \<open>f\<close> says, at every offset where the compiler can write it.\<close>

definition writer_ok :: "type_table \<Rightarrow> writer \<Rightarrow> meaning \<Rightarrow> bool" where
  "writer_ok types w f \<longleftrightarrow> (\<forall>off. evs_ok (f off) \<longrightarrow> writes types (w off) (f off))"

lemma elems_ok: "writer_ok types w f \<Longrightarrow> evs_ok (ev_elems esz is f) \<Longrightarrow> writes types (diselems esz is w) (ev_elems esz is f)"
  by (rule diselems_writes) (auto simp: writer_ok_def ev_elems_def list_all_iff)

lemma wild_ok:
  "rel_option (writer_ok types) w f \<Longrightarrow> evs_ok (ev_wild esz is f) \<Longrightarrow> writes types (diswild esz is w) (ev_wild esz is f)"
  using writes_none [of types] elems_ok [of types]
  by (cases w; cases f) (auto simp: diswild_def [abs_def] ev_wild_def writes_def)

lemma labels_ok:
  assumes w: "rel_option (writer_ok types) w f"
  shows "list_all2 (rel_prod (=) (rel_prod (=) (writer_ok types))) ls fs \<Longrightarrow> evs_ok (ev_labels esz f fs k len)
    \<Longrightarrow> writes types (\<lambda>s. Option.bind (dislabels esz w ls k s) (\<lambda>(k, s). diswild esz [k..<len] w s)) (ev_labels esz f fs k len)"
proof (induction ls fs arbitrary: k rule: list_all2_induct)
  case Nil
  then show ?case
    using wild_ok [OF w] by simp
next
  case (Cons l ls x fs)
  obtain e0 e1 u g where l: "l = (e0, e1, u)" "x = (e0, e1, g)" "writer_ok types u g"
    using Cons.hyps(1) by (cases l; cases x) auto
  have ok: "evs_ok (ev_wild esz [k..<e0] f)" "evs_ok (ev_elems esz [e0..<e1 + 1] g)" "evs_ok (ev_labels esz f fs (max e0 (e1 + 1)) len)"
    using Cons.prems l by simp_all
  have b: "(\<lambda>s. Option.bind (dislabels esz w (l # ls) k s) (\<lambda>(k, s). diswild esz [k..<len] w s))
    = (\<lambda>s. Option.bind (diswild esz [k..<e0] w s) (\<lambda>s. Option.bind (diselems esz [e0..<e1 + 1] u s)
        (\<lambda>s. Option.bind (dislabels esz w ls (max e0 (e1 + 1)) s) (\<lambda>(k, s). diswild esz [k..<len] w s))))"
    by (rule ext) (simp add: l bind_assoc del: upt_Suc)
  show ?case
    unfolding b using writes_bind [OF wild_ok [OF w ok(1)] writes_bind [OF elems_ok [OF l(3) ok(2)] Cons.IH [OF ok(3)]]]
    by (simp add: l del: upt_Suc)
qed

lemma array_ok:
  assumes i: "rel_option (rel_prod (list_all2 (rel_prod (=) (rel_prod (=) (writer_ok types)))) (rel_option (writer_ok types))) wi fi"
    and ok: "evs_ok (ev_array off tid esz len fi)"
  shows "writes types (disarray off tid esz len wi) (ev_array off tid esz len fi)"
proof -
  have off: "0 \<le> off" "off < 2 ^ 29"
    using ok by (simp_all add: ev_array_def)
  obtain h where h: "dishead DEFA 1 off = Some h" "decodes types (h @ disword tid @ disword (word_of_nat len)) [Arr off (ucast tid) (ucast (word_of_nat len :: u64))]"
    using head_array [OF off] by blast
  have len: "ucast (word_of_nat len :: u64) = (word_of_nat len :: u32)"
    by (rule bit_word_eqI) (simp add: bit_simps)
  show ?thesis
  proof (cases wi)
    case None
    then have "fi = None"
      using i by (cases fi) auto
    then show ?thesis
      using None flush_iwrites [OF disemit_last [OF h(2)]] h(1) by (simp add: disarray_def [abs_def] ev_array_def len bind_runit)
  next
    case (Some lw)
    obtain ls w where lw: "wi = Some (ls, w)"
      using Some by (cases lw) auto
    then obtain fs f where f: "fi = Some (fs, f)" "list_all2 (rel_prod (=) (rel_prod (=) (writer_ok types))) ls fs" "rel_option (writer_ok types) w f"
      using i by (cases fi) auto
    obtain g where g: "dishead DIND_item 1 off = Some g" "decodes types (g @ disword 0) [Ind off]"
      using head_index [OF off] by blast
    obtain q where q: "dishead DAPOP 1 0 = Some q" "decodes types q [Pop]"
      using head_pop by blast
    have lok: "evs_ok (ev_labels esz f fs 0 len)"
      using ok f(1) by (simp add: ev_array_def)
    have body: "writes types (\<lambda>s. Option.bind (Option.bind (dislabels esz w ls 0 s) (\<lambda>(k, s). diswild esz [k..<len] w s))
        (\<lambda>s. Option.bind (disflush (-1) (-1) 0 s) (disemit (Some q)))) (ev_labels esz f fs 0 len @ [Pop])"
      by (rule writes_bind [OF labels_ok [OF f(3,2) lok] flush_iwrites [OF disemit_last [OF q(2)]]])
    have "disarray off tid esz len wi = (\<lambda>s. Option.bind (disflush (-1) (-1) 0 s) (\<lambda>s. Option.bind (disemit (Some (h @ disword tid @ disword (word_of_nat len))) s)
        (\<lambda>s. Option.bind (disemit (Some (g @ disword 0)) s) (\<lambda>s. Option.bind (Option.bind (dislabels esz w ls 0 s) (\<lambda>(k, s). diswild esz [k..<len] w s))
        (\<lambda>s. Option.bind (disflush (-1) (-1) 0 s) (disemit (Some q)))))))"
      by (rule ext) (simp add: disarray_def lw h(1) g(1) q(1) bind_assoc case_prod_unfold)
    then show ?thesis
      using flush_iwrites [OF disemit_iwrites [OF h(2) disemit_iwrites [OF g(2) writes_iwrites [OF body]]]]
      by (simp add: ev_array_def f(1) len)
  qed
qed

lemma ids_ok:
  "list_all2 (rel_prod (=) (writer_ok types)) ws fs \<Longrightarrow> evs_ok (concat (map (\<lambda>(o', f). f (off + o')) fs))
    \<Longrightarrow> writes types (disids off ws) (concat (map (\<lambda>(o', f). f (off + o')) fs))"
proof (induction ws fs rule: list_all2_induct)
  case Nil
  show ?case
    using writes_none [of types] by (simp add: writes_def)
next
  case (Cons u us x fs)
  obtain o' w f where l: "u = (o', w)" "x = (o', f)" "writer_ok types w f"
    using Cons.hyps(1) by (cases u; cases x) auto
  have "writes types (\<lambda>s. Option.bind (w (off + o') s) (disids off us)) (f (off + o') @ concat (map (\<lambda>(o', f). f (off + o')) fs))"
    by (rule writes_bind) (use Cons l in \<open>auto simp: writer_ok_def\<close>)
  then show ?case
    by (simp add: l)
qed

lemma writer_okI: "(\<And>off. evs_ok (f off) \<Longrightarrow> writes types (w off) (f off)) \<Longrightarrow> writer_ok types w f"
  by (simp add: writer_ok_def)

lemma case_writes:
  assumes "ev_ok (Put off (w32 n))" "ev_ok (Put off2 (w32 pc))" "writes_at types f off2 es"
  shows "writes types (\<lambda>s. Option.bind (disint off n s) (\<lambda>s. Option.bind (f s) (\<lambda>(off, s). disint off pc s))) (Put off (w32 n) # es @ [Put off2 (w32 pc)])"
  by (rule writes_bind' [OF writes_int [OF assms(1)] writes_then [OF assms(3), where g = "\<lambda>off. disint off pc"]]) (use writes_int [OF assms(2)] in auto)

lemma goto_writes:
  assumes "evs_ok (events (Tgoto sz ls w) off)"
  shows "writes types (disdatum (Tgoto sz ls w) off) (events (Tgoto sz ls w) off)"
proof -
  let ?w = "case w of None \<Rightarrow> [] | Some pc \<Rightarrow> [pc]" and ?o = "off + 8 + 8 * int (length ls)"
  have v: "vsum (map w32 ls) = 8 * int (length ls)"
    by (induction ls) simp_all
  have p: "puts (off + 8) (map w32 (ls @ ?w)) = puts (off + 8) (map w32 ls) @ puts ?o (map w32 ?w)"
    by (simp add: puts_append v)
  have ok: "ev_ok (Put off (w32 (word_of_nat (sz div 8) - 1)))" "evs_ok (puts (off + 8) (map w32 ls))" "evs_ok (puts ?o (map w32 ?w))"
    using assms unfolding events.simps p by simp_all
  have "writes types (\<lambda>s. case w of None \<Rightarrow> Some s | Some pc \<Rightarrow> disint ?o pc s) (puts ?o (map w32 ?w))"
    using ok(3) writes_none [of types] writes_int [of ?o _ types] by (cases w) auto
  then show ?thesis
    unfolding events.simps p disdatum.simps
    by (intro writes_bind' [OF writes_int [OF ok(1)] writes_then [OF disgoto_writes [OF ok(2)], where g = "\<lambda>off s. case w of None \<Rightarrow> Some s | Some pc \<Rightarrow> disint off pc s"]]) auto
qed

lemma disdatum_ok: "names_ok x \<Longrightarrow> writer_ok types (disdatum x) (events x)"
proof (induction x)
  case (Ttuple ids)
  have "list_all2 (rel_prod (=) (writer_ok types)) (map (map_prod id disdatum) ids) (map (map_prod id events) ids)"
    using Ttuple by (auto simp: list_all2_map1 list_all2_map2 list_all_iff rel_prod_sel intro!: list.rel_refl_strong)
  then show ?case
    using ids_ok unfolding disdatum.simps events.simps by (intro writer_okI) blast
next
  case (Tarray tid esz len init)
  have "rel_option (rel_prod (list_all2 (rel_prod (=) (rel_prod (=) (writer_ok types)))) (rel_option (writer_ok types)))
      (map_option (map_prod (map (map_prod id (map_prod id disdatum))) (map_option disdatum)) init)
      (map_option (map_prod (map (map_prod id (map_prod id events))) (map_option events)) init)"
  proof (cases init)
    case (Some lw)
    obtain ls w where lw: "init = Some (ls, w)"
      using Some by (cases lw) auto
    have "writer_ok types (disdatum d) (events d)" if "(e0, e1, d) \<in> set ls" for e0 e1 d
      using Tarray.IH(1) [of "(ls, w)" "ls" "(e0, e1, d)" "(e1, d)" d] Tarray.prems that lw by (auto simp: list_all_iff)
    then have "list_all2 (rel_prod (=) (rel_prod (=) (writer_ok types))) (map (map_prod id (map_prod id disdatum)) ls) (map (map_prod id (map_prod id events)) ls)"
      by (auto simp: list_all2_map1 list_all2_map2 rel_prod_sel intro!: list.rel_refl_strong)
    moreover have "rel_option (writer_ok types) (map_option disdatum w) (map_option events w)"
      using Tarray.IH(2) [of "(ls, w)" w] Tarray.prems lw by (cases w) auto
    ultimately show ?thesis
      by (simp add: lw)
  qed simp
  then show ?case
    by (auto intro!: writer_okI array_ok)
next
  case (Tcase ls w)
  show ?case
    by (rule writer_okI) (simp, intro case_writes discase_writes, simp_all)
next
  case (Tcasel ls w)
  show ?case
    by (rule writer_okI) (simp, intro case_writes discasel_writes, simp_all)
next
  case (Tcasec ls w)
  show ?case
    by (rule writer_okI) (simp, intro case_writes discasec_writes, simp_all)
next
  case (Tgoto sz ls w)
  show ?case
    by (rule writer_okI) (rule goto_writes)
next
  case (Tiface v ids)
  then have "writes types (\<lambda>s. Option.bind (disint off v s) (disiface ids (off + 8))) ([Put off (w32 v)] @ ev_iface ids (off + 8))"
    if "evs_ok (events (Tiface v ids) off)" for off
    using that by (intro writes_bind writes_int disiface_writes) simp_all
  then show ?case
    by (auto intro!: writer_okI)
qed (auto intro!: writer_okI simp: writes_byte writes_int writes_big writes_string writes_real writes_none)

section \<open>What the initial values mean in memory\<close>

text \<open>
  The specification of the data section does not use the items of the section or the loader's stack.  \<open>put_val\<close> stores a value at an
  address, \<open>put_array\<close> makes an array and stores its address, \<open>elem_list\<close> lists the elements of an array in the order in which they are
  initialised, and \<open>store_datum x\<close> stores the initial value \<open>x\<close> at an offset from the address \<open>base\<close>: a plain value in one object,
  the members of a tuple at their offsets, and the elements of an array in the object of the array.  Arrays lie at most \<open>DADEPTH\<close> deep in
  each other; \<open>depth\<close> counts them.
\<close>

definition put_val :: "maddr \<Rightarrow> val \<Rightarrow> ldata \<Rightarrow> load_error + ldata" where
  "put_val a x d =
     (if snd a < 0 \<or> lobsize d (fst a) < snd a + vwidth x then Inl Overrun_data
      else Inr (d\<lparr>lmem := \<lambda>ob y. if ob = fst a \<and> snd a \<le> y \<and> y < snd a + vwidth x then Part x (nat (y - snd a)) else lmem d ob y\<rparr>))"

definition sumbind :: "'e + 'a \<Rightarrow> ('a \<Rightarrow> 'e + 'b) \<Rightarrow> 'e + 'b" where
  "sumbind x f = (case x of Inl e \<Rightarrow> Inl e | Inr y \<Rightarrow> f y)"

lemma sumbind_simps [simp]: "sumbind (Inl e) f = Inl e" "sumbind (Inr y) f = f y"
  by (simp_all add: sumbind_def)

fun seqs :: "('s \<Rightarrow> 'e + 's) list \<Rightarrow> 's \<Rightarrow> 'e + 's" where
  "seqs [] s = Inr s"
| "seqs (f # fs) s = sumbind (f s) (seqs fs)"

fun put_plain :: "maddr \<Rightarrow> ev \<Rightarrow> ldata \<Rightarrow> load_error + ldata" where
  "put_plain base (Put off x) d = put_val (fst base, snd base + off) x d"
| "put_plain base _ d = Inr d"

definition put_array :: "type_table \<Rightarrow> maddr \<Rightarrow> u32 \<Rightarrow> u32 \<Rightarrow> ldata \<Rightarrow> load_error + ldata" where
  "put_array types a tid len d =
     (if sint tid < 0 \<or> int (length types) < sint tid then Inl BadArray
      else if sint tid = int (length types) then Inl Overrun_type
      else case types ! nat (sint tid) of None \<Rightarrow> Inl Overrun_type
      | Some t \<Rightarrow>
        if sint len < 0 then Inl Overrun_data
        else put_val a (Vptr (lnobj d))
          (d\<lparr>lnobj := Suc (lnobj d), lobsize := (lobsize d)(lnobj d := sint (tsize t) * sint len),
             larr := (larr d)(lnobj d \<mapsto> (t, sint len)), lmem := (lmem d)(lnobj d := (\<lambda>_. Fresh))\<rparr>))"

fun elem_list :: "'a option \<Rightarrow> (nat \<times> nat \<times> 'a) list \<Rightarrow> nat \<Rightarrow> nat \<Rightarrow> (nat \<times> 'a) list" where
  "elem_list w [] k len = (case w of None \<Rightarrow> [] | Some x \<Rightarrow> map (\<lambda>i. (i, x)) [k..<len])"
| "elem_list w ((e0, e1, y) # ls) k len =
     (case w of None \<Rightarrow> [] | Some x \<Rightarrow> map (\<lambda>i. (i, x)) [k..<e0]) @ map (\<lambda>i. (i, y)) [e0..<e1 + 1] @ elem_list w ls (max e0 (e1 + 1)) len"

type_synonym storing = "type_table \<Rightarrow> nat \<Rightarrow> maddr \<Rightarrow> int \<Rightarrow> ldata \<Rightarrow> load_error + ldata"

definition plain :: "meaning \<Rightarrow> storing" where
  "plain f = (\<lambda>types depth base off. seqs (map (put_plain base) (f off)))"

definition store_array :: "u64 \<Rightarrow> nat \<Rightarrow> nat \<Rightarrow> ((nat \<times> nat \<times> storing) list \<times> storing option) option \<Rightarrow> storing" where
  "store_array tid esz len init = (\<lambda>types depth base off d.
     sumbind (put_array types (fst base, snd base + off) (ucast tid) (word_of_nat len) d) (\<lambda>d'.
       case init of None \<Rightarrow> Inr d'
       | Some (ls, w) \<Rightarrow>
         if DADEPTH \<le> depth then Inl InitRange
         else seqs (map (\<lambda>(i, f). f types (Suc depth) (lnobj d, 0) (int (esz * i))) (elem_list w ls 0 len)) d'))"

primrec store_datum :: "datum \<Rightarrow> storing" where
  "store_datum (Tbyte v) = plain (events (Tbyte v))"
| "store_datum (Tint v) = plain (events (Tint v))"
| "store_datum (Tbig v) = plain (events (Tbig v))"
| "store_datum (Tstring nm) = plain (events (Tstring nm))"
| "store_datum (Treal b0 b1) = plain (events (Treal b0 b1))"
| "store_datum (Ttuple ids) = (\<lambda>types depth base off. seqs (map (\<lambda>(o', f). f types depth base (off + o')) (map (map_prod id store_datum) ids)))"
| "store_datum Tany = plain (events Tany)"
| "store_datum (Tcase ls w) = plain (events (Tcase ls w))"
| "store_datum (Tcasel ls w) = plain (events (Tcasel ls w))"
| "store_datum (Tcasec ls w) = plain (events (Tcasec ls w))"
| "store_datum (Tgoto sz ls w) = plain (events (Tgoto sz ls w))"
| "store_datum (Tarray tid esz len init) = store_array tid esz len (map_option (map_prod (map (map_prod id (map_prod id store_datum))) (map_option store_datum)) init)"
| "store_datum (Tiface v ids) = plain (events (Tiface v ids))"

definition store_data :: "type_table \<Rightarrow> (int \<times> datum) list \<Rightarrow> ldata \<Rightarrow> load_error + ldata" where
  "store_data types ds d = seqs (map (\<lambda>(off, x). store_datum x types (length (lstack d)) (laddr d) off) ds) d"

text \<open>The loader keeps_addr an address and a stack of addresses, where the specification passes an address and a depth.\<close>

abbreviation there :: "maddr \<Rightarrow> maddr list \<Rightarrow> ldata \<Rightarrow> ldata" where
  "there base st d \<equiv> d\<lparr>laddr := base, lstack := st\<rparr>"

definition keeps_addr :: "(ldata \<Rightarrow> load_error + ldata) \<Rightarrow> bool" where
  "keeps_addr g \<longleftrightarrow> (\<forall>d d'. g d = Inr d' \<longrightarrow> laddr d' = laddr d \<and> lstack d' = lstack d)"

definition does :: "type_table \<Rightarrow> maddr \<Rightarrow> maddr list \<Rightarrow> ev list \<Rightarrow> (ldata \<Rightarrow> load_error + ldata) \<Rightarrow> bool" where
  "does types base st es g \<longleftrightarrow> (\<forall>d. runs types es (there base st d) Inr = map_sum id (there base st) (g d)) \<and> keeps_addr g"

lemma runs_sumbind: "runs types es d k = sumbind (runs types es d Inr) k"
  by (induction es arbitrary: d) (auto split: sum.splits)

lemma does_nil: "does types base st [] Inr"
  by (simp add: does_def keeps_addr_def)

lemma sumbind_Inr: "sumbind x Inr = x"
  by (simp add: sumbind_def split: sum.splits)

lemma does_append:
  assumes "does types base st a f" "does types base st b g"
  shows "does types base st (a @ b) (\<lambda>d. sumbind (f d) g)"
proof -
  have "runs types (a @ b) (there base st d) Inr = map_sum id (there base st) (sumbind (f d) g)" for d
    unfolding runs_append using assms
    by (subst runs_sumbind) (cases "f d"; simp add: does_def)
  moreover have "keeps_addr (\<lambda>d. sumbind (f d) g)"
    using assms unfolding does_def keeps_addr_def by (auto simp: sumbind_def split: sum.splits)
  ultimately show ?thesis
    by (simp add: does_def)
qed

lemma does_seqs: "list_all2 (does types base st) es gs \<Longrightarrow> does types base st (concat es) (seqs gs)"
proof (induction rule: list_all2_induct)
  case Nil
  have "seqs [] = (Inr :: ldata \<Rightarrow> load_error + ldata)"
    by (rule ext) simp
  then show ?case
    using does_nil by simp
next
  case (Cons e es g gs)
  have "seqs (g # gs) = (\<lambda>d. sumbind (g d) (seqs gs))"
    by (rule ext) simp
  then show ?case
    using does_append [OF Cons.hyps(1) Cons.IH] by simp
qed

lemma poke_put: "poke (at (there base st d) off) x (there base st d) = map_sum id (there base st) (put_val (fst base, snd base + off) x d)"
  by (auto simp: poke_def put_val_def at_def fun_eq_iff)

lemma put_keeps: "keeps_addr (put_val a x)"
  by (simp add: keeps_addr_def put_val_def)

lemma does_put: "does types base st [Put off x] (put_plain base (Put off x))"
  using put_keeps by (simp add: does_def poke_put keeps_addr_def split: sum.splits)

lemma does_plain:
  assumes "list_all (\<lambda>e. \<exists>off x. e = Put off x) es"
  shows "does types base st es (seqs (map (put_plain base) es))"
proof -
  have "list_all2 (does types base st) (map (\<lambda>e. [e]) es) (map (put_plain base) es)"
    unfolding list_all2_map1 list_all2_map2
  proof (rule list.rel_refl_strong)
    fix e assume "e \<in> set es"
    then obtain off x where "e = Put off x"
      using assms by (auto simp: list_all_iff)
    then show "does types base st [e] (put_plain base e)"
      using does_put by simp
  qed
  then show ?thesis
    using does_seqs [of types base st "map (\<lambda>e. [e]) es"] by simp
qed

lemma put_array_poke:
  "load_array types (at (there base st d) off) tid len (there base st d)
     = map_sum id (there base st) (put_array types (fst base, snd base + off) tid len d)"
proof -
  have p: "poke (at (there base st d) off) x (there base st d') = map_sum id (there base st) (put_val (fst base, snd base + off) x d')" for x d'
    using poke_put [where d = d' and base = base and st = st and off = off and x = x] by (simp add: at_def)
  have n: "new_array t n (at (there base st d) off) (there base st d) = map_sum id (there base st) (put_val (fst base, snd base + off) (Vptr (lnobj d))
      (d\<lparr>lnobj := Suc (lnobj d), lobsize := (lobsize d)(lnobj d := sint (tsize t) * n), larr := (larr d)(lnobj d \<mapsto> (t, n)), lmem := (lmem d)(lnobj d := (\<lambda>_. Fresh))\<rparr>))" for t n
    unfolding p [symmetric] by (cases d) (simp add: new_array_def Let_def)
  have u: "0 \<le> sint tid \<Longrightarrow> unat tid = nat (sint tid)"
    using sint_lt [of tid] uint_sint [of tid] by (simp add: take_bit_int_eq_self unat_eq_nat_uint)
  show ?thesis
    using u by (auto simp: load_array_def put_array_def lookup_type_def n split: option.splits)
qed

lemma put_array_keeps: "keeps_addr (put_array types a tid len)"
  using put_keeps unfolding keeps_addr_def put_array_def by (fastforce split: if_splits option.splits)

lemma put_array_index:
  assumes "put_array types (fst base, snd base + off) tid len d = Inr d'"
  shows "load_index (at (there base st d') off) 0 (there base st d')
    = (if DADEPTH \<le> length st then Inl InitRange else Inr (there (lnobj d, 0) (base # st) d'))"
proof -
  obtain t where t: "larr d' (lnobj d) = Some (t, sint len)" "0 \<le> sint len"
    "\<And>k. 0 \<le> k \<Longrightarrow> k < 8 \<Longrightarrow> lmem d' (fst base) (snd base + off + k) = Part (Vptr (lnobj d)) (nat k)"
    using assms by (auto simp: put_array_def put_val_def split: if_splits option.splits)
  have "peek (at (there base st d') off) (there base st d') = Some (lnobj d)"
    using t(3) [of 0] t(3) by (simp add: peek_def at_def)
  then show ?thesis
    using t(1,2) by (simp add: load_index_def)
qed

lemma does_array: "does types base st [Arr off tid len] (put_array types (fst base, snd base + off) tid len)"
  using put_array_keeps by (simp add: does_def put_array_poke split: sum.splits)

lemma does_elems:
  assumes "\<And>a. does types (a, 0) (base # st) es (g a)"
  shows "does types base st (Arr off tid len # Ind off # es @ [Pop])
    (\<lambda>d. sumbind (put_array types (fst base, snd base + off) tid len d) (\<lambda>d'. if DADEPTH \<le> length st then Inl InitRange else g (lnobj d) d'))"
proof -
  let ?p = "put_array types (fst base, snd base + off) tid len"
  have "runs types (Arr off tid len # Ind off # es @ [Pop]) (there base st d) Inr
    = map_sum id (there base st) (sumbind (?p d) (\<lambda>d'. if DADEPTH \<le> length st then Inl InitRange else g (lnobj d) d'))" for d
  proof (cases "?p d")
    case (Inr d')
    have "runs types (es @ [Pop]) (there (lnobj d, 0) (base # st) d') Inr = map_sum id (there base st) (g (lnobj d) d')"
      unfolding runs_append using assms [of "lnobj d"]
      by (subst runs_sumbind) (cases "g (lnobj d) d'"; simp add: does_def load_pop_def)
    then show ?thesis
      using Inr put_array_index [OF Inr, of st] by (simp add: put_array_poke)
  qed (simp add: put_array_poke)
  moreover have "keeps_addr (\<lambda>d. sumbind (?p d) (\<lambda>d'. if DADEPTH \<le> length st then Inl InitRange else g (lnobj d) d'))"
    using assms put_array_keeps [of types "(fst base, snd base + off)" tid len] unfolding does_def keeps_addr_def
    by (auto simp: sumbind_def split: sum.splits if_splits)
  ultimately show ?thesis
    by (simp add: does_def)
qed


definition storer_ok :: "meaning \<Rightarrow> storing \<Rightarrow> bool" where
  "storer_ok f g \<longleftrightarrow> (\<forall>types base st off. does types base st (f off) (g types (length st) base off))"

lemma storer_okD: "storer_ok f g \<Longrightarrow> does types base st (f off) (g types (length st) base off)"
  unfolding storer_ok_def by blast

abbreviation all_put :: "ev list \<Rightarrow> bool" where
  "all_put es \<equiv> list_all (\<lambda>e. \<exists>off x. e = Put off x) es"

lemma all_put_simps [simp]:
  "all_put (puts off xs)" "all_put (ev_case h step ls off)" "all_put (ev_casec cs off)" "all_put (ev_iface ids off)"
proof -
  show p: "all_put (puts off xs)" for off xs
    by (induction xs arbitrary: off) simp_all
  show "all_put (ev_case h step ls off)"
    by (induction h step ls off rule: ev_case.induct) (simp_all add: p)
  show "all_put (ev_casec cs off)"
    by (induction cs off rule: ev_casec.induct) (simp_all split: option.splits)
  show "all_put (ev_iface ids off)"
    by (induction ids off rule: ev_iface.induct) (simp_all add: p Let_def)
qed

lemma plain_ok: "(\<And>off. all_put (f off)) \<Longrightarrow> storer_ok f (plain f)"
  by (simp add: storer_ok_def plain_def does_plain)

lemma ev_labels_elems: "ev_labels esz w fs k len = concat (map (\<lambda>(i, f). f (int (esz * i))) (elem_list w fs k len))"
  by (induction w fs k len rule: elem_list.induct)
    (auto simp: ev_wild_def ev_elems_def comp_def split: option.splits simp del: upt_Suc)

lemma elem_list_map:
  "elem_list (map_option h w) (map (map_prod id (map_prod id h)) ls) k len = map (map_prod id h) (elem_list w ls k len)"
  by (induction w ls k len rule: elem_list.induct) (auto split: option.splits simp del: upt_Suc)

lemma elem_list_set: "(i, x) \<in> set (elem_list w ls k len) \<Longrightarrow> w = Some x \<or> (\<exists>e0 e1. (e0, e1, x) \<in> set ls)"
  by (induction w ls k len rule: elem_list.induct) (auto split: option.splits simp del: upt_Suc)

lemma array_stores:
  assumes "\<And>x. w = Some x \<or> (\<exists>e0 e1. (e0, e1, x) \<in> set ls) \<Longrightarrow> storer_ok (events x) (store_datum x)"
  shows "storer_ok (events (Tarray tid esz len (Some (ls, w)))) (store_datum (Tarray tid esz len (Some (ls, w))))"
proof -
  let ?es = "elem_list w ls 0 len"
  have "list_all2 (does types (a, 0) (base # st)) (map (\<lambda>(i, x). events x (int (esz * i))) ?es)
      (map (\<lambda>(i, x). store_datum x types (Suc (length st)) (a, 0) (int (esz * i))) ?es)" for types a base st
    unfolding list_all2_map1 list_all2_map2
  proof (rule list.rel_refl_strong)
    fix y assume "y \<in> set ?es"
    then obtain i x where y: "y = (i, x)" "storer_ok (events x) (store_datum x)"
      using assms elem_list_set by (metis surj_pair)
    from y(2) [unfolded storer_ok_def, rule_format, of types "(a, 0)" "base # st"]
    show "does types (a, 0) (base # st) (case y of (i, x) \<Rightarrow> events x (int (esz * i))) (case y of (i, x) \<Rightarrow> store_datum x types (Suc (length st)) (a, 0) (int (esz * i)))"
      by (simp add: y(1))
  qed
  note d = does_elems [where g = "\<lambda>a. seqs (map (\<lambda>(i, x). store_datum x types (Suc (length st)) (a, 0) (int (esz * i))) ?es)" for types st, OF does_seqs [OF this]]
  have e: "(case map_prod id h y of (i, f) \<Rightarrow> F i f) = (case y of (i, x) \<Rightarrow> F i (h x))" for h :: "datum \<Rightarrow> 'a" and F :: "nat \<Rightarrow> 'a \<Rightarrow> 'b" and y
    by (cases y) simp
  show ?thesis
    unfolding storer_ok_def
  proof (intro allI)
    fix types base st off
    show "does types base st (events (Tarray tid esz len (Some (ls, w))) off) (store_datum (Tarray tid esz len (Some (ls, w))) types (length st) base off)"
      using d [of types base st off "ucast tid" "word_of_nat len"]
      unfolding events.simps store_datum.simps ev_array_def store_array_def option.map map_prod_simp option.case prod.case ev_labels_elems elem_list_map map_map comp_def e
      by simp
  qed
qed

lemma store_ok: "storer_ok (events x) (store_datum x)"
proof (induction x)
  case (Ttuple ids)
  show ?case
    unfolding storer_ok_def events.simps store_datum.simps
  proof (intro allI does_seqs)
    fix types base st off
    show "list_all2 (does types base st) (map (\<lambda>(o', f). f (off + o')) (map (map_prod id events) ids))
        (map (\<lambda>(o', f). f types (length st) base (off + o')) (map (map_prod id store_datum) ids))"
      unfolding list_all2_map1 list_all2_map2
    proof (rule list.rel_refl_strong)
      fix y assume y: "y \<in> set ids"
      have "storer_ok (events (snd y)) (store_datum (snd y))"
        using Ttuple [OF y, of "snd y"] by (cases y) simp
      from storer_okD [OF this, of types base st "off + fst y"]
      show "does types base st (case map_prod id events y of (o', f) \<Rightarrow> f (off + o')) (case map_prod id store_datum y of (o', f) \<Rightarrow> f types (length st) base (off + o'))"
        by (cases y) simp
    qed
  qed
next
  case (Tarray tid esz len init)
  show ?case
  proof (cases init)
    case None
    then show ?thesis
      using does_array unfolding storer_ok_def by (simp add: ev_array_def store_array_def sumbind_Inr)
  next
    case (Some lw)
    obtain ls w where lw: "init = Some (ls, w)"
      using Some by (cases lw) auto
    have "storer_ok (events x) (store_datum x)" if "w = Some x \<or> (\<exists>e0 e1. (e0, e1, x) \<in> set ls)" for x
      using that Tarray.IH(1) [of "(ls, w)" "ls" _ _ x] Tarray.IH(2) [of "(ls, w)" w x] lw by force
    then show ?thesis
      unfolding lw by (rule array_stores)
  qed
qed (auto intro!: plain_ok)

lemma data_stores: "runs types (concat (map (\<lambda>(off, x). events x off) ds)) d Inr = store_data types ds d"
proof -
  have "list_all2 (does types (laddr d) (lstack d)) (map (\<lambda>(off, x). events x off) ds) (map (\<lambda>(off, x). store_datum x types (length (lstack d)) (laddr d) off) ds)"
    using store_ok by (auto simp: list_all2_map1 list_all2_map2 intro!: list.rel_refl_strong storer_okD)
  from does_seqs [OF this] have "runs types (concat (map (\<lambda>(off, x). events x off) ds)) (there (laddr d) (lstack d) d) Inr
      = map_sum id (there (laddr d) (lstack d)) (store_data types ds d)"
    and "\<And>d'. store_data types ds d = Inr d' \<Longrightarrow> laddr d' = laddr d \<and> lstack d' = lstack d"
    unfolding does_def keeps_addr_def store_data_def by blast+
  then show ?thesis
    by (cases "store_data types ds d") auto
qed

section \<open>The data section from compiler to loader\<close>

definition data_ok :: "(int \<times> datum) list \<Rightarrow> bool" where
  "data_ok ds \<longleftrightarrow> list_all (\<lambda>(off, x). names_ok x \<and> evs_ok (events x off)) ds"

definition data_events :: "(int \<times> datum) list \<Rightarrow> ev list" where
  "data_events ds = concat (map (\<lambda>(off, x). events x off) ds)"

lemma foldo_writes:
  "data_ok ds \<Longrightarrow> writes types (foldo (\<lambda>(off, x). disdatum x off) ds) (data_events ds)"
proof (induction ds)
  case Nil
  show ?case
    using writes_none [of types] by (simp add: writes_def data_events_def)
next
  case (Cons y ds)
  obtain off x where y: "y = (off, x)"
    by (cases y)
  have "writes types (disdatum x off) (events x off)"
    using disdatum_ok [of x types] Cons.prems by (simp add: data_ok_def y writer_ok_def)
  then have "writes types (\<lambda>s. Option.bind (disdatum x off s) (foldo (\<lambda>(off, x). disdatum x off) ds)) (events x off @ data_events ds)"
    using Cons by (intro writes_bind) (simp_all add: data_ok_def)
  then show ?case
    by (simp add: y data_events_def)
qed

lemma disvar_loads:
  assumes "data_ok ds"
  shows "\<exists>bs. disvar ds = Some bs \<and> (\<forall>types r d. load_data types (bs @ r) d = map_sum id (\<lambda>d. (d, r)) (store_data types ds d))"
proof -
  have r0: "rep types dstate0 []" for types
    by (simp add: rep_def dstate0_def decodes_nil)
  have s1: "\<exists>s1. foldo (\<lambda>(off, x). disdatum x off) ds dstate0 = Some s1 \<and> rep types s1 (data_events ds)" for types
    using foldo_writes [OF assms, of types] r0 [of types] unfolding writes_def by fastforce
  then obtain s1 where f: "foldo (\<lambda>(off, x). disdatum x off) ds dstate0 = Some s1" "\<And>types. rep types s1 (data_events ds)"
    by (metis option.inject)
  have "\<exists>w. flush_cache s1 = Some w \<and> decodes types w (data_events ds)" for types
    using flush_cache_rep [OF f(2)] .
  then obtain w where w: "flush_cache s1 = Some w" "\<And>types. decodes types w (data_events ds)"
    by (metis option.inject)
  have "disvar ds = Some (w @ [0])"
    using f(2) [of "[]"] w(1) f(1) by (auto simp: disvar_def disflush_def disemit_def rep_def flush_cache_def cong: if_cong)
  moreover have "load_data types (0 # r) = (\<lambda>d. Inr (d, r))" for types r
    by (rule ext) simp
  then have "load_data types ((w @ [0]) @ r) d = runs types (data_events ds) d (\<lambda>d. Inr (d, r))" for types r d
    using w(2) [of types] by (simp add: decodes_def)
  moreover have "runs types (data_events ds) d (\<lambda>d. Inr (d, r)) = map_sum id (\<lambda>d. (d, r)) (store_data types ds d)" for types d and r :: "byte list"
    unfolding data_stores [symmetric] data_events_def by (subst runs_sumbind) (simp add: sumbind_def map_sum_def split: sum.splits)
  ultimately show ?thesis
    by (intro exI [of _ "w @ [0]"]) simp
qed

text \<open>
  Claim C12 (refinement).  The data section.  For initial values whose offsets fit, the compiler writes the section, and the loader that reads it
  does what \<open>store_data\<close> says: in the order of the declarations, it stores every value at its offset, makes every array and stores its
  elements in it, to any depth that the loader has; it fails where one of these stores fails, and it stops at the end of the section.  Neither
  how the compiler collects neighbouring values of one kind in its cache nor the loader's stack of addresses shows.
\<close>

theorem disvar_load_data:
  assumes "data_ok ds"
  shows "\<exists>bs. disvar ds = Some bs \<and> (\<forall>types r d. load_data types (bs @ r) d = map_sum id (\<lambda>d. (d, r)) (store_data types ds d))"
  using assms by (rule disvar_loads)

definition data0 :: "(int \<times> datum) list" where
  "data0 = [(0, Tint 5), (8, Tint (-1)), (16, Tstring [0x61, 0x62]), (24, Tarray 1 1 3 (Some ([(1, 1, Tbyte 7)], Some (Tbyte 9)))), (32, Tint 3)]"

definition ldata0 :: ldata where
  "ldata0 = \<lparr>lmem = \<lambda>_ _. Fresh, lobsize = (\<lambda>_. 0)(0 := 40), larr = \<lambda>_. None, lnobj = 1, laddr = (0, 0), lstack = []\<rparr>"

definition types0 :: type_table where
  "types0 = [None, Some \<lparr>tsize = 1, tnp = 0, tmap = []\<rparr>]"

theorem disvar_load_data_witness:
  "data_ok data0 \<and> (\<exists>bs. disvar data0 = Some bs
    \<and> (case load_data types0 (bs @ [7]) ldata0 of Inl _ \<Rightarrow> False
       | Inr (d, r) \<Rightarrow> map (lmem d 1) [0, 1, 2] = [Part (Vbyte 9) 0, Part (Vbyte 7) 0, Part (Vbyte 9) 0]
           \<and> lmem d 0 8 = Part (Vword (-1)) 0 \<and> lmem d 0 16 = Part (Vstr [0x61, 0x62]) 0 \<and> peek (0, 24) d = Some 1
           \<and> lmem d 0 32 = Part (Vword 3) 0 \<and> r = [7]))"
proof -
  have ok: "data_ok data0"
    by code_simp
  obtain bs where bs: "disvar data0 = Some bs" "\<And>types r d. load_data types (bs @ r) d = map_sum id (\<lambda>d. (d, r)) (store_data types data0 d)"
    using disvar_load_data [OF ok] by blast
  have "case map_sum id (\<lambda>d. (d, [7])) (store_data types0 data0 ldata0) of Inl _ \<Rightarrow> False
       | Inr (d, r) \<Rightarrow> map (lmem d 1) [0, 1, 2] = [Part (Vbyte 9) 0, Part (Vbyte 7) 0, Part (Vbyte 9) 0]
           \<and> lmem d 0 8 = Part (Vword (-1)) 0 \<and> lmem d 0 16 = Part (Vstr [0x61, 0x62]) 0 \<and> peek (0, 24) d = Some 1
           \<and> lmem d 0 32 = Part (Vword 3) 0 \<and> r = [7 :: byte]"
    by code_simp
  then show ?thesis
    using ok bs by simp
qed

text \<open>
  The loader does not compare the offset of an item with the size of the data, and it lets the index of the type of an array be the number
  of types.
\<close>

lemma load_data_unchecked:
  "load_data types0 [0x11, 40, 7, 0] ldata0 = Inl Overrun_data" "load_data types0 ([0x51, 24] @ disword 2 @ disword 1 @ [0]) ldata0 = Inl Overrun_type"
proof -
  have e: "(case x of Inl e \<Rightarrow> e = y | Inr _ \<Rightarrow> False) \<Longrightarrow> x = Inl y" for x :: "load_error + ldata \<times> byte list" and y
    by (auto split: sum.splits)
  show "load_data types0 [0x11, 40, 7, 0] ldata0 = Inl Overrun_data"
    by (rule e) code_simp
  show "load_data types0 ([0x51, 24] @ disword 2 @ disword 1 @ [0]) ldata0 = Inl Overrun_type"
    by (rule e) code_simp
qed

end
