(* ===== verification/Dis_File.thy ===== *)
theory Dis_File
  imports Dis_Data
begin

text \<open>
  Whole Dis object files: the header, the linkage sections and the entry, as \<^verbatim>\<open>src/limbo/com.c\<close> and \<^verbatim>\<open>src/limbo/dis.c\<close> write and
  \<open>parsemod\<close> reads them (\<^verbatim>\<open>src/libinterp/load.c\<close>), and the linking of imports with exports (\<^verbatim>\<open>src/libinterp/link.c\<close>).

  The signature check is a parameter, as it rests on the keys of the system; whether a module must be signed is a boolean.
  Names are C strings.  The routines that the compiler calls through \<open>sign\<close> and \<open>srcpath\<close> are represented by their results.
\<close>

section \<open>Handlers with a descriptor\<close>

definition handler_of :: "type_table \<Rightarrow> LExcept \<Rightarrow> Handler" where
  "handler_of types e =
     \<lparr>eoff = ex_off e, pc1 = ex_pc1 e, pc2 = ex_pc2 e, ht = types ! unat (the (ex_desc e)), ne = ex_ne e,
      etab = map (\<lambda>(nm, pc). (Some nm, pc)) (ex_labs e) @ [(None, case ex_wild e of None \<Rightarrow> -1 | Some pc \<Rightarrow> pc)]\<rparr>"

definition except_ok :: "nat \<Rightarrow> LExcept \<Rightarrow> bool" where
  "except_ok ntypes e \<longleftrightarrow> sfit 29 (ex_off e) \<and> sfit 29 (ex_pc1 e) \<and> sfit 29 (ex_pc2 e)
     \<and> (\<exists>i. ex_desc e = Some i \<and> unat i < ntypes) \<and> unat (ex_ne e) < 2 ^ 13 \<and> length (ex_labs e) < 2 ^ 16
     \<and> (\<forall>(nm, pc)\<in>set (ex_labs e). 0 \<notin> set nm \<and> sfit 29 pc) \<and> (\<forall>pc. ex_wild e = Some pc \<longrightarrow> sfit 29 pc)"

lemma cstr_append: "0 \<notin> set nm \<Longrightarrow> cstr (nm @ 0 # r) = Some (nm, r)"
  by (induction nm) auto

lemma discon_ex: "sfit 29 v \<Longrightarrow> \<exists>b. discon v = Some b \<and> (\<forall>r. operand (b @ r) = Some (ucast v, r))"
  using operand_disbcon [of v] by (metis disbcon_discon)

lemma discons_ex: "\<forall>v\<in>set vs. sfit 29 v \<Longrightarrow> \<exists>b. discons vs = Some b"
  by (induction vs) (auto dest!: discon_ex)

lemma sfit_m1: "sfit 29 (-1)"
  by (simp add: sfit_def)

lemma wild_sfit: "(\<forall>pc. w = Some pc \<longrightarrow> sfit 29 pc) \<Longrightarrow> sfit 29 (case w of None \<Rightarrow> -1 | Some pc \<Rightarrow> pc)"
  using sfit_m1 by (cases w) auto

lemma labs_parse:
  assumes "\<forall>(nm, pc)\<in>set ls. 0 \<notin> set nm \<and> sfit 29 pc" "sfit 29 w"
  shows "\<exists>b c. dislabs ls = Some b \<and> discon w = Some c \<and> (\<forall>r. parse_etab (length ls) (b @ c @ r) = Inr (map (\<lambda>(nm, pc). (Some nm, pc)) ls @ [(None, w)], r))"
  using assms(1)
proof (induction ls)
  case Nil
  then show ?case
    using discon_ex [OF assms(2)] scast_ucast_sfit [OF assms(2)] by auto
next
  case (Cons l ls)
  obtain nm pc where l: "l = (nm, pc)" "0 \<notin> set nm" "sfit 29 pc"
    using Cons.prems by (cases l) auto
  obtain b c where bc: "dislabs ls = Some b" "discon w = Some c" "\<And>r. parse_etab (length ls) (b @ c @ r) = Inr (map (\<lambda>(nm, pc). (Some nm, pc)) ls @ [(None, w)], r)"
    using Cons by auto
  obtain x where x: "discon pc = Some x" "\<And>r. operand (x @ r) = Some (ucast pc, r)"
    using discon_ex [OF l(3)] by blast
  show ?case
    using bc x cstr_append [OF l(2)] scast_ucast_sfit [OF l(3)] by (simp add: l(1))
qed

lemma small_bits: "unat (k :: u64) < 2 ^ m \<Longrightarrow> m \<le> i \<Longrightarrow> \<not> bit k i"
proof -
  assume a: "unat k < 2 ^ m" "m \<le> i"
  then have "take_bit m (unat k) = unat k"
    by (simp add: take_bit_nat_eq_self)
  then have "bit (unat k) i \<Longrightarrow> i < m"
    by (metis bit_take_bit_iff)
  then show ?thesis
    using a(2) by (auto simp: bit_unsigned_iff)
qed

lemma handler_counts:
  assumes "unat (k :: u64) < 2 ^ 13" "n < 2 ^ 16"
  defines "v \<equiv> word_of_nat n OR push_bit 16 k"
  shows "sfit 29 v" "v AND 0xFFFF = word_of_nat n" "signed_drop_bit 16 v = k"
proof -
  have un: "unat (word_of_nat n :: u64) < 2 ^ 16"
    using assms(2) by (simp add: unat_of_nat take_bit_nat_eq_self)
  have nb: "\<not> bit (word_of_nat n :: u64) i" if "16 \<le> i" for i
    using small_bits [OF un that] .
  have kb: "\<not> bit k i" if "13 \<le> i" for i
    using small_bits [OF assms(1) that] .
  have vb: "bit v i \<longleftrightarrow> (if i < 16 then bit (word_of_nat n :: u64) i else bit k (i - 16) \<and> i < 64)" for i
    using nb [of i] unfolding v_def bit_or_iff bit_push_bit_iff by auto
  show "sfit 29 v"
    by (rule sfit_bits [THEN iffD2]) (use kb in \<open>auto simp: vb\<close>)
  have m: "(0xFFFF :: u64) = mask 16"
    by (simp add: mask_eq_exp_minus_1)
  show "v AND 0xFFFF = word_of_nat n"
    unfolding m by (rule bit_word_eqI) (use nb in \<open>auto simp: bit_and_iff bit_mask_iff vb\<close>)
  show "signed_drop_bit 16 v = k"
    by (rule bit_word_eqI) (use kb in \<open>auto simp: bit_signed_drop_bit_iff vb\<close>)
qed

lemma uint_not_m1: "-1 \<noteq> uint (w :: 'l::len word)"
  using uint_ge_0 [of w] by linarith

lemma unat_word_of_small: "n < 2 ^ 29 \<Longrightarrow> unat (word_of_nat n :: u64) = n"
  by (simp add: unat_of_nat take_bit_nat_eq_self)

lemma parse_handler_ok:
  assumes e: "except_ok (length types) e" and n: "n \<noteq> -1" and t: "length types < 2 ^ 29"
  shows "\<exists>b. disexc1 e = Some b \<and> (\<forall>r. parse_handler types n (b @ r) = Inr (handler_of types e, word_of_nat (length (ex_labs e)), r))"
proof -
  obtain i where i: "ex_desc e = Some i" "unat i < length types"
    using e by (auto simp: except_ok_def)
  let ?v = "word_of_nat (length (ex_labs e)) OR push_bit 16 (ex_ne e)"
  let ?w = "case ex_wild e of None \<Rightarrow> -1 | Some pc \<Rightarrow> pc"
  have i29: "unat i < 2 ^ 29"
    using i(2) t by simp
  have fits: "sfit 29 (ex_off e)" "sfit 29 (ex_pc1 e)" "sfit 29 (ex_pc2 e)" "sfit 29 i"
    using e small_u64(1) [OF i29] by (auto simp: except_ok_def)
  have v: "sfit 29 ?v" "?v AND 0xFFFF = word_of_nat (length (ex_labs e))" "signed_drop_bit 16 ?v = ex_ne e"
    using handler_counts [of "ex_ne e" "length (ex_labs e)"] e by (auto simp: except_ok_def)
  obtain b c where bc: "dislabs (ex_labs e) = Some b" "discon ?w = Some c"
      "\<And>r. parse_etab (length (ex_labs e)) (b @ c @ r) = Inr (map (\<lambda>(nm, pc). (Some nm, pc)) (ex_labs e) @ [(None, ?w)], r)"
    using labs_parse [of "ex_labs e" ?w] wild_sfit [of "ex_wild e"] e by (auto simp: except_ok_def)
  have all: "\<forall>v\<in>set [ex_off e, ex_pc1 e, ex_pc2 e, i]. sfit 29 v"
    using fits by simp
  obtain a where a: "discons [ex_off e, ex_pc1 e, ex_pc2 e, i] = Some a"
    using discons_ex [OF all] by blast
  obtain x where x: "discon ?v = Some x" "\<And>r. operand (x @ r) = Some (ucast ?v, r)"
    using discon_ex [OF v(1)] by blast
  have four: "get_many operand 4 (a @ r) = Some (map ucast [ex_off e, ex_pc1 e, ex_pc2 e, i], r)" for r
    using discons_get_many [OF all a, of r] by (simp add: numeral_eq_Suc)
  have split: "discons (vs @ [u]) = (case discons vs of None \<Rightarrow> None | Some p \<Rightarrow> map_option (\<lambda>q. p @ q) (discon u))" for vs u
    by (induction vs) (auto simp: option.map_comp comp_def fun_eq_iff intro!: map_option_cong split: option.splits)
  have "discons ([ex_off e, ex_pc1 e, ex_pc2 e, i] @ [?v]) = Some (a @ x)"
    unfolding split by (simp only: a x(1) option.case option.map)
  then have "disexc1 e = Some ((a @ x) @ b @ c)"
    using i(1) bc(1,2) by (simp add: disexc1_def)
  moreover have "parse_handler types n (((a @ x) @ b @ c) @ r) = Inr (handler_of types e, word_of_nat (length (ex_labs e)), r)" for r
  proof -
    have "sint (ucast i :: u32) = uint i" "unat (ucast i :: u32) = unat i"
      using small_u64(2,3) [OF i29] by auto
    then have lt: "lookup_type types (ucast i) = Inr (types ! unat i)"
      using i(2) by (simp add: lookup_type_def uint_nat del: of_nat_unat)
    have len: "unat (word_of_nat (length (ex_labs e)) :: u64) = length (ex_labs e)"
      using e by (intro unat_word_of_small) (simp add: except_ok_def)
    show ?thesis
      unfolding append_assoc parse_handler_def four
      using n lt bc(3) len v(2,3) scast_ucast_sfit [OF v(1)] fits scast_ucast_sfit
      by (simp add: x(2) Let_def handler_of_def i(1))
  qed
  ultimately show ?thesis
    by blast
qed

lemma parse_handlers_ok:
  assumes t: "length types < 2 ^ 29"
  shows "\<forall>e\<in>set es. ex_reach1 e \<or> ex_reach2 e \<longrightarrow> except_ok (length types) e \<Longrightarrow> n \<noteq> -1
    \<Longrightarrow> \<exists>b. disexcs es = Some b \<and> (\<forall>r. parse_handlers types (length (filter (\<lambda>e. ex_reach1 e \<or> ex_reach2 e) es)) n (b @ r)
      = Inr (map (handler_of types) (filter (\<lambda>e. ex_reach1 e \<or> ex_reach2 e) es), r))"
proof (induction es arbitrary: n)
  case (Cons e es)
  show ?case
  proof (cases "ex_reach1 e \<or> ex_reach2 e")
    case True
    then have ok: "except_ok (length types) e"
      using Cons.prems(1) by auto
    then have m: "(word_of_nat (length (ex_labs e)) :: u64) \<noteq> -1"
      using sint_small [of "word_of_nat (length (ex_labs e)) :: u64"] unat_word_of_small [of "length (ex_labs e)"] uint_not_m1 [of "-1 :: u64"] by (auto simp: except_ok_def)
    obtain a where a: "disexc1 e = Some a" "\<And>r. parse_handler types n (a @ r) = Inr (handler_of types e, word_of_nat (length (ex_labs e)), r)"
      using parse_handler_ok [OF ok Cons.prems(2) t] by blast
    obtain b where "disexcs es = Some b" "\<forall>r. parse_handlers types (length (filter (\<lambda>e. ex_reach1 e \<or> ex_reach2 e) es)) (word_of_nat (length (ex_labs e))) (b @ r)
      = Inr (map (handler_of types) (filter (\<lambda>e. ex_reach1 e \<or> ex_reach2 e) es), r)"
      using Cons.IH [OF _ m] Cons.prems(1) by auto
    then show ?thesis
      using a True by auto
  next
    case False
    then show ?thesis
      using Cons by auto
  qed
qed simp

lemma parse_excepts_ok:
  assumes t: "length types < 2 ^ 29" and es: "\<forall>e\<in>set es. ex_reach1 e \<or> ex_reach2 e \<longrightarrow> except_ok (length types) e" "length es < 2 ^ 29" and n: "n \<noteq> -1"
  shows "\<exists>b. disexc es = Some b \<and> (\<forall>r. parse_excepts types n (b @ r) = Inr (map (handler_of types) (filter (\<lambda>e. ex_reach1 e \<or> ex_reach2 e) es), r))"
proof -
  let ?es = "filter (\<lambda>e. ex_reach1 e \<or> ex_reach2 e) es"
  have "length ?es < 2 ^ 29"
    using es(2) length_filter_le [of "\<lambda>e. ex_reach1 e \<or> ex_reach2 e" es] by linarith
  then have l: "unat (word_of_nat (length ?es) :: u64) < 2 ^ 29" "unat (word_of_nat (length ?es) :: u64) = length ?es"
    using unat_word_of_small [of "length ?es"] by simp_all
  obtain a where a: "discon (word_of_nat (length ?es)) = Some a" "\<And>r. operand (a @ r) = Some (ucast (word_of_nat (length ?es) :: u64), r)"
    using discon_ex [OF small_u64(1) [OF l(1)]] by blast
  have s: "sint (ucast (word_of_nat (length ?es) :: u64) :: u32) = int (length ?es)"
    using small_u64(2) [OF l(1)] l(2) by (simp add: uint_nat del: of_nat_unat)
  obtain b where b: "disexcs es = Some b" "\<And>r. parse_handlers types (length ?es) n (b @ r) = Inr (map (handler_of types) ?es, r)"
    using parse_handlers_ok [OF t es(1) n] by blast
  have z: "discon 0 = Some [0]"
    by code_simp
  show ?thesis
    using a b s z by (simp add: disexc_def parse_excepts_def)
qed

section \<open>Linkage: the compiler\<close>

definition cname :: "byte list option \<Rightarrow> byte list \<Rightarrow> byte list" where
  "cname adt nm = (case adt of None \<Rightarrow> [] | Some a \<Rightarrow> a @ [0x2E]) @ nm"

text \<open>What a module exports: its data, or a function with program counter, descriptor and signature.\<close>

datatype export = Dglobal u64 | Dfn u64 u64 u64 "byte list option" "byte list"

abbreviation (input) NAMELEN :: nat where "NAMELEN \<equiv> 64"

fun disexport :: "export \<Rightarrow> byte list option" where
  "disexport (Dglobal sg) = map_option (\<lambda>a. a @ disword sg @ [0x2E, 0x6D, 0x70] @ [0]) (discons [-1, -1])"
| "disexport (Dfn pc i sg adt nm) = map_option (\<lambda>a. a @ disword sg @ cname adt nm @ [0]) (discons [pc, i])"

fun disconcat :: "('a \<Rightarrow> byte list option) \<Rightarrow> 'a list \<Rightarrow> byte list option" where
  "disconcat f [] = Some []"
| "disconcat f (x # xs) = Option.bind (f x) (\<lambda>a. map_option ((@) a) (disconcat f xs))"

definition dismod :: "byte list \<Rightarrow> export list \<Rightarrow> byte list option" where
  "dismod nm es = map_option (\<lambda>b. take (NAMELEN - 1) nm @ [0] @ b) (disconcat disexport es)"

definition disentry :: "(u64 \<times> u64) option \<Rightarrow> byte list option" where
  "disentry e = (case e of None \<Rightarrow> discons [-1, -1] | Some (pc, i) \<Rightarrow> discons [pc, i])"

type_synonym limport = "u64 \<times> byte list option \<times> byte list"

definition disimports :: "u64 \<times> limport list \<Rightarrow> byte list option" where
  "disimports = (\<lambda>(n, ids). map_option (\<lambda>a. a @ concat (map (\<lambda>(sg, adt, nm). disword sg @ cname adt nm @ [0]) ids)) (discon n))"

definition disldt :: "(u64 \<times> limport list) list \<Rightarrow> byte list option" where
  "disldt ds =
     Option.bind (discon (word_of_nat (length ds))) (\<lambda>a. Option.bind (disconcat disimports ds) (\<lambda>b. map_option (\<lambda>c. a @ b @ c) (discon 0)))"

definition dispath :: "byte list \<Rightarrow> byte list" where
  "dispath sp = sp @ [0]"

section \<open>Linkage: the loader\<close>

record Link =
  lk_name :: "byte list"
  lk_sig :: u32
  lk_frame :: "Type option"
  lk_pc :: u32

definition parse_link :: "type_table \<Rightarrow> byte list \<Rightarrow> load_error + Link \<times> byte list" where
  "parse_link types r =
     (case get_many operand 2 r of
        Some ([pc, de], r) \<Rightarrow>
          (case disw r of None \<Rightarrow> Inl Short
           | Some (v, r) \<Rightarrow>
             (case (if de \<noteq> -1 then lookup_type types de else Inr None) of Inl e \<Rightarrow> Inl e
              | Inr pt \<Rightarrow>
                if de \<noteq> -1 \<and> pt = None then Inl Overrun_type else
                (case cstr r of None \<Rightarrow> Inl Short
                 | Some (nm, r) \<Rightarrow> Inr (\<lparr>lk_name = nm, lk_sig = v, lk_frame = pt, lk_pc = pc\<rparr>, r))))
      | _ \<Rightarrow> Inl Short)"

fun parse_n :: "(byte list \<Rightarrow> load_error + 'a \<times> byte list) \<Rightarrow> nat \<Rightarrow> byte list \<Rightarrow> load_error + 'a list \<times> byte list" where
  "parse_n p 0 r = Inr ([], r)"
| "parse_n p (Suc n) r =
     (case p r of Inl e \<Rightarrow> Inl e
      | Inr (x, r) \<Rightarrow> (case parse_n p n r of Inl e \<Rightarrow> Inl e | Inr (xs, r) \<Rightarrow> Inr (x # xs, r)))"

definition parse_name :: "byte list \<Rightarrow> load_error + byte list \<times> byte list" where
  "parse_name r = (if 0 \<notin> set (take 128 r) then Inl BadName else case cstr r of None \<Rightarrow> Inl Short | Some x \<Rightarrow> Inr x)"

type_synonym Import = "u32 \<times> byte list"

definition parse_import :: "byte list \<Rightarrow> load_error + Import \<times> byte list" where
  "parse_import r =
     (case disw r of None \<Rightarrow> Inl Short
      | Some (sg, r) \<Rightarrow> (case cstr r of None \<Rightarrow> Inl Short | Some (nm, r) \<Rightarrow> Inr ((sg, nm), r)))"

definition parse_imports :: "byte list \<Rightarrow> load_error + Import list \<times> byte list" where
  "parse_imports r =
     (case operand r of None \<Rightarrow> Inl Short | Some (n, r) \<Rightarrow> parse_n parse_import (nat (sint n)) r)"

definition parse_ldt :: "byte list \<Rightarrow> load_error + Import list list \<times> byte list" where
  "parse_ldt r =
     (case operand r of None \<Rightarrow> Inl Short
      | Some (nl, r) \<Rightarrow>
        (case parse_n parse_imports (nat (sint nl)) r of Inl e \<Rightarrow> Inl e
         | Inr (xs, r) \<Rightarrow> (case r of [] \<Rightarrow> Inl Short | _ # r \<Rightarrow> Inr (xs, r))))"

section \<open>Linkage from compiler to loader\<close>

fun link_of :: "type_table \<Rightarrow> export \<Rightarrow> Link" where
  "link_of types (Dglobal sg) = \<lparr>lk_name = [0x2E, 0x6D, 0x70], lk_sig = ucast sg, lk_frame = None, lk_pc = -1\<rparr>"
| "link_of types (Dfn pc i sg adt nm) = \<lparr>lk_name = cname adt nm, lk_sig = ucast sg, lk_frame = types ! unat i, lk_pc = ucast pc\<rparr>"

definition name_ok :: "byte list option \<Rightarrow> byte list \<Rightarrow> bool" where
  "name_ok adt nm \<longleftrightarrow> 0 \<notin> set nm \<and> pred_option (\<lambda>a. 0 \<notin> set a) adt"

fun export_ok :: "type_table \<Rightarrow> export \<Rightarrow> bool" where
  "export_ok types (Dglobal sg) \<longleftrightarrow> True"
| "export_ok types (Dfn pc i sg adt nm) \<longleftrightarrow> sfit 29 pc \<and> unat i < length types \<and> types ! unat i \<noteq> None \<and> name_ok adt nm"

lemma cname_ok: "name_ok adt nm \<Longrightarrow> 0 \<notin> set (cname adt nm)"
  by (cases adt) (auto simp: name_ok_def cname_def)

lemma two_cons:
  assumes "sfit 29 a" "sfit 29 b"
  shows "\<exists>x. discons [a, b] = Some x \<and> (\<forall>r. get_many operand 2 (x @ r) = Some ([ucast a, ucast b], r))"
  using discons_ex [of "[a, b]"] discons_get_many [of "[a, b]"] assms by (auto simp: numeral_2_eq_2)

lemma disw_disword: "disw (disword w @ r) = Some (ucast w, r)"
  by (simp add: disword_bytes4 disw_bytes4)

lemma parse_link_ok:
  assumes t: "length types < 2 ^ 29" and x: "export_ok types x"
  shows "\<exists>b. disexport x = Some b \<and> (\<forall>r. parse_link types (b @ r) = Inr (link_of types x, r))"
proof (cases x)
  case (Dglobal sg)
  obtain a where "discons [-1, -1] = Some a" "\<forall>r. get_many operand 2 (a @ r) = Some ([ucast (-1 :: u64), ucast (-1 :: u64)], r)"
    using two_cons [OF sfit_m1 sfit_m1] by blast
  moreover have "ucast (-1 :: u64) = (-1 :: u32)"
    by code_simp
  ultimately show ?thesis
    using Dglobal by (simp add: parse_link_def disw_disword)
next
  case (Dfn pc i sg adt nm)
  have i: "unat i < length types" "unat i < 2 ^ 29" "types ! unat i \<noteq> None" and pc: "sfit 29 pc" and nm: "0 \<notin> set (cname adt nm)"
    using x t cname_ok Dfn by auto
  obtain a where a: "discons [pc, i] = Some a" "\<forall>r. get_many operand 2 (a @ r) = Some ([ucast pc, ucast i], r)"
    using two_cons [OF pc small_u64(1) [OF i(2)]] by blast
  have s: "sint (ucast i :: u32) = uint i" "unat (ucast i :: u32) = unat i"
    using small_u64(2,3) [OF i(2)] by auto
  have "lookup_type types (ucast i) = Inr (types ! unat i)"
    using i(1) s by (simp add: lookup_type_def uint_nat del: of_nat_unat)
  moreover have "(ucast i :: u32) \<noteq> -1"
    using s(1) uint_not_m1 [of i] by auto
  ultimately show ?thesis
    using a cstr_append [OF nm] Dfn i(3) by (simp add: parse_link_def disw_disword)
qed

lemma parse_n_ok:
  "(\<And>x. x \<in> set xs \<Longrightarrow> \<exists>b. f x = Some b \<and> (\<forall>r. p (b @ r) = Inr (g x, r)))
    \<Longrightarrow> \<exists>b. disconcat f xs = Some b \<and> (\<forall>r. parse_n p (length xs) (b @ r) = Inr (map g xs, r))"
proof (induction xs)
  case (Cons x xs)
  obtain b where b: "f x = Some b" "\<And>r. p (b @ r) = Inr (g x, r)"
    using Cons.prems [of x] by auto
  obtain c where c: "disconcat f xs = Some c" "\<And>r. parse_n p (length xs) (c @ r) = Inr (map g xs, r)"
    using Cons by auto
  show ?case
    using b c by simp
qed simp

definition import_of :: "limport \<Rightarrow> Import" where
  "import_of = (\<lambda>(sg, adt, nm). (ucast sg, cname adt nm))"

definition imports_ok :: "u64 \<times> limport list \<Rightarrow> bool" where
  "imports_ok = (\<lambda>(n, ids). n = word_of_nat (length ids) \<and> length ids < 2 ^ 29 \<and> list_all (\<lambda>(sg, adt, nm). name_ok adt nm) ids)"

lemma count_operand:
  assumes "k < 2 ^ 29"
  shows "\<exists>b. discon (word_of_nat k) = Some b \<and> (\<forall>r. operand (b @ r) = Some (ucast (word_of_nat k :: u64), r)) \<and> sint (ucast (word_of_nat k :: u64) :: u32) = int k"
proof -
  have l: "unat (word_of_nat k :: u64) < 2 ^ 29" "unat (word_of_nat k :: u64) = k"
    using unat_word_of_small [OF assms] assms by simp_all
  show ?thesis
    using discon_ex [OF small_u64(1) [OF l(1)]] small_u64(2) [OF l(1)] l(2) by (simp add: uint_nat del: of_nat_unat)
qed

lemma parse_imports_ok:
  assumes "imports_ok d"
  shows "\<exists>b. disimports d = Some b \<and> (\<forall>r. parse_imports (b @ r) = Inr (map import_of (snd d), r))"
proof -
  obtain n ids where d: "d = (n, ids)" "n = word_of_nat (length ids)" "length ids < 2 ^ 29" "list_all (\<lambda>(sg, adt, nm). name_ok adt nm) ids"
    using assms by (cases d) (auto simp: imports_ok_def)
  let ?f = "\<lambda>(sg, adt, nm). disword sg @ cname adt nm @ [0]"
  have "\<exists>b. (Some \<circ> ?f) x = Some b \<and> (\<forall>r. parse_import (b @ r) = Inr (import_of x, r))" if x: "x \<in> set ids" for x
  proof -
    obtain sg adt nm where y: "x = (sg, adt, nm)"
      by (cases x)
    then have "0 \<notin> set (cname adt nm)"
      using d(4) x cname_ok by (auto simp: list_all_iff)
    then show ?thesis
      using y cstr_append by (simp add: parse_import_def disw_disword import_of_def)
  qed
  then obtain b where b: "disconcat (Some \<circ> ?f) ids = Some b" "\<forall>r. parse_n parse_import (length ids) (b @ r) = Inr (map import_of ids, r)"
    using parse_n_ok [of ids "Some \<circ> ?f" parse_import import_of] by blast
  have "disconcat (Some \<circ> h) xs = Some (concat (map h xs))" for h :: "limport \<Rightarrow> byte list" and xs
    by (induction xs) simp_all
  then have "b = concat (map ?f ids)"
    using b(1) by simp
  then show ?thesis
    using count_operand [OF d(3)] b(2) d(1,2) by (auto simp: disimports_def parse_imports_def)
qed

lemma parse_ldt_ok:
  assumes "list_all imports_ok ds" "length ds < 2 ^ 29"
  shows "\<exists>b. disldt ds = Some b \<and> (\<forall>r. parse_ldt (b @ r) = Inr (map (map import_of \<circ> snd) ds, r))"
proof -
  have "\<exists>b. disimports d = Some b \<and> (\<forall>r. parse_imports (b @ r) = Inr ((map import_of \<circ> snd) d, r))" if "d \<in> set ds" for d
    using parse_imports_ok [of d] assms(1) that by (auto simp: list_all_iff)
  then obtain b where b: "disconcat disimports ds = Some b" "\<forall>r. parse_n parse_imports (length ds) (b @ r) = Inr (map (map import_of \<circ> snd) ds, r)"
    using parse_n_ok [of ds disimports parse_imports "map import_of \<circ> snd"] by blast
  have z: "discon 0 = Some [0]"
    by code_simp
  show ?thesis
    using count_operand [OF assms(2)] b z by (auto simp: disldt_def parse_ldt_def)
qed

section \<open>Object files: the compiler\<close>

abbreviation (input) XMAGIC :: "'a::numeral" where "XMAGIC \<equiv> 819248"
abbreviation (input) SMAGIC :: "'a::numeral" where "SMAGIC \<equiv> 923426"
abbreviation (input) MUSTCOMPILE :: "'a::numeral" where "MUSTCOMPILE \<equiv> 1"
abbreviation (input) DONTCOMPILE :: "'a::numeral" where "DONTCOMPILE \<equiv> 2"
abbreviation (input) HASLDT0 :: "'a::numeral" where "HASLDT0 \<equiv> 16"
abbreviation (input) HASEXCEPT :: "'a::numeral" where "HASEXCEPT \<equiv> 32"
abbreviation (input) HASLDT :: "'a::numeral" where "HASLDT \<equiv> 64"

text \<open>
  What the earlier passes leave for the last part of \<open>modcom\<close>: its flags and counts, the entry with its descriptor, the instructions,
  the descriptors, the globals that have an initial value with their offsets, what the module exports and imports, its handlers, and its
  source path.
\<close>

record objmod =
  o_mustcompile :: bool
  o_dontcompile :: bool
  o_LDT :: bool
  o_maxstack :: u64
  o_ninst :: u64
  o_offset :: u64
  o_ndesc :: u64
  o_nlink :: u64
  o_entry :: "(u64 \<times> u64) option"
  o_insts :: "LInst list"
  o_descs :: "Desc list"
  o_globals :: "(int \<times> datum) list"
  o_name :: "byte list"
  o_exports :: "export list"
  o_ldts :: "(u64 \<times> limport list) list"
  o_excs :: "LExcept list"
  o_path :: "byte list"

definition hints :: "objmod \<Rightarrow> u64" where
  "hints m = (if o_mustcompile m then MUSTCOMPILE else 0) OR (if o_dontcompile m then DONTCOMPILE else 0)
     OR (if o_LDT m then HASLDT else 0) OR (if o_excs m \<noteq> [] then HASEXCEPT else 0)"

fun appendo :: "byte list option list \<Rightarrow> byte list option" where
  "appendo [] = Some []"
| "appendo (x # xs) = Option.bind x (\<lambda>a. map_option ((@) a) (appendo xs))"

definition gendis :: "objmod \<Rightarrow> byte list option" where
  "gendis m = appendo
     [discons [XMAGIC, hints m, o_maxstack m, o_ninst m, o_offset m, o_ndesc m, o_nlink m],
      disentry (o_entry m), disinst (o_insts m), disdesc (o_descs m), disvar (o_globals m), dismod (o_name m) (o_exports m),
      if o_LDT m then disldt (o_ldts m) else Some [],
      if o_excs m \<noteq> [] then disexc (o_excs m) else Some [],
      Some (dispath (o_path m))]"

section \<open>Object files: the loader\<close>

record Module =
  m_rt :: u64
  m_ss :: u64
  m_prog :: "Inst list"
  m_type :: type_table
  m_data :: ldata
  m_name :: "byte list"
  m_ext :: "Link list"
  m_ldt :: "Import list list"
  m_htab :: "Handler list"
  m_entry :: int
  m_entryt :: "Type option"

text \<open>The magic number, and for a signed module the signature.\<close>

definition parse_magic :: "(byte list \<Rightarrow> byte list \<Rightarrow> bool) \<Rightarrow> bool \<Rightarrow> byte list \<Rightarrow> load_error + byte list" where
  "parse_magic verifysigner mustbesigned r =
     (case operand r of None \<Rightarrow> Inl Short
      | Some (magic, r) \<Rightarrow>
        if magic = SMAGIC then
          (case operand r of None \<Rightarrow> Inl Short
           | Some (siglen, r) \<Rightarrow>
             if sint siglen > int (length r) then Inl CorruptSignature
             else if sint siglen < 0 then Inl Overrun_data
             else if \<not> verifysigner (take (unat siglen) r) (drop (unat siglen) r) then Inl NotSigned
             else Inr (drop (unat siglen) r))
        else if magic = XMAGIC then if mustbesigned then Inl NotSigned else Inr r
        else Inl BadMagic)"

text \<open>The data of the module, before its initial values.\<close>

definition origmp :: "type_table \<Rightarrow> u32 \<Rightarrow> load_error + ldata" where
  "origmp types dsize =
     (let d = \<lparr>lmem = \<lambda>_ _. Fresh, lobsize = \<lambda>_. 0, larr = \<lambda>_. None, lnobj = 1, laddr = (0, 0), lstack = []\<rparr> in
      if dsize = 0 then Inr d
      else sumbind (lookup_type types 0) (\<lambda>pt.
        case pt of None \<Rightarrow> Inl BadDesc
        | Some pt \<Rightarrow> if tsize pt \<noteq> dsize then Inl BadDesc else Inr (d\<lparr>lobsize := (\<lambda>_. 0)(0 := sint dsize)\<rparr>)))"

definition find_entry :: "type_table \<Rightarrow> nat \<Rightarrow> u32 \<Rightarrow> u32 \<Rightarrow> load_error + int \<times> Type option" where
  "find_entry types isize entry entryt =
     (if sint entry < int isize \<and> sint entryt < int (length types)
      then sumbind (lookup_type types entryt) (\<lambda>t. Inr (sint entry, t))
      else Inr (0, None))"

text \<open>
  What comes after the header.  \<open>n\<close> is the value that the variable \<open>n\<close> of \<open>parsemod\<close> has when the handlers are read: the
  length of the last table of imports or, without imports, the count of the last item of the data, and if there is none either, it is not
  set.  The model ends where \<open>parsemod\<close> may call the just-in-time compiler and adds the module to the list of modules.
\<close>

definition parse_sections :: "u64 \<Rightarrow> u32 \<Rightarrow> u32 \<Rightarrow> u32 \<Rightarrow> u32 \<Rightarrow> u32 \<Rightarrow> u32 \<Rightarrow> u32 \<Rightarrow> u32 \<Rightarrow> byte list \<Rightarrow> load_error + Module" where
  "parse_sections n rt ss isize dsize hsize lsize entry entryt r =
     (if isize <s 0 \<or> dsize <s 0 \<or> hsize <s 0 \<or> lsize <s 0 then Inl Implausible
      else
        sumbind (parse_insts (unat isize) (unat isize) r) (\<lambda>(prog, r).
        sumbind (parse_types (unat hsize) (unat hsize) (replicate (unat hsize) None) r) (\<lambda>(types, r).
        sumbind (origmp types dsize) (\<lambda>d.
        sumbind (load_data types r d) (\<lambda>(d, r).
        sumbind (parse_name r) (\<lambda>(nm, r).
        sumbind (parse_n (parse_link types) (unat lsize) r) (\<lambda>(ext, r).
        if rt AND HASLDT0 \<noteq> 0 then Inl ObsoleteDis
        else
          sumbind (if rt AND HASLDT \<noteq> 0 then parse_ldt r else Inr ([], r)) (\<lambda>(ldt, r).
          sumbind (if rt AND HASEXCEPT \<noteq> 0 then parse_excepts types n r else Inr ([], r)) (\<lambda>(htab, r).
          sumbind (find_entry types (unat isize) entry entryt) (\<lambda>(e, t).
          Inr \<lparr>m_rt = scast rt, m_ss = scast ss, m_prog = prog, m_type = types, m_data = d, m_name = nm, m_ext = ext, m_ldt = ldt, m_htab = htab,
               m_entry = e, m_entryt = t\<rparr>))))))))))"

definition parsemod :: "(byte list \<Rightarrow> byte list \<Rightarrow> bool) \<Rightarrow> bool \<Rightarrow> u64 \<Rightarrow> byte list \<Rightarrow> load_error + Module" where
  "parsemod verifysigner mustbesigned n code =
     sumbind (parse_magic verifysigner mustbesigned code) (\<lambda>r.
     case get_many operand 8 r of
       Some ([rt, ss, isize, dsize, hsize, lsize, entry, entryt], r) \<Rightarrow> parse_sections n rt ss isize dsize hsize lsize entry entryt r
     | _ \<Rightarrow> Inl Short)"

section \<open>Modules from compiler to loader\<close>

definition types_of :: "objmod \<Rightarrow> type_table" where
  "types_of m = set_types (o_descs m) (replicate (length (o_descs m)) None)"

definition data_start :: "objmod \<Rightarrow> ldata" where
  "data_start m = \<lparr>lmem = \<lambda>_ _. Fresh, lobsize = (\<lambda>_. 0)(0 := uint (o_offset m)), larr = \<lambda>_. None, lnobj = 1, laddr = (0, 0), lstack = []\<rparr>"

text \<open>What the earlier passes of the compiler are relied on for: the counts are right, and everything fits.\<close>

definition counts_ok :: "objmod \<Rightarrow> bool" where
  "counts_ok m \<longleftrightarrow> o_ninst m = word_of_nat (length (live (o_insts m))) \<and> length (live (o_insts m)) < 2 ^ 29
     \<and> o_ndesc m = word_of_nat (length (o_descs m)) \<and> length (o_descs m) < 2 ^ 29
     \<and> o_nlink m = word_of_nat (length (o_exports m)) \<and> length (o_exports m) < 2 ^ 29
     \<and> unat (o_offset m) < 2 ^ 29 \<and> sfit 29 (o_maxstack m) \<and> length (o_ldts m) < 2 ^ 29 \<and> length (o_excs m) < 2 ^ 29"

definition parts_ok :: "objmod \<Rightarrow> bool" where
  "parts_ok m \<longleftrightarrow> list_all (inst_ok (length (live (o_insts m)))) (live (o_insts m))
     \<and> list_all (desc_ok (length (o_descs m))) (o_descs m) \<and> data_ok (o_globals m)
     \<and> (o_offset m \<noteq> 0 \<longrightarrow> (\<exists>d. types_of m \<noteq> [] \<and> types_of m ! 0 = Some d \<and> tsize d = ucast (o_offset m)))
     \<and> 0 \<notin> set (o_name m) \<and> list_all (export_ok (types_of m)) (o_exports m) \<and> list_all imports_ok (o_ldts m)
     \<and> list_all (\<lambda>e. ex_reach1 e \<or> ex_reach2 e \<longrightarrow> except_ok (length (o_descs m)) e) (o_excs m)"

definition loaded :: "objmod \<Rightarrow> int \<Rightarrow> Type option \<Rightarrow> ldata \<Rightarrow> Module" where
  "loaded m e t d =
     \<lparr>m_rt = hints m, m_ss = o_maxstack m, m_prog = map inst_of (live (o_insts m)), m_type = types_of m, m_data = d,
      m_name = take 63 (o_name m), m_ext = map (link_of (types_of m)) (o_exports m),
      m_ldt = (if o_LDT m then map (map import_of \<circ> snd) (o_ldts m) else []),
      m_htab = map (handler_of (types_of m)) (filter (\<lambda>e. ex_reach1 e \<or> ex_reach2 e) (o_excs m)), m_entry = e, m_entryt = t\<rparr>"

lemma types_of_length [simp]: "length (types_of m) = length (o_descs m)"
  by (simp add: types_of_def)

lemma hints_bits:
  "sfit 29 (hints m)" "(ucast (hints m) :: u32) AND 16 = 0" "(ucast (hints m) :: u32) AND 64 \<noteq> 0 \<longleftrightarrow> o_LDT m"
  "(ucast (hints m) :: u32) AND 32 \<noteq> 0 \<longleftrightarrow> o_excs m \<noteq> []"
  unfolding hints_def sfit_def by (cases "o_mustcompile m"; cases "o_dontcompile m"; cases "o_LDT m"; cases "o_excs m = []"; simp)+

lemma discon_magic: "discon XMAGIC = Some [0xC0, 0x0C, 0x80, 0x30]"
  by code_simp

lemma parse_magic_ok: "parse_magic vs False ([0xC0, 0x0C, 0x80, 0x30] @ r) = Inr r"
  by (simp add: parse_magic_def Let_def)

lemma origmp_ok:
  assumes "unat (o_offset m) < 2 ^ 29" "o_offset m \<noteq> 0 \<longrightarrow> (\<exists>d. types_of m \<noteq> [] \<and> types_of m ! 0 = Some d \<and> tsize d = ucast (o_offset m))"
  shows "origmp (types_of m) (ucast (o_offset m)) = Inr (data_start m)"
proof -
  have u: "sint (ucast (o_offset m) :: u32) = uint (o_offset m)" "unat (ucast (o_offset m) :: u32) = unat (o_offset m)"
    using small_u64(2,3) [OF assms(1)] by auto
  show ?thesis
  proof (cases "o_offset m = 0")
    case True
    then show ?thesis
      by (simp add: origmp_def data_start_def fun_eq_iff)
  next
    case False
    then have "(ucast (o_offset m) :: u32) \<noteq> 0"
      using u(2) by (metis unat_0 unat_eq_0)
    moreover obtain d where "types_of m \<noteq> []" "types_of m ! 0 = Some d" "tsize d = ucast (o_offset m)"
      using False assms(2) by blast
    ultimately show ?thesis
      using u(1) by (simp add: origmp_def data_start_def lookup_type_def del: types_of_length)
  qed
qed

lemma parse_name_ok: "0 \<notin> set nm \<Longrightarrow> parse_name (take 63 nm @ 0 # r) = Inr (take 63 nm, r)"
proof -
  assume n: "0 \<notin> set nm"
  then have "0 \<notin> set (take 63 nm)"
    using set_take_subset [of 63 nm] by blast
  moreover have "0 \<in> set (take 128 (take 63 nm @ 0 # r))"
    by (cases "length nm < 63") (auto simp: take_append min_def take_Cons' )
  ultimately show ?thesis
    using cstr_append by (simp add: parse_name_def del: take_append)
qed

definition header :: "objmod \<Rightarrow> u64 \<Rightarrow> u64 \<Rightarrow> u64 list" where
  "header m pc i = [hints m, o_maxstack m, o_ninst m, o_offset m, o_ndesc m, o_nlink m, pc, i]"

lemma header_ok:
  assumes c: "counts_ok m" and e: "sfit 29 pc" "sfit 29 i"
  shows "\<exists>a b. discons [XMAGIC, hints m, o_maxstack m, o_ninst m, o_offset m, o_ndesc m, o_nlink m] = Some ([0xC0, 0x0C, 0x80, 0x30] @ a)
    \<and> discons [pc, i] = Some b \<and> (\<forall>r. get_many operand 8 (a @ b @ r) = Some (map ucast (header m pc i), r))"
proof -
  have s: "sfit 29 (word_of_nat k)" if "k < 2 ^ 29" for k
    using small_u64(1) [of "word_of_nat k"] unat_word_of_small [OF that] that by simp
  have all: "\<forall>v\<in>set (header m pc i). sfit 29 v"
    using c e hints_bits(1) s small_u64(1) [of "o_offset m"] by (auto simp: header_def counts_ok_def)
  have split: "discons (vs @ us) = Option.bind (discons vs) (\<lambda>p. map_option ((@) p) (discons us))" for vs us
  proof (induction vs)
    case Nil
    then show ?case
      by (cases "discons us") simp_all
  next
    case (Cons v vs)
    then show ?case
      by (cases "discon v"; cases "discons vs"; cases "discons us") simp_all
  qed
  obtain ab where ab: "discons (header m pc i) = Some ab"
    using discons_ex [OF all] by blast
  then obtain a b where p: "discons [hints m, o_maxstack m, o_ninst m, o_offset m, o_ndesc m, o_nlink m] = Some a" "discons [pc, i] = Some b" "ab = a @ b"
    using split [of "[hints m, o_maxstack m, o_ninst m, o_offset m, o_ndesc m, o_nlink m]" "[pc, i]"]
    by (cases "discons [hints m, o_maxstack m, o_ninst m, o_offset m, o_ndesc m, o_nlink m]"; cases "discons [pc, i]")
      (auto simp: header_def simp del: discons.simps)
  have "get_many operand 8 (a @ b @ r) = Some (map ucast (header m pc i), r)" for r
    using discons_get_many [OF all ab, of r] p(3) by (simp add: header_def numeral_eq_Suc)
  moreover have "discons (XMAGIC # vs) = map_option ((@) [0xC0, 0x0C, 0x80, 0x30]) (discons vs)" for vs
    by (simp only: discons.simps discon_magic option.case)
  ultimately show ?thesis
    using p by (simp del: discons.simps)
qed

lemma sections_ok:
  assumes c: "counts_ok m" and p: "parts_ok m"
  shows "\<exists>js ds vs ms. disinst (o_insts m) = Some js \<and> disdesc (o_descs m) = Some ds \<and> disvar (o_globals m) = Some vs \<and> dismod (o_name m) (o_exports m) = Some ms
    \<and> (\<forall>r. parse_insts (length (live (o_insts m))) (length (live (o_insts m))) (js @ r) = Inr (map inst_of (live (o_insts m)), r))
    \<and> (\<forall>r. parse_types (length (o_descs m)) (length (o_descs m)) (replicate (length (o_descs m)) None) (ds @ r) = Inr (types_of m, r))
    \<and> (\<forall>types r d. load_data types (vs @ r) d = map_sum id (\<lambda>d. (d, r)) (store_data types (o_globals m) d))
    \<and> (\<exists>x. ms = take 63 (o_name m) @ 0 # x \<and> (\<forall>r. parse_n (parse_link (types_of m)) (length (o_exports m)) (x @ r) = Inr (map (link_of (types_of m)) (o_exports m), r)))"
proof -
  let ?n = "length (live (o_insts m))" and ?k = "length (o_descs m)"
  have n: "?n < 2 ^ 31" "\<forall>i\<in>set (live (o_insts m)). inst_ok ?n i" "?k < 2 ^ 29" "\<forall>d\<in>set (o_descs m). desc_ok ?k d"
    using c p by (simp_all add: counts_ok_def parts_ok_def list_all_iff)
  obtain out ib js where i: "disinst_loop (o_insts m) [] [] = Some (out, ib)" "out @ ib = js"
      "\<forall>r. parse_insts ?n ?n (js @ r) = Inr (map inst_of (live (o_insts m)), r)"
    using disinst_loop_parse [OF n(1,2), of "[]" "[]"] by auto
  have "disinst (o_insts m) = Some js"
    using i(1,2) by (auto simp: disinst_def)
  moreover obtain ds where "disdesc (o_descs m) = Some ds" "\<forall>r. parse_types ?k ?k (replicate ?k None) (ds @ r) = Inr (types_of m, r)"
    using parse_types_disdesc [OF n(3,4), of "replicate ?k None"] unfolding types_of_def by auto
  moreover obtain vs where "disvar (o_globals m) = Some vs" "\<forall>types r d. load_data types (vs @ r) d = map_sum id (\<lambda>d. (d, r)) (store_data types (o_globals m) d)"
    using disvar_loads [of "o_globals m"] p by (auto simp: parts_ok_def)
  moreover have "\<exists>b. disexport x = Some b \<and> (\<forall>r. parse_link (types_of m) (b @ r) = Inr (link_of (types_of m) x, r))" if "x \<in> set (o_exports m)" for x
    using parse_link_ok [of "types_of m" x] n(3) p that by (auto simp: parts_ok_def list_all_iff)
  then obtain x where "disconcat disexport (o_exports m) = Some x"
      "\<forall>r. parse_n (parse_link (types_of m)) (length (o_exports m)) (x @ r) = Inr (map (link_of (types_of m)) (o_exports m), r)"
    using parse_n_ok [of "o_exports m" disexport "parse_link (types_of m)" "link_of (types_of m)"] by blast
  moreover from this(1) have "dismod (o_name m) (o_exports m) = Some (take 63 (o_name m) @ 0 # x)"
    by (simp add: dismod_def)
  ultimately show ?thesis
    using i(3) by blast
qed

lemma tables_ok:
  assumes c: "counts_ok m" and p: "parts_ok m" and n: "n \<noteq> -1"
  shows "\<exists>ls es. (if o_LDT m then disldt (o_ldts m) else Some []) = Some ls \<and> (if o_excs m \<noteq> [] then disexc (o_excs m) else Some []) = Some es
    \<and> (\<forall>r. (if (ucast (hints m) :: u32) AND 64 \<noteq> 0 then parse_ldt (ls @ r) else Inr ([], ls @ r)) = Inr (if o_LDT m then map (map import_of \<circ> snd) (o_ldts m) else [], r))
    \<and> (\<forall>r. (if (ucast (hints m) :: u32) AND 32 \<noteq> 0 then parse_excepts (types_of m) n (es @ r) else Inr ([], es @ r))
        = Inr (map (handler_of (types_of m)) (filter (\<lambda>e. ex_reach1 e \<or> ex_reach2 e) (o_excs m)), r))"
proof -
  obtain ls where l: "disldt (o_ldts m) = Some ls" "\<forall>r. parse_ldt (ls @ r) = Inr (map (map import_of \<circ> snd) (o_ldts m), r)"
    using parse_ldt_ok [of "o_ldts m"] c p by (auto simp: counts_ok_def parts_ok_def)
  obtain es where e: "disexc (o_excs m) = Some es"
      "\<forall>r. parse_excepts (types_of m) n (es @ r) = Inr (map (handler_of (types_of m)) (filter (\<lambda>e. ex_reach1 e \<or> ex_reach2 e) (o_excs m)), r)"
    using parse_excepts_ok [of "types_of m" "o_excs m" n] c p n by (auto simp: counts_ok_def parts_ok_def list_all_iff)
  show ?thesis
    unfolding hints_bits(3,4)
    by (intro exI [of _ "if o_LDT m then ls else []"] exI [of _ "if o_excs m \<noteq> [] then es else []"]) (use l e in auto)
qed

text \<open>Everything up to the entry.\<close>

lemma parsemod_body:
  assumes c: "counts_ok m" and p: "parts_ok m" and e: "sfit 29 pc" "sfit 29 i" "disentry (o_entry m) = discons [pc, i]" and n: "n \<noteq> -1"
    and d: "store_data (types_of m) (o_globals m) (data_start m) = Inr d"
  shows "\<exists>bs. gendis m = Some bs \<and> (\<forall>vs. parsemod vs False n bs
    = sumbind (find_entry (types_of m) (length (live (o_insts m))) (ucast pc) (ucast i)) (\<lambda>(e, t). Inr (loaded m e t d)))"
proof -
  let ?n = "length (live (o_insts m))" and ?k = "length (o_descs m)" and ?l = "length (o_exports m)"
  obtain a b where ab: "discons [XMAGIC, hints m, o_maxstack m, o_ninst m, o_offset m, o_ndesc m, o_nlink m] = Some ([0xC0, 0x0C, 0x80, 0x30] @ a)"
      "discons [pc, i] = Some b" "\<And>r. get_many operand 8 (a @ b @ r) = Some (map ucast (header m pc i), r)"
    using header_ok [OF c e(1,2)] by blast
  obtain js ds vs ms x where s: "disinst (o_insts m) = Some js" "disdesc (o_descs m) = Some ds" "disvar (o_globals m) = Some vs" "dismod (o_name m) (o_exports m) = Some ms"
      "\<And>r. parse_insts ?n ?n (js @ r) = Inr (map inst_of (live (o_insts m)), r)"
      "\<And>r. parse_types ?k ?k (replicate ?k None) (ds @ r) = Inr (types_of m, r)"
      "\<And>types r d. load_data types (vs @ r) d = map_sum id (\<lambda>d. (d, r)) (store_data types (o_globals m) d)"
      "ms = take 63 (o_name m) @ 0 # x" "\<And>r. parse_n (parse_link (types_of m)) ?l (x @ r) = Inr (map (link_of (types_of m)) (o_exports m), r)"
    using sections_ok [OF c p] by blast
  obtain ls es where t: "(if o_LDT m then disldt (o_ldts m) else Some []) = Some ls" "(if o_excs m \<noteq> [] then disexc (o_excs m) else Some []) = Some es"
    "\<And>r. (if (ucast (hints m) :: u32) AND 64 \<noteq> 0 then parse_ldt (ls @ r) else Inr ([], ls @ r)) = Inr (if o_LDT m then map (map import_of \<circ> snd) (o_ldts m) else [], r)"
    "\<And>r. (if (ucast (hints m) :: u32) AND 32 \<noteq> 0 then parse_excepts (types_of m) n (es @ r) else Inr ([], es @ r))
        = Inr (map (handler_of (types_of m)) (filter (\<lambda>e. ex_reach1 e \<or> ex_reach2 e) (o_excs m)), r)"
    using tables_ok [OF c p n] by blast
  define bs where "bs = [0xC0, 0x0C, 0x80, 0x30] @ a @ b @ js @ ds @ vs @ ms @ ls @ es @ dispath (o_path m)"
  have g: "gendis m = Some bs"
    unfolding gendis_def appendo.simps ab(1) e(3) ab(2) s(1-4) t(1,2) by (simp add: bs_def)
  have w: "unat (ucast (o_ninst m) :: u32) = ?n" "\<not> (ucast (o_ninst m) :: u32) <s 0" "unat (ucast (o_ndesc m) :: u32) = ?k" "\<not> (ucast (o_ndesc m) :: u32) <s 0"
      "unat (ucast (o_nlink m) :: u32) = ?l" "\<not> (ucast (o_nlink m) :: u32) <s 0" "\<not> (ucast (o_offset m) :: u32) <s 0"
    using c unat_word_of_small [of ?n] unat_word_of_small [of ?k] unat_word_of_small [of ?l]
      small_u64(2,3) [of "o_ninst m"] small_u64(2,3) [of "o_ndesc m"] small_u64(2,3) [of "o_nlink m"] small_u64(2) [of "o_offset m"]
    by (auto simp: counts_ok_def word_sless_alt)
  have sc: "(scast (ucast (hints m) :: u32) :: u64) = hints m" "(scast (ucast (o_maxstack m) :: u32) :: u64) = o_maxstack m"
    using scast_ucast_sfit hints_bits(1) c by (auto simp: counts_ok_def)
  have om: "origmp (types_of m) (ucast (o_offset m)) = Inr (data_start m)"
    using c p by (intro origmp_ok) (auto simp: counts_ok_def parts_ok_def)
  have nm: "0 \<notin> set (o_name m)"
    using p by (simp add: parts_ok_def)
  have ld: "load_data (types_of m) (vs @ r) (data_start m) = Inr (d, r)" for r
    unfolding s(7) d by simp
  let ?r2 = "ls @ es @ dispath (o_path m)"
  let ?r1 = "js @ ds @ vs @ take 63 (o_name m) @ 0 # x @ ?r2"
  have "parsemod vf False n bs = parse_sections n (ucast (hints m)) (ucast (o_maxstack m)) (ucast (o_ninst m)) (ucast (o_offset m)) (ucast (o_ndesc m))
      (ucast (o_nlink m)) (ucast pc) (ucast i) ?r1" for vf
    unfolding parsemod_def bs_def parse_magic_ok sumbind_simps ab(3) header_def list.map option.case prod.case list.case s(8) by simp
  moreover have "parse_sections n (ucast (hints m)) (ucast (o_maxstack m)) (ucast (o_ninst m)) (ucast (o_offset m)) (ucast (o_ndesc m))
      (ucast (o_nlink m)) (ucast pc) (ucast i) ?r1 = sumbind (find_entry (types_of m) ?n (ucast pc) (ucast i)) (\<lambda>(e, t). Inr (loaded m e t d))"
    unfolding parse_sections_def w(1,3,5) s(5) sumbind_simps prod.case s(6) om ld parse_name_ok [OF nm] s(9) t(3,4) loaded_def sc
    using w(2,4,6,7) hints_bits(2) by simp
  ultimately have "parsemod vf False n bs = sumbind (find_entry (types_of m) ?n (ucast pc) (ucast i)) (\<lambda>(e, t). Inr (loaded m e t d))" for vf
    by simp
  then show ?thesis
    using g by blast
qed

text \<open>
  Claim C11 (round trip).  An object file.  Given what the earlier passes of the compiler promise (the counts are right, operands and offsets fit,
  descriptors, exports and handlers refer to descriptors of the module), the compiler writes a file that the loader accepts: the
  module has the instructions with their branches patched, the descriptors, the data with every initial value stored, the exports
  with their frames, the imports, the handlers, and the entry.
\<close>

theorem module_roundtrip:
  assumes "counts_ok m" "parts_ok m" "o_entry m = Some (pc, i)" "unat pc < length (live (o_insts m))" "unat i < length (o_descs m)"
    and "store_data (types_of m) (o_globals m) (data_start m) = Inr d" and "n \<noteq> -1"
  shows "\<exists>bs. gendis m = Some bs \<and> (\<forall>verify. parsemod verify False n bs = Inr (loaded m (int (unat pc)) (types_of m ! unat i) d))"
proof -
  have b: "unat pc < 2 ^ 29" "unat i < 2 ^ 29"
    using assms(1,4,5) by (auto simp: counts_ok_def)
  have s: "sint (ucast pc :: u32) = int (unat pc)" "sint (ucast i :: u32) = int (unat i)" "unat (ucast i :: u32) = unat i"
    using small_u64(2,3) [OF b(1)] small_u64(2,3) [OF b(2)] by auto
  have "find_entry (types_of m) (length (live (o_insts m))) (ucast pc) (ucast i) = Inr (int (unat pc), types_of m ! unat i)"
    using assms(4,5) s by (simp add: find_entry_def lookup_type_def del: of_nat_unat)
  moreover obtain bs where "gendis m = Some bs" "\<forall>verify. parsemod verify False n bs
    = sumbind (find_entry (types_of m) (length (live (o_insts m))) (ucast pc) (ucast i)) (\<lambda>(e, t). Inr (loaded m e t d))"
    using parsemod_body [OF assms(1,2) small_u64(1) [OF b(1)] small_u64(1) [OF b(2)] _ assms(7,6)] assms(3) by (auto simp: disentry_def)
  ultimately show ?thesis
    by auto
qed

definition objmod0 :: objmod where
  "objmod0 = \<lparr>o_mustcompile = False, o_dontcompile = False, o_LDT = True, o_maxstack = 80, o_ninst = 2, o_offset = 16, o_ndesc = 2, o_nlink = 1,
     o_entry = Some (0, 1), o_insts = [jmp0, addw0],
     o_descs = [\<lparr>desc_id = 0, desc_size = 16, desc_nmap = 0, desc_map = []\<rparr>, \<lparr>desc_id = 1, desc_size = 64, desc_nmap = 1, desc_map = [0xC0]\<rparr>],
     o_globals = [(0, Tint 5), (8, Tint 6)], o_name = [0x4D], o_exports = [Dfn 0 1 7 None [0x66]], o_ldts = [(1, [(9, None, [0x67])])],
     o_excs = [], o_path = [0x6D]\<rparr>"

lemma objmod0_ok: "counts_ok objmod0" "parts_ok objmod0"
proof -
  show "counts_ok objmod0"
  proof -
    have l: "length (live (o_insts objmod0)) = 2" "length (o_descs objmod0) = 2" "length (o_exports objmod0) = 1" "length (o_ldts objmod0) = 1" "length (o_excs objmod0) = 0"
      by code_simp+
    show ?thesis
      unfolding counts_ok_def l by (simp add: objmod0_def sfit_def)
  qed
  have t: "types_of objmod0 = [Some \<lparr>tsize = 16, tnp = 0, tmap = []\<rparr>, Some \<lparr>tsize = 64, tnp = 1, tmap = [0xC0]\<rparr>]"
    by code_simp
  show "parts_ok objmod0"
  proof -
    have "live (o_insts objmod0) = [jmp0, addw0]" "list_all (inst_ok 2) [jmp0, addw0]"
      by code_simp+
    then have "list_all (inst_ok (length (live (o_insts objmod0)))) (live (o_insts objmod0))"
      by (simp add: numeral_2_eq_2)
    moreover have "list_all (desc_ok (length (o_descs objmod0))) (o_descs objmod0)"
      by (simp add: objmod0_def desc_ok_def)
    moreover have "data_ok (o_globals objmod0)"
      by code_simp
    moreover have "0 \<notin> set (o_name objmod0)" "o_excs objmod0 = []"
      by (simp_all add: objmod0_def)
    moreover have "list_all (export_ok (types_of objmod0)) (o_exports objmod0)"
      unfolding t by (simp add: objmod0_def sfit_def name_ok_def)
    moreover have "list_all imports_ok (o_ldts objmod0)"
      by (simp add: objmod0_def imports_ok_def name_ok_def)
    moreover have "types_of objmod0 \<noteq> [] \<and> types_of objmod0 ! 0 = Some \<lparr>tsize = 16, tnp = 0, tmap = []\<rparr> \<and> 16 = (ucast (o_offset objmod0) :: u32)"
      unfolding t by (simp add: objmod0_def)
    ultimately show ?thesis
      unfolding parts_ok_def by fastforce
  qed
qed

lemma objmod0_data:
  "\<exists>d. store_data (types_of objmod0) (o_globals objmod0) (data_start objmod0) = Inr d \<and> lmem d 0 8 = Part (Vword 6) 0 \<and> lmem d 0 0 = Part (Vword 5) 0"
proof -
  have "case store_data (types_of objmod0) (o_globals objmod0) (data_start objmod0) of Inl _ \<Rightarrow> False
      | Inr d \<Rightarrow> lmem d 0 8 = Part (Vword 6) 0 \<and> lmem d 0 0 = Part (Vword 5) 0"
    by code_simp
  then show ?thesis
    by (auto split: sum.splits)
qed

theorem module_roundtrip_witness:
  "counts_ok objmod0 \<and> parts_ok objmod0
   \<and> (\<exists>bs d. gendis objmod0 = Some bs \<and> parsemod (\<lambda>_ _. False) False 0 bs = Inr (loaded objmod0 0 (types_of objmod0 ! 1) d)
       \<and> lmem d 0 8 = Part (Vword 6) 0 \<and> lmem d 0 0 = Part (Vword 5) 0)"
proof -
  obtain d where d: "store_data (types_of objmod0) (o_globals objmod0) (data_start objmod0) = Inr d"
      "lmem d 0 8 = Part (Vword 6) 0" "lmem d 0 0 = Part (Vword 5) 0"
    using objmod0_data by blast
  have "o_entry objmod0 = Some (0, 1)" "unat (0 :: u64) < length (live (o_insts objmod0))" "unat (1 :: u64) < length (o_descs objmod0)"
    by code_simp+
  from module_roundtrip [OF objmod0_ok this d(1), of 0] show ?thesis
    using objmod0_ok d(2,3) by force
qed

text \<open>
  Property (error).  A module without an entry.  The compiler writes the entry -1 and the descriptor -1 for it.  The test of the loader has no lower
  bound, so for every such file, after it has read all of it, the loader uses -1 as an index of its table of descriptors:
  \<open>Overrun_type\<close> is the access outside that table.
\<close>

theorem module_without_entry:
  assumes "counts_ok m" "parts_ok m" "o_entry m = None" "store_data (types_of m) (o_globals m) (data_start m) = Inr d" "n \<noteq> -1"
  shows "\<exists>bs. gendis m = Some bs \<and> (\<forall>verify. parsemod verify False n bs = Inl Overrun_type)"
proof -
  have "sint (ucast (-1 :: u64) :: u32) = -1"
    by code_simp
  then have "find_entry (types_of m) (length (live (o_insts m))) (ucast (-1 :: u64)) (ucast (-1 :: u64)) = Inl Overrun_type"
    by (simp add: find_entry_def lookup_type_def)
  moreover obtain bs where "gendis m = Some bs" "\<forall>verify. parsemod verify False n bs
    = sumbind (find_entry (types_of m) (length (live (o_insts m))) (ucast (-1 :: u64)) (ucast (-1 :: u64))) (\<lambda>(e, t). Inr (loaded m e t d))"
    using parsemod_body [OF assms(1,2) sfit_m1 sfit_m1 _ assms(5,4)] assms(3) by (auto simp: disentry_def)
  ultimately show ?thesis
    by simp
qed

theorem module_without_entry_witness:
  "\<exists>bs. gendis (objmod0\<lparr>o_entry := None\<rparr>) = Some bs \<and> parsemod (\<lambda>_ _. False) False 0 bs = Inl Overrun_type"
proof -
  let ?m = "objmod0\<lparr>o_entry := None\<rparr>"
  have eq: "types_of ?m = types_of objmod0" "data_start ?m = data_start objmod0" "o_globals ?m = o_globals objmod0"
    by (simp_all add: types_of_def data_start_def)
  have c: "counts_ok ?m" "parts_ok ?m"
    using objmod0_ok by (simp_all add: counts_ok_def parts_ok_def eq)
  obtain d where d: "store_data (types_of ?m) (o_globals ?m) (data_start ?m) = Inr d"
    using objmod0_data unfolding eq by blast
  show ?thesis
    using module_without_entry [OF c _ d, of 0] by auto
qed

section \<open>Linking modules\<close>

text \<open>
  \<open>linkm\<close> looks an import up in the exports of a module, whose table ends with an entry without name.  \<open>junk\<close> is the signature in that
  entry, which \<open>parsemod\<close> does not set.  The result is \<open>None\<close> for an error, and \<open>Some None\<close> if the last entry was taken.
\<close>

definition linkm :: "u32 \<Rightarrow> Link list \<Rightarrow> Import \<Rightarrow> Link option option" where
  "linkm junk ext imp =
     (case imp of (sg, nm) \<Rightarrow>
        let l = find (\<lambda>l. lk_name l = nm) ext
        in if (case l of None \<Rightarrow> junk | Some l \<Rightarrow> lk_sig l) \<noteq> sg then None else Some l)"

fun linkmod :: "u32 \<Rightarrow> Link list \<Rightarrow> Import list \<Rightarrow> Link option list option" where
  "linkmod junk ext [] = Some []"
| "linkmod junk ext (i # is) = Option.bind (linkm junk ext i) (\<lambda>l. map_option ((#) l) (linkmod junk ext is))"

lemma find_name: "distinct (map lk_name ext) \<Longrightarrow> find (\<lambda>l. lk_name l = nm) ext = Some l \<longleftrightarrow> l \<in> set ext \<and> lk_name l = nm"
  by (induction ext) (auto simp: image_iff)

lemma linkm_some:
  assumes "distinct (map lk_name ext)"
  shows "linkm junk ext (sg, nm) = Some (Some l) \<longleftrightarrow> l \<in> set ext \<and> lk_name l = nm \<and> lk_sig l = sg"
  using find_name [OF assms, of nm l] by (auto simp: linkm_def Let_def)

lemma linkm_exact:
  assumes "distinct (map lk_name ext)"
  shows "linkm junk ext (sg, nm) = Some r \<longleftrightarrow>
    (case r of Some l \<Rightarrow> l \<in> set ext \<and> lk_name l = nm \<and> lk_sig l = sg | None \<Rightarrow> nm \<notin> lk_name ` set ext \<and> sg = junk)"
    "linkm junk ext (sg, nm) = None \<longleftrightarrow>
      (if nm \<in> lk_name ` set ext then \<exists>l\<in>set ext. lk_name l = nm \<and> lk_sig l \<noteq> sg else sg \<noteq> junk)"
proof -
  define P Q where "P = (linkm junk ext (sg, nm) = Some r \<longleftrightarrow>
      (case r of Some l \<Rightarrow> l \<in> set ext \<and> lk_name l = nm \<and> lk_sig l = sg | None \<Rightarrow> nm \<notin> lk_name ` set ext \<and> sg = junk))"
    and "Q = (linkm junk ext (sg, nm) = None \<longleftrightarrow>
      (if nm \<in> lk_name ` set ext then \<exists>l\<in>set ext. lk_name l = nm \<and> lk_sig l \<noteq> sg else sg \<noteq> junk))"
  have "P \<and> Q"
  proof (cases "find (\<lambda>l. lk_name l = nm) ext")
    case None
    then have n: "nm \<notin> lk_name ` set ext" "\<forall>l\<in>set ext. lk_name l \<noteq> nm"
      by (auto simp: find_None_iff)
    then show ?thesis
      using None by (auto simp: P_def Q_def linkm_def Let_def split: option.splits)
  next
    case (Some l)
    then have l: "x \<in> set ext \<and> lk_name x = nm \<longleftrightarrow> x = l" for x
      using find_name [OF assms, of nm x] by auto
    have "nm \<in> lk_name ` set ext" "(\<exists>x\<in>set ext. lk_name x = nm \<and> lk_sig x \<noteq> sg) \<longleftrightarrow> lk_sig l \<noteq> sg"
      "x \<in> set ext \<and> lk_name x = nm \<and> lk_sig x = sg \<longleftrightarrow> x = l \<and> lk_sig l = sg" for x
      by (metis imageI l, metis l, metis l)
    then show ?thesis
      using Some by (auto simp: P_def Q_def linkm_def split: option.splits)
  qed
  then show "linkm junk ext (sg, nm) = Some r \<longleftrightarrow>
      (case r of Some l \<Rightarrow> l \<in> set ext \<and> lk_name l = nm \<and> lk_sig l = sg | None \<Rightarrow> nm \<notin> lk_name ` set ext \<and> sg = junk)"
    and "linkm junk ext (sg, nm) = None \<longleftrightarrow>
      (if nm \<in> lk_name ` set ext then \<exists>l\<in>set ext. lk_name l = nm \<and> lk_sig l \<noteq> sg else sg \<noteq> junk)"
    unfolding P_def Q_def by blast+
qed

lemma linkmod_None: "linkmod junk ext imps = None \<longleftrightarrow> (\<exists>i\<in>set imps. linkm junk ext i = None)"
  by (induction imps) (auto simp: bind_eq_None_conv)

lemma linkmod_exact:
  assumes "distinct (map lk_name ext)"
  shows "linkmod junk ext imps = Some rs \<longleftrightarrow>
      list_all2 (\<lambda>(sg, nm) r. case r of Some l \<Rightarrow> l \<in> set ext \<and> lk_name l = nm \<and> lk_sig l = sg
        | None \<Rightarrow> nm \<notin> lk_name ` set ext \<and> sg = junk) imps rs"
    and "linkmod junk ext imps = None \<longleftrightarrow>
      (\<exists>(sg, nm)\<in>set imps. if nm \<in> lk_name ` set ext then \<exists>l\<in>set ext. lk_name l = nm \<and> lk_sig l \<noteq> sg else sg \<noteq> junk)"
proof -
  show "linkmod junk ext imps = Some rs \<longleftrightarrow>
      list_all2 (\<lambda>(sg, nm) r. case r of Some l \<Rightarrow> l \<in> set ext \<and> lk_name l = nm \<and> lk_sig l = sg
        | None \<Rightarrow> nm \<notin> lk_name ` set ext \<and> sg = junk) imps rs"
  proof (induction imps arbitrary: rs)
    case (Cons i imps)
    then show ?case
      using linkm_exact(1) [OF assms, of junk "fst i" "snd i"] by (cases rs) (auto simp: bind_eq_Some_conv case_prod_unfold)
  qed auto
  have "linkm junk ext i = None \<longleftrightarrow> (case i of (sg, nm) \<Rightarrow>
      if nm \<in> lk_name ` set ext then \<exists>l\<in>set ext. lk_name l = nm \<and> lk_sig l \<noteq> sg else sg \<noteq> junk)" for i
    by (cases i) (simp add: linkm_exact(2) [OF assms])
  then show "linkmod junk ext imps = None \<longleftrightarrow>
      (\<exists>(sg, nm)\<in>set imps. if nm \<in> lk_name ` set ext then \<exists>l\<in>set ext. lk_name l = nm \<and> lk_sig l \<noteq> sg else sg \<noteq> junk)"
    unfolding linkmod_None by (rule bex_cong [OF refl])
qed

text \<open>
  Claim C13 (functional).  Linking.  For a module whose exports have different names, linking gives a table of entries if and only if the
  entry of each import is the export of its name, whose signature is the import's, or, for a name that is not exported, the end of the table of exports,
  whose signature, \<open>junk\<close>, happens to be the import's.  It fails if and only if some import has an export of its name with another
  signature, or none and a signature other than \<open>junk\<close>.
\<close>

theorem linkmod_correct:
  assumes "distinct (map lk_name ext)"
  shows "(linkmod junk ext imps = Some rs \<longleftrightarrow>
      list_all2 (\<lambda>(sg, nm) r. case r of Some l \<Rightarrow> l \<in> set ext \<and> lk_name l = nm \<and> lk_sig l = sg
        | None \<Rightarrow> nm \<notin> lk_name ` set ext \<and> sg = junk) imps rs)
    \<and> (linkmod junk ext imps = None \<longleftrightarrow>
      (\<exists>(sg, nm)\<in>set imps. if nm \<in> lk_name ` set ext then \<exists>l\<in>set ext. lk_name l = nm \<and> lk_sig l \<noteq> sg else sg \<noteq> junk))"
  using linkmod_exact [OF assms] by simp

theorem linkmod_correct_witness:
  "let ext = [\<lparr>lk_name = [0x66], lk_sig = 7, lk_frame = None, lk_pc = 0\<rparr>, \<lparr>lk_name = [0x67], lk_sig = 9, lk_frame = None, lk_pc = 4\<rparr>]
   in distinct (map lk_name ext) \<and> linkmod 0 ext [(9, [0x67]), (0, [0x68])] = Some [Some (ext ! 1), None] \<and> linkmod 0 ext [(9, [0x66])] = None"
proof -
  let ?ext = "[\<lparr>lk_name = [0x66], lk_sig = 7, lk_frame = None, lk_pc = 0\<rparr>, \<lparr>lk_name = [0x67], lk_sig = 9, lk_frame = None, lk_pc = 4\<rparr>] :: Link list"
  have d: "distinct (map lk_name ?ext)"
    by simp
  show ?thesis
    using linkmod_correct [OF d, of 0 "[(9, [0x67]), (0, [0x68])]" "[Some (?ext ! 1), None]"] linkmod_correct [OF d, of 0 "[(9, [0x66])]"]
    by (simp add: Let_def)
qed

text \<open>The test for a name that the module does not export never holds: the entry without name is linked if its signature matches.\<close>

lemma linkm_missing: "\<forall>l\<in>set ext. lk_name l \<noteq> nm \<Longrightarrow> linkm sg ext (sg, nm) = Some None"
  by (simp add: linkm_def Let_def find_None_iff [THEN iffD2])

end
