(* ===== verification/Spec2Isabelle.thy ===== *)
theory Spec2Isabelle
  imports Styx_Wire Styx_Dir Utf Dis_Run Emu_Lock Os_Qlock Qio_Sys Mp_Exp Dis_String Dis_Alt Dis_File
begin

text \<open>
  A verification of the core of Inferno, the distributed operating system whose sources lie under \<^verbatim>\<open>src/\<close>.

  \<^bold>\<open>The program.\<close>  Inferno runs programs compiled from Limbo (\<^verbatim>\<open>src/limbo\<close>) on the Dis virtual machine
  (\<^verbatim>\<open>src/libinterp\<close>), hosted by another system (\<^verbatim>\<open>src/emu\<close>) or native (\<^verbatim>\<open>src/os\<close>).  Its services are files, served
  over the protocol Styx, or 9P2000 (\<^verbatim>\<open>src/lib9\<close>, \<^verbatim>\<open>src/include/fcall.h\<close>).  The parts treated here meet as follows:
  the compiler writes an object file, the loader reads it, the interpreter decodes and executes it; its
  strings are UTF-8 outside and bytes or runes inside; the kernels synchronize with queueing locks and pass
  data between processes and drivers through queues of blocks; the security library computes with multiple precision numbers.

  \<^bold>\<open>Platform.\<close>  The model is that of Linux on amd64: \<^verbatim>\<open>int\<close> has 32 bits, \<^verbatim>\<open>long\<close>, \<^verbatim>\<open>WORD\<close> and pointers 64, \<^verbatim>\<open>Rune\<close> and
  \<^verbatim>\<open>mpdigit\<close> 32.  Machine integers are words of their width where they can wrap.  A C string or a buffer is a
  list of bytes.  An access outside an object is a value of its own (\<^verbatim>\<open>Overrun\<close>, \<^verbatim>\<open>Overrun_type\<close>, \<^verbatim>\<open>None\<close> where the
  header of a theory says so), never an unspecified element.

  \<^bold>\<open>Theories.\<close>
  \<^item> \<^verbatim>\<open>Inferno_Base\<close>: machine types, byte order macros, and the interfaces \<^verbatim>\<open>stream_codec\<close> and \<^verbatim>\<open>fixed_codec\<close> (a
    reader that undoes a writer) and \<^verbatim>\<open>step_system\<close> (an invariant of the reachable states).
  \<^item> \<^verbatim>\<open>Styx_Fcall\<close>, \<^verbatim>\<open>Styx_Wire\<close>, \<^verbatim>\<open>Styx_Dir\<close>: \<^verbatim>\<open>convS2M.c\<close>, \<^verbatim>\<open>convM2S.c\<close>, \<^verbatim>\<open>convD2M.c\<close> and \<^verbatim>\<open>convM2D.c\<close>.  The
    specification is a datatype of messages with its wire form; the encoder refines it, the decoder accepts
    every frame, the two are inverse, and the decoder never looks beyond the message.
  \<^item> \<^verbatim>\<open>Utf\<close>: \<^verbatim>\<open>rune.c\<close> and the routines that count and search runes.  Encoding and decoding are inverse, only
    canonical encodings are accepted; what \<^verbatim>\<open>fullrune\<close> accepts needs no further byte, and of a canonical encoding it accepts
    only the whole.
  \<^item> \<^verbatim>\<open>Dis_Operand\<close>, \<^verbatim>\<open>Dis_Inst\<close>, \<^verbatim>\<open>Dis_Module\<close>: constants, instructions, type descriptors and exception tables of
    object files, as \<^verbatim>\<open>src/limbo/dis.c\<close> writes and \<^verbatim>\<open>src/libinterp/load.c\<close> reads them.  The loader reads back what the
    compiler writes; the buffer of the compiler does not overflow.
  \<^item> \<^verbatim>\<open>Dis_Data\<close>, \<^verbatim>\<open>Dis_File\<close>: the data section, with arrays, tuples, case tables and strings, and whole object files with header,
    exports, imports, handlers and entry (\<^verbatim>\<open>src/limbo/dis.c\<close>, \<^verbatim>\<open>src/limbo/com.c\<close>, \<^verbatim>\<open>load.c\<close>), and the linking of imports with
    exports (\<^verbatim>\<open>link.c\<close>).  The specification of the data is \<^verbatim>\<open>store_data\<close>, a recursive store of the initial values: neither the cache of the compiler
    nor the stack of the loader shows in what the loader stores.  The loader accepts what the compiler writes and rebuilds the module; an
    import is linked with the export of its name and signature, or, if there is none of its name, with the end of the table if the signature there matches.
  \<^item> \<^verbatim>\<open>Dis_Mem\<close>, \<^verbatim>\<open>Dis_Exec\<close>, \<^verbatim>\<open>Dis_Vm\<close>, \<^verbatim>\<open>Dis_Run\<close>: the memory of the machine with the interface \<^verbatim>\<open>cell\<close>, the decoder
    and the scalar instructions (\<^verbatim>\<open>dec.c\<close>, \<^verbatim>\<open>xec.c\<close>), their correctness (powers, case tables of 32-bit words against the labels of the source,
    array bounds, division), and the composition of compiler, loader and decoder.
  \<^item> \<^verbatim>\<open>Dis_String\<close>: the strings of the machine (\<^verbatim>\<open>string.c\<close>): well-formedness kept by assignment and slices and
    concatenation, comparison as the lexicographic order when strings of bytes are ASCII, and the conversion to bytes and back; the exceptions are theorems.
  \<^item> \<^verbatim>\<open>Dis_Chan\<close>, \<^verbatim>\<open>Dis_Comm\<close>, \<^verbatim>\<open>Dis_Alt\<close>: channels (\<^verbatim>\<open>xec.c\<close>, \<^verbatim>\<open>alt.c\<close>, \<^verbatim>\<open>src/emu/port/dis.c\<close>): send, receive and alt on queues of
    progs and ring buffers.  As long as alts name each channel once, arrays of channels are not assigned while an alt waits, and the system
    sends only where no prog waits to send, no prog waits while the other end of its communication is there and nothing follows a null
    pointer; an alt communicates on one ready entry.  The last section of \<^verbatim>\<open>Dis_Alt\<close> has the runs that break these conditions.
  \<^item> \<^verbatim>\<open>Lock_Queue\<close>, \<^verbatim>\<open>Emu_Lock\<close>, \<^verbatim>\<open>Os_Qlock\<close>: linked queues of processes and the interfaces \<^verbatim>\<open>queue_lock\<close> and
    \<^verbatim>\<open>queue_lock_note\<close>, interpreted on the locks of \<^verbatim>\<open>src/emu/port/lock.c\<close> and \<^verbatim>\<open>src/os/port/qlock.c\<close>: exclusion, order
    of service, readers and writers, for any number of processes and any interleaving.
  \<^item> \<^verbatim>\<open>Mp_Vec\<close>, \<^verbatim>\<open>Mp_Mul\<close>, \<^verbatim>\<open>Mp_Int\<close>, \<^verbatim>\<open>Mp_Shift\<close>, \<^verbatim>\<open>Mp_Conv\<close>: \<^verbatim>\<open>src/libmp/port\<close>: vectors of digits, Karatsuba's product,
    signed numbers in a store in which operands may be the same object (the interface \<^verbatim>\<open>mp_binop\<close>, interpreted
    for addition, subtraction and multiplication), shifts, conversions.
  \<^item> \<^verbatim>\<open>Mp_Div\<close>, \<^verbatim>\<open>Mp_Exp\<close>: Knuth's division into two different numbers that may be operands, with the exact sign of the quotient, reduction, powers by squaring, and the extended Euclidean
    algorithm.
  \<^item> \<^verbatim>\<open>Qio_Block\<close>, \<^verbatim>\<open>Qio_Queue\<close>, \<^verbatim>\<open>Qio_Sys\<close>: \<^verbatim>\<open>src/emu/port/qio.c\<close>: chains of blocks, the queues, and a queue shared by a reader, a
    writer and drivers.  Every routine but \<^verbatim>\<open>pullupqueue\<close> keeps the counts right.  Under the conditions on the callers that the step relation states
    (drivers take and flush only while no process reads, add only while no process writes, and queue no block without data) the bytes of a queue that is not message
    oriented come out in order and no wakeup is lost; the runs that show why the conditions are needed are there too.

  \<^bold>\<open>Bounds and fuel.\<close>  Loops are total functions with a measure wherever they end.  The loop of the
  exponentiation has fuel: 64 rounds are enough except for the one count for which it never ends, and both
  are theorems.  The loops of \<^verbatim>\<open>mpdiv\<close> and \<^verbatim>\<open>mpexp\<close> that look for a high bit have fuel for the 32 bits of a digit, the loop of
  \<^verbatim>\<open>mpeuclid\<close> as many rounds as the value of the smaller number and one more; the theorems say that this is enough.  The walk of \<^verbatim>\<open>wunlock\<close> and \<^verbatim>\<open>postnote\<close> along a queue is a partial function that is shown to
  return on every reachable state.  The loop that makes the cache of the compiler larger is one too: it is shown to return for data of
  less than 1024 bytes, and never to return for a longer name that does not fit.

  \<^bold>\<open>Not modelled.\<close>  Device drivers, the network stack, the name space and scheduler of the kernels, the graphics
  libraries, the front end of the Limbo compiler, just-in-time compilers, the garbage collector, creation and killing
  of progs, the copy of a module's data for each instance, and floating point: PROJECT.json lists them with the reasons.
\<close>

end
